(* ===== verification/Lab_Prelude.thy ===== *)
theory Lab_Prelude
  imports Main "HOL-Library.Word" "HOL-Library.AList"
begin

text \<open>
  Shared ground of the development: Go's \<open>time.Time\<close> and \<open>time.Duration\<close>, 64-bit
  integers, the errors that travel through the lab runtime, and the generic lemmas on
  association lists and filtered lists that several components use.

  A \<open>gotime\<close> counts nanoseconds; \<open>0\<close> is Go's zero time, the one \<open>IsZero\<close> recognises.
  A \<open>duration\<close> is a Go \<open>int64\<close> number of nanoseconds. \<open>time_sub\<close> saturates exactly as
  \<open>time.Time.Sub\<close> does. \<open>u64\<close> is Go's \<open>uint64\<close> and wraps.
\<close>

named_theorems go_time_simps \<open>unfoldings of the time and 64-bit integer operations\<close>

type_synonym u64 = "64 word"
type_synonym gotime = int
type_synonym duration = int

definition int64_max :: int where
  "int64_max = 2 ^ 63 - 1"

definition int64_min :: int where
  "int64_min = - (2 ^ 63)"

definition in_int64 :: "int \<Rightarrow> bool" where
  "in_int64 x \<longleftrightarrow> int64_min \<le> x \<and> x \<le> int64_max"

text \<open>The value an \<open>int64\<close> operation stores: the mathematical result modulo \<open>2 ^ 64\<close>.\<close>

definition wrap64 :: "int \<Rightarrow> int" where
  "wrap64 x = (x + 2 ^ 63) mod 2 ^ 64 - 2 ^ 63"

definition time_sub :: "gotime \<Rightarrow> gotime \<Rightarrow> duration" where
  "time_sub t u = max int64_min (min int64_max (t - u))"

definition time_add :: "gotime \<Rightarrow> duration \<Rightarrow> gotime" where
  "time_add t d = t + d"

definition time_is_zero :: "gotime \<Rightarrow> bool" where
  "time_is_zero t \<longleftrightarrow> t = 0"

definition millisecond :: duration where "millisecond = 1000000"
definition second :: duration where "second = 1000000000"
definition minute :: duration where "minute = 60 * second"

lemmas go_duration_defs = millisecond_def second_def minute_def

declare time_add_def [go_time_simps] time_is_zero_def [go_time_simps]

lemma wrap64_id [simp]: "in_int64 x \<Longrightarrow> wrap64 x = x"
  by (simp add: in_int64_def int64_min_def int64_max_def wrap64_def)

lemma in_int64_wrap64 [simp]: "in_int64 (wrap64 x)"
proof -
  have "(x + 2 ^ 63) mod 2 ^ 64 < (2 ^ 64 :: int)" and "0 \<le> (x + 2 ^ 63) mod (2 ^ 64 :: int)"
    by simp_all
  then show ?thesis
    by (simp add: in_int64_def int64_min_def int64_max_def wrap64_def)
qed

lemma in_int64_between: "0 \<le> x \<Longrightarrow> x \<le> y \<Longrightarrow> in_int64 y \<Longrightarrow> in_int64 x"
  by (simp add: in_int64_def int64_min_def)

lemma time_sub_le: "0 \<le> t - u \<Longrightarrow> time_sub t u \<le> t - u"
  by (simp add: time_sub_def int64_min_def)

lemma time_sub_ge_iff:
  "in_int64 d \<Longrightarrow> d \<le> time_sub t u \<longleftrightarrow> d \<le> t - u \<or> d = int64_min"
  by (auto simp: time_sub_def in_int64_def)

lemma time_sub_ge_pos [simp]:
  "0 < d \<Longrightarrow> d \<le> int64_max \<Longrightarrow> d \<le> time_sub t u \<longleftrightarrow> d \<le> t - u"
  by (simp add: time_sub_def int64_min_def le_max_iff_disj)

lemma time_sub_pos_iff [simp]: "0 < time_sub t u \<longleftrightarrow> u < t"
  by (auto simp: time_sub_def int64_min_def int64_max_def)

section \<open>Unsigned counters\<close>

text \<open>Adding one to a \<open>uint64\<close> that is not at its maximum does not wrap.\<close>

lemma u64_not_max_iff: "(w :: u64) \<noteq> - 1 \<longleftrightarrow> unat w < 2 ^ 64 - 1"
proof -
  have "unat w < 2 ^ 64"
    using unsigned_less [of w] by simp
  moreover have "unat (- 1 :: u64) = 2 ^ 64 - 1"
    by (simp add: unsigned_minus_1_eq_mask mask_eq_exp_minus_1)
  moreover have "w = - 1 \<longleftrightarrow> unat w = unat (- 1 :: u64)"
    by (simp add: word_unat_eq_iff)
  ultimately show ?thesis by linarith
qed

lemma unat_u64_Suc: "(w :: u64) \<noteq> - 1 \<Longrightarrow> unat (w + 1) = Suc (unat w)"
  by (simp add: u64_not_max_iff unat_word_ariths)

section \<open>Errors of the lab runtime\<close>

text \<open>
  The sentinel errors of the packages under \<open>internal/\<close> that the lab runtime uses, the two
  errors a context ends with, and the two wrapped forms the service builds.
  \<open>errors_is\<close> is \<open>errors.Is\<close>: it follows \<open>%w\<close> wrapping and stops at \<open>%v\<close>, which is only text.
\<close>

datatype go_error =
    ErrCircuitOpen
  | ErrInvalidRetryPolicy
  | ErrIdempotencyConflict
  | ErrInvalidInput
  | ErrDependency
  | ErrUnavailable
  | ErrNotFound
  | CtxCanceled
  | CtxDeadlineExceeded
  | InvalidMode string
  | WrapInvalidInput
  | WrapDependency go_error

fun errors_is :: "go_error \<Rightarrow> go_error \<Rightarrow> bool" where
  "errors_is WrapInvalidInput target \<longleftrightarrow> target = WrapInvalidInput \<or> target = ErrInvalidInput"
| "errors_is (WrapDependency e) target \<longleftrightarrow> target = WrapDependency e \<or> target = ErrDependency"
| "errors_is e target \<longleftrightarrow> e = target"

section \<open>Association lists and filtered lists\<close>

text \<open>
  A Go map that the code ranges over is an association list whose order stands for the
  iteration order; keys are distinct in every reachable state.
\<close>

definition distinct_keys :: "('k \<times> 'v) list \<Rightarrow> bool" where
  "distinct_keys al \<longleftrightarrow> distinct (map fst al)"

lemma distinct_keys_Nil [simp]: "distinct_keys []"
  by (simp add: distinct_keys_def)

lemma distinct_keys_update [simp]: "distinct_keys al \<Longrightarrow> distinct_keys (AList.update k v al)"
  by (simp add: distinct_keys_def distinct_update)

lemma distinct_keys_delete [simp]: "distinct_keys al \<Longrightarrow> distinct_keys (AList.delete k al)"
  by (simp add: distinct_keys_def distinct_delete)

lemma distinct_keys_filter [simp]: "distinct_keys al \<Longrightarrow> distinct_keys (filter P al)"
  by (auto simp: distinct_keys_def distinct_map_filter)

lemma distinct_keys_map_of: "distinct_keys al \<Longrightarrow> (k, v) \<in> set al \<longleftrightarrow> map_of al k = Some v"
  by (simp add: distinct_keys_def)

lemma map_of_filter_entry:
  "distinct_keys al \<Longrightarrow>
   map_of (filter P al) k =
     (case map_of al k of None \<Rightarrow> None | Some v \<Rightarrow> if P (k, v) then Some v else None)"
  by (induction al) (auto simp: distinct_keys_def map_of_eq_None_iff split: option.splits)

end
