(* ===== verification/Event_Store.thy ===== *)
theory Event_Store
  imports Lab_Prelude "HOL-Library.Sublist"
begin

text \<open>
  Orders and their event log: the data of \<open>internal/domain/order.go\<close> and the in-memory store of
  \<open>internal/store/memory.go\<close>.

  \<open>Save\<close> gives every order the next sequence number, appends an event, evicts the oldest events
  beyond the retention and offers the event to every matching subscriber; a subscriber whose
  channel is full is dropped and its channel closed. Channels are cells of an explicit store
  (\<open>channels\<close>), because the store and the reader share them; a Go panic on a channel (a send on or
  a close of a closed channel) sets \<open>panicked\<close>. A Go map that the code ranges over is an
  association list: its order is the iteration order.

  The step relation \<open>store_step\<close> runs any number of saves, subscriptions, receives, cancels and
  resets in any order next to the full history of events. The theory shows that what a
  subscriber gets is a gap-free stream of that history, cut off only by a visible close.
\<close>

section \<open>Data\<close>

record order =
  order_id :: string
  tenant_id :: string
  event_id :: string
  quantity :: int
  order_status :: string
  created_at :: gotime
  updated_at :: gotime
  sequence :: u64

definition order_pending :: string where "order_pending = ''pending''"
definition order_confirmed :: string where "order_confirmed = ''confirmed''"
definition order_failed :: string where "order_failed = ''failed''"

text \<open>Go's zero value \<open>domain.Order{}\<close>, returned next to an error.\<close>

definition zero_order :: order where
  "zero_order = \<lparr>order_id = [], tenant_id = [], event_id = [], quantity = 0, order_status = [],
     created_at = 0, updated_at = 0, sequence = 0\<rparr>"

record event =
  ev_sequence :: u64
  ev_type :: string
  ev_order_id :: string
  ev_tenant :: string
  ev_status :: string
  ev_at :: gotime

record create_order_input =
  in_event_id :: string
  in_quantity :: int

section \<open>Channels\<close>

record event_chan =
  chan_buf :: "event list"
  chan_cap :: nat
  chan_closed :: bool

record channels =
  cells :: "nat \<rightharpoonup> event_chan"
  next_cell :: nat
  panicked :: bool

definition chan_make :: "nat \<Rightarrow> channels \<Rightarrow> nat \<times> channels" where
  "chan_make n h = (next_cell h,
     h\<lparr>cells := (cells h)(next_cell h \<mapsto> \<lparr>chan_buf = [], chan_cap = n, chan_closed = False\<rparr>),
       next_cell := Suc (next_cell h)\<rparr>)"

definition chan_close :: "nat \<Rightarrow> channels \<Rightarrow> channels" where
  "chan_close a h =
     (case cells h a of
        None \<Rightarrow> h\<lparr>panicked := True\<rparr>
      | Some c \<Rightarrow> if chan_closed c then h\<lparr>panicked := True\<rparr>
                  else h\<lparr>cells := (cells h)(a \<mapsto> c\<lparr>chan_closed := True\<rparr>)\<rparr>)"

text \<open>The send case of a \<open>select\<close> with a \<open>default\<close>: whether it was taken, and the channels after.\<close>

definition chan_try_send :: "event \<Rightarrow> nat \<Rightarrow> channels \<Rightarrow> bool \<times> channels" where
  "chan_try_send ev a h =
     (case cells h a of
        None \<Rightarrow> (False, h)
      | Some c \<Rightarrow>
          if chan_closed c then (True, h\<lparr>panicked := True\<rparr>)
          else if length (chan_buf c) < chan_cap c
          then (True, h\<lparr>cells := (cells h)(a \<mapsto> c\<lparr>chan_buf := chan_buf c @ [ev]\<rparr>)\<rparr>)
          else (False, h))"

datatype received = Received event | Closed | Blocked

definition chan_recv :: "nat \<Rightarrow> channels \<Rightarrow> received \<times> channels" where
  "chan_recv a h =
     (case cells h a of
        None \<Rightarrow> (Blocked, h)
      | Some c \<Rightarrow>
          (case chan_buf c of
             e # es \<Rightarrow> (Received e, h\<lparr>cells := (cells h)(a \<mapsto> c\<lparr>chan_buf := es\<rparr>)\<rparr>)
           | [] \<Rightarrow> (if chan_closed c then Closed else Blocked, h)))"

section \<open>The store\<close>

record subscriber =
  sub_tenant :: string
  sub_chan :: nat

record memory =
  orders :: "(string \<times> order) list"
  events :: "event list"
  next_sequence :: u64
  retention :: nat
  evicted_through :: "string \<rightharpoonup> u64"
  subscribers :: "(u64 \<times> subscriber) list"
  next_subscriber :: u64
  channels_of :: channels

definition new_memory :: "int \<Rightarrow> memory" where
  "new_memory ret = \<lparr>orders = [], events = [], next_sequence = 0,
     retention = (if ret < 1 then 500 else nat ret), evicted_through = Map.empty,
     subscribers = [], next_subscriber = 0,
     channels_of = \<lparr>cells = Map.empty, next_cell = 0, panicked = False\<rparr>\<rparr>"

text \<open>Reading a Go map at a missing key gives the zero value.\<close>

definition evicted_at :: "memory \<Rightarrow> string \<Rightarrow> u64" where
  "evicted_at m t = (case evicted_through m t of None \<Rightarrow> 0 | Some w \<Rightarrow> w)"

fun evict :: "event list \<Rightarrow> (string \<rightharpoonup> u64) \<Rightarrow> (string \<rightharpoonup> u64)" where
  "evict [] ev = ev"
| "evict (old # rest) ev =
     evict rest (ev(ev_tenant old \<mapsto>
       max (case ev (ev_tenant old) of None \<Rightarrow> 0 | Some w \<Rightarrow> w) (ev_sequence old)))"

definition wants :: "subscriber \<Rightarrow> event \<Rightarrow> bool" where
  "wants s ev \<longleftrightarrow> \<not> (sub_tenant s \<noteq> [] \<and> sub_tenant s \<noteq> ev_tenant ev)"

fun offer_all :: "event \<Rightarrow> (u64 \<times> subscriber) list \<Rightarrow> channels \<Rightarrow> (u64 \<times> subscriber) list \<times> channels" where
  "offer_all ev [] h = ([], h)"
| "offer_all ev ((i, s) # subs) h =
     (if \<not> wants s ev then (case offer_all ev subs h of (kept, h') \<Rightarrow> ((i, s) # kept, h'))
      else (case chan_try_send ev (sub_chan s) h of
              (True, h1) \<Rightarrow> (case offer_all ev subs h1 of (kept, h') \<Rightarrow> ((i, s) # kept, h'))
            | (False, h1) \<Rightarrow> offer_all ev subs (chan_close (sub_chan s) h1)))"

definition stamp :: "gotime \<Rightarrow> u64 \<Rightarrow> order \<Rightarrow> order" where
  "stamp now n ord = ord\<lparr>sequence := n, updated_at := now,
     created_at := (if time_is_zero (created_at ord) then now else created_at ord)\<rparr>"

definition event_of :: "order \<Rightarrow> string \<Rightarrow> event" where
  "event_of ord ty = \<lparr>ev_sequence = sequence ord, ev_type = ty, ev_order_id = order_id ord,
     ev_tenant = tenant_id ord, ev_status = order_status ord, ev_at = updated_at ord\<rparr>"

definition save :: "gotime \<Rightarrow> order \<Rightarrow> string \<Rightarrow> memory \<Rightarrow> order \<times> memory" where
  "save now ord0 ty m =
     (let n = next_sequence m + 1;
          ord = stamp now n ord0;
          ev = event_of ord ty;
          evs = events m @ [ev];
          over = length evs - retention m;
          (kept, h) = offer_all ev (subscribers m) (channels_of m)
      in (ord, m\<lparr>orders := AList.update (order_id ord) ord (orders m), next_sequence := n,
           events := (if retention m < length evs then drop over evs else evs),
           evicted_through := (if retention m < length evs then evict (take over evs) (evicted_through m)
             else evicted_through m),
           subscribers := kept, channels_of := h\<rparr>))"

definition get_order :: "memory \<Rightarrow> string \<Rightarrow> string \<Rightarrow> go_error + order" where
  "get_order m t oid =
     (case map_of (orders m) oid of
        None \<Rightarrow> Inl ErrNotFound
      | Some ord \<Rightarrow> if tenant_id ord \<noteq> t then Inl ErrNotFound else Inr ord)"

definition events_since :: "memory \<Rightarrow> string \<Rightarrow> u64 \<Rightarrow> event list" where
  "events_since m t n = filter (\<lambda>ev. ev_tenant ev = t \<and> n < ev_sequence ev) (events m)"

definition recent_events :: "memory \<Rightarrow> int \<Rightarrow> event list" where
  "recent_events m limit0 =
     (let limit = (if limit0 \<le> 0 \<or> int (length (events m)) < limit0 then length (events m) else nat limit0)
      in rev (drop (length (events m) - limit) (events m)))"

definition count_orders :: "memory \<Rightarrow> nat" where
  "count_orders m = length (orders m)"

definition list_orders :: "memory \<Rightarrow> string \<Rightarrow> order list" where
  "list_orders m t = sort_key sequence (filter (\<lambda>ord. tenant_id ord = t) (map snd (orders m)))"

text \<open>Replay, channel, subscriber id for the cancel function, and the expired flag.\<close>

definition subscribe_since :: "string \<Rightarrow> u64 \<Rightarrow> int \<Rightarrow> memory \<Rightarrow> (event list \<times> nat \<times> u64 \<times> bool) \<times> memory" where
  "subscribe_since t n buffer0 m =
     (let buffer = (if buffer0 < 1 then 32 else nat buffer0);
          expired = (0 < n \<and> n \<le> evicted_at m t);
          replay = filter (\<lambda>ev. ev_tenant ev = t \<and> n < ev_sequence ev) (events m);
          i = next_subscriber m + 1;
          (a, h) = chan_make buffer (channels_of m)
      in ((replay, a, i, expired),
          m\<lparr>next_subscriber := i, channels_of := h,
            subscribers := AList.update i \<lparr>sub_tenant = t, sub_chan = a\<rparr> (subscribers m)\<rparr>))"

definition subscribe :: "int \<Rightarrow> memory \<Rightarrow> (nat \<times> u64) \<times> memory" where
  "subscribe buffer m =
     (case subscribe_since [] (- 1) buffer m of ((replay, a, i, expired), m') \<Rightarrow> ((a, i), m'))"

text \<open>The closure \<open>cancel\<close>: \<open>fired\<close> is the state of its \<open>sync.Once\<close>.\<close>

definition cancel :: "u64 \<Rightarrow> bool \<Rightarrow> memory \<Rightarrow> bool \<times> memory" where
  "cancel i fired m =
     (if fired then (True, m)
      else (True, (case map_of (subscribers m) i of
                     None \<Rightarrow> m
                   | Some s \<Rightarrow> m\<lparr>subscribers := AList.delete i (subscribers m),
                                 channels_of := chan_close (sub_chan s) (channels_of m)\<rparr>)))"

definition reset_memory :: "memory \<Rightarrow> memory" where
  "reset_memory m = m\<lparr>channels_of := fold (\<lambda>(i, s). chan_close (sub_chan s)) (subscribers m) (channels_of m),
     subscribers := [], orders := [], events := [], evicted_through := Map.empty, next_sequence := 0\<rparr>"

section \<open>Offering an event\<close>

definition open_at :: "channels \<Rightarrow> nat \<Rightarrow> bool" where
  "open_at h a \<longleftrightarrow> (case cells h a of None \<Rightarrow> False | Some c \<Rightarrow> \<not> chan_closed c)"

text \<open>What \<open>Save\<close> does to the channel of one interested subscriber.\<close>

definition offered :: "event \<Rightarrow> event_chan \<Rightarrow> event_chan" where
  "offered ev c =
     (if length (chan_buf c) < chan_cap c then c\<lparr>chan_buf := chan_buf c @ [ev]\<rparr> else c\<lparr>chan_closed := True\<rparr>)"

definition offer_one :: "event \<Rightarrow> subscriber \<Rightarrow> channels \<Rightarrow> channels" where
  "offer_one ev s h =
     (if wants s ev then (case chan_try_send ev (sub_chan s) h of
        (True, h1) \<Rightarrow> h1 | (False, h1) \<Rightarrow> chan_close (sub_chan s) h1) else h)"

lemma offer_one_cells:
  assumes "open_at h (sub_chan s)"
  shows "cells (offer_one ev s h) =
      (if wants s ev then (cells h)(sub_chan s := map_option (offered ev) (cells h (sub_chan s))) else cells h)"
    and "panicked (offer_one ev s h) = panicked h" and "next_cell (offer_one ev s h) = next_cell h"
  using assms
  by (auto simp: offer_one_def chan_try_send_def chan_close_def open_at_def offered_def split: option.splits)

lemma offer_all_Cons:
  assumes "open_at h (sub_chan s)"
  shows "offer_all ev ((i, s) # subs) h =
    (if open_at (offer_one ev s h) (sub_chan s)
     then ((i, s) # fst (offer_all ev subs (offer_one ev s h)), snd (offer_all ev subs (offer_one ev s h)))
     else offer_all ev subs (offer_one ev s h))"
  using assms
  by (auto simp: offer_one_def chan_try_send_def chan_close_def open_at_def case_prod_beta
      split: option.splits bool.splits)

text \<open>All subscribers at once: the channels change independently, and who stays is who is still open.\<close>

lemma offer_all_spec:
  assumes "distinct (map (sub_chan \<circ> snd) subs)" and "\<forall>(i, s) \<in> set subs. open_at h (sub_chan s)"
    and "offer_all ev subs h = (kept, h')"
  shows "kept = filter (\<lambda>(i, s). open_at h' (sub_chan s)) subs \<and>
    panicked h' = panicked h \<and> next_cell h' = next_cell h \<and>
    (\<forall>a. cells h' a = (if \<exists>(i, s) \<in> set subs. sub_chan s = a \<and> wants s ev
       then map_option (offered ev) (cells h a) else cells h a))"
  using assms
proof (induction subs arbitrary: h kept h')
  case Nil
  then show ?case by simp
next
  case (Cons x subs)
  obtain i s where x: "x = (i, s)" by (cases x)
  let ?h = "offer_one ev s h"
  have o: "open_at h (sub_chan s)" using Cons.prems(2) by (simp add: x)
  note one = offer_one_cells [OF o, of ev]
  have fresh: "sub_chan s' \<noteq> sub_chan s" if "(j, s') \<in> set subs" for j s'
    using Cons.prems(1) that by (force simp: x)
  obtain kept1 h1 where rest: "offer_all ev subs ?h = (kept1, h1)" by (cases "offer_all ev subs ?h")
  have "\<forall>(j, s') \<in> set subs. open_at ?h (sub_chan s')"
    using Cons.prems(2) fresh by (fastforce simp: open_at_def one(1))
  with Cons.IH [OF _ _ rest] Cons.prems(1)
  have ih: "kept1 = filter (\<lambda>(i, s). open_at h1 (sub_chan s)) subs" "panicked h1 = panicked ?h"
      "next_cell h1 = next_cell ?h"
      "\<And>a. cells h1 a = (if \<exists>(i, s) \<in> set subs. sub_chan s = a \<and> wants s ev
         then map_option (offered ev) (cells ?h a) else cells ?h a)"
    by simp_all
  have h': "h' = h1" and kept: "kept = (if open_at ?h (sub_chan s) then x # kept1 else kept1)"
    using Cons.prems(3) offer_all_Cons [OF o, of ev i subs] rest by (simp_all add: x split: if_splits)
  have "cells h1 (sub_chan s) = cells ?h (sub_chan s)"
    using ih(4) [of "sub_chan s"] fresh by auto
  then have "open_at h1 (sub_chan s) = open_at ?h (sub_chan s)" by (simp add: open_at_def)
  moreover have "cells h1 a = (if \<exists>(i, s) \<in> set (x # subs). sub_chan s = a \<and> wants s ev
       then map_option (offered ev) (cells h a) else cells h a)" for a
    using ih(4) [of a] fresh by (cases "a = sub_chan s") (auto simp: x one(1))
  ultimately show ?case
    using ih(1-3) one(2,3) by (simp add: h' kept x)
qed

section \<open>Well-formed stores\<close>

text \<open>
  \<open>H\<close> is the full history since the last reset. Sequence numbers count it from 1, the retained
  events are its last \<open>retention\<close> entries, and \<open>evicted_at\<close> is the last evicted sequence per tenant.
\<close>

definition evicted_count :: "event list \<Rightarrow> memory \<Rightarrow> nat" where
  "evicted_count H m = length H - retention m"

definition log_ok :: "event list \<Rightarrow> memory \<Rightarrow> bool" where
  "log_ok H m \<longleftrightarrow> unat (next_sequence m) = length H \<and>
     (\<forall>i < length H. unat (ev_sequence (H ! i)) = Suc i) \<and> 0 < retention m \<and>
     events m = drop (evicted_count H m) H"

definition evicted_ok :: "event list \<Rightarrow> memory \<Rightarrow> bool" where
  "evicted_ok H m \<longleftrightarrow>
     (\<forall>ev \<in> set (take (evicted_count H m) H). ev_sequence ev \<le> evicted_at m (ev_tenant ev)) \<and>
     (\<forall>t. evicted_at m t = 0 \<or>
        (\<exists>ev \<in> set (take (evicted_count H m) H). ev_tenant ev = t \<and> ev_sequence ev = evicted_at m t))"

text \<open>The order map holds, for every id, the order of the id's last event.\<close>

definition orders_ok :: "event list \<Rightarrow> memory \<Rightarrow> bool" where
  "orders_ok H m \<longleftrightarrow> distinct_keys (orders m) \<and>
     (\<forall>k. case map_of (orders m) k of
        None \<Rightarrow> filter (\<lambda>ev. ev_order_id ev = k) H = []
      | Some ord \<Rightarrow> \<exists>ty es. order_id ord = k \<and> filter (\<lambda>ev. ev_order_id ev = k) H = es @ [event_of ord ty])"

definition registered_ok :: "memory \<Rightarrow> bool" where
  "registered_ok m \<longleftrightarrow> distinct_keys (subscribers m) \<and>
     distinct (map (sub_chan \<circ> snd) (subscribers m)) \<and>
     (\<forall>(i, s) \<in> set (subscribers m). i \<le> next_subscriber m \<and> open_at (channels_of m) (sub_chan s)) \<and>
     (\<forall>a. cells (channels_of m) a \<noteq> None \<longrightarrow> a < next_cell (channels_of m)) \<and>
     \<not> panicked (channels_of m)"

lemma log_seq: "log_ok H m \<Longrightarrow> i < length H \<Longrightarrow> unat (ev_sequence (H ! i)) = Suc i"
  by (simp add: log_ok_def)

lemma orders_okD:
  "orders_ok H m \<Longrightarrow> case map_of (orders m) k of
        None \<Rightarrow> filter (\<lambda>ev. ev_order_id ev = k) H = []
      | Some ord \<Rightarrow> \<exists>ty es. order_id ord = k \<and> filter (\<lambda>ev. ev_order_id ev = k) H = es @ [event_of ord ty]"
  by (simp add: orders_ok_def)

lemma log_ok_new: "log_ok [] (new_memory r)"
  by (simp add: log_ok_def new_memory_def evicted_count_def)

lemma evicted_ok_new: "evicted_ok [] (new_memory r)"
  by (simp add: evicted_ok_def new_memory_def evicted_at_def)

lemma registered_ok_new: "registered_ok (new_memory r)"
  by (simp add: registered_ok_def new_memory_def)

text \<open>At most one event is evicted per save.\<close>

lemma evicted_count_snoc:
  assumes "retention m' = retention m"
  shows "evicted_count (H @ [ev]) m' =
    (if retention m \<le> length H then Suc (evicted_count H m) else evicted_count H m)"
  using assms by (simp add: evicted_count_def Suc_diff_le)

lemma save_shape:
  fixes m :: memory
  defines "n \<equiv> next_sequence m + 1"
  assumes "save now o0 ty m = (ord, m')"
  shows "ord = stamp now n o0" "next_sequence m' = n" "retention m' = retention m"
    "orders m' = AList.update (order_id o0) ord (orders m)" "next_subscriber m' = next_subscriber m"
    "(subscribers m', channels_of m') = offer_all (event_of ord ty) (subscribers m) (channels_of m)"
    "order_id ord = order_id o0" "tenant_id ord = tenant_id o0" "sequence ord = n"
  using assms by (auto simp: save_def Let_def stamp_def n_def split: prod.splits)

lemma save_log:
  assumes log: "log_ok H m" and room: "next_sequence m \<noteq> - 1" and save: "save now o0 ty m = (ord, m')"
  shows "log_ok (H @ [event_of ord ty]) m'"
proof -
  let ?ev = "event_of ord ty"
  note sh = save_shape [OF save]
  have len: "unat (next_sequence m) = length H" "events m = drop (evicted_count H m) H" "0 < retention m"
    using log by (simp_all add: log_ok_def)
  have seq: "unat (ev_sequence ?ev) = Suc (length H)"
    using sh(9) unat_u64_Suc [OF room] len(1) by (simp add: event_of_def)
  have "events m' = (if retention m < length (events m @ [?ev])
      then drop (length (events m @ [?ev]) - retention m) (events m @ [?ev]) else events m @ [?ev])"
    using save by (auto simp: save_def Let_def sh(1) split: prod.splits)
  also have "\<dots> = drop (evicted_count (H @ [?ev]) m') (H @ [?ev])"
    using len(2,3) sh(3) by (auto simp: evicted_count_def Suc_diff_le)
  finally show ?thesis
    using log sh(2,3) seq unat_u64_Suc [OF room] by (auto simp: log_ok_def nth_append less_Suc_eq)
qed

lemma save_evicted:
  assumes log: "log_ok H m" and ok: "evicted_ok H m" and room: "next_sequence m \<noteq> - 1"
    and save: "save now o0 ty m = (ord, m')"
  shows "evicted_ok (H @ [event_of ord ty]) m'"
proof (cases "retention m \<le> length H")
  case False
  then have "events m = H" using log by (simp add: log_ok_def evicted_count_def)
  with False save have "evicted_through m' = evicted_through m"
    by (auto simp: save_def Let_def split: prod.splits)
  moreover have "retention m' = retention m" using save_shape [OF save] by simp
  ultimately show ?thesis using ok False by (simp add: evicted_ok_def evicted_count_snoc evicted_at_def evicted_count_def)
next
  case True
  let ?ev = "event_of ord ty" and ?k = "evicted_count H m"
  have ret: "retention m' = retention m" using save_shape [OF save] by simp
  have pos: "0 < retention m" and evs: "events m = drop ?k H" using log by (simp_all add: log_ok_def)
  have k: "?k < length H" using True pos by (auto simp: evicted_count_def)
  have old: "take 1 (events m @ [?ev]) = [H ! ?k]"
    using k by (simp add: evs Cons_nth_drop_Suc [symmetric])
  have evt: "evicted_through m' = evict [H ! ?k] (evicted_through m)"
    using save old True k pos
    by (auto simp: save_def Let_def save_shape(1) [OF save] evs evicted_count_def split: prod.splits)
  have top: "evicted_at m t \<le> ev_sequence (H ! ?k)" for t
  proof (cases "evicted_at m t = 0")
    case False
    then obtain ev where ev: "ev \<in> set (take ?k H)" "ev_sequence ev = evicted_at m t"
      using ok by (fastforce simp: evicted_ok_def)
    then obtain i where i: "i < ?k" "H ! i = ev" using k by (auto simp: in_set_conv_nth)
    then have "unat (ev_sequence (H ! i)) = Suc i" "unat (ev_sequence (H ! ?k)) = Suc ?k"
      using log_seq [OF log] k by (meson order.strict_trans)+
    then have "unat (evicted_at m t) < unat (ev_sequence (H ! ?k))"
      using i ev(2) by simp
    then show ?thesis by (simp add: word_le_nat_alt)
  qed simp
  have at: "evicted_at m' t = (if t = ev_tenant (H ! ?k) then ev_sequence (H ! ?k) else evicted_at m t)" for t
    using top [of "ev_tenant (H ! ?k)"]
    by (auto simp: evicted_at_def evt max_def split: option.splits)
  have tk: "take (evicted_count (H @ [?ev]) m') (H @ [?ev]) = take ?k H @ [H ! ?k]"
    using True k by (simp add: evicted_count_snoc [OF ret] take_Suc_conv_app_nth)
  show ?thesis
    unfolding evicted_ok_def tk
  proof (intro conjI allI ballI)
    fix ev assume "ev \<in> set (take ?k H @ [H ! ?k])"
    then consider "ev \<in> set (take ?k H)" | "ev = H ! ?k" by auto
    then show "ev_sequence ev \<le> evicted_at m' (ev_tenant ev)"
    proof cases
      case 1
      then have "ev_sequence ev \<le> evicted_at m (ev_tenant ev)" using ok by (simp add: evicted_ok_def)
      then show ?thesis using top [of "ev_tenant ev"] by (auto simp: at)
    qed (simp add: at)
  next
    fix t show "evicted_at m' t = 0 \<or>
        (\<exists>ev \<in> set (take ?k H @ [H ! ?k]). ev_tenant ev = t \<and> ev_sequence ev = evicted_at m' t)"
      using ok by (auto simp: at evicted_ok_def)
  qed
qed

lemma save_orders:
  assumes "orders_ok H m" and save: "save now o0 ty m = (ord, m')"
  shows "orders_ok (H @ [event_of ord ty]) m'"
proof -
  note sh = save_shape [OF save]
  have oid: "ev_order_id (event_of ord ty) = order_id o0" using sh(7) by (simp add: event_of_def)
  have "case map_of (orders m') k of
        None \<Rightarrow> filter (\<lambda>ev. ev_order_id ev = k) (H @ [event_of ord ty]) = []
      | Some ord' \<Rightarrow> \<exists>ty' es. order_id ord' = k \<and>
          filter (\<lambda>ev. ev_order_id ev = k) (H @ [event_of ord ty]) = es @ [event_of ord' ty']" for k
  proof (cases "k = order_id o0")
    case True
    then show ?thesis using oid sh(4,7) by (auto simp: update_conv')
  next
    case False
    then have same: "filter (\<lambda>ev. ev_order_id ev = k) (H @ [event_of ord ty]) = filter (\<lambda>ev. ev_order_id ev = k) H"
      "map_of (orders m') k = map_of (orders m) k"
      using oid sh(4) by (simp_all add: update_conv')
    show ?thesis unfolding same using assms(1) by (rule orders_okD)
  qed
  with assms(1) sh(4) show ?thesis unfolding orders_ok_def by simp
qed

section \<open>Registration and channels\<close>

lemma registered_okD:
  assumes "registered_ok m"
  shows "distinct_keys (subscribers m)" "distinct (map (sub_chan \<circ> snd) (subscribers m))"
    "(i, s) \<in> set (subscribers m) \<Longrightarrow> i \<le> next_subscriber m"
    "(i, s) \<in> set (subscribers m) \<Longrightarrow> open_at (channels_of m) (sub_chan s)"
    "cells (channels_of m) a \<noteq> None \<Longrightarrow> a < next_cell (channels_of m)"
    "\<not> panicked (channels_of m)"
  using assms by (auto simp: registered_ok_def)

definition closing :: "event_chan \<Rightarrow> event_chan" where
  "closing c = c\<lparr>chan_closed := True\<rparr>"

lemma close_open:
  assumes "open_at h a"
  shows "cells (chan_close a h) = (cells h)(a := map_option closing (cells h a))"
    "panicked (chan_close a h) = panicked h" "next_cell (chan_close a h) = next_cell h"
  using assms by (auto simp: chan_close_def open_at_def closing_def split: option.splits)

lemma close_all_spec:
  assumes "distinct (map (sub_chan \<circ> snd) subs)" and "\<forall>(i, s) \<in> set subs. open_at h (sub_chan s)"
  shows "panicked (fold (\<lambda>(i, s). chan_close (sub_chan s)) subs h) = panicked h \<and>
    next_cell (fold (\<lambda>(i, s). chan_close (sub_chan s)) subs h) = next_cell h \<and>
    (\<forall>a. cells (fold (\<lambda>(i, s). chan_close (sub_chan s)) subs h) a =
      (if \<exists>(i, s) \<in> set subs. sub_chan s = a then map_option closing (cells h a) else cells h a))"
  using assms
proof (induction subs arbitrary: h)
  case Nil
  then show ?case by simp
next
  case (Cons x subs)
  obtain i s where x: "x = (i, s)" by (cases x)
  have o: "open_at h (sub_chan s)" using Cons.prems(2) by (simp add: x)
  have fresh: "sub_chan s' \<noteq> sub_chan s" if "(j, s') \<in> set subs" for j s'
    using Cons.prems(1) that by (force simp: x)
  have "\<forall>(j, s') \<in> set subs. open_at (chan_close (sub_chan s) h) (sub_chan s')"
    using Cons.prems(2) fresh by (fastforce simp: open_at_def close_open(1) [OF o])
  moreover have "distinct (map (sub_chan \<circ> snd) subs)" using Cons.prems(1) by (simp add: comp_def)
  ultimately have "panicked (fold (\<lambda>(i, s). chan_close (sub_chan s)) subs (chan_close (sub_chan s) h)) = panicked h \<and>
    next_cell (fold (\<lambda>(i, s). chan_close (sub_chan s)) subs (chan_close (sub_chan s) h)) = next_cell h \<and>
    (\<forall>a. cells (fold (\<lambda>(i, s). chan_close (sub_chan s)) subs (chan_close (sub_chan s) h)) a =
      (if \<exists>(i, s) \<in> set subs. sub_chan s = a then map_option closing (cells (chan_close (sub_chan s) h) a)
       else cells (chan_close (sub_chan s) h) a))"
    using Cons.IH close_open(2,3) [OF o] by metis
  then show ?case using close_open(1) [OF o] fresh by (auto simp: x)
qed

lemma registered_reset:
  assumes "registered_ok m"
  shows "registered_ok (reset_memory m)"
    and "cells (channels_of (reset_memory m)) a =
      (if \<exists>(i, s) \<in> set (subscribers m). sub_chan s = a then map_option closing (cells (channels_of m) a)
       else cells (channels_of m) a)"
proof -
  have "\<forall>(i, s) \<in> set (subscribers m). open_at (channels_of m) (sub_chan s)"
    using registered_okD(4) [OF assms] by auto
  note spec = close_all_spec [OF registered_okD(2) [OF assms] this]
  show "cells (channels_of (reset_memory m)) a =
      (if \<exists>(i, s) \<in> set (subscribers m). sub_chan s = a then map_option closing (cells (channels_of m) a)
       else cells (channels_of m) a)"
    using spec by (simp add: reset_memory_def)
  show "registered_ok (reset_memory m)"
    using spec registered_okD(5,6) [OF assms] by (auto simp: registered_ok_def reset_memory_def split: if_splits)
qed

lemma registered_save:
  assumes ok: "registered_ok m" and save: "save now o0 ty m = (ord, m')"
  shows "registered_ok m'"
    and "cells (channels_of m') a =
      (if \<exists>(i, s) \<in> set (subscribers m). sub_chan s = a \<and> wants s (event_of ord ty)
       then map_option (offered (event_of ord ty)) (cells (channels_of m) a) else cells (channels_of m) a)"
    and "set (subscribers m') = {(i, s) \<in> set (subscribers m). open_at (channels_of m') (sub_chan s)}"
proof -
  have "\<forall>(i, s) \<in> set (subscribers m). open_at (channels_of m) (sub_chan s)"
    using registered_okD(4) [OF ok] by auto
  note spec = offer_all_spec [OF registered_okD(2) [OF ok] this save_shape(6) [OF save, symmetric]]
  show cell: "cells (channels_of m') a =
      (if \<exists>(i, s) \<in> set (subscribers m). sub_chan s = a \<and> wants s (event_of ord ty)
       then map_option (offered (event_of ord ty)) (cells (channels_of m) a) else cells (channels_of m) a)" for a
    using spec by simp
  show "set (subscribers m') = {(i, s) \<in> set (subscribers m). open_at (channels_of m') (sub_chan s)}"
    using spec by auto
  have "distinct (map (sub_chan \<circ> snd) (subscribers m'))"
    using spec registered_okD(2) [OF ok] by (simp add: distinct_map_filter)
  moreover have "distinct_keys (subscribers m')" using spec registered_okD(1) [OF ok] by simp
  moreover have "a < next_cell (channels_of m')" if "cells (channels_of m') a \<noteq> None" for a
    using that registered_okD(5) [OF ok, of a] spec by (auto split: if_splits)
  ultimately show "registered_ok m'"
    using spec registered_okD(3,6) [OF ok] save_shape(5) [OF save] by (auto simp: registered_ok_def)
qed

lemma registered_cancel:
  assumes ok: "registered_ok m"
  shows "registered_ok (snd (cancel i fired m))"
    and "cells (channels_of (snd (cancel i fired m))) a =
      (if \<not> fired \<and> (\<exists>s. (i, s) \<in> set (subscribers m) \<and> sub_chan s = a)
       then map_option closing (cells (channels_of m) a) else cells (channels_of m) a)"
    and "set (subscribers (snd (cancel i fired m))) =
      (if fired then set (subscribers m) else {(j, s) \<in> set (subscribers m). j \<noteq> i})"
proof -
  have mem: "(i, s) \<in> set (subscribers m) \<longleftrightarrow> map_of (subscribers m) i = Some s" for s
    using distinct_keys_map_of [OF registered_okD(1) [OF ok]] .
  have del: "set (AList.delete i (subscribers m)) = {(j, s) \<in> set (subscribers m). j \<noteq> i}"
    by (auto simp: AList.delete_eq)
  show subs: "set (subscribers (snd (cancel i fired m))) =
      (if fired then set (subscribers m) else {(j, s) \<in> set (subscribers m). j \<noteq> i})"
    using mem by (auto simp: cancel_def del split: option.splits)
  show cell: "cells (channels_of (snd (cancel i fired m))) a =
      (if \<not> fired \<and> (\<exists>s. (i, s) \<in> set (subscribers m) \<and> sub_chan s = a)
       then map_option closing (cells (channels_of m) a) else cells (channels_of m) a)" for a
    using mem registered_okD(4) [OF ok, of i] by (auto simp: cancel_def close_open split: option.splits)
  show "registered_ok (snd (cancel i fired m))"
  proof (cases "\<not> fired \<and> map_of (subscribers m) i \<noteq> None")
    case False
    then show ?thesis using ok by (auto simp: cancel_def split: option.splits)
  next
    case True
    then obtain s where s: "map_of (subscribers m) i = Some s" "\<not> fired" by auto
    then have o: "open_at (channels_of m) (sub_chan s)" using registered_okD(4) [OF ok, of i] mem by blast
    have other: "sub_chan s' \<noteq> sub_chan s" if "(j, s') \<in> set (subscribers m)" "j \<noteq> i" for j s'
      using inj_onD [of "sub_chan \<circ> snd" "set (subscribers m)" "(j, s')" "(i, s)"] that s(1) mem
        registered_okD(2) [OF ok] by (auto simp: distinct_map)
    have "distinct (map (sub_chan \<circ> snd) (AList.delete i (subscribers m)))"
      using registered_okD(2) [OF ok] by (simp add: AList.delete_eq distinct_map_filter)
    moreover have "open_at (chan_close (sub_chan s) (channels_of m)) (sub_chan s')"
      if "(j, s') \<in> set (subscribers m)" "j \<noteq> i" for j s'
      using registered_okD(4) [OF ok that(1)] other [OF that] by (simp add: open_at_def close_open(1) [OF o])
    ultimately show ?thesis
      using s registered_okD(1,3,5,6) [OF ok]
      by (auto simp: registered_ok_def cancel_def del close_open [OF o] split: if_splits)
  qed
qed

lemma registered_subscribe:
  assumes ok: "registered_ok m" and room: "next_subscriber m \<noteq> - 1"
    and sub: "subscribe_since t n b m = ((replay, a, i, expired), m')"
  shows "registered_ok m'"
    and "cells (channels_of m') = (cells (channels_of m))
      (a \<mapsto> \<lparr>chan_buf = [], chan_cap = (if b < 1 then 32 else nat b), chan_closed = False\<rparr>)"
    and "a = next_cell (channels_of m)"
    and "set (subscribers m') = insert (i, \<lparr>sub_tenant = t, sub_chan = a\<rparr>) (set (subscribers m))"
proof -
  let ?s = "\<lparr>sub_tenant = t, sub_chan = a\<rparr>"
  have sh: "a = next_cell (channels_of m)" "i = next_subscriber m + 1" "next_subscriber m' = i"
      "subscribers m' = AList.update i ?s (subscribers m)"
      "next_cell (channels_of m') = Suc a" "panicked (channels_of m') = panicked (channels_of m)"
      "cells (channels_of m') = (cells (channels_of m))
        (a \<mapsto> \<lparr>chan_buf = [], chan_cap = (if b < 1 then 32 else nat b), chan_closed = False\<rparr>)"
    using sub by (auto simp: subscribe_since_def Let_def chan_make_def)
  have up: "next_subscriber m < i" using sh(2) unat_u64_Suc [OF room] by (simp add: word_less_nat_alt)
  have newid: "i \<notin> fst ` set (subscribers m)"
    using registered_okD(3) [OF ok] up by fastforce
  have snoc: "AList.update i ?s al = al @ [(i, ?s)]" if "i \<notin> fst ` set al" for al
    using that by (induction al) auto
  have newcell: "cells (channels_of m) a = None"
    using registered_okD(5) [OF ok, of a] sh(1) by (cases "cells (channels_of m) a") auto
  have nota: "sub_chan s \<noteq> a" if "(j, s) \<in> set (subscribers m)" for j s
    using registered_okD(4) [OF ok that] newcell by (auto simp: open_at_def)
  show "set (subscribers m') = insert (i, ?s) (set (subscribers m))"
    by (simp add: sh(4) snoc [OF newid])
  have "distinct (map (sub_chan \<circ> snd) (subscribers m'))"
  proof -
    have "a \<notin> (sub_chan \<circ> snd) ` set (subscribers m)" using nota by force
    then show ?thesis using registered_okD(2) [OF ok] by (simp add: sh(4) snoc [OF newid])
  qed
  moreover have "j \<le> next_subscriber m' \<and> open_at (channels_of m') (sub_chan s)"
    if "(j, s) \<in> set (subscribers m')" for j s
  proof (cases "(j, s) \<in> set (subscribers m)")
    case True
    then show ?thesis
      using registered_okD(3,4) [OF ok True] nota [OF True] up by (auto simp: open_at_def sh(3,7))
  next
    case False
    with that have "j = i" "s = ?s" by (auto simp: sh(4) snoc [OF newid])
    then show ?thesis by (simp add: open_at_def sh(3,7))
  qed
  moreover have "distinct_keys (subscribers m')" using registered_okD(1) [OF ok] by (simp add: sh(4))
  moreover have "x < next_cell (channels_of m')" if "cells (channels_of m') x \<noteq> None" for x
    using that registered_okD(5) [OF ok, of x] sh(1) by (auto simp: sh(5,7) less_Suc_eq split: if_splits)
  ultimately show "registered_ok m'"
    using registered_okD(6) [OF ok] unfolding registered_ok_def sh(6) by blast
qed (use sub in \<open>auto simp: subscribe_since_def Let_def chan_make_def\<close>)

section \<open>The store with its readers\<close>

text \<open>
  One record per subscription: what \<open>SubscribeSince\<close> returned, how much history there was
  (\<open>s_start\<close>) and how much of it was already evicted (\<open>s_base\<close>), and what the reader has received.
  \<open>hist\<close> is the full history of every period between two resets; \<open>epoch\<close> is the current period.
\<close>

record subscription =
  s_id :: u64
  s_sub :: subscriber
  s_cursor :: u64
  s_replay :: "event list"
  s_expired :: bool
  s_epoch :: nat
  s_base :: nat
  s_start :: nat
  s_received :: "event list"
  s_fired :: bool

record store_system =
  mem :: memory
  epoch :: nat
  hist :: "nat \<Rightarrow> event list"
  subs :: "subscription list"

abbreviation current :: "store_system \<Rightarrow> event list" where
  "current w \<equiv> hist w (epoch w)"

definition subscription_of ::
  "store_system \<Rightarrow> string \<Rightarrow> u64 \<Rightarrow> event list \<times> nat \<times> u64 \<times> bool \<Rightarrow> subscription" where
  "subscription_of w t n r =
     (case r of (replay, a, i, expired) \<Rightarrow>
        \<lparr>s_id = i, s_sub = \<lparr>sub_tenant = t, sub_chan = a\<rparr>, s_cursor = n, s_replay = replay,
         s_expired = expired, s_epoch = epoch w, s_base = evicted_count (current w) (mem w),
         s_start = length (current w), s_received = [], s_fired = False\<rparr>)"

text \<open>
  The guards of \<open>save\<close> and \<open>subscribe\<close> bound a run to fewer than \<open>2 ^ 64\<close> sequence numbers and
  subscriptions; at that point Go's counters would wrap to 0.
\<close>

inductive store_step :: "store_system \<Rightarrow> store_system \<Rightarrow> bool" where
  save: "next_sequence (mem w) \<noteq> - 1 \<Longrightarrow> save now o0 ty (mem w) = (ord, m) \<Longrightarrow>
    store_step w (w\<lparr>mem := m, hist := (hist w)(epoch w := current w @ [event_of ord ty])\<rparr>)"
| subscribe: "next_subscriber (mem w) \<noteq> - 1 \<Longrightarrow> subscribe_since t n b (mem w) = (r, m) \<Longrightarrow>
    store_step w (w\<lparr>mem := m, subs := subscription_of w t n r # subs w\<rparr>)"
| receive: "subs w = xs @ s # ys \<Longrightarrow> chan_recv (sub_chan (s_sub s)) (channels_of (mem w)) = (Received e, h) \<Longrightarrow>
    store_step w (w\<lparr>mem := (mem w)\<lparr>channels_of := h\<rparr>,
      subs := xs @ s\<lparr>s_received := s_received s @ [e]\<rparr> # ys\<rparr>)"
| cancel: "subs w = xs @ s # ys \<Longrightarrow> cancel (s_id s) (s_fired s) (mem w) = (fired, m) \<Longrightarrow>
    store_step w (w\<lparr>mem := m, subs := xs @ s\<lparr>s_fired := fired\<rparr> # ys\<rparr>)"
| reset: "store_step w (w\<lparr>mem := reset_memory (mem w), epoch := Suc (epoch w),
    hist := (hist w)(Suc (epoch w) := [])\<rparr>)"

inductive store_reach :: "store_system \<Rightarrow> bool" where
  start: "store_reach \<lparr>mem = new_memory r, epoch = 0, hist = (\<lambda>_. []), subs = []\<rparr>"
| step: "store_reach w \<Longrightarrow> store_step w w' \<Longrightarrow> store_reach w'"

text \<open>The live events a subscription is owed, and the ones a replay from its cursor must show.\<close>

definition live_due :: "store_system \<Rightarrow> subscription \<Rightarrow> event list" where
  "live_due w s = filter (wants (s_sub s)) (drop (s_start s) (hist w (s_epoch s)))"

definition after_cursor :: "subscription \<Rightarrow> event \<Rightarrow> bool" where
  "after_cursor s ev \<longleftrightarrow> ev_tenant ev = sub_tenant (s_sub s) \<and> s_cursor s < ev_sequence ev"

definition is_registered :: "store_system \<Rightarrow> subscription \<Rightarrow> bool" where
  "is_registered w s \<longleftrightarrow> (s_id s, s_sub s) \<in> set (subscribers (mem w))"

definition replay_ok :: "event list \<Rightarrow> subscription \<Rightarrow> bool" where
  "replay_ok H s \<longleftrightarrow> s_base s \<le> s_start s \<and> s_start s \<le> length H \<and>
     s_replay s = filter (after_cursor s) (drop (s_base s) (take (s_start s) H)) \<and>
     (s_expired s \<longleftrightarrow> 0 < s_cursor s \<and>
       (\<exists>ev \<in> set (take (s_base s) H). ev_tenant ev = sub_tenant (s_sub s) \<and> s_cursor s \<le> ev_sequence ev))"

definition stream_ok :: "store_system \<Rightarrow> subscription \<Rightarrow> bool" where
  "stream_ok w s \<longleftrightarrow>
     (\<exists>c. cells (channels_of (mem w)) (sub_chan (s_sub s)) = Some c \<and>
        prefix (s_received s @ chan_buf c) (live_due w s) \<and>
        (chan_closed c \<and> \<not> is_registered w s \<or>
         is_registered w s \<and> s_epoch s = epoch w \<and> s_received s @ chan_buf c = live_due w s))"

definition store_inv :: "store_system \<Rightarrow> bool" where
  "store_inv w \<longleftrightarrow> log_ok (current w) (mem w) \<and> evicted_ok (current w) (mem w) \<and>
     orders_ok (current w) (mem w) \<and> registered_ok (mem w) \<and>
     distinct (map (sub_chan \<circ> s_sub) (subs w)) \<and>
     (\<forall>s \<in> set (subs w). s_epoch s \<le> epoch w \<and> replay_ok (hist w (s_epoch s)) s \<and> stream_ok w s)"

lemma store_invD:
  assumes "store_inv w"
  shows "log_ok (current w) (mem w)" "evicted_ok (current w) (mem w)" "orders_ok (current w) (mem w)"
    "registered_ok (mem w)" "distinct (map (sub_chan \<circ> s_sub) (subs w))"
    "s \<in> set (subs w) \<Longrightarrow> s_epoch s \<le> epoch w"
    "s \<in> set (subs w) \<Longrightarrow> replay_ok (hist w (s_epoch s)) s" "s \<in> set (subs w) \<Longrightarrow> stream_ok w s"
  using assms by (simp_all add: store_inv_def)

lemma stream_okE:
  assumes "stream_ok w s"
  obtains c where "cells (channels_of (mem w)) (sub_chan (s_sub s)) = Some c"
    "prefix (s_received s @ chan_buf c) (live_due w s)"
    "chan_closed c \<and> \<not> is_registered w s \<or>
     is_registered w s \<and> s_epoch s = epoch w \<and> s_received s @ chan_buf c = live_due w s"
  using assms by (auto simp: stream_ok_def)

text \<open>Growing the history keeps what a replay showed.\<close>

lemma replay_ok_snoc: "replay_ok H s \<Longrightarrow> replay_ok (H @ [ev]) s"
  by (simp add: replay_ok_def)

lemma registered_open:
  assumes "registered_ok (mem w)" and "is_registered w s"
    and "cells (channels_of (mem w)) (sub_chan (s_sub s)) = Some c"
  shows "\<not> chan_closed c"
  using registered_okD(4) [OF assms(1), of "s_id s" "s_sub s"] assms(2,3)
  by (simp add: is_registered_def open_at_def)

lemma store_inv_save:
  assumes inv: "store_inv w" and room: "next_sequence (mem w) \<noteq> - 1"
    and save: "save now o0 ty (mem w) = (ord, m)"
  shows "store_inv (w\<lparr>mem := m, hist := (hist w)(epoch w := current w @ [event_of ord ty])\<rparr>)" (is "store_inv ?w")
proof -
  let ?ev = "event_of ord ty"
  note ok = store_invD [OF inv]
  note reg = registered_save [OF ok(4) save]
  have stream: "stream_ok ?w s" if s: "s \<in> set (subs w)" for s
  proof -
    from ok(8) [OF s] obtain c where c: "cells (channels_of (mem w)) (sub_chan (s_sub s)) = Some c"
      "prefix (s_received s @ chan_buf c) (live_due w s)"
      "chan_closed c \<and> \<not> is_registered w s \<or>
       is_registered w s \<and> s_epoch s = epoch w \<and> s_received s @ chan_buf c = live_due w s"
      by (rule stream_okE)
    have start: "s_start s \<le> length (hist w (s_epoch s))" using ok(7) [OF s] by (simp add: replay_ok_def)
    have due: "live_due ?w s = (if s_epoch s = epoch w \<and> wants (s_sub s) ?ev
        then live_due w s @ [?ev] else live_due w s)"
      using start by (auto simp: live_due_def)
    have reg': "is_registered ?w s \<longleftrightarrow> is_registered w s \<and> open_at (channels_of m) (sub_chan (s_sub s))"
      using reg(3) by (auto simp: is_registered_def)
    show ?thesis
    proof (cases "is_registered w s")
      case False
      then have "chan_closed c" using c(3) by blast
      have "sub_chan s' \<noteq> sub_chan (s_sub s)" if "(i, s') \<in> set (subscribers (mem w))" for i s'
        using registered_okD(4) [OF ok(4) that] c(1) \<open>chan_closed c\<close> by (auto simp: open_at_def)
      then have "cells (channels_of m) (sub_chan (s_sub s)) = Some c" using reg(2) c(1) by auto
      with c False show ?thesis by (auto simp: stream_ok_def due reg')
    next
      case True
      then have "\<not> chan_closed c" using registered_open [OF ok(4) True c(1)] by simp
      with c True have e: "s_epoch s = epoch w" and eq: "s_received s @ chan_buf c = live_due w s" by blast+
      have only: "s' = s_sub s" if "(i, s') \<in> set (subscribers (mem w))" "sub_chan s' = sub_chan (s_sub s)" for i s'
        using inj_onD [of "sub_chan \<circ> snd" "set (subscribers (mem w))" "(i, s')" "(s_id s, s_sub s)"]
          registered_okD(2) [OF ok(4)] True that by (simp add: distinct_map is_registered_def)
      have cell: "cells (channels_of m) (sub_chan (s_sub s)) =
          Some (if wants (s_sub s) ?ev then offered ?ev c else c)"
      proof (cases "wants (s_sub s) ?ev")
        case True
        have "\<exists>(i, s') \<in> set (subscribers (mem w)). sub_chan s' = sub_chan (s_sub s) \<and> wants s' ?ev"
          using \<open>is_registered w s\<close> True unfolding is_registered_def by blast
        then show ?thesis using reg(2) [of "sub_chan (s_sub s)"] c(1) True by simp
      next
        case False
        then have "\<not> (\<exists>(i, s') \<in> set (subscribers (mem w)). sub_chan s' = sub_chan (s_sub s) \<and> wants s' ?ev)"
          using only by blast
        then show ?thesis using reg(2) [of "sub_chan (s_sub s)"] c(1) False by simp
      qed
      show ?thesis
        unfolding stream_ok_def
        using True \<open>\<not> chan_closed c\<close> e eq
        by (auto simp: cell due reg' open_at_def offered_def simp flip: append_assoc)
    qed
  qed
  have "store_inv ?w \<longleftrightarrow> (\<forall>s \<in> set (subs w). s_epoch s \<le> epoch w \<and> replay_ok (hist ?w (s_epoch s)) s \<and> stream_ok ?w s)"
    using save_log [OF ok(1) room save] save_evicted [OF ok(1,2) room save] save_orders [OF ok(3) save]
      reg(1) ok(5) by (simp add: store_inv_def)
  moreover have "replay_ok (hist ?w (s_epoch s)) s" if "s \<in> set (subs w)" for s
    using ok(7) [OF that] by (cases "s_epoch s = epoch w") (simp_all add: replay_ok_snoc)
  ultimately show ?thesis using stream ok(6) by blast
qed

text \<open>
  The other steps leave the history of every existing subscription alone, so its stream only
  depends on its own record, its channel and its registration.
\<close>

lemma stream_ok_frame:
  assumes "stream_ok w s"
    and "cells (channels_of (mem w')) (sub_chan (s_sub s)) = cells (channels_of (mem w)) (sub_chan (s_sub s))"
    and "is_registered w' s' \<longleftrightarrow> is_registered w s" and "epoch w' = epoch w"
    and "hist w' (s_epoch s) = hist w (s_epoch s)"
    and "s_sub s' = s_sub s" "s_epoch s' = s_epoch s" "s_start s' = s_start s" "s_received s' = s_received s"
  shows "stream_ok w' s'"
  using assms by (simp add: stream_ok_def live_due_def)

lemma stream_ok_closed:
  assumes "stream_ok w s" and "is_registered w s" and "\<not> is_registered w' s'"
    and "cells (channels_of (mem w')) (sub_chan (s_sub s)) =
      map_option closing (cells (channels_of (mem w)) (sub_chan (s_sub s)))"
    and "hist w' (s_epoch s) = hist w (s_epoch s)"
    and "s_sub s' = s_sub s" "s_epoch s' = s_epoch s" "s_start s' = s_start s" "s_received s' = s_received s"
  shows "stream_ok w' s'"
  using assms by (auto simp: stream_ok_def live_due_def closing_def)

lemma after_cursor_fields [simp]:
  "after_cursor (s\<lparr>s_received := rs\<rparr>) = after_cursor s" "after_cursor (s\<lparr>s_fired := f\<rparr>) = after_cursor s"
  by (simp_all add: after_cursor_def fun_eq_iff)

lemma replay_ok_fields:
  "replay_ok H (s\<lparr>s_received := rs\<rparr>) = replay_ok H s" "replay_ok H (s\<lparr>s_fired := f\<rparr>) = replay_ok H s"
  by (simp_all add: replay_ok_def)

lemma log_subscribe:
  assumes "subscribe_since t n b m = (r, m')"
  shows "orders m' = orders m" "events m' = events m" "next_sequence m' = next_sequence m"
    "retention m' = retention m" "evicted_through m' = evicted_through m"
  using assms by (auto simp: subscribe_since_def Let_def split: prod.splits)

lemma log_cancel [simp]:
  "orders (snd (cancel i f m)) = orders m" "events (snd (cancel i f m)) = events m"
  "next_sequence (snd (cancel i f m)) = next_sequence m" "retention (snd (cancel i f m)) = retention m"
  "evicted_through (snd (cancel i f m)) = evicted_through m"
  by (simp_all add: cancel_def split: option.splits)

text \<open>The log does not look at the subscribers or the channels.\<close>

lemma log_frame:
  assumes "orders m' = orders m" "events m' = events m" "next_sequence m' = next_sequence m"
    "retention m' = retention m" "evicted_through m' = evicted_through m"
  shows "log_ok H m' = log_ok H m" "evicted_ok H m' = evicted_ok H m" "orders_ok H m' = orders_ok H m"
    "evicted_count H m' = evicted_count H m"
  using assms by (simp_all add: log_ok_def evicted_ok_def orders_ok_def evicted_count_def evicted_at_def)

lemma store_inv_subscribe:
  assumes inv: "store_inv w" and room: "next_subscriber (mem w) \<noteq> - 1"
    and sub: "subscribe_since t n b (mem w) = (r, m)"
  shows "store_inv (w\<lparr>mem := m, subs := subscription_of w t n r # subs w\<rparr>)" (is "store_inv ?w")
proof -
  let ?H = "current w" and ?s = "subscription_of w t n r"
  obtain replay a i expired where r: "r = (replay, a, i, expired)" by (cases r)
  note ok = store_invD [OF inv]
  note reg = registered_subscribe [OF ok(4) room sub [unfolded r]]
  note fr = log_frame [OF log_subscribe [OF sub]]
  have s: "s_id ?s = i" "s_sub ?s = \<lparr>sub_tenant = t, sub_chan = a\<rparr>" "s_cursor ?s = n" "s_replay ?s = replay"
      "s_expired ?s = expired" "s_epoch ?s = epoch w" "s_base ?s = evicted_count ?H (mem w)"
      "s_start ?s = length ?H" "s_received ?s = []"
    by (simp_all add: subscription_of_def r)
  have what: "replay = filter (\<lambda>ev. ev_tenant ev = t \<and> n < ev_sequence ev) (events (mem w))"
      "expired \<longleftrightarrow> 0 < n \<and> n \<le> evicted_at (mem w) t"
    using sub by (auto simp: subscribe_since_def Let_def r split: prod.splits)
  have "events (mem w) = drop (evicted_count ?H (mem w)) ?H" using ok(1) by (simp add: log_ok_def)
  moreover have "0 < n \<Longrightarrow> n \<le> evicted_at (mem w) t \<longleftrightarrow>
      (\<exists>ev \<in> set (take (evicted_count ?H (mem w)) ?H). ev_tenant ev = t \<and> n \<le> ev_sequence ev)"
  proof
    assume n: "0 < n" and "n \<le> evicted_at (mem w) t"
    then have "evicted_at (mem w) t \<noteq> 0" by auto
    with \<open>n \<le> evicted_at (mem w) t\<close> show
      "\<exists>ev \<in> set (take (evicted_count ?H (mem w)) ?H). ev_tenant ev = t \<and> n \<le> ev_sequence ev"
      using ok(2) unfolding evicted_ok_def by (metis (lifting))
  next
    assume "\<exists>ev \<in> set (take (evicted_count ?H (mem w)) ?H). ev_tenant ev = t \<and> n \<le> ev_sequence ev"
    then obtain ev where "ev \<in> set (take (evicted_count ?H (mem w)) ?H)" "ev_tenant ev = t" "n \<le> ev_sequence ev"
      by blast
    then show "n \<le> evicted_at (mem w) t" using ok(2) unfolding evicted_ok_def by fastforce
  qed
  moreover have "after_cursor ?s = (\<lambda>ev. ev_tenant ev = t \<and> n < ev_sequence ev)"
    by (simp add: after_cursor_def s fun_eq_iff)
  ultimately have "replay_ok ?H ?s"
    by (auto simp: replay_ok_def s what evicted_count_def)
  moreover have "stream_ok ?w ?s"
    using reg(2,4) by (simp add: stream_ok_def live_due_def is_registered_def s)
  moreover have old: "stream_ok ?w s'" "sub_chan (s_sub s') \<noteq> a" if s': "s' \<in> set (subs w)" for s'
  proof -
    from ok(8) [OF s'] obtain c where "cells (channels_of (mem w)) (sub_chan (s_sub s')) = Some c"
      by (rule stream_okE)
    then show a: "sub_chan (s_sub s') \<noteq> a"
      using registered_okD(5) [OF ok(4), of "sub_chan (s_sub s')"] reg(3) by auto
    have "is_registered ?w s' \<longleftrightarrow> is_registered w s'"
      using reg(4) a by (auto simp: is_registered_def)
    then show "stream_ok ?w s'"
      using reg(2) a by (intro stream_ok_frame [OF ok(8) [OF s']]) simp_all
  qed
  moreover have "distinct (map (sub_chan \<circ> s_sub) (subs ?w))"
  proof -
    have "a \<notin> (sub_chan \<circ> s_sub) ` set (subs w)" using old(2) by force
    then show ?thesis using ok(5) by (simp add: s)
  qed
  moreover have "s_epoch s' \<le> epoch ?w \<and> replay_ok (hist ?w (s_epoch s')) s' \<and> stream_ok ?w s'"
    if "s' \<in> set (subs ?w)" for s'
  proof (cases "s' = ?s")
    case True
    then show ?thesis using calculation(1,2) s(6) by simp
  next
    case False
    then have m: "s' \<in> set (subs w)" using that by simp
    show ?thesis using ok(6,7) [OF m] old(1) [OF m] by simp
  qed
  ultimately show ?thesis
    using ok(1-3) reg(1) fr by (simp add: store_inv_def)
qed

lemma is_registered_subs [simp]:
  "is_registered (w\<lparr>subs := ss\<rparr>) s = is_registered w s" "is_registered w (s\<lparr>s_received := rs\<rparr>) = is_registered w s"
  "is_registered w (s\<lparr>s_fired := f\<rparr>) = is_registered w s"
  by (simp_all add: is_registered_def)

lemma split_distinct_chan:
  assumes "distinct (map (sub_chan \<circ> s_sub) (xs @ s # ys))" and "s' \<in> set (xs @ ys)"
  shows "sub_chan (s_sub s') \<noteq> sub_chan (s_sub s)"
proof
  assume "sub_chan (s_sub s') = sub_chan (s_sub s)"
  then have "sub_chan (s_sub s) \<in> (sub_chan \<circ> s_sub) ` set (xs @ ys)"
    using assms(2) by (intro image_eqI [of _ _ s']) simp_all
  moreover have "sub_chan (s_sub s) \<notin> (sub_chan \<circ> s_sub) ` set (xs @ ys)" using assms(1) by auto
  ultimately show False by contradiction
qed

lemma store_inv_receive:
  assumes inv: "store_inv w" and split: "subs w = xs @ s # ys"
    and recv: "chan_recv (sub_chan (s_sub s)) (channels_of (mem w)) = (Received e, h)"
  shows "store_inv (w\<lparr>mem := (mem w)\<lparr>channels_of := h\<rparr>,
      subs := xs @ s\<lparr>s_received := s_received s @ [e]\<rparr> # ys\<rparr>)" (is "store_inv ?w")
proof -
  let ?a = "sub_chan (s_sub s)" and ?s = "s\<lparr>s_received := s_received s @ [e]\<rparr>"
  note ok = store_invD [OF inv]
  have s: "s \<in> set (subs w)" by (simp add: split)
  from ok(8) [OF s] obtain c where c: "cells (channels_of (mem w)) ?a = Some c"
      "prefix (s_received s @ chan_buf c) (live_due w s)"
      "chan_closed c \<and> \<not> is_registered w s \<or>
       is_registered w s \<and> s_epoch s = epoch w \<and> s_received s @ chan_buf c = live_due w s"
    by (rule stream_okE)
  obtain es where es: "chan_buf c = e # es"
      "h = (channels_of (mem w))\<lparr>cells := (cells (channels_of (mem w)))(?a \<mapsto> c\<lparr>chan_buf := es\<rparr>)\<rparr>"
    using recv c(1) by (auto simp: chan_recv_def split: list.splits if_splits)
  have h: "open_at h x = open_at (channels_of (mem w)) x" "cells h x = None \<longleftrightarrow> cells (channels_of (mem w)) x = None"
      "next_cell h = next_cell (channels_of (mem w))" "panicked h = panicked (channels_of (mem w))" for x
    using c(1) by (simp_all add: es(2) open_at_def)
  then have "registered_ok ((mem w)\<lparr>channels_of := h\<rparr>)"
    using ok(4) by (simp add: registered_ok_def)
  moreover have "stream_ok ?w ?s"
    using c es by (auto simp: stream_ok_def live_due_def is_registered_def)
  moreover have "stream_ok ?w s'" if "s' \<in> set (xs @ ys)" for s'
  proof -
    have "sub_chan (s_sub s') \<noteq> ?a" using ok(5) that unfolding split by (rule split_distinct_chan)
    moreover have "stream_ok w s'" using that by (intro ok(8)) (auto simp: split)
    ultimately show ?thesis
      by (intro stream_ok_frame [of w s' ?w s']) (simp_all add: es(2) is_registered_def)
  qed
  moreover have "distinct (map (sub_chan \<circ> s_sub) (subs ?w))" using ok(5) by (simp add: split)
  moreover have "s_epoch s' \<le> epoch w \<and> replay_ok (hist w (s_epoch s')) s'" if "s' \<in> set (xs @ s # ys)" for s'
    using ok(6,7) [of s'] that by (simp add: split)
  ultimately show ?thesis
    using ok(1-3) log_frame [of "(mem w)\<lparr>channels_of := h\<rparr>" "mem w" "current w"]
    by (simp add: store_inv_def replay_ok_fields)
qed

lemma store_inv_cancel:
  assumes inv: "store_inv w" and split: "subs w = xs @ s # ys"
    and cancel: "cancel (s_id s) (s_fired s) (mem w) = (fired, m)"
  shows "store_inv (w\<lparr>mem := m, subs := xs @ s\<lparr>s_fired := fired\<rparr> # ys\<rparr>)" (is "store_inv ?w")
proof -
  note ok = store_invD [OF inv]
  have m: "m = snd (cancel (s_id s) (s_fired s) (mem w))" using cancel by simp
  note reg = registered_cancel [OF ok(4), of "s_id s" "s_fired s", folded m]
  have stream: "stream_ok ?w s''" if s': "s' \<in> set (subs w)" and same: "s'' = s' \<or> s'' = s'\<lparr>s_fired := fired\<rparr>" for s' s''
  proof (cases "\<not> s_fired s \<and> is_registered w s' \<and> s_id s' = s_id s")
    case True
    then have "\<not> is_registered ?w s''" using reg(3) same by (auto simp: is_registered_def)
    moreover have "cells (channels_of (mem ?w)) (sub_chan (s_sub s')) =
        map_option closing (cells (channels_of (mem w)) (sub_chan (s_sub s')))"
      using True reg(2) [of "sub_chan (s_sub s')"] by (auto simp: is_registered_def)
    ultimately show ?thesis
      using True same by (intro stream_ok_closed [OF ok(8) [OF s']]) auto
  next
    case False
    have other: "\<not> (\<not> s_fired s \<and> (\<exists>b. (s_id s, b) \<in> set (subscribers (mem w)) \<and> sub_chan b = sub_chan (s_sub s')))"
    proof
      assume "\<not> s_fired s \<and> (\<exists>b. (s_id s, b) \<in> set (subscribers (mem w)) \<and> sub_chan b = sub_chan (s_sub s'))"
      then obtain b where b: "\<not> s_fired s" "(s_id s, b) \<in> set (subscribers (mem w))" "sub_chan b = sub_chan (s_sub s')"
        by blast
      from ok(8) [OF s'] obtain c where c: "cells (channels_of (mem w)) (sub_chan (s_sub s')) = Some c"
          "chan_closed c \<and> \<not> is_registered w s' \<or> is_registered w s'"
        by (rule stream_okE, blast)
      have "\<not> chan_closed c" using registered_okD(4) [OF ok(4) b(2)] b(3) c(1) by (simp add: open_at_def)
      then have r: "(s_id s', s_sub s') \<in> set (subscribers (mem w))" using c(2) by (simp add: is_registered_def)
      then have "(s_id s', s_sub s') = (s_id s, b)"
        using inj_onD [of "sub_chan \<circ> snd" "set (subscribers (mem w))" "(s_id s', s_sub s')" "(s_id s, b)"]
          registered_okD(2) [OF ok(4)] b(2,3) by (simp add: distinct_map)
      with False b(1) r show False by (simp add: is_registered_def)
    qed
    then have "cells (channels_of (mem ?w)) (sub_chan (s_sub s')) = cells (channels_of (mem w)) (sub_chan (s_sub s'))"
      using reg(2) [of "sub_chan (s_sub s')"] by auto
    moreover have "is_registered ?w s'' \<longleftrightarrow> is_registered w s'"
    proof -
      have "s_id s'' = s_id s'" "s_sub s'' = s_sub s'" using same by auto
      then show ?thesis using False by (cases "s_fired s") (auto simp: is_registered_def reg(3))
    qed
    ultimately show ?thesis
      using same by (intro stream_ok_frame [OF ok(8) [OF s']]) auto
  qed
  have "s_epoch s' \<le> epoch ?w \<and> replay_ok (hist ?w (s_epoch s')) s' \<and> stream_ok ?w s'"
    if "s' \<in> set (subs ?w)" for s'
  proof (cases "s' \<in> set (subs w)")
    case True
    then show ?thesis using ok(6,7) [OF True] stream [OF True] by simp
  next
    case False
    then have s': "s' = s\<lparr>s_fired := fired\<rparr>" using that by (auto simp: split)
    have m: "s \<in> set (subs w)" by (simp add: split)
    show ?thesis using ok(6,7) [OF m] stream [OF m, of s'] by (simp add: s' replay_ok_fields)
  qed
  moreover have "distinct (map (sub_chan \<circ> s_sub) (subs ?w))" using ok(5) by (simp add: split)
  ultimately show ?thesis
    using ok(1-3) reg(1) log_frame [of m "mem w" "current w"] by (simp add: store_inv_def m)
qed

lemma store_inv_reset:
  assumes inv: "store_inv w"
  shows "store_inv (w\<lparr>mem := reset_memory (mem w), epoch := Suc (epoch w),
    hist := (hist w)(Suc (epoch w) := [])\<rparr>)" (is "store_inv ?w")
proof -
  note ok = store_invD [OF inv]
  note reg = registered_reset [OF ok(4)]
  have hist: "hist ?w (s_epoch s) = hist w (s_epoch s)" if "s \<in> set (subs w)" for s
    using ok(6) [OF that] by auto
  have none: "\<not> is_registered ?w s" for s by (simp add: is_registered_def reset_memory_def)
  have stream: "stream_ok ?w s" if s: "s \<in> set (subs w)" for s
  proof (cases "is_registered w s")
    case True
    then have "cells (channels_of (mem ?w)) (sub_chan (s_sub s)) =
        map_option closing (cells (channels_of (mem w)) (sub_chan (s_sub s)))"
      using reg(2) [of "sub_chan (s_sub s)"] by (auto simp: is_registered_def)
    then show ?thesis using True none hist [OF s] by (intro stream_ok_closed [OF ok(8) [OF s]]) auto
  next
    case False
    from ok(8) [OF s] obtain c where c: "cells (channels_of (mem w)) (sub_chan (s_sub s)) = Some c" "chan_closed c"
      "prefix (s_received s @ chan_buf c) (live_due w s)"
      using False by (auto simp: stream_ok_def)
    have "sub_chan b \<noteq> sub_chan (s_sub s)" if "(i, b) \<in> set (subscribers (mem w))" for i b
      using registered_okD(4) [OF ok(4) that] c(1,2) by (auto simp: open_at_def)
    then have "cells (channels_of (mem ?w)) (sub_chan (s_sub s)) = Some c"
      using reg(2) [of "sub_chan (s_sub s)"] c(1) by auto
    moreover have "live_due ?w s = live_due w s" using hist [OF s] by (simp add: live_due_def)
    ultimately show ?thesis using c(2,3) none unfolding stream_ok_def by simp
  qed
  have "log_ok [] (reset_memory (mem w))" "evicted_ok [] (reset_memory (mem w))" "orders_ok [] (reset_memory (mem w))"
    using ok(1) by (simp_all add: log_ok_def evicted_ok_def orders_ok_def reset_memory_def evicted_count_def evicted_at_def)
  moreover have "s_epoch s \<le> epoch ?w \<and> replay_ok (hist ?w (s_epoch s)) s \<and> stream_ok ?w s"
    if "s \<in> set (subs ?w)" for s
  proof -
    have m: "s \<in> set (subs w)" using that by simp
    show ?thesis using ok(6,7) [OF m] hist [OF m] stream [OF m] by simp
  qed
  ultimately show ?thesis using reg(1) ok(5) by (simp add: store_inv_def)
qed

lemma store_inv_step: "store_step w w' \<Longrightarrow> store_inv w \<Longrightarrow> store_inv w'"
  by (induction rule: store_step.induct)
    (simp_all add: store_inv_save store_inv_subscribe store_inv_receive store_inv_cancel store_inv_reset)

lemma store_inv_reach: "store_reach w \<Longrightarrow> store_inv w"
proof (induction rule: store_reach.induct)
  case (start r)
  then show ?case
    by (simp add: store_inv_def log_ok_new evicted_ok_new registered_ok_new orders_ok_def) (simp add: new_memory_def)
next
  case (step w w')
  then show ?case by (blast intro: store_inv_step)
qed

section \<open>Properties of the store\<close>

text \<open>Events past index \<open>k\<close> of the history have sequence numbers above \<open>k\<close>.\<close>

lemma seq_above:
  assumes "log_ok H m" and "ev \<in> set (drop k H)"
  shows "k < unat (ev_sequence ev)"
proof -
  from assms(2) obtain i where "i < length H - k" "drop k H ! i = ev" by (auto simp: in_set_conv_nth)
  then show ?thesis using log_seq [OF assms(1), of "k + i"] by auto
qed

text \<open>
  A replay that is not flagged as expired misses nothing that was evicted, if its cursor names an event; the
  cursor 0 is never flagged, and its replay begins with what was retained.
\<close>

lemma replay_complete:
  assumes "replay_ok H s" and "\<not> s_expired s" and "0 < s_cursor s \<or> s_base s = 0"
  shows "filter (after_cursor s) (drop (s_base s) H) = filter (after_cursor s) H"
proof -
  have "filter (after_cursor s) (take (s_base s) H) = []"
    using assms by (auto simp: replay_ok_def filter_empty_conv after_cursor_def dest: less_imp_le)
  then show ?thesis by (metis append_Nil append_take_drop_id filter_append)
qed

lemma stream_history:
  assumes "store_reach w" and "s \<in> set (subs w)" and "is_registered w s"
    and "cells (channels_of (mem w)) (sub_chan (s_sub s)) = Some c"
    and "sub_tenant (s_sub s) \<noteq> []" and "unat (s_cursor s) \<le> s_start s"
  shows "s_replay s @ s_received s @ chan_buf c = filter (after_cursor s) (drop (s_base s) (current w))"
    and "\<not> s_expired s \<Longrightarrow> 0 < s_cursor s \<or> s_base s = 0 \<Longrightarrow>
      filter (after_cursor s) (drop (s_base s) (current w)) = filter (after_cursor s) (current w)"
proof -
  note ok = store_invD [OF store_inv_reach [OF assms(1)]]
  have live: "s_received s @ chan_buf c = live_due w s" and e: "s_epoch s = epoch w"
    using ok(8) [OF assms(2)] assms(3,4) registered_open [OF ok(4) assms(3,4)] by (auto elim: stream_okE)
  have R: "replay_ok (current w) s" using ok(7) [OF assms(2)] e by simp
  have "after_cursor s ev \<longleftrightarrow> wants (s_sub s) ev" if "ev \<in> set (drop (s_start s) (current w))" for ev
    using seq_above [OF ok(1) that] assms(5,6) by (auto simp: after_cursor_def wants_def word_less_nat_alt)
  then have "live_due w s = filter (after_cursor s) (drop (s_start s) (current w))"
    unfolding live_due_def e by (intro filter_cong) auto
  moreover have "drop (s_base s) (current w) = drop (s_base s) (take (s_start s) (current w)) @ drop (s_start s) (current w)"
    using R unfolding replay_ok_def by (metis append_take_drop_id diff_is_0_eq drop_0 drop_append length_take min.absorb2)
  ultimately show "s_replay s @ s_received s @ chan_buf c = filter (after_cursor s) (drop (s_base s) (current w))"
    using R unfolding live replay_ok_def by simp
  show "\<not> s_expired s \<Longrightarrow> 0 < s_cursor s \<or> s_base s = 0 \<Longrightarrow>
      filter (after_cursor s) (drop (s_base s) (current w)) = filter (after_cursor s) (current w)"
    by (rule replay_complete [OF R])
qed

text \<open>
  C5. Gap-free streaming. Take a subscriber of a tenant that is still registered and whose cursor was not ahead of the
  log. The replay, what it has received since and what is buffered for it are together exactly the tenant's
  events after the cursor, in order, among those the store still retained when it subscribed and all
  that were saved since. If the cursor named an event and was not flagged as expired, or nothing had been evicted
  yet, that is the full history after the cursor, including the events the store itself has since
  evicted. A cursor 0, the default of the API, is never flagged: its replay starts with what was retained.
\<close>

lemma store_stream_gap_free:
  assumes "store_reach w" and "s \<in> set (subs w)" and "is_registered w s"
    and "cells (channels_of (mem w)) (sub_chan (s_sub s)) = Some c"
    and "sub_tenant (s_sub s) \<noteq> []" and "unat (s_cursor s) \<le> s_start s"
  shows "s_replay s @ s_received s @ chan_buf c = filter (after_cursor s) (drop (s_base s) (current w)) \<and>
    (\<not> s_expired s \<longrightarrow> 0 < s_cursor s \<or> s_base s = 0 \<longrightarrow>
       s_replay s @ s_received s @ chan_buf c = filter (after_cursor s) (current w))"
  using stream_history [OF assms] by simp

text \<open>
  C8. No subscriber loses an event silently: whatever a reader has received or has buffered is a
  prefix of the live events it is owed; while it is registered nothing is missing, and once it is
  not (a slow reader, a cancel, a reset) its channel is closed, so that it sees the end.
\<close>

lemma store_no_silent_gap:
  assumes "store_reach w" and "s \<in> set (subs w)"
    and "cells (channels_of (mem w)) (sub_chan (s_sub s)) = Some c"
  shows "prefix (s_received s @ chan_buf c) (live_due w s) \<and>
    (if is_registered w s then s_received s @ chan_buf c = live_due w s else chan_closed c)"
proof -
  note ok = store_invD [OF store_inv_reach [OF assms(1)]]
  show ?thesis using ok(8) [OF assms(2)] assms(3) by (auto elim: stream_okE)
qed

text \<open>
  C10. The store never panics: in no interleaving of saves, subscriptions, receives, cancels and
  resets does it send on a closed channel or close a channel twice.
\<close>

lemma store_never_panics:
  assumes "store_reach w"
  shows "\<not> panicked (channels_of (mem w))"
  using store_invD(4) [OF store_inv_reach [OF assms]] by (rule registered_okD(6))

lemma recent_events_newest:
  "recent_events m (int n) = (if n = 0 then rev (events m) else take n (rev (events m)))"
  by (simp add: recent_events_def Let_def take_rev)

text \<open>
  The log: sequence numbers count 1, 2, 3, ... without gap or repetition, the store keeps
  exactly the newest events, never more than the retention, and \<open>RecentEvents\<close> returns the newest
  of them first.
\<close>

lemma store_log_exact:
  assumes "store_reach w"
  shows "map (unat \<circ> ev_sequence) (current w) = [1..<Suc (length (current w))] \<and>
    events (mem w) = drop (length (current w) - retention (mem w)) (current w) \<and>
    length (events (mem w)) = min (retention (mem w)) (length (current w)) \<and>
    recent_events (mem w) (int n) =
      (if n = 0 then rev (events (mem w)) else take n (rev (events (mem w))))"
proof -
  have log: "log_ok (current w) (mem w)" using store_inv_reach [OF assms] by (rule store_invD)
  then have evs: "events (mem w) = drop (length (current w) - retention (mem w)) (current w)"
    by (simp add: log_ok_def evicted_count_def)
  moreover have "map (unat \<circ> ev_sequence) (current w) = [1..<Suc (length (current w))]"
    by (rule nth_equalityI) (use log_seq [OF log] in \<open>simp_all del: upt_Suc\<close>)
  moreover have "length (events (mem w)) = min (retention (mem w)) (length (current w))" by (simp add: evs)
  ultimately show ?thesis by (simp add: recent_events_newest del: upt_Suc)
qed

text \<open>
  Cursor expiry: a subscription from a positive cursor that is not flagged as expired replays
  every event of the tenant after the cursor, also out of the evicted part of the history; it is
  flagged exactly when an event of the tenant at or after the cursor has been evicted.
\<close>

lemma store_cursor_expiry:
  assumes "store_reach w" and "0 < n"
    and "subscribe_since t n b (mem w) = ((replay, a, i, expired), m)"
  shows "(if expired then \<exists>ev \<in> set (current w) - set (events (mem w)). ev_tenant ev = t \<and> n \<le> ev_sequence ev
    else replay = filter (\<lambda>ev. ev_tenant ev = t \<and> n < ev_sequence ev) (current w))"
proof -
  note ok = store_invD [OF store_inv_reach [OF assms(1)]]
  let ?k = "evicted_count (current w) (mem w)"
  have sub: "replay = filter (\<lambda>ev. ev_tenant ev = t \<and> n < ev_sequence ev) (events (mem w))"
      "expired \<longleftrightarrow> n \<le> evicted_at (mem w) t"
    using assms(2,3) by (auto simp: subscribe_since_def Let_def split: prod.splits)
  have evs: "events (mem w) = drop ?k (current w)" using ok(1) by (simp add: log_ok_def)
  show ?thesis
  proof (cases expired)
    case True
    then have "evicted_at (mem w) t \<noteq> 0" using sub(2) assms(2) by auto
    then obtain ev where ev: "ev \<in> set (take ?k (current w))" "ev_tenant ev = t" "ev_sequence ev = evicted_at (mem w) t"
      using ok(2) unfolding evicted_ok_def by blast
    have "distinct (map (unat \<circ> ev_sequence) (current w))"
      using log_seq [OF ok(1)] by (auto simp: distinct_conv_nth)
    then have "distinct (current w)" by (simp add: distinct_map)
    then have "ev \<notin> set (drop ?k (current w))"
      using ev(1) set_take_disj_set_drop_if_distinct [of "current w" ?k ?k] by blast
    moreover have "ev \<in> set (current w)" using ev(1) by (rule in_set_takeD)
    ultimately show ?thesis using True ev(2,3) sub(2) by (auto simp: evs)
  next
    case False
    have "filter (\<lambda>ev. ev_tenant ev = t \<and> n < ev_sequence ev) (take ?k (current w)) = []"
      using False ok(2) unfolding sub(2) by (fastforce simp: evicted_ok_def filter_empty_conv)
    then have "filter (\<lambda>ev. ev_tenant ev = t \<and> n < ev_sequence ev) (take ?k (current w) @ drop ?k (current w)) = replay"
      unfolding filter_append by (simp add: sub(1) evs)
    then show ?thesis using False by simp
  qed
qed

text \<open>
  Reading orders: \<open>Get\<close> only returns an order of the asking tenant, and it is the order of
  the id's last event; \<open>List\<close> returns exactly the orders \<open>Get\<close> can find for the tenant, in
  strictly increasing order of their sequence numbers.
\<close>

lemma store_reads:
  assumes "store_reach w"
  shows "(\<forall>k ord. get_order (mem w) t k = Inr ord \<longrightarrow> tenant_id ord = t \<and>
      (\<exists>ty. last (filter (\<lambda>ev. ev_order_id ev = k) (current w)) = event_of ord ty)) \<and>
    set (list_orders (mem w) t) = {ord. \<exists>k. get_order (mem w) t k = Inr ord} \<and>
    sorted_wrt (\<lambda>x y. sequence x < sequence y) (list_orders (mem w) t)"
proof -
  let ?H = "current w" and ?m = "mem w"
  note ok = store_invD [OF store_inv_reach [OF assms]]
  have keys: "distinct_keys (orders ?m)" using ok(3) by (simp add: orders_ok_def)
  have found: "order_id ord = k \<and> (\<exists>ty es. filter (\<lambda>ev. ev_order_id ev = k) ?H = es @ [event_of ord ty])"
    if "map_of (orders ?m) k = Some ord" for k ord
    using orders_okD [OF ok(3), of k] that by auto
  have get: "get_order ?m t k = Inr ord \<longleftrightarrow> map_of (orders ?m) k = Some ord \<and> tenant_id ord = t" for k ord
    by (auto simp: get_order_def split: option.splits)
  have 1: "tenant_id ord = t \<and> (\<exists>ty. last (filter (\<lambda>ev. ev_order_id ev = k) ?H) = event_of ord ty)"
    if "get_order ?m t k = Inr ord" for k ord
    using that found [of k ord] by (auto simp: get)
  have "set (list_orders ?m t) = {ord \<in> snd ` set (orders ?m). tenant_id ord = t}"
    by (simp add: list_orders_def)
  also have "\<dots> = {ord. \<exists>k. get_order ?m t k = Inr ord}"
    using distinct_keys_map_of [OF keys] by (force simp: get)
  finally have 2: "set (list_orders ?m t) = {ord. \<exists>k. get_order ?m t k = Inr ord}" .
  have same: "a = b" if "(j, a) \<in> set (orders ?m)" "(k, b) \<in> set (orders ?m)" "sequence a = sequence b" for j k a b
  proof -
    have m: "map_of (orders ?m) j = Some a" "map_of (orders ?m) k = Some b"
      using that distinct_keys_map_of [OF keys] by blast+
    obtain ta ea where a: "order_id a = j" "filter (\<lambda>ev. ev_order_id ev = j) ?H = ea @ [event_of a ta]"
      using found [OF m(1)] by blast
    obtain tb eb where b: "order_id b = k" "filter (\<lambda>ev. ev_order_id ev = k) ?H = eb @ [event_of b tb]"
      using found [OF m(2)] by blast
    have "event_of a ta \<in> set ?H" "event_of b tb \<in> set ?H"
      using arg_cong [OF a(2), of set] arg_cong [OF b(2), of set] by auto
    then obtain x y where "x < length ?H" "?H ! x = event_of a ta" "y < length ?H" "?H ! y = event_of b tb"
      by (metis in_set_conv_nth)
    moreover from this have "x = y"
      using log_seq [OF ok(1), of x] log_seq [OF ok(1), of y] that(3) by (simp add: event_of_def)
    ultimately have "order_id a = order_id b" by (simp add: event_of_def)
    then show ?thesis using m a(1) b(1) by simp
  qed
  have "distinct (map snd (orders ?m))"
  proof -
    have "inj_on snd (set (orders ?m))"
    proof (rule inj_onI)
      fix p q assume pq: "p \<in> set (orders ?m)" "q \<in> set (orders ?m)" "snd p = snd q"
      obtain j a k b where e: "p = (j, a)" "q = (k, b)" by (cases p, cases q) auto
      then have "map_of (orders ?m) j = Some a" "map_of (orders ?m) k = Some b"
        using pq distinct_keys_map_of [OF keys] by blast+
      then show "p = q" using found [of j a] found [of k b] pq(3) by (simp add: e)
    qed
    moreover have "distinct (orders ?m)" using keys by (simp add: distinct_keys_def distinct_map)
    ultimately show ?thesis by (simp add: distinct_map)
  qed
  then have dist: "distinct (list_orders ?m t)" by (simp add: list_orders_def)
  have inj: "inj_on sequence (set (list_orders ?m t))"
    using same by (auto simp: inj_on_def list_orders_def)
  have "sorted (map sequence (list_orders ?m t))" by (simp add: list_orders_def)
  then have "sorted_wrt (<) (map sequence (list_orders ?m t))"
    using dist inj by (simp add: distinct_map strict_sorted_iff)
  then have 3: "sorted_wrt (\<lambda>x y. sequence x < sequence y) (list_orders ?m t)"
    by (simp add: sorted_wrt_map)
  from 1 2 3 show ?thesis by blast
qed

section \<open>A concrete run\<close>

text \<open>
  Retention 2: orders \<open>a\<close> and \<open>b\<close> of tenant \<open>t\<close> are saved, a reader subscribes from cursor 1 with
  room for one event, and order \<open>c\<close> is saved, which evicts the event of \<open>a\<close>.
\<close>

definition sample_order :: "string \<Rightarrow> order" where
  "sample_order k = zero_order\<lparr>order_id := k, tenant_id := ''t''\<rparr>"

lemma sample_saves:
  obtains m where "fst (save 5 (sample_order ''b'') ''x'' (snd (save 4 (sample_order ''a'') ''x'' (new_memory 2)))) =
      stamp 5 2 (sample_order ''b'')"
    "m = snd (save 5 (sample_order ''b'') ''x'' (snd (save 4 (sample_order ''a'') ''x'' (new_memory 2))))"
    "next_sequence m = 2" "retention m = 2" "evicted_through m = Map.empty" "subscribers m = []"
    "next_subscriber m = 0" "channels_of m = \<lparr>cells = Map.empty, next_cell = 0, panicked = False\<rparr>"
    "events m = [event_of (stamp 4 1 (sample_order ''a'')) ''x'', event_of (stamp 5 2 (sample_order ''b'')) ''x'']"
    "orders m = [(''a'', stamp 4 1 (sample_order ''a'')), (''b'', stamp 5 2 (sample_order ''b''))]"
  by (rule that [OF _ refl]) (simp_all add: new_memory_def save_def Let_def sample_order_def stamp_def
      zero_order_def event_of_def go_time_simps)

lemma store_demo:
  obtains w s c where "store_reach w" "subs w = [s]" "is_registered w s"
    "cells (channels_of (mem w)) (sub_chan (s_sub s)) = Some c" "sub_tenant (s_sub s) = ''t''"
    "\<not> s_expired s" "s_cursor s = 1" "s_start s = 2" "length (current w) = 3" "retention (mem w) = 2"
    "evicted_at (mem w) ''t'' = 1" "length (chan_buf c) = 1"
    "get_order (mem w) ''t'' ''a'' = Inr (stamp 4 1 (sample_order ''a''))"
proof -
  obtain m where m: "m = snd (save 5 (sample_order ''b'') ''x'' (snd (save 4 (sample_order ''a'') ''x'' (new_memory 2))))"
    "next_sequence m = 2" "retention m = 2" "evicted_through m = Map.empty" "subscribers m = []"
    "next_subscriber m = 0" "channels_of m = \<lparr>cells = Map.empty, next_cell = 0, panicked = False\<rparr>"
    "events m = [event_of (stamp 4 1 (sample_order ''a'')) ''x'', event_of (stamp 5 2 (sample_order ''b'')) ''x'']"
    "orders m = [(''a'', stamp 4 1 (sample_order ''a'')), (''b'', stamp 5 2 (sample_order ''b''))]"
    by (rule sample_saves, rule that)
  let ?a = "save 4 (sample_order ''a'') ''x'' (new_memory 2)"
  let ?b = "save 5 (sample_order ''b'') ''x'' (snd ?a)"
  obtain r ms where sub: "subscribe_since ''t'' 1 1 m = (r, ms)" by (cases "subscribe_since ''t'' 1 1 m")
  obtain oc mc where c: "save 6 (sample_order ''c'') ''x'' ms = (oc, mc)" by (cases "save 6 (sample_order ''c'') ''x'' ms")
  have r: "r = ([event_of (stamp 5 2 (sample_order ''b'')) ''x''], 0, 1, False)"
    and ms: "next_sequence ms = 2" "retention ms = 2" "evicted_through ms = Map.empty"
      "subscribers ms = [(1, \<lparr>sub_tenant = ''t'', sub_chan = 0\<rparr>)]" "events ms = events m" "orders ms = orders m"
      "channels_of ms = \<lparr>cells = [0 \<mapsto> \<lparr>chan_buf = [], chan_cap = 1, chan_closed = False\<rparr>], next_cell = 1, panicked = False\<rparr>"
    using sub by (auto simp: subscribe_since_def Let_def chan_make_def m(2-) event_of_def stamp_def sample_order_def evicted_at_def)
  let ?ev = "event_of (stamp 6 3 (sample_order ''c'')) ''x''"
  have oc: "oc = stamp 6 3 (sample_order ''c'')"
    and mc: "retention mc = 2" "subscribers mc = [(1, \<lparr>sub_tenant = ''t'', sub_chan = 0\<rparr>)]"
      "cells (channels_of mc) 0 = Some \<lparr>chan_buf = [?ev], chan_cap = 1, chan_closed = False\<rparr>"
      "evicted_at mc ''t'' = 1" "map_of (orders mc) ''a'' = Some (stamp 4 1 (sample_order ''a''))"
    using c by (auto simp: save_def Let_def ms m(8,9) wants_def chan_try_send_def event_of_def stamp_def
        sample_order_def zero_order_def evicted_at_def)
  note s0 = store_reach.start [of 2]
  note s1 = store_reach.step [OF s0 store_step.save [where now = 4 and ?o0.0 = "sample_order ''a''" and ty = "''x''"
        and ord = "fst ?a" and m = "snd ?a"]]
  note s2 = store_reach.step [OF s1 store_step.save [where now = 5 and ?o0.0 = "sample_order ''b''" and ty = "''x''"
        and ord = "fst ?b" and m = m]]
  note s3 = store_reach.step [OF s2 store_step.subscribe [where t = "''t''" and n = 1 and b = 1 and r = r and m = ms]]
  note s4 = store_reach.step [OF s3 store_step.save [where now = 6 and ?o0.0 = "sample_order ''c''" and ty = "''x''"
        and ord = oc and m = mc]]
  have seq: "next_sequence (new_memory 2) = 0" "next_sequence (snd ?a) = 1"
    by (simp_all add: new_memory_def save_def Let_def)
  have b: "?b = (fst ?b, m)" by (simp add: m(1))
  have tn: "tenant_id (stamp 4 1 (sample_order ''a'')) = ''t''" by (simp add: stamp_def sample_order_def)
  show thesis
    by (rule that [where c = "\<lparr>chan_buf = [?ev], chan_cap = 1, chan_closed = False\<rparr>" and
          s = "\<lparr>s_id = 1, s_sub = \<lparr>sub_tenant = ''t'', sub_chan = 0\<rparr>, s_cursor = 1, s_replay = fst r,
            s_expired = False, s_epoch = 0, s_base = 0, s_start = 2, s_received = [], s_fired = False\<rparr>"], rule s4)
      (rule b | simp add: m(1) [symmetric] m(2-) sub c r ms oc mc seq tn subscription_of_def is_registered_def
        get_order_def evicted_count_def)+
qed

lemma store_stream_gap_free_witness:
  "\<exists>w s (c :: event_chan). store_reach w \<and> subs w = [s] \<and> length (current w) = 3 \<and> chan_buf c \<noteq> [] \<and>
     s_replay s @ s_received s @ chan_buf c = filter (after_cursor s) (current w)"
proof -
  obtain w s c where w: "store_reach w" "subs w = [s]" "is_registered w s"
    "cells (channels_of (mem w)) (sub_chan (s_sub s)) = Some c" "sub_tenant (s_sub s) = ''t''"
    "\<not> s_expired s" "s_cursor s = 1" "s_start s = 2" "length (current w) = 3" "length (chan_buf c) = 1"
    by (rule store_demo, rule that)
  then have "s_replay s @ s_received s @ chan_buf c = filter (after_cursor s) (current w)"
    by (intro store_stream_gap_free [OF w(1) _ w(3,4), THEN conjunct2, rule_format]) simp_all
  with w show ?thesis by (intro exI [of _ w] exI [of _ s] exI [of _ c]) auto
qed

lemma store_no_silent_gap_witness:
  "\<exists>w s (c :: event_chan). store_reach w \<and> subs w = [s] \<and> chan_buf c \<noteq> [] \<and> s_received s @ chan_buf c = live_due w s"
proof -
  obtain w s c where w: "store_reach w" "subs w = [s]" "is_registered w s"
    "cells (channels_of (mem w)) (sub_chan (s_sub s)) = Some c" "length (chan_buf c) = 1"
    by (rule store_demo, rule that)
  then have "s_received s @ chan_buf c = live_due w s"
    using store_no_silent_gap [OF w(1) _ w(4)] by simp
  with w show ?thesis by (intro exI [of _ w] exI [of _ s] exI [of _ c]) auto
qed

lemma store_never_panics_witness:
  "\<exists>w. store_reach w \<and> length (subs w) = 1 \<and> \<not> panicked (channels_of (mem w))"
proof -
  obtain w s where w: "store_reach w" "subs w = [s]" by (rule store_demo, rule that)
  with store_never_panics [OF w(1)] show ?thesis by (intro exI [of _ w]) simp
qed

lemma store_log_exact_witness:
  "\<exists>w. store_reach w \<and> length (current w) = 3 \<and> length (events (mem w)) = 2"
proof -
  obtain w where w: "store_reach w" "length (current w) = 3" "retention (mem w) = 2" by (rule store_demo, rule that)
  with store_log_exact [OF w(1), of 0] show ?thesis by (intro exI [of _ w]) simp
qed

lemma store_cursor_expiry_witness:
  "\<exists>w ev. store_reach w \<and> ev \<in> set (current w) - set (events (mem w)) \<and> ev_tenant ev = ''t''"
proof -
  obtain w where w: "store_reach w" "evicted_at (mem w) ''t'' = 1" by (rule store_demo, rule that)
  obtain replay a i expired m where sub: "subscribe_since ''t'' 1 1 (mem w) = ((replay, a, i, expired), m)"
    by (cases "subscribe_since ''t'' 1 1 (mem w)") auto
  then have "expired" using w(2) by (auto simp: subscribe_since_def Let_def split: prod.splits)
  with store_cursor_expiry [OF w(1) _ sub] w(1) show ?thesis by auto
qed

lemma store_reads_witness:
  "\<exists>w ord. store_reach w \<and> get_order (mem w) ''t'' ''a'' = Inr ord \<and> ord \<in> set (list_orders (mem w) ''t'')"
proof -
  obtain w where w: "store_reach w" "get_order (mem w) ''t'' ''a'' = Inr (stamp 4 1 (sample_order ''a''))"
    by (rule store_demo, rule that)
  with store_reads [OF w(1), of "''t''"] show ?thesis by blast
qed

end
