(* ===== verification/Go_Context.thy ===== *)
theory Go_Context
  imports Lab_Prelude
begin

text \<open>
  The part of Go's \<open>context\<close> and \<open>time\<close> packages that the code waits on. A context is the moment
  at which it becomes done and the error it then reports; a request context that nobody cancels
  has no such moment. \<open>select_timer\<close> is the statement
  \<open>select { case <-timer.C: ... case <-ctx.Done(): ... }\<close>: whichever comes first wins, and when
  both are ready at the same instant the runtime's choice is the argument \<open>prefer_timer\<close>.
\<close>

record ctx =
  done_at :: "(gotime \<times> go_error) option"

definition background :: ctx where
  "background = \<lparr>done_at = None\<rparr>"

definition ctx_err :: "ctx \<Rightarrow> gotime \<Rightarrow> go_error option" where
  "ctx_err c now =
     (case done_at c of None \<Rightarrow> None | Some (t, e) \<Rightarrow> if t \<le> now then Some e else None)"

definition with_timeout :: "ctx \<Rightarrow> gotime \<Rightarrow> duration \<Rightarrow> ctx" where
  "with_timeout c now d =
     (case done_at c of
        Some (t, e) \<Rightarrow> if t \<le> time_add now d then c else \<lparr>done_at = Some (time_add now d, CtxDeadlineExceeded)\<rparr>
      | None \<Rightarrow> \<lparr>done_at = Some (time_add now d, CtxDeadlineExceeded)\<rparr>)"

definition select_timer :: "bool \<Rightarrow> ctx \<Rightarrow> gotime \<Rightarrow> duration \<Rightarrow> go_error option \<times> gotime" where
  "select_timer prefer_timer c now d =
     (let fires = now + max 0 d
      in case done_at c of
           None \<Rightarrow> (None, fires)
         | Some (t, e) \<Rightarrow>
             let done = max now t
             in if done < fires \<or> done = fires \<and> \<not> prefer_timer then (Some e, done) else (None, fires))"

lemma ctx_err_background [simp]: "ctx_err background now = None"
  by (simp add: ctx_err_def background_def)

lemma select_timer_background [simp]: "select_timer p background now d = (None, now + max 0 d)"
  by (simp add: select_timer_def background_def)

text \<open>Waiting takes time but never more than the delay.\<close>

lemma select_timer_time:
  "now \<le> snd (select_timer p c now d)" "snd (select_timer p c now d) \<le> now + max 0 d"
  by (auto simp: select_timer_def Let_def split: option.splits)

text \<open>A wait under a timeout that is shorter than the delay always ends with an error.\<close>

lemma select_timer_timeout:
  assumes "0 \<le> tmo" and "tmo < d"
  shows "\<exists>e. fst (select_timer p (with_timeout c now tmo) now d) = Some e"
    and "snd (select_timer p (with_timeout c now tmo) now d) \<le> now + tmo"
  using assms
  by (auto simp: select_timer_def with_timeout_def Let_def time_add_def split: option.splits)

text \<open>A wait under a timeout ends with the timeout at the latest.\<close>

lemma select_timer_capped:
  "0 \<le> tmo \<Longrightarrow> snd (select_timer p (with_timeout c now tmo) now d) \<le> now + tmo"
  by (auto simp: select_timer_def with_timeout_def Let_def time_add_def split: option.splits)

text \<open>A timeout longer than the delay does not disturb an undisturbed context.\<close>

lemma select_timer_within_timeout:
  "done_at c = None \<Longrightarrow> 0 \<le> d \<Longrightarrow> d < tmo \<Longrightarrow>
   select_timer p (with_timeout c now tmo) now d = (None, now + d)"
  by (simp add: select_timer_def with_timeout_def time_add_def)

end
