(* ===== verification/Go_Strings.thy ===== *)
theory Go_Strings
  imports Lab_Prelude "HOL-Library.Sublist"
begin

text \<open>
  The string functions of Go's standard library that the code uses: decimal printing and parsing
  (\<open>fmt.Sprint\<close>, \<open>strconv\<close>), \<open>hex.EncodeToString\<close>, and \<open>strings.TrimSpace\<close>, \<open>Cut\<close>, \<open>Split\<close>,
  \<open>EqualFold\<close> and \<open>net.SplitHostPort\<close>. A Go string is a sequence of bytes; a \<open>char\<close> is a byte.
  The lemmas show that printed numbers determine the number, also in front of or behind other
  text, that parsing inverts printing, and what trimming and splitting leave.
\<close>

section \<open>Decimal numbers\<close>

definition digit_char :: "nat \<Rightarrow> char" where
  "digit_char d = char_of (48 + d)"

fun show_nat :: "nat \<Rightarrow> string" where
  "show_nat n = (if n < 10 then [digit_char n] else show_nat (n div 10) @ [digit_char (n mod 10)])"

declare show_nat.simps [simp del]

definition show_int :: "int \<Rightarrow> string" where
  "show_int z = (if z < 0 then CHR ''-'' # show_nat (nat (- z)) else show_nat (nat z))"

definition is_digit :: "char \<Rightarrow> bool" where
  "is_digit c \<longleftrightarrow> 48 \<le> (of_char c :: nat) \<and> (of_char c :: nat) \<le> 57"

text \<open>The number a run of digits stands for.\<close>

definition digits_value :: "string \<Rightarrow> nat" where
  "digits_value = foldl (\<lambda>a c. 10 * a + (of_char c - 48)) 0"

lemma of_char_digit [simp]: "d < 10 \<Longrightarrow> (of_char (digit_char d) :: nat) = 48 + d"
  by (simp add: digit_char_def)

lemma is_digit_char [simp]: "d < 10 \<Longrightarrow> is_digit (digit_char d)"
  by (simp add: is_digit_def)

lemma digits_value_snoc [simp]: "digits_value (s @ [c]) = 10 * digits_value s + (of_char c - 48)"
  by (simp add: digits_value_def)

lemma digits_value_show [simp]: "digits_value (show_nat n) = n"
proof (induction n rule: show_nat.induct)
  case (1 n)
  show ?case
  proof (cases "n < 10")
    case True
    then show ?thesis by (simp add: show_nat.simps [of n] digits_value_def)
  next
    case False
    then show ?thesis using 1 by (simp add: show_nat.simps [of n])
  qed
qed

lemma show_nat_digits: "c \<in> set (show_nat n) \<Longrightarrow> is_digit c"
proof (induction n arbitrary: c rule: show_nat.induct)
  case (1 n)
  show ?case
  proof (cases "n < 10")
    case True
    then show ?thesis using 1(2) by (simp add: show_nat.simps [of n])
  next
    case False
    then show ?thesis using 1 by (auto simp: show_nat.simps [of n])
  qed
qed

lemma show_nat_inject [simp]: "show_nat m = show_nat n \<longleftrightarrow> m = n"
  by (metis digits_value_show)

lemma show_nat_not_Nil [simp]: "show_nat n \<noteq> []"
  by (simp add: show_nat.simps [of n])

lemma show_nat_no_minus: "show_nat n \<noteq> CHR ''-'' # s"
proof
  assume "show_nat n = CHR ''-'' # s"
  then have "is_digit (CHR ''-'')" using show_nat_digits [of "CHR ''-''" n] by simp
  then show False by (simp add: is_digit_def)
qed

lemma show_int_inject [simp]: "show_int x = show_int y \<longleftrightarrow> x = y"
  by (auto simp: show_int_def show_nat_no_minus show_nat_no_minus [symmetric] eq_nat_nat_iff)

lemma show_int_chars: "c \<in> set (show_int z) \<Longrightarrow> is_digit c \<or> c = CHR ''-''"
  by (auto simp: show_int_def dest: show_nat_digits split: if_splits)

lemma show_int_no_nul: "CHR 0x00 \<notin> set (show_int z)"
  using show_int_chars [of "CHR 0x00" z] by (auto simp: is_digit_def)

section \<open>Text with a separator\<close>

text \<open>A separator that does not occur behind it splits a text in one way only.\<close>

lemma last_separator_unique:
  assumes "a @ c # x = b @ c # y" and "c \<notin> set x" and "c \<notin> set y"
  shows "a = b \<and> x = y"
proof -
  have "takeWhile (\<lambda>z. z \<noteq> c) (rev (a @ c # x)) = rev x" "takeWhile (\<lambda>z. z \<noteq> c) (rev (b @ c # y)) = rev y"
    using assms(2,3) by (simp_all add: takeWhile_append takeWhile_eq_all_conv [THEN iffD2])
  with assms(1) have "x = y" by simp
  with assms(1) show ?thesis by simp
qed

section \<open>Hexadecimal\<close>

definition hex_char :: "nat \<Rightarrow> char" where
  "hex_char d = (if d < 10 then char_of (48 + d) else char_of (87 + d))"

definition hex_encode :: "8 word list \<Rightarrow> string" where
  "hex_encode bs = concat (map (\<lambda>b. [hex_char (unat b div 16), hex_char (unat b mod 16)]) bs)"

lemma hex_char_inject: "x < 16 \<Longrightarrow> y < 16 \<Longrightarrow> hex_char x = hex_char y \<longleftrightarrow> x = y"
  by (auto simp: hex_char_def split: if_splits dest!: arg_cong [of _ _ "of_char :: char \<Rightarrow> nat"])

lemma hex_encode_inject: "hex_encode xs = hex_encode ys \<longleftrightarrow> xs = ys"
proof (induction xs arbitrary: ys)
  case Nil
  then show ?case by (cases ys) (simp_all add: hex_encode_def)
next
  case (Cons x xs)
  show ?case
  proof (cases ys)
    case Nil
    then show ?thesis by (simp add: hex_encode_def)
  next
    case (Cons y zs)
    have lt: "unat b < 256" for b :: "8 word" using unsigned_less [of b] by simp
    then have lim: "unat b div 16 < 16" "unat b mod 16 < 16" for b :: "8 word"
      using lt [of b] by (simp_all add: div_less_iff_less_mult)
    have "unat x div 16 = unat y div 16 \<and> unat x mod 16 = unat y mod 16 \<longleftrightarrow> x = y"
      by (metis div_mult_mod_eq word_unat_eq_iff)
    with Cons.IH [of zs] lim show ?thesis
      by (auto simp: Cons hex_encode_def hex_char_inject)
  qed
qed

lemma hex_encode_length [simp]: "length (hex_encode bs) = 2 * length bs"
  by (induction bs) (simp_all add: hex_encode_def)

section \<open>Parsing decimal numbers\<close>

text \<open>
  \<open>strconv.ParseUint(s, 10, 64)\<close>: the value and whether there was no error. A character that is no
  digit gives 0, a number beyond 64 bits the largest one; the loop stops at the first of the two.
\<close>

fun parse_uint_loop :: "nat \<Rightarrow> string \<Rightarrow> nat \<times> bool" where
  "parse_uint_loop n [] = (n, True)"
| "parse_uint_loop n (c # cs) =
     (if \<not> is_digit c then (0, False)
      else let n' = n * 10 + (of_char c - 48) in
        if 2 ^ 64 \<le> n' then (2 ^ 64 - 1, False) else parse_uint_loop n' cs)"

definition parse_uint :: "string \<Rightarrow> nat \<times> bool" where
  "parse_uint s = (if s = [] then (0, False) else parse_uint_loop 0 s)"

text \<open>
  \<open>strconv.Atoi\<close> and \<open>ParseInt(s, 10, 64)\<close>: an optional sign in front of the digits, and the range
  of \<open>int64\<close>. \<open>None\<close> is an error.
\<close>

definition parse_int :: "string \<Rightarrow> int option" where
  "parse_int s =
     (let neg = (s \<noteq> [] \<and> hd s = CHR ''-'');
          rest = (if s \<noteq> [] \<and> (hd s = CHR ''-'' \<or> hd s = CHR ''+'') then tl s else s)
      in case parse_uint rest of
           (n, ok) \<Rightarrow>
             if \<not> ok then None
             else if \<not> neg \<and> 2 ^ 63 \<le> n then None
             else if neg \<and> 2 ^ 63 < n then None
             else Some (if neg then - int n else int n))"

lemma foldl_digits_le: "m \<le> foldl (\<lambda>a c. 10 * a + (of_char c - 48)) (m :: nat) s"
proof (induction s arbitrary: m)
  case (Cons c s)
  have "m \<le> 10 * m + (of_char c - 48)" by simp
  also have "\<dots> \<le> foldl (\<lambda>a c. 10 * a + (of_char c - 48)) (10 * m + (of_char c - 48)) s" by (rule Cons)
  finally show ?case by simp
qed simp

lemma parse_uint_loop_digits:
  "\<forall>c \<in> set s. is_digit c \<Longrightarrow> foldl (\<lambda>a c. 10 * a + (of_char c - 48)) n s < 2 ^ 64 \<Longrightarrow>
     parse_uint_loop n s = (foldl (\<lambda>a c. 10 * a + (of_char c - 48)) n s, True)"
proof (induction s arbitrary: n)
  case Nil
  then show ?case by simp
next
  case (Cons c s)
  have "n * 10 + (of_char c - 48) < 2 ^ 64"
    using Cons.prems(2) foldl_digits_le [of "10 * n + (of_char c - 48)" s]
    by (simp add: mult.commute)
  then show ?case using Cons by (simp add: mult.commute)
qed

lemma parse_uint_show: "n < 2 ^ 64 \<Longrightarrow> parse_uint (show_nat n) = (n, True)"
  using parse_uint_loop_digits [of "show_nat n" 0] show_nat_digits [of _ n] digits_value_show [of n]
  by (simp add: parse_uint_def digits_value_def)

text \<open>Parsing inverts printing on the whole range of \<open>int64\<close>.\<close>

lemma parse_int_show:
  assumes "in_int64 z"
  shows "parse_int (show_int z) = Some z"
proof (cases "z < 0")
  case True
  have "nat (- z) \<le> 2 ^ 63" using assms by (simp add: in_int64_def int64_min_def nat_le_iff)
  then have "parse_uint (show_nat (nat (- z))) = (nat (- z), True)" by (intro parse_uint_show) simp
  with True \<open>nat (- z) \<le> 2 ^ 63\<close> show ?thesis by (simp add: parse_int_def show_int_def)
next
  case False
  have lt: "nat z < 2 ^ 63" using assms False by (simp add: in_int64_def int64_max_def nat_less_iff)
  then have p: "parse_uint (show_nat (nat z)) = (nat z, True)" by (intro parse_uint_show) simp
  obtain c cs where c: "show_nat (nat z) = c # cs" by (cases "show_nat (nat z)") simp_all
  then have "is_digit c" using show_nat_digits [of c "nat z"] by simp
  then have "c \<noteq> CHR ''-''" "c \<noteq> CHR ''+''" by (auto simp: is_digit_def)
  with False lt p c show ?thesis by (simp add: parse_int_def show_int_def)
qed

section \<open>White space\<close>

text \<open>
  \<open>unicode.IsSpace\<close>, as the UTF-8 sequences of its characters. A sequence of continuation bytes
  never starts another character, so prefixes and suffixes of the byte string decide what
  \<open>TrimSpace\<close> removes on either side.
\<close>

definition space_sequences :: "string list" where
  "space_sequences = [[CHR 0x09], [CHR 0x0A], [CHR 0x0B], [CHR 0x0C], [CHR 0x0D], [CHR 0x20],
     [CHR 0xC2, CHR 0x85], [CHR 0xC2, CHR 0xA0], [CHR 0xE1, CHR 0x9A, CHR 0x80],
     [CHR 0xE2, CHR 0x80, CHR 0x80], [CHR 0xE2, CHR 0x80, CHR 0x81], [CHR 0xE2, CHR 0x80, CHR 0x82],
     [CHR 0xE2, CHR 0x80, CHR 0x83], [CHR 0xE2, CHR 0x80, CHR 0x84], [CHR 0xE2, CHR 0x80, CHR 0x85],
     [CHR 0xE2, CHR 0x80, CHR 0x86], [CHR 0xE2, CHR 0x80, CHR 0x87], [CHR 0xE2, CHR 0x80, CHR 0x88],
     [CHR 0xE2, CHR 0x80, CHR 0x89], [CHR 0xE2, CHR 0x80, CHR 0x8A], [CHR 0xE2, CHR 0x80, CHR 0xA8],
     [CHR 0xE2, CHR 0x80, CHR 0xA9], [CHR 0xE2, CHR 0x80, CHR 0xAF], [CHR 0xE2, CHR 0x81, CHR 0x9F],
     [CHR 0xE3, CHR 0x80, CHR 0x80]]"

function strip :: "string list \<Rightarrow> string \<Rightarrow> string" where
  "strip seqs s =
     (case find (\<lambda>p. p \<noteq> [] \<and> prefix p s) seqs of
        None \<Rightarrow> s
      | Some p \<Rightarrow> strip seqs (drop (length p) s))"
  by pat_completeness auto
termination
proof (relation "measure (\<lambda>(seqs, s). length s)")
  fix seqs s p assume "find (\<lambda>p. p \<noteq> [] \<and> prefix p s) seqs = Some p"
  then have "p \<noteq> []" "prefix p s" by (auto simp: find_Some_iff)
  then have "s \<noteq> []" by auto
  with \<open>p \<noteq> []\<close> show "((seqs, drop (length p) s), (seqs, s)) \<in> measure (\<lambda>(seqs, s). length s)" by simp
qed simp

declare strip.simps [simp del]

definition trim_space :: "string \<Rightarrow> string" where
  "trim_space s = rev (strip (map rev space_sequences) (rev (strip space_sequences s)))"

lemma strip_suffix: "suffix (strip seqs s) s"
proof (induction seqs s rule: strip.induct)
  case (1 seqs s)
  show ?case
  proof (cases "find (\<lambda>p. p \<noteq> [] \<and> prefix p s) seqs")
    case (Some p)
    then show ?thesis using 1 [OF Some] suffix_drop suffix_order.trans
      by (simp only: strip.simps [of seqs s] option.case) blast
  qed (simp add: strip.simps [of seqs s])
qed

lemma strip_None: "find (\<lambda>p. p \<noteq> [] \<and> prefix p s) seqs = None \<Longrightarrow> strip seqs s = s"
  by (subst strip.simps) simp

lemma strip_Some:
  "find (\<lambda>p. p \<noteq> [] \<and> prefix p s) seqs = Some p \<Longrightarrow> strip seqs s = strip seqs (drop (length p) s)"
  by (subst strip.simps) simp

lemma strip_done: "p \<in> set seqs \<Longrightarrow> p \<noteq> [] \<Longrightarrow> \<not> prefix p (strip seqs s)"
proof (induction seqs s rule: strip.induct)
  case (1 seqs s)
  show ?case
  proof (cases "find (\<lambda>p. p \<noteq> [] \<and> prefix p s) seqs")
    case None
    then have "\<not> prefix p s" using 1(2,3) unfolding find_None_iff by blast
    then show ?thesis by (simp only: strip_None [OF None] not_False_eq_True)
  next
    case (Some q)
    then show ?thesis using 1(1) [OF Some 1(2,3)] by (simp only: strip_Some [OF Some] not_False_eq_True)
  qed
qed

lemma strip_same: "\<forall>p \<in> set seqs. p \<noteq> [] \<longrightarrow> \<not> prefix p s \<Longrightarrow> strip seqs s = s"
  by (rule strip_None) (unfold find_None_iff, blast)

text \<open>Trimming is idempotent and never lengthens.\<close>

lemma trim_space_sublist: "sublist (trim_space s) s"
proof -
  have "prefix (trim_space s) (strip space_sequences s)"
    using strip_suffix [of "map rev space_sequences" "rev (strip space_sequences s)"]
    by (simp only: trim_space_def suffix_to_prefix rev_rev_ident)
  then show ?thesis
    using strip_suffix [of space_sequences s] by (meson prefix_imp_sublist sublist_order.order.trans suffix_imp_sublist)
qed

lemma trim_space_idem [simp]: "trim_space (trim_space s) = trim_space s"
proof -
  let ?l = "strip space_sequences s"
  have pre: "prefix (trim_space s) ?l"
    using strip_suffix [of "map rev space_sequences" "rev ?l"]
    by (simp only: trim_space_def suffix_to_prefix rev_rev_ident)
  have "\<not> prefix p (trim_space s)" if "p \<in> set space_sequences" "p \<noteq> []" for p
    using strip_done [OF that, of s] pre prefix_order.trans by blast
  then have left: "strip space_sequences (trim_space s) = trim_space s" by (intro strip_same) blast
  have "strip (map rev space_sequences) (strip (map rev space_sequences) (rev ?l))
      = strip (map rev space_sequences) (rev ?l)"
    using strip_done [of _ "map rev space_sequences" "rev ?l"] by (intro strip_same) blast
  then have right: "strip (map rev space_sequences) (rev (trim_space s)) = rev (trim_space s)"
    by (simp only: trim_space_def rev_rev_ident)
  have "trim_space (trim_space s) = rev (strip (map rev space_sequences) (rev (strip space_sequences (trim_space s))))"
    by (rule trim_space_def)
  then show ?thesis by (simp only: left right rev_rev_ident)
qed

section \<open>Cutting and splitting\<close>

definition string_cut :: "char \<Rightarrow> string \<Rightarrow> (string \<times> string) option" where
  "string_cut c s = (if c \<in> set s then Some (takeWhile (\<lambda>x. x \<noteq> c) s, tl (dropWhile (\<lambda>x. x \<noteq> c) s)) else None)"

fun string_split :: "char \<Rightarrow> string \<Rightarrow> string list" where
  "string_split c [] = [[]]"
| "string_split c (x # xs) =
     (if x = c then [] # string_split c xs
      else case string_split c xs of [] \<Rightarrow> [[x]] | y # ys \<Rightarrow> (x # y) # ys)"

lemma string_split_not_Nil [simp]: "string_split c s \<noteq> []"
  by (induction s) (auto split: list.splits)

lemma string_split_plain: "c \<notin> set s \<Longrightarrow> string_split c s = [s]"
  by (induction s) auto

lemma string_split_append: "c \<notin> set s \<Longrightarrow> string_split c (s @ c # t) = s # string_split c t"
  by (induction s) auto

lemma string_cut_append: "c \<notin> set s \<Longrightarrow> string_cut c (s @ c # t) = Some (s, t)"
  by (simp add: string_cut_def takeWhile_append dropWhile_append)

definition lower_ascii :: "char \<Rightarrow> char" where
  "lower_ascii c = (if 65 \<le> (of_char c :: nat) \<and> (of_char c :: nat) \<le> 90 then char_of (of_char c + 32 :: nat) else c)"

text \<open>\<open>strings.EqualFold\<close> against an ASCII word without \<open>k\<close> and \<open>s\<close>, the letters with folds outside ASCII.\<close>

definition equal_fold :: "string \<Rightarrow> string \<Rightarrow> bool" where
  "equal_fold s w \<longleftrightarrow> map lower_ascii s = map lower_ascii w"

section \<open>Network addresses\<close>

definition index_of :: "char \<Rightarrow> string \<Rightarrow> nat option" where
  "index_of c s = (if c \<in> set s then Some (length (takeWhile (\<lambda>x. x \<noteq> c) s)) else None)"

definition last_index_of :: "char \<Rightarrow> string \<Rightarrow> nat option" where
  "last_index_of c s = map_option (\<lambda>i. length s - 1 - i) (index_of c (rev s))"

text \<open>The host part of \<open>net.SplitHostPort\<close>; \<open>None\<close> is an error.\<close>

definition split_host :: "string \<Rightarrow> string option" where
  "split_host s =
     (case last_index_of (CHR '':'') s of
        None \<Rightarrow> None
      | Some i \<Rightarrow>
          if hd s = CHR ''['' then
            (case index_of (CHR '']'') s of
               None \<Rightarrow> None
             | Some e \<Rightarrow>
                 if e + 1 \<noteq> i then None
                 else if CHR ''['' \<in> set (drop 1 s) \<or> CHR '']'' \<in> set (drop (e + 1) s) then None
                 else Some (take (e - 1) (drop 1 s)))
          else if CHR '':'' \<in> set (take i s) then None
          else if CHR ''['' \<in> set s \<or> CHR '']'' \<in> set s then None
          else Some (take i s))"

end
