(* ===== verification/Product_Model.thy ===== *)
theory Product_Model
  imports Event_Store Go_Context Go_Strings
begin

text \<open>
  The data of the order-integration product, \<open>internal/product/model.go\<close>, and its errors. An error
  is a sentinel, an error from outside the program (the database, Redis, the HTTP client, a
  context), or a \<open>fmt.Errorf\<close> that wraps another one with \<open>%w\<close>, text in front or behind.
  \<open>product_is\<close> is \<open>errors.Is\<close>, \<open>error_text\<close> is \<open>Error\<close>.
\<close>

datatype product_error =
    Err_invalid_input
  | Err_not_found
  | Err_idempotency_conflict
  | Err_coordination_unavailable
  | Err_invalid_signature
  | Err_ignored_event
  | Redis_nil
  | Pg_error string string
  | Ctx_done go_error
  | Other_error string
  | Wrapped string product_error string

text \<open>\<open>Wrapped pre e post\<close> is the error whose text is that of \<open>e\<close> between the two texts. A database
  error has its \<open>SQLSTATE\<close> and its text.\<close>

fun product_is :: "product_error \<Rightarrow> product_error \<Rightarrow> bool" where
  "product_is (Wrapped pre e post) target \<longleftrightarrow> Wrapped pre e post = target \<or> product_is e target"
| "product_is e target \<longleftrightarrow> e = target"

fun go_error_text :: "go_error \<Rightarrow> string" where
  "go_error_text CtxCanceled = ''context canceled''"
| "go_error_text CtxDeadlineExceeded = ''context deadline exceeded''"
| "go_error_text e = []"

fun error_text :: "product_error \<Rightarrow> string" where
  "error_text Err_invalid_input = ''invalid product input''"
| "error_text Err_not_found = ''resource not found''"
| "error_text Err_idempotency_conflict = ''idempotency key reused with a different payload''"
| "error_text Err_coordination_unavailable = ''redis coordination unavailable''"
| "error_text Err_invalid_signature = ''invalid webhook signature''"
| "error_text Err_ignored_event = ''webhook event does not create an order''"
| "error_text Redis_nil = ''redis: nil''"
| "error_text (Pg_error code text) = text"
| "error_text (Ctx_done e) = go_error_text e"
| "error_text (Other_error text) = text"
| "error_text (Wrapped pre e post) = pre @ error_text e @ post"

lemma product_is_refl [simp]: "product_is e e"
  by (cases e) simp_all

lemma product_is_wrapped: "product_is e target \<Longrightarrow> product_is (Wrapped pre e post) target"
  by simp

section \<open>Data\<close>

record create_order_request =
  rq_tenant :: string
  rq_key :: string
  rq_fingerprint :: string
  rq_source :: string
  rq_external_id :: string
  rq_event_id :: string
  rq_quantity :: int
  rq_webhook_url :: string
  rq_max_attempts :: int

record order_result =
  or_order :: order
  or_replayed :: bool

type_synonym delivery_status = string

definition delivery_pending :: delivery_status where "delivery_pending = ''pending''"
definition delivery_processing :: delivery_status where "delivery_processing = ''processing''"
definition delivery_delivered :: delivery_status where "delivery_delivered = ''delivered''"
definition delivery_dead_letter :: delivery_status where "delivery_dead_letter = ''dead_letter''"

lemmas delivery_status_defs = delivery_pending_def delivery_processing_def delivery_delivered_def delivery_dead_letter_def

lemma delivery_status_distinct [simp]:
  "delivery_pending \<noteq> delivery_processing" "delivery_processing \<noteq> delivery_pending"
  "delivery_pending \<noteq> delivery_delivered" "delivery_delivered \<noteq> delivery_pending"
  "delivery_pending \<noteq> delivery_dead_letter" "delivery_dead_letter \<noteq> delivery_pending"
  "delivery_processing \<noteq> delivery_delivered" "delivery_delivered \<noteq> delivery_processing"
  "delivery_processing \<noteq> delivery_dead_letter" "delivery_dead_letter \<noteq> delivery_processing"
  "delivery_delivered \<noteq> delivery_dead_letter" "delivery_dead_letter \<noteq> delivery_delivered"
  by (simp_all add: delivery_status_defs)

record webhook_delivery =
  wd_id :: string
  wd_tenant :: string
  wd_event_type :: string
  wd_payload :: string
  wd_target :: string
  wd_status :: delivery_status
  wd_attempts :: int
  wd_max_attempts :: int
  wd_next_attempt :: gotime
  wd_last_error :: string
  wd_created :: gotime
  wd_updated :: gotime

record integration_order =
  io_key :: string
  io_external_id :: string
  io_input :: create_order_input

end
