(* ===== verification/Go_Time.thy ===== *)
theory Go_Time
  imports Go_Strings
begin

text \<open>
  \<open>time.Time\<close> in JSON: \<open>MarshalJSON\<close> prints a UTC time in the form of RFC 3339 with as many digits of
  the fraction as it needs, \<open>UnmarshalJSON\<close> reads that form with any zone. A \<open>gotime\<close> counts from the
  first of January of year 1; the year 0 before it is a leap year. Texts that only the lax rules of
  \<open>time.Parse\<close> accept (a one-digit hour, a comma before the fraction) are refused here. The theory shows
  that reading inverts printing on every time that has a JSON form.
\<close>

section \<open>The calendar\<close>

definition leap_year :: "nat \<Rightarrow> bool" where
  "leap_year y \<longleftrightarrow> y mod 4 = 0 \<and> (y mod 100 \<noteq> 0 \<or> y mod 400 = 0)"

definition year_days :: "nat \<Rightarrow> nat" where
  "year_days y = (if leap_year y then 366 else 365)"

definition month_days :: "nat \<Rightarrow> nat list" where
  "month_days y = [31, if leap_year y then 29 else 28, 31, 30, 31, 30, 31, 31, 30, 31, 30, 31]"

text \<open>The days from the beginning of year 0 to the beginning of a year.\<close>

definition days_before :: "nat \<Rightarrow> int" where
  "days_before y = 365 * int y + (int y + 3) div 4 - (int y + 99) div 100 + (int y + 399) div 400"

lemma year_days_pos [simp]: "0 < year_days y"
  by (simp add: year_days_def)

function split_year :: "nat \<Rightarrow> nat \<Rightarrow> nat \<times> nat" where
  "split_year y d = (if d < year_days y then (y, d) else split_year (Suc y) (d - year_days y))"
  by pat_completeness auto
termination
  by (relation "measure snd") (auto simp: year_days_def split: if_splits)

declare split_year.simps [simp del]

fun split_month :: "nat list \<Rightarrow> nat \<Rightarrow> nat \<times> nat" where
  "split_month [] d = (0, d)"
| "split_month (n # ns) d =
     (if d < n then (0, d) else (case split_month ns (d - n) of (m, r) \<Rightarrow> (Suc m, r)))"

lemma days_before_0 [simp]: "days_before 0 = 0"
  by (simp add: days_before_def)

lemma div_shift: "0 < k \<Longrightarrow> (Suc y + (k - 1)) div k = (y + (k - 1)) div k + (if y mod k = 0 then 1 else 0)"
proof -
  assume k: "0 < k"
  then have "Suc (y + (k - 1)) = y + k" by simp
  moreover have "(y + k) mod k = y mod k" by simp
  ultimately show ?thesis using div_Suc [of "y + (k - 1)" k] by simp
qed

lemma days_before_Suc: "days_before (Suc y) = days_before y + int (year_days y)"
proof -
  define f where "f k n = (n + (k - 1)) div k" for k n :: nat
  have f: "days_before n = 365 * int n + int (f 4 n) - int (f 100 n) + int (f 400 n)" for n
    by (simp add: days_before_def f_def zdiv_int)
  have s: "f k (Suc y) = f k y + (if y mod k = 0 then 1 else 0)" if "0 < k" for k
    using div_shift [OF that] by (simp add: f_def)
  have m: "y mod 400 = 0 \<Longrightarrow> y mod 100 = 0" "y mod 100 = 0 \<Longrightarrow> y mod 4 = 0"
    using dvd_trans [of 100 400 y] dvd_trans [of 4 100 y] by (simp_all add: dvd_eq_mod_eq_0)
  show ?thesis unfolding f s [of 4, simplified] s [of 100, simplified] s [of 400, simplified]
    using m by (auto simp: year_days_def leap_year_def)
qed

lemma split_year_spec:
  "split_year y d = (y', d') \<Longrightarrow> days_before y' + int d' = days_before y + int d \<and> d' < year_days y' \<and> y \<le> y'"
proof (induction y d rule: split_year.induct)
  case (1 y d)
  show ?case
  proof (cases "d < year_days y")
    case True
    then show ?thesis using 1(2) by (simp add: split_year.simps [of y d])
  next
    case False
    then show ?thesis using 1 by (auto simp: split_year.simps [of y d] days_before_Suc)
  qed
qed

lemma days_before_mono: "x \<le> y \<Longrightarrow> days_before x \<le> days_before y"
  by (rule lift_Suc_mono_le [of days_before]) (simp_all add: days_before_Suc)

lemma days_before_10000: "days_before 10000 = 3652425"
  by (simp add: days_before_def)

lemma split_year_below:
  assumes "split_year 0 d = (y, r)" and "int d < 3652425"
  shows "y \<le> 9999"
proof (rule ccontr)
  assume "\<not> y \<le> 9999"
  then have "days_before 10000 \<le> days_before y" by (intro days_before_mono) simp
  moreover have "days_before y + int r = int d" using split_year_spec [OF assms(1)] by simp
  ultimately show False using assms(2) days_before_10000 by linarith
qed

lemma split_month_spec:
  "split_month ns d = (m, r) \<Longrightarrow> d < sum_list ns \<Longrightarrow> m < length ns \<and> r < ns ! m \<and> sum_list (take m ns) + r = d"
proof (induction ns arbitrary: d m r)
  case (Cons n ns)
  show ?case
  proof (cases "d < n")
    case False
    obtain m' where s: "split_month ns (d - n) = (m', r)" "m = Suc m'"
      using Cons.prems(1) False by (auto split: prod.splits)
    have "d - n < sum_list ns" using Cons.prems(2) False by simp
    from Cons.IH [OF s(1) this] show ?thesis using s(2) False by auto
  qed (use Cons.prems in auto)
qed simp

lemma sum_month_days: "sum_list (month_days y) = year_days y"
  by (simp add: month_days_def year_days_def)

lemma month_days_length [simp]: "length (month_days y) = 12"
  by (simp add: month_days_def)

lemma month_days_le: "m < 12 \<Longrightarrow> month_days y ! m \<le> 31"
  by (auto simp: month_days_def less_Suc_eq numeral_eq_Suc)

section \<open>Printing\<close>

text \<open>A number with a fixed count of decimal digits.\<close>

fun fixed_digits :: "nat \<Rightarrow> nat \<Rightarrow> string" where
  "fixed_digits 0 n = []"
| "fixed_digits (Suc k) n = fixed_digits k (n div 10) @ [digit_char (n mod 10)]"

lemma fixed_digits_length [simp]: "length (fixed_digits k n) = k"
  by (induction k arbitrary: n) simp_all

lemma fixed_digits_value: "n < 10 ^ k \<Longrightarrow> digits_value (fixed_digits k n) = n"
proof (induction k arbitrary: n)
  case 0
  then show ?case by (simp add: digits_value_def)
next
  case (Suc k)
  have "n div 10 < 10 ^ k" using Suc.prems by (simp add: less_mult_imp_div_less mult.commute)
  then show ?case using Suc.IH by simp
qed

lemma fixed_digits_digits: "c \<in> set (fixed_digits k n) \<Longrightarrow> is_digit c"
  by (induction k arbitrary: n) auto

definition trim_zeros :: "string \<Rightarrow> string" where
  "trim_zeros s = rev (dropWhile (\<lambda>c. c = CHR ''0'') (rev s))"

definition format_rfc3339 :: "gotime \<Rightarrow> string" where
  "format_rfc3339 t =
     (let secs = t div second; days = secs div 86400 + 366; clock = nat (secs mod 86400);
          (y, yd) = split_year 0 (nat days);
          (m, md) = split_month (month_days y) yd;
          fraction = trim_zeros (fixed_digits 9 (nat (t mod second)))
      in fixed_digits 4 y @ ''-'' @ fixed_digits 2 (Suc m) @ ''-'' @ fixed_digits 2 (Suc md) @ ''T'' @
         fixed_digits 2 (clock div 3600) @ '':'' @ fixed_digits 2 (clock div 60 mod 60) @ '':'' @ fixed_digits 2 (clock mod 60) @
         (if fraction = [] then [] else CHR ''.'' # fraction) @ ''Z'')"

section \<open>Reading\<close>

definition number_between :: "nat \<Rightarrow> nat \<Rightarrow> string \<Rightarrow> nat option" where
  "number_between lo hi s =
     (if (\<forall>c \<in> set s. is_digit c) \<and> lo \<le> digits_value s \<and> digits_value s \<le> hi then Some (digits_value s) else None)"

definition nanoseconds :: "string \<Rightarrow> nat" where
  "nanoseconds ds = digits_value (take 9 ds) * 10 ^ (9 - length (take 9 ds))"

definition read_fraction :: "string \<Rightarrow> nat \<times> string" where
  "read_fraction s =
     (case s of
        p # d # cs \<Rightarrow>
          if p = CHR ''.'' \<and> is_digit d
          then (nanoseconds (takeWhile is_digit (d # cs)), dropWhile is_digit (d # cs)) else (0, s)
      | _ \<Rightarrow> (0, s))"

text \<open>The offset of a zone in seconds.\<close>

definition read_zone :: "string \<Rightarrow> int option" where
  "read_zone s =
     (if s = ''Z'' then Some 0
      else if length s \<noteq> 6 \<or> \<not> (s ! 0 = CHR ''+'' \<or> s ! 0 = CHR ''-'') \<or> s ! 3 \<noteq> CHR '':'' then None
      else case number_between 0 23 (take 2 (drop 1 s)) of
             None \<Rightarrow> None
           | Some h \<Rightarrow>
               (case number_between 0 59 (drop 4 s) of
                  None \<Rightarrow> None
                | Some m \<Rightarrow> Some ((if s ! 0 = CHR ''-'' then - 1 else 1) * (int h * 3600 + int m * 60))))"

definition civil_seconds :: "nat \<Rightarrow> nat \<Rightarrow> nat \<Rightarrow> nat \<Rightarrow> int" where
  "civil_seconds y m d clock =
     (days_before y + int (sum_list (take (m - 1) (month_days y))) + int (d - 1) - 366) * 86400 + int clock"

definition parse_rfc3339 :: "string \<Rightarrow> gotime option" where
  "parse_rfc3339 s =
     (if length s < 19 \<or> s ! 4 \<noteq> CHR ''-'' \<or> s ! 7 \<noteq> CHR ''-'' \<or> s ! 10 \<noteq> CHR ''T'' \<or> s ! 13 \<noteq> CHR '':'' \<or> s ! 16 \<noteq> CHR '':''
      then None
      else case number_between 0 9999 (take 4 s) of None \<Rightarrow> None | Some y \<Rightarrow>
           (case number_between 1 12 (take 2 (drop 5 s)) of None \<Rightarrow> None | Some m \<Rightarrow>
           (case number_between 1 (month_days y ! (m - 1)) (take 2 (drop 8 s)) of None \<Rightarrow> None | Some d \<Rightarrow>
           (case number_between 0 23 (take 2 (drop 11 s)) of None \<Rightarrow> None | Some h \<Rightarrow>
           (case number_between 0 59 (take 2 (drop 14 s)) of None \<Rightarrow> None | Some mi \<Rightarrow>
           (case number_between 0 59 (take 2 (drop 17 s)) of None \<Rightarrow> None | Some se \<Rightarrow>
           (case read_fraction (drop 19 s) of (nanos, zone) \<Rightarrow>
           (case read_zone zone of None \<Rightarrow> None | Some off \<Rightarrow>
              Some ((civil_seconds y m d (h * 3600 + mi * 60 + se) - off) * second + int nanos)))))))))"

section \<open>Reading inverts printing\<close>

text \<open>The times with a year from 0 to 9999, which have a JSON form.\<close>

definition json_time_ok :: "gotime \<Rightarrow> bool" where
  "json_time_ok t \<longleftrightarrow> - 31622400 * second \<le> t \<and> t < 315537897600 * second"

lemma number_between_fixed:
  "n < 10 ^ k \<Longrightarrow> lo \<le> n \<Longrightarrow> n \<le> hi \<Longrightarrow> number_between lo hi (fixed_digits k n) = Some n"
  by (auto simp: number_between_def fixed_digits_value dest: fixed_digits_digits)

lemma digits_value_zeros: "digits_value (s @ replicate k (CHR ''0'')) = digits_value s * 10 ^ k"
proof (induction k)
  case (Suc k)
  have "digits_value (s @ replicate (Suc k) (CHR ''0'')) = digits_value ((s @ replicate k (CHR ''0'')) @ [CHR ''0''])"
    by (simp add: replicate_append_same)
  also have "\<dots> = digits_value s * 10 ^ Suc k" by (simp only: digits_value_snoc Suc.IH) simp
  finally show ?case .
qed simp

lemma trim_zeros_split: "\<exists>k. s = trim_zeros s @ replicate k (CHR ''0'')"
proof -
  let ?z = "takeWhile (\<lambda>c. c = CHR ''0'') (rev s)"
  have "rev s = ?z @ dropWhile (\<lambda>c. c = CHR ''0'') (rev s)" by simp
  then have "s = trim_zeros s @ rev ?z" unfolding trim_zeros_def by (metis rev_append rev_rev_ident)
  moreover have "?z = replicate (length ?z) (CHR ''0'')"
    by (rule replicate_eqI) (auto dest: set_takeWhileD)
  ultimately show ?thesis by (metis rev_replicate)
qed

lemma nanoseconds_trim:
  assumes "n < 10 ^ 9"
  shows "nanoseconds (trim_zeros (fixed_digits 9 n)) = n"
proof -
  obtain k where k: "fixed_digits 9 n = trim_zeros (fixed_digits 9 n) @ replicate k (CHR ''0'')"
    using trim_zeros_split by blast
  have l: "length (trim_zeros (fixed_digits 9 n)) + k = 9" using arg_cong [OF k, of length] by simp
  have "digits_value (trim_zeros (fixed_digits 9 n)) * 10 ^ k = n"
    using arg_cong [OF k, of digits_value] fixed_digits_value [OF assms] by (simp add: digits_value_zeros)
  moreover have "9 - length (trim_zeros (fixed_digits 9 n)) = k" using l by simp
  ultimately show ?thesis using l by (simp add: nanoseconds_def)
qed

lemma read_fraction_printed:
  assumes "n < 10 ^ 9"
  shows "read_fraction ((if trim_zeros (fixed_digits 9 n) = [] then [] else CHR ''.'' # trim_zeros (fixed_digits 9 n)) @ ''Z'') = (n, ''Z'')"
proof (cases "trim_zeros (fixed_digits 9 n)")
  case Nil
  then show ?thesis using nanoseconds_trim [OF assms] by (simp add: read_fraction_def nanoseconds_def digits_value_def)
next
  case (Cons d cs)
  obtain k where "fixed_digits 9 n = trim_zeros (fixed_digits 9 n) @ replicate k (CHR ''0'')"
    using trim_zeros_split by blast
  then have "set (d # cs) \<subseteq> set (fixed_digits 9 n)" using Cons by (metis Un_upper1 set_append)
  then have ds: "\<forall>c \<in> set (d # cs). is_digit c" by (auto dest: fixed_digits_digits)
  have z: "\<not> is_digit (CHR ''Z'')" by (simp add: is_digit_def)
  have "takeWhile is_digit ((d # cs) @ ''Z'') = d # cs" "dropWhile is_digit ((d # cs) @ ''Z'') = ''Z''"
    using ds z by (simp_all only: takeWhile_append2 dropWhile_append2 simp_thms) simp_all
  then show ?thesis using Cons ds nanoseconds_trim [OF assms] by (simp add: read_fraction_def)
qed

text \<open>The fields of a printed time, by their positions.\<close>

lemma printed_fields:
  assumes "length ys = 4" "length ms = 2" "length ds = 2" "length hs = 2" "length mis = 2" "length ss = 2"
    and "s = ys @ ''-'' @ ms @ ''-'' @ ds @ ''T'' @ hs @ '':'' @ mis @ '':'' @ ss @ rest"
  shows "19 \<le> length s" "s ! 4 = CHR ''-''" "s ! 7 = CHR ''-''" "s ! 10 = CHR ''T''" "s ! 13 = CHR '':''" "s ! 16 = CHR '':''"
    "take 4 s = ys" "take 2 (drop 5 s) = ms" "take 2 (drop 8 s) = ds" "take 2 (drop 11 s) = hs" "take 2 (drop 14 s) = mis"
    "take 2 (drop 17 s) = ss" "drop 19 s = rest"
  using assms by (simp_all add: nth_append)

theorem parse_format: "json_time_ok t \<Longrightarrow> parse_rfc3339 (format_rfc3339 t) = Some t"
proof -
  assume ok: "json_time_ok t"
  define secs clock n where "secs = t div second" and "clock = nat (secs mod 86400)" and "n = nat (t mod second)"
  have sec: "second = 1000000000" by (simp add: go_duration_defs)
  have t: "t = secs * second + int n" by (simp add: secs_def n_def sec)
  have n: "n < 10 ^ 9" by (simp add: n_def sec nat_less_iff)
  have secs: "- 31622400 \<le> secs" "secs < 315537897600" using ok by (auto simp: json_time_ok_def secs_def sec)
  define d where "d = nat (secs div 86400 + 366)"
  have d: "int d = secs div 86400 + 366" "int d < 3652425" using secs by (auto simp: d_def)
  obtain y yd where y: "split_year 0 d = (y, yd)" by fastforce
  note ys = split_year_spec [OF y] split_year_below [OF y d(2)]
  obtain m md where m: "split_month (month_days y) yd = (m, md)" by fastforce
  note ms = split_month_spec [OF m, unfolded sum_month_days month_days_length]
  have md: "m < 12" "md < month_days y ! m" "sum_list (take m (month_days y)) + md = yd" using ms ys by simp_all
  have md31: "Suc md \<le> 31" using month_days_le [OF md(1), of y] md(2) by linarith
  have clock: "clock < 86400" "int clock = secs mod 86400" by (simp_all add: clock_def nat_less_iff)
  have hms: "clock div 3600 \<le> 23" "clock div 60 mod 60 \<le> 59" "clock mod 60 \<le> 59"
    "clock div 3600 * 3600 + clock div 60 mod 60 * 60 + clock mod 60 = clock"
  proof -
    have split: "clock = clock div 60 * 60 + clock mod 60" "clock div 60 = clock div 3600 * 60 + clock div 60 mod 60"
      using div_mult_mod_eq [of clock 60] div_mult_mod_eq [of "clock div 60" 60] div_mult2_eq [of clock 60 60] by simp_all
    have "clock div 3600 < 24" using clock(1) by (simp add: less_mult_imp_div_less)
    moreover have "clock div 60 mod 60 < 60" "clock mod 60 < 60" by simp_all
    ultimately show "clock div 3600 \<le> 23" "clock div 60 mod 60 \<le> 59" "clock mod 60 \<le> 59" by linarith+
    show "clock div 3600 * 3600 + clock div 60 mod 60 * 60 + clock mod 60 = clock" using split by linarith
  qed
  let ?tail = "(if trim_zeros (fixed_digits 9 n) = [] then [] else CHR ''.'' # trim_zeros (fixed_digits 9 n)) @ ''Z''"
  have s: "format_rfc3339 t = fixed_digits 4 y @ ''-'' @ fixed_digits 2 (Suc m) @ ''-'' @ fixed_digits 2 (Suc md) @ ''T'' @
      fixed_digits 2 (clock div 3600) @ '':'' @ fixed_digits 2 (clock div 60 mod 60) @ '':'' @ fixed_digits 2 (clock mod 60) @ ?tail"
    unfolding format_rfc3339_def Let_def secs_def [symmetric] clock_def [symmetric] n_def [symmetric] d_def [symmetric]
    by (simp only: y m prod.case)
  note F = printed_fields [OF fixed_digits_length fixed_digits_length fixed_digits_length fixed_digits_length
      fixed_digits_length fixed_digits_length s]
  have N: "number_between 0 9999 (fixed_digits 4 y) = Some y"
    "number_between 1 12 (fixed_digits 2 (Suc m)) = Some (Suc m)"
    "number_between 1 (month_days y ! (Suc m - 1)) (fixed_digits 2 (Suc md)) = Some (Suc md)"
    "number_between 0 23 (fixed_digits 2 (clock div 3600)) = Some (clock div 3600)"
    "number_between 0 59 (fixed_digits 2 (clock div 60 mod 60)) = Some (clock div 60 mod 60)"
    "number_between 0 59 (fixed_digits 2 (clock mod 60)) = Some (clock mod 60)"
    using ys md md31 hms by (intro number_between_fixed; simp)+
  have c: "civil_seconds y (Suc m) (Suc md) clock = secs"
  proof -
    have "days_before y + int yd = int d" using ys by simp
    then have "days_before y + int (sum_list (take m (month_days y))) + int md - 366 = secs div 86400"
      using md(3) d(1) by linarith
    then show ?thesis using clock(2) by (simp add: civil_seconds_def)
  qed
  have "parse_rfc3339 (format_rfc3339 t) = Some ((civil_seconds y (Suc m) (Suc md) clock - 0) * second + int n)"
    unfolding parse_rfc3339_def F N option.case read_fraction_printed [OF n] prod.case hms(4)
    using F(1) by (simp add: read_zone_def)
  then show ?thesis by (simp only: c) (simp add: t)
qed

end
