(* ===== verification/Go_Json.thy ===== *)
theory Go_Json
  imports Go_Time
begin

text \<open>
  Go's \<open>encoding/json\<close> as far as the handlers use it. A request body is the sequence of JSON values
  that a \<open>Decoder\<close> reads from it, and how it ends: in white space only, or in a syntax error, a read
  error or an exceeded limit. Decoding into a struct follows the package: \<open>null\<close> changes nothing,
  members are taken in order, a key selects the field of that name or else of the same folded
  name, unknown keys are errors only when \<open>DisallowUnknownFields\<close> was called, and a value of the
  wrong type is an error. A decoder is a function from the value and the old contents to the new
  contents and whether there was no error.
\<close>

datatype json =
    JNull
  | JBool bool
  | JNumber string
  | JString string
  | JArray "json list"
  | JObject "(string \<times> json) list"

record json_stream =
  js_values :: "json list"
  js_clean :: bool

type_synonym 'a json_decoder = "json \<Rightarrow> 'a \<Rightarrow> 'a \<times> bool"

section \<open>Keys\<close>

text \<open>
  The folded form of a key, in so far as it can equal the folded form of an ASCII field name: the
  letters \<open>k\<close> and \<open>s\<close> have one fold each outside ASCII, the Kelvin sign and the long s.
\<close>

fun fold_key :: "string \<Rightarrow> string" where
  "fold_key [] = []"
| "fold_key (c # cs) =
     (if prefix [CHR 0xC5, CHR 0xBF] (c # cs) then CHR ''s'' # fold_key (drop 1 cs)
      else if prefix [CHR 0xE2, CHR 0x84, CHR 0xAA] (c # cs) then CHR ''k'' # fold_key (drop 2 cs)
      else lower_ascii c # fold_key cs)"

definition find_field :: "(string \<times> 'd) list \<Rightarrow> string \<Rightarrow> 'd option" where
  "find_field fs k =
     (case map_of fs k of
        Some d \<Rightarrow> Some d
      | None \<Rightarrow> map_of (map (\<lambda>(n, d). (fold_key n, d)) fs) (fold_key k))"

section \<open>Decoders\<close>

definition dec_string :: "string json_decoder" where
  "dec_string j old = (case j of JString s \<Rightarrow> (s, True) | JNull \<Rightarrow> (old, True) | _ \<Rightarrow> (old, False))"

definition dec_int :: "int json_decoder" where
  "dec_int j old =
     (case j of
        JNumber s \<Rightarrow> (case parse_int s of Some n \<Rightarrow> (n, True) | None \<Rightarrow> (old, False))
      | JNull \<Rightarrow> (old, True)
      | _ \<Rightarrow> (old, False))"

definition dec_uint64 :: "u64 json_decoder" where
  "dec_uint64 j old =
     (case j of
        JNumber s \<Rightarrow> (case parse_uint s of (n, ok) \<Rightarrow> if ok then (of_nat n, True) else (old, False))
      | JNull \<Rightarrow> (old, True)
      | _ \<Rightarrow> (old, False))"

definition dec_bool :: "bool json_decoder" where
  "dec_bool j old = (case j of JBool b \<Rightarrow> (b, True) | JNull \<Rightarrow> (old, True) | _ \<Rightarrow> (old, False))"

text \<open>A \<open>time.Time\<close>; a text that is no time leaves the zero time behind.\<close>

definition dec_time :: "gotime json_decoder" where
  "dec_time j old =
     (case j of
        JString s \<Rightarrow> (case parse_rfc3339 s of Some t \<Rightarrow> (t, True) | None \<Rightarrow> (0, False))
      | JNull \<Rightarrow> (old, True)
      | _ \<Rightarrow> (old, False))"

text \<open>\<open>isValidNumber\<close>, the check for a string that is decoded into a \<open>json.Number\<close>.\<close>

definition skip_digits :: "string \<Rightarrow> string" where
  "skip_digits = dropWhile is_digit"

definition skip_fraction :: "string \<Rightarrow> string" where
  "skip_fraction s =
     (case s of d # c # cs \<Rightarrow> if d = CHR ''.'' \<and> is_digit c then skip_digits cs else s | _ \<Rightarrow> s)"

definition exponent_ok :: "string \<Rightarrow> bool" where
  "exponent_ok s \<longleftrightarrow>
     (case s of
        e # c # cs \<Rightarrow>
          (if e = CHR ''e'' \<or> e = CHR ''E''
           then if c = CHR ''+'' \<or> c = CHR ''-'' then cs \<noteq> [] \<and> skip_digits cs = [] else skip_digits (c # cs) = []
           else False)
      | _ \<Rightarrow> s = [])"

definition valid_number :: "string \<Rightarrow> bool" where
  "valid_number s0 \<longleftrightarrow>
     (let s = (if s0 \<noteq> [] \<and> hd s0 = CHR ''-'' then tl s0 else s0)
      in case s of
           [] \<Rightarrow> False
         | c # cs \<Rightarrow>
             if c = CHR ''0'' then exponent_ok (skip_fraction cs)
             else is_digit c \<and> exponent_ok (skip_fraction (skip_digits cs)))"

definition dec_number :: "string json_decoder" where
  "dec_number j old =
     (case j of
        JNumber s \<Rightarrow> (s, True)
      | JString s \<Rightarrow> if valid_number s then (s, True) else (old, False)
      | JNull \<Rightarrow> (old, True)
      | _ \<Rightarrow> (old, False))"

definition dec_member :: "bool \<Rightarrow> (string \<times> 'a json_decoder) list \<Rightarrow> 'a \<times> bool \<Rightarrow> string \<times> json \<Rightarrow> 'a \<times> bool" where
  "dec_member strict fs r m =
     (case find_field fs (fst m) of
        None \<Rightarrow> (fst r, snd r \<and> \<not> strict)
      | Some d \<Rightarrow> (fst (d (snd m) (fst r)), snd r \<and> snd (d (snd m) (fst r))))"

definition dec_struct :: "bool \<Rightarrow> (string \<times> 'a json_decoder) list \<Rightarrow> 'a json_decoder" where
  "dec_struct strict fs j old =
     (case j of
        JObject ms \<Rightarrow> foldl (dec_member strict fs) (old, True) ms
      | JNull \<Rightarrow> (old, True)
      | _ \<Rightarrow> (old, False))"

text \<open>A decoder for one field of a record.\<close>

definition dec_field :: "('a \<Rightarrow> 'b) \<Rightarrow> ('b \<Rightarrow> 'a \<Rightarrow> 'a) \<Rightarrow> 'b json_decoder \<Rightarrow> 'a json_decoder" where
  "dec_field get put dec j old = (put (fst (dec j (get old))) old, snd (dec j (get old)))"

text \<open>
  A \<open>map[string]string\<close>: \<open>null\<close> makes it nil, an object adds its members, each decoded from the
  empty string.
\<close>

definition dec_string_map :: "(string \<rightharpoonup> string) json_decoder" where
  "dec_string_map j old =
     (case j of
        JObject ms \<Rightarrow> foldl (\<lambda>(m, ok) (k, v). (m(k \<mapsto> fst (dec_string v [])), ok \<and> snd (dec_string v []))) (old, True) ms
      | JNull \<Rightarrow> (Map.empty, True)
      | _ \<Rightarrow> (old, False))"

text \<open>
  A slice, as the elements of its backing array and its length. An element that is still in the
  backing array is decoded into, not replaced: this is visible when a key occurs more than once.
\<close>

fun dec_elements :: "'a json_decoder \<Rightarrow> 'a \<Rightarrow> nat \<Rightarrow> json list \<Rightarrow> 'a list \<Rightarrow> 'a list \<times> bool" where
  "dec_elements dec zero i [] xs = (xs, True)"
| "dec_elements dec zero i (j # js) xs =
     (let r = dec j (if i < length xs then xs ! i else zero);
          rest = dec_elements dec zero (Suc i) js (if i < length xs then xs[i := fst r] else xs @ [fst r])
      in (fst rest, snd r \<and> snd rest))"

definition dec_slice :: "'a json_decoder \<Rightarrow> 'a \<Rightarrow> ('a list \<times> nat) json_decoder" where
  "dec_slice dec zero j old =
     (case j of
        JArray js \<Rightarrow>
          (if js = [] then (([], 0), True)
           else ((fst (dec_elements dec zero 0 js (fst old)), length js), snd (dec_elements dec zero 0 js (fst old))))
      | JNull \<Rightarrow> (([], 0), True)
      | _ \<Rightarrow> (old, False))"

definition slice_elements :: "'a list \<times> nat \<Rightarrow> 'a list" where
  "slice_elements s = take (snd s) (fst s)"

section \<open>Bodies\<close>

text \<open>
  \<open>Decode\<close> of the first value, and the check that a second \<open>Decode\<close> meets the end of the body;
  \<open>None\<close> is an error of the first.
\<close>

definition decode_first :: "'a json_decoder \<Rightarrow> 'a \<Rightarrow> json_stream \<Rightarrow> 'a option" where
  "decode_first dec zero js =
     (case js_values js of
        [] \<Rightarrow> None
      | j # _ \<Rightarrow> if snd (dec j zero) then Some (fst (dec j zero)) else None)"

definition at_end :: "json_stream \<Rightarrow> bool" where
  "at_end js \<longleftrightarrow> length (js_values js) \<le> 1 \<and> js_clean js"

definition one_value :: "json \<Rightarrow> json_stream" where
  "one_value j = \<lparr>js_values = [j], js_clean = True\<rparr>"

lemma at_end_one [simp]: "at_end (one_value j)"
  by (simp add: at_end_def one_value_def)

lemma decode_first_one [simp]:
  "decode_first dec zero (one_value j) = (if snd (dec j zero) then Some (fst (dec j zero)) else None)"
  by (simp add: decode_first_def one_value_def)

section \<open>How decoding behaves\<close>

lemma dec_member_failed: "\<not> snd (foldl (dec_member strict fs) r ms)" if "\<not> snd r"
  using that by (induction ms arbitrary: r) (simp_all add: dec_member_def split: option.splits)

text \<open>A strict decoder refuses an object with any unknown key.\<close>

lemma dec_struct_unknown:
  assumes "(k, v) \<in> set ms" and "find_field fs k = None"
  shows "\<not> snd (dec_struct True fs (JObject ms) old)"
proof -
  obtain xs ys where ms: "ms = xs @ (k, v) # ys" using assms(1) by (meson split_list)
  have "\<not> snd (dec_member True fs r (k, v))" for r :: "'a \<times> bool"
    using assms(2) by (simp add: dec_member_def)
  then show ?thesis by (simp add: dec_struct_def ms dec_member_failed)
qed

lemma find_field_exact [simp]: "map_of fs k = Some d \<Longrightarrow> find_field fs k = Some d"
  by (simp add: find_field_def)

lemma dec_scalars [simp]:
  "dec_string (JString s) old = (s, True)" "dec_string JNull old = (old, True)"
  "dec_string (JNumber s) old = (old, False)"
  "dec_int JNull n = (n, True)" "dec_int (JString s) n = (n, False)"
  "dec_number (JNumber s) old = (s, True)"
  by (simp_all add: dec_string_def dec_int_def dec_number_def)

lemma dec_int_show [simp]: "in_int64 n \<Longrightarrow> dec_int (JNumber (show_int n)) old = (n, True)"
  by (simp add: dec_int_def parse_int_show)

lemma dec_uint64_show [simp]: "dec_uint64 (JNumber (show_nat (unat n))) old = (n, True)" for n :: u64
proof -
  have "unat n < 2 ^ 64" using unsigned_less [of n] by simp
  then show ?thesis by (simp add: dec_uint64_def parse_uint_show)
qed

lemma dec_bool_shown [simp]: "dec_bool (JBool b) old = (b, True)"
  by (simp add: dec_bool_def)

lemma dec_time_shown [simp]: "json_time_ok t \<Longrightarrow> dec_time (JString (format_rfc3339 t)) old = (t, True)"
  by (simp add: dec_time_def parse_format)

section \<open>Printing strings\<close>

text \<open>
  How \<open>json.Marshal\<close> prints a string: what needs it is escaped, invalid UTF-8 becomes the escape of
  the replacement character, and the line and paragraph separators are escaped too.
\<close>

definition continuation :: "char \<Rightarrow> bool" where
  "continuation c \<longleftrightarrow> 128 \<le> (of_char c :: nat) \<and> (of_char c :: nat) \<le> 191"

definition byte_between :: "nat \<Rightarrow> nat \<Rightarrow> char \<Rightarrow> bool" where
  "byte_between lo hi c \<longleftrightarrow> lo \<le> of_char c \<and> of_char c \<le> hi"

text \<open>The length of the character at the head of a byte string, 0 when it is not well-formed.\<close>

definition utf8_size :: "string \<Rightarrow> nat" where
  "utf8_size s =
     (case s of
        [] \<Rightarrow> 0
      | a # r \<Rightarrow>
          let n = (of_char a :: nat);
              second = (\<lambda>lo hi. r \<noteq> [] \<and> byte_between lo hi (hd r));
              more = (\<lambda>i. i < length r \<and> continuation (r ! i))
          in if n < 128 then 1
             else if 194 \<le> n \<and> n \<le> 223 then (if second 128 191 then 2 else 0)
             else if 224 \<le> n \<and> n \<le> 239 then
               (if second (if n = 224 then 160 else 128) (if n = 237 then 159 else 191) \<and> more 1 then 3 else 0)
             else if 240 \<le> n \<and> n \<le> 244 then
               (if second (if n = 240 then 144 else 128) (if n = 244 then 143 else 191) \<and> more 1 \<and> more 2 then 4 else 0)
             else 0)"

definition ascii_escape :: "char \<Rightarrow> string" where
  "ascii_escape c =
     (let n = (of_char c :: nat)
      in if c = CHR 0x22 \<or> c = CHR 0x5C then [CHR 0x5C, c]
         else if n = 8 then [CHR 0x5C, CHR ''b''] else if n = 12 then [CHR 0x5C, CHR ''f'']
         else if n = 10 then [CHR 0x5C, CHR ''n''] else if n = 13 then [CHR 0x5C, CHR ''r'']
         else if n = 9 then [CHR 0x5C, CHR ''t'']
         else if n < 32 \<or> c = CHR ''<'' \<or> c = CHR ''>'' \<or> c = CHR ''&''
         then [CHR 0x5C, CHR ''u'', CHR ''0'', CHR ''0'', hex_char (n div 16), hex_char (n mod 16)]
         else [c])"

fun json_escape :: "string \<Rightarrow> string" where
  "json_escape [] = []"
| "json_escape (c # cs) =
     (if (of_char c :: nat) < 128 then ascii_escape c @ json_escape cs
      else let k = utf8_size (c # cs)
        in if k = 0 then CHR 0x5C # ''ufffd'' @ json_escape cs
           else if take 3 (c # cs) = [CHR 0xE2, CHR 0x80, CHR 0xA8] then CHR 0x5C # ''u2028'' @ json_escape (drop 2 cs)
           else if take 3 (c # cs) = [CHR 0xE2, CHR 0x80, CHR 0xA9] then CHR 0x5C # ''u2029'' @ json_escape (drop 2 cs)
           else take k (c # cs) @ json_escape (drop (k - 1) cs))"

definition json_quote :: "string \<Rightarrow> string" where
  "json_quote s = [CHR 0x22] @ json_escape s @ [CHR 0x22]"

definition json_pair :: "string \<Rightarrow> string \<Rightarrow> string" where
  "json_pair s t = ''['' @ json_quote s @ '','' @ json_quote t @ '']''"

text \<open>What printing and reading make of a string: bytes that are no UTF-8 are replaced.\<close>

fun valid_text :: "string \<Rightarrow> string" where
  "valid_text [] = []"
| "valid_text (c # cs) =
     (let k = utf8_size (c # cs)
      in if k = 0 then [CHR 0xEF, CHR 0xBF, CHR 0xBD] @ valid_text cs
         else take k (c # cs) @ valid_text (drop (k - 1) cs))"

text \<open>On ASCII strings the printed pair determines both strings.\<close>

definition ascii :: "string \<Rightarrow> bool" where
  "ascii s \<longleftrightarrow> (\<forall>c \<in> set s. (of_char c :: nat) < 128)"

lemma valid_text_ascii: "ascii s \<Longrightarrow> valid_text s = s"
  by (induction s) (simp_all add: ascii_def utf8_size_def Let_def)

lemma json_escape_ascii: "ascii s \<Longrightarrow> json_escape s = concat (map ascii_escape s)"
  by (induction s) (simp_all add: ascii_def)

text \<open>Reading back one character; it is what makes the printed text prefix-free.\<close>

definition unhex :: "char \<Rightarrow> nat" where
  "unhex c = (if (of_char c :: nat) < 58 then of_char c - 48 else of_char c - 87)"

fun unescape_char :: "string \<Rightarrow> char \<times> string" where
  "unescape_char [] = (CHR 0x00, [])"
| "unescape_char (x # r) =
     (if x \<noteq> CHR 0x5C then (x, r)
      else case r of
          [] \<Rightarrow> (x, [])
        | y # r' \<Rightarrow>
            if y = CHR ''u'' then (char_of (16 * unhex (r' ! 2) + unhex (r' ! 3)), drop 4 r')
            else if y = CHR ''b'' then (char_of (8 :: nat), r') else if y = CHR ''f'' then (char_of (12 :: nat), r')
            else if y = CHR ''n'' then (char_of (10 :: nat), r') else if y = CHR ''r'' then (char_of (13 :: nat), r')
            else if y = CHR ''t'' then (char_of (9 :: nat), r') else (y, r'))"

lemma unhex_hex [simp]: "n < 16 \<Longrightarrow> unhex (hex_char n) = n"
  by (simp add: unhex_def hex_char_def)

lemma unescape_escape:
  assumes "(of_char c :: nat) < 128"
  shows "unescape_char (ascii_escape c @ xs) = (c, xs)"
proof -
  define n where "n = (of_char c :: nat)"
  have c: "c = char_of n" by (simp add: n_def)
  have d: "n div 16 < 16" "n mod 16 < 16" using assms by (simp_all add: n_def div_less_iff_less_mult)
  have again: "char_of (16 * (n div 16) + n mod 16) = c" by (simp add: c)
  consider (quote) "c = CHR 0x22 \<or> c = CHR 0x5C" | (named) "n \<in> {8, 9, 10, 12, 13}"
    | (hex) "ascii_escape c = [CHR 0x5C, CHR ''u'', CHR ''0'', CHR ''0'', hex_char (n div 16), hex_char (n mod 16)]"
    | (plain) "ascii_escape c = [c]" "c \<noteq> CHR 0x5C"
    unfolding ascii_escape_def n_def [symmetric] Let_def by (simp split: if_splits) argo
  then show ?thesis
  proof cases
    case quote
    then show ?thesis by (auto simp: ascii_escape_def)
  next
    case named
    then show ?thesis by (auto simp: c ascii_escape_def)
  next
    case hex
    then show ?thesis using d again by simp
  next
    case plain
    then show ?thesis by simp
  qed
qed

lemma ascii_escape_prefix_free:
  assumes "ascii_escape c @ xs = ascii_escape d @ ys" and "(of_char c :: nat) < 128" and "(of_char d :: nat) < 128"
  shows "c = d \<and> xs = ys"
proof -
  have "unescape_char (ascii_escape c @ xs) = unescape_char (ascii_escape d @ ys)" by (simp only: assms(1))
  then show ?thesis by (simp only: unescape_escape [OF assms(2)] unescape_escape [OF assms(3)] prod.inject)
qed

lemma ascii_escape_head: "\<exists>x r. ascii_escape c = x # r \<and> x \<noteq> CHR 0x22"
  by (simp add: ascii_escape_def Let_def)

lemma escaped_text_unique:
  "ascii s \<Longrightarrow> ascii t \<Longrightarrow> concat (map ascii_escape s) @ CHR 0x22 # xs = concat (map ascii_escape t) @ CHR 0x22 # ys \<Longrightarrow>
   s = t \<and> xs = ys"
proof (induction s arbitrary: t)
  case Nil
  show ?case
  proof (cases t)
    case Nil
    then show ?thesis using Nil.prems(3) by simp
  next
    case (Cons d t')
    obtain x r where "ascii_escape d = x # r" "x \<noteq> CHR 0x22" using ascii_escape_head [of d] by blast
    then show ?thesis using Nil.prems(3) Cons by simp
  qed
next
  case (Cons c s)
  show ?case
  proof (cases t)
    case Nil
    obtain x r where "ascii_escape c = x # r" "x \<noteq> CHR 0x22" using ascii_escape_head [of c] by blast
    then show ?thesis using Cons.prems(3) Nil by simp
  next
    case (Cons d t')
    have eq: "ascii_escape c @ concat (map ascii_escape s) @ CHR 0x22 # xs =
        ascii_escape d @ concat (map ascii_escape t') @ CHR 0x22 # ys"
      using Cons.prems(3) Cons by simp
    have a: "(of_char c :: nat) < 128" "(of_char d :: nat) < 128" "ascii s" "ascii t'"
      using Cons.prems(1,2) Cons by (simp_all add: ascii_def)
    note h = ascii_escape_prefix_free [OF eq a(1,2)]
    have "s = t' \<and> xs = ys" by (rule Cons.IH [OF a(3,4)]) (use h in simp)
    then show ?thesis using h Cons by simp
  qed
qed

lemma json_pair_inject:
  assumes "ascii s" "ascii t" "ascii s'" "ascii t'"
  shows "json_pair s t = json_pair s' t' \<longleftrightarrow> s = s' \<and> t = t'"
proof
  assume "json_pair s t = json_pair s' t'"
  then have "concat (map ascii_escape s) @ CHR 0x22 # '','' @ json_quote t @ '']'' =
      concat (map ascii_escape s') @ CHR 0x22 # '','' @ json_quote t' @ '']''"
    using assms(1,3) by (simp add: json_pair_def json_quote_def json_escape_ascii)
  note h = escaped_text_unique [OF assms(1,3) this]
  have "concat (map ascii_escape t) @ CHR 0x22 # '']'' = concat (map ascii_escape t') @ CHR 0x22 # '']''"
    using h assms(2,4) by (simp add: json_quote_def json_escape_ascii)
  with escaped_text_unique [OF assms(2,4) this] h show "s = s' \<and> t = t'" by blast
qed simp

end
