(* ===== verification/Integrations.thy ===== *)
theory Integrations
  imports Product_Model Go_Json
begin

text \<open>
  Orders that arrive as webhooks, \<open>internal/product/integrations.go\<close>. The bytes of a payload become
  JSON values by a \<open>json_reader\<close>, the scanner of \<open>encoding/json\<close>, which also gives the text of an
  error it reports; what the program does with the values is defined here.
\<close>

record json_reader =
  read_values :: "string \<Rightarrow> json_stream"
  json_error :: "string \<Rightarrow> string"

text \<open>\<open>decodeJSON\<close>: exactly one value; \<open>dec\<close> gets whether unknown keys are errors.\<close>

definition decode_json :: "json_reader \<Rightarrow> (bool \<Rightarrow> 'a json_decoder) \<Rightarrow> 'a \<Rightarrow> bool \<Rightarrow> string \<Rightarrow> product_error + 'a" where
  "decode_json rd dec zero strict payload =
     (case decode_first (dec strict) zero (read_values rd payload) of
        None \<Rightarrow> Inl (Other_error (json_error rd payload))
      | Some x \<Rightarrow> if at_end (read_values rd payload) then Inr x
                  else Inl (Other_error ''multiple JSON values are not allowed''))"

section \<open>Stripe\<close>

record stripe_event =
  se_id :: string
  se_type :: string
  se_object_id :: string
  se_reference :: string
  se_metadata :: "string \<rightharpoonup> string"

definition stripe_decoder :: "bool \<Rightarrow> stripe_event json_decoder" where
  "stripe_decoder strict = dec_struct strict
     [(''id'', dec_field se_id (\<lambda>x e. e\<lparr>se_id := x\<rparr>) dec_string),
      (''type'', dec_field se_type (\<lambda>x e. e\<lparr>se_type := x\<rparr>) dec_string),
      (''data'', dec_struct strict
         [(''object'', dec_struct strict
            [(''id'', dec_field se_object_id (\<lambda>x e. e\<lparr>se_object_id := x\<rparr>) dec_string),
             (''client_reference_id'', dec_field se_reference (\<lambda>x e. e\<lparr>se_reference := x\<rparr>) dec_string),
             (''metadata'', dec_field se_metadata (\<lambda>x e. e\<lparr>se_metadata := x\<rparr>) dec_string_map)])])]"

definition zero_stripe_event :: stripe_event where
  "zero_stripe_event = \<lparr>se_id = [], se_type = [], se_object_id = [], se_reference = [], se_metadata = Map.empty\<rparr>"

definition map_read :: "(string \<rightharpoonup> string) \<Rightarrow> string \<Rightarrow> string" where
  "map_read m k = (case m k of None \<Rightarrow> [] | Some v \<Rightarrow> v)"

text \<open>What is done with a decoded event.\<close>

definition stripe_order :: "stripe_event \<Rightarrow> product_error + integration_order" where
  "stripe_order e =
     (if se_type e \<noteq> ''checkout.session.completed'' then Inl Err_ignored_event
      else let event = (if se_reference e = [] then map_read (se_metadata e) ''event_id'' else se_reference e);
               quantity = parse_int (map_read (se_metadata e) ''quantity'')
        in if se_id e = [] \<or> event = [] \<or> quantity = None
           then Inl (Wrapped [] Err_invalid_input
             '': Stripe id, event_id/client_reference_id and metadata.quantity are required'')
           else Inr \<lparr>io_key = ''stripe:'' @ se_id e, io_external_id = se_object_id e,
             io_input = \<lparr>in_event_id = event, in_quantity = the quantity\<rparr>\<rparr>)"

definition parse_stripe_order :: "json_reader \<Rightarrow> string \<Rightarrow> product_error + integration_order" where
  "parse_stripe_order rd payload =
     (case decode_json rd stripe_decoder zero_stripe_event False payload of
        Inl e \<Rightarrow> Inl (Wrapped [] Err_invalid_input ('': decode Stripe event: '' @ error_text e))
      | Inr e \<Rightarrow> stripe_order e)"

section \<open>Shopify\<close>

record shopify_order =
  so_id :: string
  so_quantities :: "int list \<times> nat"
  so_attributes :: "(string \<times> string) list \<times> nat"

definition shopify_decoder :: "bool \<Rightarrow> shopify_order json_decoder" where
  "shopify_decoder strict = dec_struct strict
     [(''id'', dec_field so_id (\<lambda>x e. e\<lparr>so_id := x\<rparr>) dec_number),
      (''line_items'', dec_field so_quantities (\<lambda>x e. e\<lparr>so_quantities := x\<rparr>)
         (dec_slice (dec_struct strict [(''quantity'', dec_int)]) 0)),
      (''note_attributes'', dec_field so_attributes (\<lambda>x e. e\<lparr>so_attributes := x\<rparr>)
         (dec_slice (dec_struct strict
            [(''name'', dec_field fst (\<lambda>x p. (x, snd p)) dec_string),
             (''value'', dec_field snd (\<lambda>x p. (fst p, x)) dec_string)]) ([], [])))]"

definition zero_shopify_order :: shopify_order where
  "zero_shopify_order = \<lparr>so_id = [], so_quantities = ([], 0), so_attributes = ([], 0)\<rparr>"

text \<open>The first attribute named \<open>event_id\<close>, and the total with Go's wrapping \<open>int\<close> addition.\<close>

definition shopify_event_id :: "(string \<times> string) list \<Rightarrow> string" where
  "shopify_event_id attributes =
     (case find (\<lambda>a. fst a = ''event_id'') attributes of None \<Rightarrow> [] | Some a \<Rightarrow> snd a)"

definition shopify_quantity :: "int list \<Rightarrow> int" where
  "shopify_quantity items = foldl (\<lambda>total q. wrap64 (total + q)) 0 items"

definition shopify_order_of :: "shopify_order \<Rightarrow> product_error + integration_order" where
  "shopify_order_of o' =
     (let event = shopify_event_id (slice_elements (so_attributes o'));
          quantity = shopify_quantity (slice_elements (so_quantities o'))
      in if so_id o' = [] \<or> event = []
         then Inl (Wrapped [] Err_invalid_input '': Shopify id and event_id note attribute are required'')
         else Inr \<lparr>io_key = ''shopify:'' @ so_id o', io_external_id = so_id o',
           io_input = \<lparr>in_event_id = event, in_quantity = quantity\<rparr>\<rparr>)"

definition parse_shopify_order :: "json_reader \<Rightarrow> string \<Rightarrow> product_error + integration_order" where
  "parse_shopify_order rd payload =
     (case decode_json rd shopify_decoder zero_shopify_order False payload of
        Inl e \<Rightarrow> Inl (Wrapped [] Err_invalid_input ('': decode Shopify order: '' @ error_text e))
      | Inr o' \<Rightarrow> shopify_order_of o')"

section \<open>What the parsers accept\<close>

text \<open>The webhook of a completed checkout, as Stripe sends it, with further members of any kind.\<close>

definition stripe_json :: "string \<Rightarrow> string \<Rightarrow> string \<Rightarrow> int \<Rightarrow> json \<Rightarrow> json" where
  "stripe_json evt session reference q extra = JObject
     [(''id'', JString evt), (''object'', extra), (''type'', JString ''checkout.session.completed''),
      (''data'', JObject [(''object'', JObject [(''id'', JString session), (''amount_total'', extra),
         (''client_reference_id'', JString reference), (''metadata'', JObject [(''quantity'', JString (show_int q))])])])]"

definition shopify_json :: "string \<Rightarrow> string \<Rightarrow> int list \<Rightarrow> json \<Rightarrow> json" where
  "shopify_json number event items extra = JObject
     [(''id'', JNumber number), (''email'', extra),
      (''line_items'', JArray (map (\<lambda>q. JObject [(''sku'', extra), (''quantity'', JNumber (show_int q))]) items)),
      (''note_attributes'', JArray [JObject [(''name'', JString ''event_id''), (''value'', JString event)]])]"

lemma fold_key_names:
  "fold_key ''id'' = ''id''" "fold_key ''type'' = ''type''" "fold_key ''data'' = ''data''" "fold_key ''object'' = ''object''"
  "fold_key ''client_reference_id'' = ''client_reference_id''" "fold_key ''metadata'' = ''metadata''"
  "fold_key ''amount_total'' = ''amount_total''" "fold_key ''email'' = ''email''" "fold_key ''sku'' = ''sku''"
  "fold_key ''line_items'' = ''line_items''" "fold_key ''note_attributes'' = ''note_attributes''"
  "fold_key ''quantity'' = ''quantity''" "fold_key ''name'' = ''name''" "fold_key ''value'' = ''value''"
  by code_simp+

lemma find_field_unknown:
  "find_field [(''id'', a), (''type'', b), (''data'', c)] ''object'' = None"
  "find_field [(''id'', a), (''client_reference_id'', b), (''metadata'', d)] ''amount_total'' = None"
  "find_field [(''id'', a), (''line_items'', e), (''note_attributes'', f)] ''email'' = None"
  "find_field [(''quantity'', g)] ''sku'' = None"
  by (simp_all add: find_field_def fold_key_names)

lemma stripe_decoded:
  "stripe_decoder False (stripe_json evt session reference q extra) zero_stripe_event =
     (\<lparr>se_id = evt, se_type = ''checkout.session.completed'', se_object_id = session, se_reference = reference,
       se_metadata = [''quantity'' \<mapsto> show_int q]\<rparr>, True)"
  by (simp add: stripe_decoder_def stripe_json_def dec_struct_def dec_member_def dec_field_def zero_stripe_event_def
      dec_string_map_def find_field_unknown)

lemma item_decoded:
  "in_int64 q \<Longrightarrow> dec_struct False [(''quantity'', dec_int)] (JObject [(''sku'', extra), (''quantity'', JNumber (show_int q))]) x = (q, True)"
  by (simp add: dec_struct_def dec_member_def find_field_unknown)

lemma items_decoded:
  "\<forall>q \<in> set items. in_int64 q \<Longrightarrow>
   dec_elements (dec_struct False [(''quantity'', dec_int)]) 0 (length xs)
     (map (\<lambda>q. JObject [(''sku'', extra), (''quantity'', JNumber (show_int q))]) items) xs = (xs @ items, True)"
proof (induction items arbitrary: xs)
  case (Cons q items)
  from Cons.IH [of "xs @ [q]"] Cons.prems show ?case by (simp add: item_decoded Let_def)
qed simp

lemma attribute_decoded:
  "dec_struct False [(''name'', dec_field fst (\<lambda>x p. (x, snd p)) dec_string), (''value'', dec_field snd (\<lambda>x p. (fst p, x)) dec_string)]
     (JObject [(''name'', JString ''event_id''), (''value'', JString event)]) p = ((''event_id'', event), True)"
  by (simp add: dec_struct_def dec_member_def dec_field_def)

lemma shopify_decoded:
  assumes "\<forall>q \<in> set items. in_int64 q"
  shows "shopify_decoder False (shopify_json number event items extra) zero_shopify_order =
     (\<lparr>so_id = number, so_quantities = (items, length items), so_attributes = ([(''event_id'', event)], 1)\<rparr>, True)"
  using items_decoded [OF assms, of "[]" extra]
  by (simp add: shopify_decoder_def shopify_json_def dec_struct_def [of _ "[(''id'', _), _, _]"] dec_member_def [of _ "[(''id'', _), _, _]"]
      dec_field_def [of so_id] dec_field_def [of so_quantities] dec_field_def [of so_attributes] zero_shopify_order_def
      dec_slice_def find_field_unknown Let_def attribute_decoded)

lemma wrap64_add: "wrap64 (wrap64 x + y) = wrap64 (x + y)"
proof -
  have "(wrap64 x + y + 2 ^ 63) mod 2 ^ 64 = (x + y + 2 ^ 63) mod (2 ^ 64 :: int)"
  proof -
    have "(wrap64 x + y + 2 ^ 63) mod 2 ^ 64 = ((x + 2 ^ 63) mod 2 ^ 64 + y) mod (2 ^ 64 :: int)"
      by (simp add: wrap64_def algebra_simps)
    also have "\<dots> = (x + 2 ^ 63 + y) mod 2 ^ 64" by (rule mod_add_left_eq)
    finally show ?thesis by (simp add: algebra_simps)
  qed
  then show ?thesis by (simp add: wrap64_def)
qed

lemma shopify_quantity_sum: "shopify_quantity items = wrap64 (sum_list items)"
proof -
  have "foldl (\<lambda>total q. wrap64 (total + q)) (wrap64 x) items = wrap64 (x + sum_list items)" for x
    by (induction items arbitrary: x) (simp_all add: wrap64_add add.assoc)
  from this [of 0] show ?thesis by (simp add: shopify_quantity_def wrap64_def)
qed

section \<open>Properties\<close>

text \<open>
  C25. What the integrations accept. The webhook of a completed Stripe checkout becomes the order it
  describes, whatever other members it has; so does a Shopify order, whose quantity is the sum of
  its line items with \<open>int64\<close> wrap-around, hence the true sum when no item is negative and the sum
  fits. Whatever the payload, an accepted order names an event and carries a key with the name of
  its provider, so that the keys of the two providers never coincide.
\<close>

theorem integrations_parse:
  assumes "read_values rd stripe = one_value (stripe_json evt session reference q extra)" and "in_int64 q"
    and "read_values rd shopify = one_value (shopify_json number event items extra)" and "\<forall>i \<in> set items. in_int64 i"
    and "evt \<noteq> []" and "reference \<noteq> []" and "number \<noteq> []" and "event \<noteq> []"
  shows "parse_stripe_order rd stripe = Inr \<lparr>io_key = ''stripe:'' @ evt, io_external_id = session,
      io_input = \<lparr>in_event_id = reference, in_quantity = q\<rparr>\<rparr> \<and>
    parse_shopify_order rd shopify = Inr \<lparr>io_key = ''shopify:'' @ number, io_external_id = number,
      io_input = \<lparr>in_event_id = event, in_quantity = wrap64 (sum_list items)\<rparr>\<rparr> \<and>
    ((\<forall>i \<in> set items. 0 \<le> i) \<and> sum_list items \<le> int64_max \<longrightarrow> wrap64 (sum_list items) = sum_list items) \<and>
    (\<forall>p p' o1 o2. parse_stripe_order rd p = Inr o1 \<longrightarrow> parse_shopify_order rd p' = Inr o2 \<longrightarrow>
       in_event_id (io_input o1) \<noteq> [] \<and> in_event_id (io_input o2) \<noteq> [] \<and> io_key o1 \<noteq> io_key o2)"
proof (intro conjI impI allI)
  have q: "parse_int (show_int q) = Some q" using assms(2) by (rule parse_int_show)
  show "parse_stripe_order rd stripe = Inr \<lparr>io_key = ''stripe:'' @ evt, io_external_id = session,
      io_input = \<lparr>in_event_id = reference, in_quantity = q\<rparr>\<rparr>"
    using assms(5,6) by (simp add: parse_stripe_order_def decode_json_def assms(1) stripe_decoded stripe_order_def map_read_def q)
  show "parse_shopify_order rd shopify = Inr \<lparr>io_key = ''shopify:'' @ number, io_external_id = number,
      io_input = \<lparr>in_event_id = event, in_quantity = wrap64 (sum_list items)\<rparr>\<rparr>"
    using assms(7,8) by (simp add: parse_shopify_order_def decode_json_def assms(3) shopify_decoded [OF assms(4)]
        shopify_order_of_def shopify_event_id_def slice_elements_def shopify_quantity_sum)
  assume "(\<forall>i \<in> set items. 0 \<le> i) \<and> sum_list items \<le> int64_max"
  then have "0 \<le> sum_list items" "sum_list items \<le> int64_max" by (simp_all add: sum_list_nonneg)
  then show "wrap64 (sum_list items) = sum_list items" by (intro wrap64_id) (simp add: in_int64_def int64_min_def)
next
  fix p p' o1 o2 assume o: "parse_stripe_order rd p = Inr o1" "parse_shopify_order rd p' = Inr o2"
  then show "in_event_id (io_input o1) \<noteq> []" "in_event_id (io_input o2) \<noteq> []" "io_key o1 \<noteq> io_key o2"
    by (auto simp: parse_stripe_order_def parse_shopify_order_def stripe_order_def shopify_order_of_def Let_def
        split: sum.splits if_splits)
qed

definition sample_reader :: json_reader where
  "sample_reader = \<lparr>read_values = (\<lambda>s. one_value (if s = ''stripe'' then stripe_json ''evt_1'' ''cs_1'' ''event-9'' 2 JNull
     else shopify_json ''77'' ''event-9'' [1, 3] JNull)), json_error = (\<lambda>_. [])\<rparr>"

theorem integrations_parse_witness:
  "parse_stripe_order sample_reader ''stripe'' = Inr \<lparr>io_key = ''stripe:evt_1'', io_external_id = ''cs_1'',
      io_input = \<lparr>in_event_id = ''event-9'', in_quantity = 2\<rparr>\<rparr> \<and>
   parse_shopify_order sample_reader ''shopify'' = Inr \<lparr>io_key = ''shopify:77'', io_external_id = ''77'',
      io_input = \<lparr>in_event_id = ''event-9'', in_quantity = 4\<rparr>\<rparr>"
  using integrations_parse [of sample_reader "''stripe''" "''evt_1''" "''cs_1''" "''event-9''" 2 JNull "''shopify''" "''77''" "''event-9''" "[1, 3]"]
  by (simp add: sample_reader_def in_int64_def int64_min_def int64_max_def wrap64_def)

end
