(* ===== verification/Signatures.thy ===== *)
theory Signatures
  imports Product_Model
begin

text \<open>
  Webhook signatures, \<open>internal/product/signatures.go\<close>. HMAC-SHA256 is a parameter \<open>hmac\<close> from the
  message and the secret to the bytes of the code; nothing here depends on what it computes. The
  hexadecimal and base64 decoders are those of Go's standard library.
\<close>

section \<open>Hexadecimal and base64\<close>

definition hex_digit :: "char \<Rightarrow> nat option" where
  "hex_digit c =
     (let n = (of_char c :: nat)
      in if 48 \<le> n \<and> n \<le> 57 then Some (n - 48)
         else if 97 \<le> n \<and> n \<le> 102 then Some (n - 87)
         else if 65 \<le> n \<and> n \<le> 70 then Some (n - 55) else None)"

fun hex_decode :: "string \<Rightarrow> 8 word list option" where
  "hex_decode [] = Some []"
| "hex_decode [c] = None"
| "hex_decode (c # d # cs) =
     (case (hex_digit c, hex_digit d, hex_decode cs) of
        (Some x, Some y, Some bs) \<Rightarrow> Some (word_of_nat (16 * x + y) # bs)
      | _ \<Rightarrow> None)"

definition base64_value :: "char \<Rightarrow> nat option" where
  "base64_value c =
     (let n = (of_char c :: nat)
      in if 65 \<le> n \<and> n \<le> 90 then Some (n - 65)
         else if 97 \<le> n \<and> n \<le> 122 then Some (n - 71)
         else if 48 \<le> n \<and> n \<le> 57 then Some (n + 4)
         else if n = 43 then Some 62 else if n = 47 then Some 63 else None)"

fun base64_quanta :: "string \<Rightarrow> 8 word list option" where
  "base64_quanta [] = Some []"
| "base64_quanta (a # b # c # d # rest) =
     (case (base64_value a, base64_value b) of
        (Some x, Some y) \<Rightarrow>
          (if c = CHR ''='' then if d = CHR ''='' \<and> rest = [] then Some [word_of_nat (4 * x + y div 16)] else None
           else case base64_value c of
                  None \<Rightarrow> None
                | Some z \<Rightarrow>
                    if d = CHR ''=''
                    then if rest = [] then Some [word_of_nat (4 * x + y div 16), word_of_nat (16 * (y mod 16) + z div 4)] else None
                    else case (base64_value d, base64_quanta rest) of
                           (Some u, Some bs) \<Rightarrow> Some (word_of_nat (4 * x + y div 16) # word_of_nat (16 * (y mod 16) + z div 4) #
                             word_of_nat (64 * (z mod 4) + u) # bs)
                         | _ \<Rightarrow> None)
      | _ \<Rightarrow> None)"
| "base64_quanta _ = None"

text \<open>\<open>base64.StdEncoding.DecodeString\<close>: line breaks are skipped, padding is required.\<close>

definition base64_decode :: "string \<Rightarrow> 8 word list option" where
  "base64_decode s = base64_quanta (filter (\<lambda>c. c \<noteq> CHR 0x0A \<and> c \<noteq> CHR 0x0D) s)"

section \<open>Signing and verifying\<close>

type_synonym hmac = "string \<Rightarrow> string \<Rightarrow> 8 word list"

definition unix_seconds :: "gotime \<Rightarrow> int" where
  "unix_seconds t = wrap64 (t div second - 62135596800)"

definition time_unix :: "int \<Rightarrow> gotime" where
  "time_unix s = wrap64 (s + 62135596800) * second"

definition hmac_hex :: "hmac \<Rightarrow> string \<Rightarrow> string \<Rightarrow> string" where
  "hmac_hex mac payload secret = hex_encode (mac payload secret)"

definition signed_text :: "int \<Rightarrow> string \<Rightarrow> string" where
  "signed_text timestamp payload = show_int timestamp @ ''.'' @ payload"

definition sign_outbound_webhook :: "hmac \<Rightarrow> string \<Rightarrow> string \<Rightarrow> gotime \<Rightarrow> string" where
  "sign_outbound_webhook mac payload secret t =
     (let timestamp = unix_seconds t
      in ''t='' @ show_int timestamp @ '',v1='' @ hmac_hex mac (signed_text timestamp payload) secret)"

text \<open>\<open>strconv.ParseInt\<close> when its error is ignored: 0 for text that is no number, the nearest \<open>int64\<close> for
  a number out of range.\<close>

definition parse_int_ignoring_error :: "string \<Rightarrow> int" where
  "parse_int_ignoring_error s =
     (let neg = (s \<noteq> [] \<and> hd s = CHR ''-'');
          rest = (if s \<noteq> [] \<and> (hd s = CHR ''-'' \<or> hd s = CHR ''+'') then tl s else s);
          n = fst (parse_uint rest)
      in if \<not> neg \<and> 2 ^ 63 \<le> n then int64_max
         else if neg \<and> 2 ^ 63 < n then int64_min
         else if neg then - int n else int n)"

definition read_part :: "int \<times> string list \<Rightarrow> string \<Rightarrow> int \<times> string list" where
  "read_part acc part =
     (case string_cut (CHR ''='') (trim_space part) of
        None \<Rightarrow> acc
      | Some (key, value) \<Rightarrow>
          if key = ''t'' then (parse_int_ignoring_error value, snd acc)
          else if key = ''v1'' then (fst acc, snd acc @ [value])
          else acc)"

definition read_header :: "string \<Rightarrow> int \<times> string list" where
  "read_header header = foldl read_part (0, []) (string_split (CHR '','') header)"

definition verify_timestamped_signature ::
  "hmac \<Rightarrow> string \<Rightarrow> string \<Rightarrow> string \<Rightarrow> gotime \<Rightarrow> duration \<Rightarrow> product_error option" where
  "verify_timestamped_signature mac header payload secret now tolerance =
     (case read_header header of
        (timestamp, signatures) \<Rightarrow>
          if timestamp = 0 \<or> signatures = [] then Some Err_invalid_signature
          else let signed_at = time_unix timestamp
            in if 0 < tolerance \<and> (tolerance < time_sub now signed_at \<or> tolerance < time_sub signed_at now)
               then Some (Wrapped [] Err_invalid_signature '': timestamp outside tolerance'')
               else (case hex_decode (hmac_hex mac (signed_text timestamp payload) secret) of
                       None \<Rightarrow> Some Err_invalid_signature
                     | Some expected \<Rightarrow>
                         if list_ex (\<lambda>s. hex_decode s = Some expected) signatures then None
                         else Some Err_invalid_signature))"

definition verify_outbound_webhook ::
  "hmac \<Rightarrow> string \<Rightarrow> string \<Rightarrow> string \<Rightarrow> gotime \<Rightarrow> duration \<Rightarrow> product_error option" where
  "verify_outbound_webhook = verify_timestamped_signature"

definition verify_stripe_signature ::
  "hmac \<Rightarrow> string \<Rightarrow> string \<Rightarrow> string \<Rightarrow> gotime \<Rightarrow> duration \<Rightarrow> product_error option" where
  "verify_stripe_signature = verify_timestamped_signature"

definition verify_shopify_signature :: "hmac \<Rightarrow> string \<Rightarrow> string \<Rightarrow> string \<Rightarrow> product_error option" where
  "verify_shopify_signature mac signature payload secret =
     (case base64_decode signature of
        None \<Rightarrow> Some Err_invalid_signature
      | Some provided \<Rightarrow> if provided \<noteq> mac payload secret then Some Err_invalid_signature else None)"

section \<open>Decoding inverts encoding\<close>

lemma hex_digit_char: "n < 16 \<Longrightarrow> hex_digit (hex_char n) = Some n"
  by (auto simp: hex_digit_def hex_char_def Let_def)

lemma hex_decode_encode [simp]: "hex_decode (hex_encode bs) = Some bs"
proof (induction bs)
  case Nil
  then show ?case by (simp add: hex_encode_def)
next
  case (Cons b bs)
  have "unat b < 256" using unsigned_less [of b] by simp
  then have "unat b div 16 < 16" "unat b mod 16 < 16" by (simp_all add: div_less_iff_less_mult)
  moreover have "hex_encode (b # bs) = hex_char (unat b div 16) # hex_char (unat b mod 16) # hex_encode bs"
    by (simp add: hex_encode_def)
  moreover have "(word_of_nat (16 * (unat b div 16) + unat b mod 16) :: 8 word) = b" by simp
  ultimately show ?case using Cons by (simp add: hex_digit_char)
qed

text \<open>The standard base64 encoding, as the signing side computes it.\<close>

definition base64_char :: "nat \<Rightarrow> char" where
  "base64_char n =
     (if n < 26 then char_of (n + 65) else if n < 52 then char_of (n + 71) else if n < 62 then char_of (n - 4)
      else if n = 62 then CHR ''+'' else CHR ''/'')"

fun base64_encode :: "8 word list \<Rightarrow> string" where
  "base64_encode [] = []"
| "base64_encode [p] = [base64_char (unat p div 4), base64_char (16 * (unat p mod 4)), CHR ''='', CHR ''='']"
| "base64_encode [p, q] = [base64_char (unat p div 4), base64_char (16 * (unat p mod 4) + unat q div 16),
     base64_char (4 * (unat q mod 16)), CHR ''='']"
| "base64_encode (p # q # r # bs) =
     [base64_char (unat p div 4), base64_char (16 * (unat p mod 4) + unat q div 16),
      base64_char (4 * (unat q mod 16) + unat r div 64), base64_char (unat r mod 64)] @ base64_encode bs"

lemma base64_value_char: "n < 64 \<Longrightarrow> base64_value (base64_char n) = Some n"
  by (auto simp: base64_value_def base64_char_def Let_def)

lemma base64_char_plain: "n < 64 \<Longrightarrow> base64_char n \<notin> {CHR ''='', CHR 0x0A, CHR 0x0D}"
proof
  assume "n < 64" and "base64_char n \<in> {CHR ''='', CHR 0x0A, CHR 0x0D}"
  then have "base64_value (base64_char n) = None" by (auto simp: base64_value_def)
  with base64_value_char [OF \<open>n < 64\<close>] show False by simp
qed

lemma base64_char_neq:
  assumes "n < 64"
  shows "base64_char n \<noteq> CHR ''=''" "base64_char n \<noteq> CHR 0x0A" "base64_char n \<noteq> CHR 0x0D"
  using base64_char_plain [OF assms] by simp_all

lemma byte_bounds:
  fixes p q :: "8 word"
  shows "unat p div 4 < 64" "16 * (unat p mod 4) + unat q div 16 < 64" "16 * (unat p mod 4) < 64"
    "4 * (unat p mod 16) + unat q div 64 < 64" "4 * (unat p mod 16) < 64" "unat p mod 64 < 64"
proof -
  have "unat p < 256" "unat q < 256" using unsigned_less [of p] unsigned_less [of q] by simp_all
  then have d: "unat p div 4 < 64" "unat q div 16 < 16" "unat q div 64 < 4"
    by (simp_all add: div_less_iff_less_mult)
  have m: "unat p mod 4 < 4" "unat p mod 16 < 16" "unat p mod 64 < 64" by simp_all
  show "unat p div 4 < 64" "16 * (unat p mod 4) + unat q div 16 < 64" "16 * (unat p mod 4) < 64"
    "4 * (unat p mod 16) + unat q div 64 < 64" "4 * (unat p mod 16) < 64" "unat p mod 64 < 64"
    using d m by linarith+
qed

lemma byte_parts:
  fixes q :: "8 word"
  shows "unat q div 16 div 16 = 0" "unat q div 16 mod 16 = unat q div 16"
    "16 * word_of_nat (unat q div 16) + word_of_nat (unat q mod 16) = q"
    "unat q div 64 div 4 = 0" "unat q div 64 mod 4 = unat q div 64"
    "64 * word_of_nat (unat q div 64) + word_of_nat (unat q mod 64) = q"
proof -
  have q: "unat q < 256" using unsigned_less [of q] by simp
  then have d: "unat q div 16 < 16" "unat q div 64 < 4" by (simp_all add: div_less_iff_less_mult)
  then show "unat q div 16 div 16 = 0" "unat q div 16 mod 16 = unat q div 16"
    "unat q div 64 div 4 = 0" "unat q div 64 mod 4 = unat q div 64" by simp_all
  have whole: "(word_of_nat n * word_of_nat (unat q div n) + word_of_nat (unat q mod n) :: 8 word) = q" for n
  proof -
    have "(word_of_nat n * word_of_nat (unat q div n) + word_of_nat (unat q mod n) :: 8 word) =
        word_of_nat (n * (unat q div n) + unat q mod n)" by (simp only: of_nat_add of_nat_mult)
    also have "\<dots> = q" by simp
    finally show ?thesis .
  qed
  from whole [of 16] whole [of 64] show "16 * word_of_nat (unat q div 16) + word_of_nat (unat q mod 16) = q"
    "64 * word_of_nat (unat q div 64) + word_of_nat (unat q mod 64) = q"
    by (simp_all only: of_nat_numeral)
qed

lemma base64_roundtrip: "base64_decode (base64_encode bs) = Some bs"
proof -
  have clean: "filter (\<lambda>c. c \<noteq> CHR 0x0A \<and> c \<noteq> CHR 0x0D) (base64_encode bs) = base64_encode bs" for bs
    by (induction bs rule: base64_encode.induct) (simp_all add: base64_char_neq byte_bounds)
  have "base64_quanta (base64_encode bs) = Some bs"
    by (induction bs rule: base64_encode.induct)
      (simp_all add: base64_value_char base64_char_neq byte_bounds byte_parts)
  then show ?thesis by (simp add: base64_decode_def clean)
qed

section \<open>Reading what was signed\<close>

text \<open>Text of printing ASCII characters has nothing to trim.\<close>

definition printing :: "string \<Rightarrow> bool" where
  "printing s \<longleftrightarrow> (\<forall>c \<in> set s. 32 < (of_char c :: nat) \<and> (of_char c :: nat) < 127)"

lemma space_ends:
  assumes "p \<in> set space_sequences"
  shows "p \<noteq> []" "\<not> (32 < (of_char (hd p) :: nat) \<and> (of_char (hd p) :: nat) < 127)"
    "\<not> (32 < (of_char (hd (rev p)) :: nat) \<and> (of_char (hd (rev p)) :: nat) < 127)"
  using assms by (auto simp: space_sequences_def)

lemma trim_space_printing:
  assumes "printing s"
  shows "trim_space s = s"
proof -
  have no: "\<not> prefix p t" if "p \<noteq> []" "\<not> (32 < (of_char (hd p) :: nat) \<and> (of_char (hd p) :: nat) < 127)" "set t \<subseteq> set s" for p t
  proof
    assume "prefix p t"
    then have "hd p \<in> set t" using that(1) by (cases p) (auto simp: prefix_def)
    with that assms show False by (auto simp: printing_def)
  qed
  have l: "strip space_sequences s = s" using space_ends no by (intro strip_same) blast
  have r: "strip (map rev space_sequences) (rev s) = rev s"
    using space_ends no [of _ "rev s"] by (intro strip_same) auto
  show ?thesis by (simp only: trim_space_def l r rev_rev_ident)
qed

lemma printing_append [simp]: "printing (s @ t) \<longleftrightarrow> printing s \<and> printing t"
  by (auto simp: printing_def)

lemma printing_Cons [simp]: "printing (c # s) \<longleftrightarrow> 32 < (of_char c :: nat) \<and> (of_char c :: nat) < 127 \<and> printing s"
  by (auto simp: printing_def)

lemma printing_Nil [simp]: "printing []"
  by (simp add: printing_def)

lemma printing_show_int [simp]: "printing (show_int z)"
  unfolding printing_def
proof
  fix c assume "c \<in> set (show_int z)"
  then have "is_digit c \<or> c = CHR ''-''" by (rule show_int_chars)
  then show "32 < (of_char c :: nat) \<and> (of_char c :: nat) < 127" by (auto simp: is_digit_def)
qed

lemma hex_char_range: "n < 16 \<Longrightarrow> 48 \<le> (of_char (hex_char n) :: nat) \<and> (of_char (hex_char n) :: nat) \<le> 102"
  by (simp add: hex_char_def)

lemma hex_encode_chars: "c \<in> set (hex_encode bs) \<Longrightarrow> 48 \<le> (of_char c :: nat) \<and> (of_char c :: nat) \<le> 102"
proof (induction bs)
  case Nil
  then show ?case by (simp add: hex_encode_def)
next
  case (Cons b bs)
  have "unat b < 256" using unsigned_less [of b] by simp
  then have "unat b div 16 < 16" "unat b mod 16 < 16" by (simp_all add: div_less_iff_less_mult)
  with Cons hex_char_range show ?case by (auto simp: hex_encode_def)
qed

lemma printing_hex_encode [simp]: "printing (hex_encode bs)"
  unfolding printing_def by (auto dest!: hex_encode_chars)

lemma hex_encode_no_comma: "CHR '','' \<notin> set (hex_encode bs)"
  using hex_encode_chars [of "CHR '',''" bs] by auto

lemma show_int_no_comma: "CHR '','' \<notin> set (show_int z)"
  using show_int_chars [of "CHR '',''" z] by (auto simp: is_digit_def)

lemma show_int_no_dot: "CHR ''.'' \<notin> set (show_int z)"
  using show_int_chars [of "CHR ''.''" z] by (auto simp: is_digit_def)

lemma parse_int_ignoring_error_Some: "parse_int s = Some z \<Longrightarrow> parse_int_ignoring_error s = z"
  by (simp add: parse_int_def parse_int_ignoring_error_def Let_def case_prod_beta split: if_splits)

lemma read_header_signed:
  assumes "in_int64 ts"
  shows "read_header (''t='' @ show_int ts @ '',v1='' @ hex_encode bs) = (ts, [hex_encode bs])"
proof -
  have split: "string_split (CHR '','') (''t='' @ show_int ts @ '',v1='' @ hex_encode bs) =
      [''t='' @ show_int ts, ''v1='' @ hex_encode bs]"
    using string_split_append [of "CHR '',''" "''t='' @ show_int ts" "''v1='' @ hex_encode bs"]
      string_split_plain [of "CHR '',''" "''v1='' @ hex_encode bs"] show_int_no_comma [of ts] hex_encode_no_comma [of bs]
    by simp
  have t: "trim_space (''t='' @ show_int ts) = ''t='' @ show_int ts"
    and v: "trim_space (''v1='' @ hex_encode bs) = ''v1='' @ hex_encode bs"
    by (rule trim_space_printing, simp)+
  have ct: "string_cut (CHR ''='') (''t='' @ show_int ts) = Some (''t'', show_int ts)"
    and cv: "string_cut (CHR ''='') (''v1='' @ hex_encode bs) = Some (''v1'', hex_encode bs)"
    using string_cut_append [of "CHR ''=''" "''t''" "show_int ts"] string_cut_append [of "CHR ''=''" "''v1''" "hex_encode bs"]
    by simp_all
  have p: "parse_int_ignoring_error (show_int ts) = ts"
    using parse_int_show [OF assms] by (rule parse_int_ignoring_error_Some)
  have "read_part (0, []) (''t='' @ show_int ts) = (ts, [])" unfolding read_part_def t ct by (simp add: p)
  moreover have "read_part (ts, []) (''v1='' @ hex_encode bs) = (ts, [hex_encode bs])" unfolding read_part_def v cv by simp
  ultimately show ?thesis unfolding read_header_def split by simp
qed

section \<open>Properties\<close>

lemma signed_accepted:
  assumes "unix_seconds t \<noteq> 0" and "0 < tolerance" and "tolerance < int64_max"
  shows "verify_outbound_webhook mac (sign_outbound_webhook mac payload secret t) payload secret now tolerance = None \<longleftrightarrow>
    now - time_unix (unix_seconds t) \<le> tolerance \<and> time_unix (unix_seconds t) - now \<le> tolerance"
proof -
  have "in_int64 (unix_seconds t)" by (simp add: unix_seconds_def)
  note header = read_header_signed [OF this, of "mac (signed_text (unix_seconds t) payload) secret"]
  have late: "tolerance < time_sub x y \<longleftrightarrow> tolerance < x - y" for x y
    using assms(2,3) by (auto simp: time_sub_def int64_min_def)
  show ?thesis
    using header assms
    by (auto simp: verify_outbound_webhook_def verify_timestamped_signature_def sign_outbound_webhook_def hmac_hex_def
        late Let_def not_less)
qed

text \<open>
  C23. Signing and verifying fit. For every HMAC, payload and secret, a header that
  \<open>SignOutboundWebhook\<close> made is accepted by the receiver's check exactly while the whole second of
  signing and the receiver's clock are within the tolerance of each other.
\<close>

theorem signature_roundtrip:
  assumes "unix_seconds t \<noteq> 0" and "0 < tolerance" and "tolerance < int64_max"
  shows "verify_outbound_webhook mac (sign_outbound_webhook mac payload secret t) payload secret now tolerance = None \<longleftrightarrow>
    now - time_unix (unix_seconds t) \<le> tolerance \<and> time_unix (unix_seconds t) - now \<le> tolerance"
  using assms by (rule signed_accepted)

definition mac_sample :: hmac where
  "mac_sample payload secret = map (\<lambda>c. word_of_nat (of_char c)) (payload @ secret)"

theorem signature_roundtrip_witness:
  "verify_outbound_webhook mac_sample (sign_outbound_webhook mac_sample ''p'' ''k'' (62135596900 * second)) ''p'' ''k''
     (62135596900 * second + 7) (5 * minute) = None"
proof -
  have "unix_seconds (62135596900 * second) = 100" by (simp add: unix_seconds_def wrap64_def second_def)
  then show ?thesis
    using signature_roundtrip [of "62135596900 * second" "5 * minute" mac_sample "''p''" "''k''" "62135596900 * second + 7"]
    by (simp add: time_unix_def wrap64_def second_def minute_def int64_max_def)
qed

lemma signed_text_inject: "signed_text a p = signed_text b q \<longleftrightarrow> a = b \<and> p = q"
proof
  assume "signed_text a p = signed_text b q"
  then have "takeWhile (\<lambda>c. c \<noteq> CHR ''.'') (show_int a @ CHR ''.'' # p) = takeWhile (\<lambda>c. c \<noteq> CHR ''.'') (show_int b @ CHR ''.'' # q)"
    by (simp add: signed_text_def)
  moreover have "takeWhile (\<lambda>c. c \<noteq> CHR ''.'') (show_int z @ CHR ''.'' # r) = show_int z" for z r
    using show_int_no_dot [of z] by (auto simp: takeWhile_append takeWhile_eq_all_conv)
  ultimately have "a = b" by simp
  with \<open>signed_text a p = signed_text b q\<close> show "a = b \<and> p = q" by (simp add: signed_text_def)
qed simp

text \<open>
  C24. No unsigned webhook is accepted. When a Stripe or an outbound signature is accepted, the
  header carries, in hexadecimal, the HMAC under the secret of exactly one text, \<open>timestamp.payload\<close>,
  with a timestamp that is not 0 and lies within the tolerance of the clock; so a signature made for
  another payload or another second is of use only if the two HMACs coincide. A Shopify signature
  is accepted exactly when it is, up to line breaks, a base64 text of the HMAC of the payload; the
  standard encoding of the HMAC is one.
\<close>

theorem signature_sound:
  "(verify_stripe_signature mac header payload secret now tolerance = None \<and> 0 < tolerance \<and> tolerance < int64_max \<longrightarrow>
     (\<exists>timestamp sig. read_header header = (timestamp, sig) \<and> timestamp \<noteq> 0 \<and>
        (\<exists>s \<in> set sig. hex_decode s = Some (mac (signed_text timestamp payload) secret)) \<and>
        \<bar>now - time_unix timestamp\<bar> \<le> tolerance \<and>
        (\<forall>timestamp' payload'. signed_text timestamp' payload' = signed_text timestamp payload \<longrightarrow>
           timestamp' = timestamp \<and> payload' = payload))) \<and>
   (verify_shopify_signature mac s payload secret = None \<longleftrightarrow> base64_decode s = Some (mac payload secret)) \<and>
   verify_shopify_signature mac (base64_encode (mac payload secret)) payload secret = None"
proof (intro conjI impI)
  assume v: "verify_stripe_signature mac header payload secret now tolerance = None \<and> 0 < tolerance \<and> tolerance < int64_max"
  obtain timestamp sig where h: "read_header header = (timestamp, sig)" by (cases "read_header header")
  have late: "tolerance < time_sub x y \<longleftrightarrow> tolerance < x - y" for x y
    using v by (auto simp: time_sub_def int64_min_def)
  from v h have "timestamp \<noteq> 0" "list_ex (\<lambda>s. hex_decode s = Some (mac (signed_text timestamp payload) secret)) sig"
    "\<not> tolerance < now - time_unix timestamp" "\<not> tolerance < time_unix timestamp - now"
    by (auto simp: verify_stripe_signature_def verify_timestamped_signature_def hmac_hex_def late Let_def split: if_splits)
  with h show "\<exists>timestamp sig. read_header header = (timestamp, sig) \<and> timestamp \<noteq> 0 \<and>
      (\<exists>s \<in> set sig. hex_decode s = Some (mac (signed_text timestamp payload) secret)) \<and>
      \<bar>now - time_unix timestamp\<bar> \<le> tolerance \<and>
      (\<forall>timestamp' payload'. signed_text timestamp' payload' = signed_text timestamp payload \<longrightarrow>
         timestamp' = timestamp \<and> payload' = payload)"
    by (intro exI [of _ timestamp] exI [of _ sig]) (auto simp: list_ex_iff signed_text_inject)
next
  show "verify_shopify_signature mac s payload secret = None \<longleftrightarrow> base64_decode s = Some (mac payload secret)"
    by (simp add: verify_shopify_signature_def split: option.split)
  show "verify_shopify_signature mac (base64_encode (mac payload secret)) payload secret = None"
    by (simp add: verify_shopify_signature_def base64_roundtrip)
qed

definition sample_header :: string where
  "sample_header = ''t='' @ show_int 100 @ '',v1='' @ hex_encode [112]"

theorem signature_sound_witness:
  "verify_stripe_signature (\<lambda>_ _. [112]) sample_header ''p'' ''k'' (62135596900 * second) minute = None \<and>
   (\<exists>timestamp sig. read_header sample_header = (timestamp, sig) \<and> timestamp \<noteq> 0 \<and> hex_encode [112] \<in> set sig)"
proof -
  have h: "read_header sample_header = (100, [hex_encode [112]])"
    unfolding sample_header_def by (rule read_header_signed) (simp add: in_int64_def int64_min_def int64_max_def)
  have "time_unix 100 = 62135596900 * second" by (simp add: time_unix_def wrap64_def second_def)
  then have v: "verify_stripe_signature (\<lambda>_ _. [112]) sample_header ''p'' ''k'' (62135596900 * second) minute = None"
    using h by (simp add: verify_stripe_signature_def verify_timestamped_signature_def hmac_hex_def Let_def minute_def second_def
        time_sub_def int64_min_def int64_max_def)
  from signature_sound [of "\<lambda>_ _. [112]" sample_header "''p''" "''k''" "62135596900 * second" minute] h v
  show ?thesis by (simp add: minute_def second_def int64_max_def)
qed

end
