(* ===== verification/Repository.thy ===== *)
theory Repository
  imports Product_Model Signatures "HOL-Library.List_Lexorder" "HOL-Library.Char_ord" "HOL-Library.Signed_Division"
begin

text \<open>
  The Postgres repository, \<open>internal/product/postgres.go\<close> with the tables of
  \<open>internal/product/migrations\<close>. The tables are lists of rows and every SQL statement of the code is
  a function on them. The database itself is outside the program: each call counts, takes time,
  may fail (\<open>p_faults\<close>: the error, and whether the statement was carried out nonetheless, as when
  only the answer is lost), and before each call the other clients of the database and of Redis
  may have done anything that \<open>p_others\<close> says. \<open>p_others\<close> learns what the open transaction of the
  caller has inserted but not committed, because the unique indexes protect it.

  \<open>NOW()\<close> is \<open>p_db_time\<close> of the clock, \<open>p_stored\<close> the resolution of \<open>timestamptz\<close>, \<open>p_locked\<close> the rows
  that \<open>SKIP LOCKED\<close> skips, \<open>p_payload\<close> what the \<open>jsonb\<close> column gives back for an outgoing event,
  \<open>p_decode\<close> what the JSON decoder says of bytes that are no \<open>coordinationResult\<close>.
\<close>

section \<open>Tables\<close>

record order_row =
  ow_order :: order
  ow_key :: string
  ow_fingerprint :: string
  ow_source :: string
  ow_external_id :: string

record event_row =
  er_sequence :: nat
  er_type :: string
  er_order_id :: string
  er_tenant :: string
  er_status :: string
  er_at :: gotime

record database =
  order_rows :: "order_row list"
  event_rows :: "event_row list"
  delivery_rows :: "webhook_delivery list"
  last_sequence :: nat

definition empty_database :: database where
  "empty_database = \<lparr>order_rows = [], event_rows = [], delivery_rows = [], last_sequence = 0\<rparr>"

definition row_scope :: "order_row \<Rightarrow> string \<times> string" where
  "row_scope r = (tenant_id (ow_order r), ow_key r)"

text \<open>What a transaction has inserted and not yet committed: events by their number, orders, deliveries.\<close>

record pending =
  pn_sequences :: "nat list"
  pn_orders :: "order_row list"
  pn_deliveries :: "webhook_delivery list"

definition nothing_pending :: pending where
  "nothing_pending = \<lparr>pn_sequences = [], pn_orders = [], pn_deliveries = []\<rparr>"

section \<open>The world of the product\<close>

record coordination_result =
  co_fingerprint :: string
  co_order :: order

text \<open>What Redis holds: a lock token, the JSON of a \<open>coordinationResult\<close>, or bytes that do not decode.\<close>

datatype cached = Token string | Encoded coordination_result | Undecodable

type_synonym redis = "string \<rightharpoonup> cached \<times> gotime"

record outbound_event =
  oe_id :: string
  oe_type :: string
  oe_created :: gotime
  oe_data :: order

record pworld =
  p_clock :: gotime
  p_db :: database
  p_redis :: redis
  p_calls :: nat
  p_others :: "nat \<Rightarrow> pending \<Rightarrow> database \<times> redis \<Rightarrow> database \<times> redis"
  p_faults :: "nat \<Rightarrow> (product_error \<times> bool) option"
  p_delays :: "nat \<Rightarrow> nat"
  p_db_time :: "gotime \<Rightarrow> gotime"
  p_stored :: "gotime \<Rightarrow> gotime"
  p_locked :: "nat \<Rightarrow> string \<Rightarrow> bool"
  p_payload :: "outbound_event \<Rightarrow> string"
  p_decode :: "cached \<Rightarrow> string"
  p_random :: "nat \<Rightarrow> 8 word list option"
  p_draws :: nat
  p_ties :: "nat \<Rightarrow> bool"
  p_selects :: nat
  p_replayed :: bool
  p_order_metric :: "string \<times> string \<Rightarrow> nat"
  p_delivery_metric :: "string \<Rightarrow> nat"
  p_fallback_metric :: nat

text \<open>One call to the database or to Redis.\<close>

definition external_call ::
  "pending \<Rightarrow> (pworld \<Rightarrow> database \<times> redis \<Rightarrow> (product_error + 'a) \<times> (database \<times> redis)) \<Rightarrow>
   pworld \<Rightarrow> (product_error + 'a) \<times> pworld" where
  "external_call held f w0 =
     (let n = p_calls w0;
          st = p_others w0 n held (p_db w0, p_redis w0);
          w = w0\<lparr>p_clock := p_clock w0 + int (p_delays w0 n)\<rparr>
      in case f w st of
           (res, st') \<Rightarrow>
             (case p_faults w n of
                None \<Rightarrow> (res, w\<lparr>p_calls := Suc n, p_db := fst st', p_redis := snd st'\<rparr>)
              | Some (e, applied) \<Rightarrow>
                  (Inl e, w\<lparr>p_calls := Suc n, p_db := fst (if applied then st' else st),
                     p_redis := snd (if applied then st' else st)\<rparr>)))"

text \<open>A statement on the tables, outside a transaction or inside one with the given pending rows.\<close>

definition statement ::
  "pending \<Rightarrow> (pworld \<Rightarrow> database \<Rightarrow> (product_error + 'a) \<times> database) \<Rightarrow> pworld \<Rightarrow> (product_error + 'a) \<times> pworld" where
  "statement held f = external_call held (\<lambda>w (db, rd). case f w db of (res, db') \<Rightarrow> (res, (db', rd)))"

definition db_now :: "pworld \<Rightarrow> gotime" where
  "db_now w = p_db_time w (p_clock w)"

definition wrap_error :: "string \<Rightarrow> product_error + 'a \<Rightarrow> product_error + 'a" where
  "wrap_error text res = (case res of Inl e \<Rightarrow> Inl (Wrapped text e []) | Inr x \<Rightarrow> Inr x)"

definition draw_bytes :: "pworld \<Rightarrow> 8 word list option \<times> pworld" where
  "draw_bytes w = (p_random w (p_draws w), w\<lparr>p_draws := Suc (p_draws w)\<rparr>)"

definition product_id :: "string \<Rightarrow> pworld \<Rightarrow> string \<times> pworld" where
  "product_id pre w =
     (case draw_bytes w of
        (None, w') \<Rightarrow> (pre @ ''_'' @ show_int (wrap64 (p_clock w - 62135596800 * second)), w')
      | (Some bs, w') \<Rightarrow> (pre @ ''_'' @ hex_encode bs, w'))"

section \<open>Statements on orders\<close>

definition find_row :: "database \<Rightarrow> string \<Rightarrow> string \<Rightarrow> order_row option" where
  "find_row db t k = find (\<lambda>r. row_scope r = (t, k)) (order_rows db)"

text \<open>\<open>findOrder\<close>: the order with its fingerprint, or that there is none.\<close>

definition find_order :: "pending \<Rightarrow> string \<Rightarrow> string \<Rightarrow> pworld \<Rightarrow> (product_error + (order \<times> string) option) \<times> pworld" where
  "find_order held t k w =
     (case statement held (\<lambda>_ db. (Inr (map_option (\<lambda>r. (ow_order r, ow_fingerprint r)) (find_row db t k)), db)) w of
        (res, w') \<Rightarrow> (wrap_error ''find idempotent order: '' res, w'))"

text \<open>\<open>INSERT INTO product_events ... RETURNING sequence\<close>: the sequence advances at once and for good.\<close>

definition next_sequence_statement :: "database \<Rightarrow> (product_error + nat) \<times> database" where
  "next_sequence_statement db =
     (if last_sequence db = 2 ^ 63 - 1
      then (Inl (Pg_error ''2200H'' ''nextval: reached maximum value of sequence''), db)
      else (Inr (Suc (last_sequence db)), db\<lparr>last_sequence := Suc (last_sequence db)\<rparr>))"

definition conflicts :: "order_row \<Rightarrow> order_row \<Rightarrow> bool" where
  "conflicts r r' \<longleftrightarrow> row_scope r = row_scope r' \<or> order_id (ow_order r) = order_id (ow_order r')"

text \<open>\<open>INSERT INTO product_orders\<close> checks the primary key and the unique key of tenant and idempotency key,
  and the range of the quantity.\<close>

definition insert_order_statement :: "order_row \<Rightarrow> database \<Rightarrow> (product_error + unit) \<times> database" where
  "insert_order_statement r db =
     (if quantity (ow_order r) < 1 \<or> 12 < quantity (ow_order r)
      then (Inl (Pg_error ''23514'' ''new row violates check constraint''), db)
      else if list_ex (conflicts r) (order_rows db)
      then (Inl (Pg_error ''23505'' ''duplicate key value violates unique constraint''), db)
      else (Inr (), db))"

definition insert_delivery_statement :: "webhook_delivery \<Rightarrow> database \<Rightarrow> (product_error + unit) \<times> database" where
  "insert_delivery_statement d db =
     (if wd_max_attempts d \<le> 0
      then (Inl (Pg_error ''23514'' ''new row violates check constraint''), db)
      else if list_ex (\<lambda>d'. wd_id d' = wd_id d) (delivery_rows db)
      then (Inl (Pg_error ''23505'' ''duplicate key value violates unique constraint''), db)
      else (Inr (), db))"

definition commit_statement :: "event_row \<Rightarrow> order_row \<Rightarrow> webhook_delivery list \<Rightarrow> database \<Rightarrow> (product_error + unit) \<times> database" where
  "commit_statement ev r ds db =
     (Inr (), db\<lparr>event_rows := event_rows db @ [ev], order_rows := order_rows db @ [r],
        delivery_rows := delivery_rows db @ ds\<rparr>)"

fun is_unique_violation :: "product_error \<Rightarrow> bool" where
  "is_unique_violation (Pg_error code text) \<longleftrightarrow> code = ''23505''"
| "is_unique_violation (Wrapped pre e post) \<longleftrightarrow> is_unique_violation e"
| "is_unique_violation _ \<longleftrightarrow> False"

section \<open>Creating an order\<close>

definition resolve_concurrent_create :: "create_order_request \<Rightarrow> pworld \<Rightarrow> (product_error + order \<times> bool) \<times> pworld" where
  "resolve_concurrent_create req w =
     (case find_order nothing_pending (rq_tenant req) (rq_key req) w of
        (Inl e, w') \<Rightarrow> (Inl e, w')
      | (Inr None, w') \<Rightarrow> (Inl (Other_error ''idempotency conflict committed without an order''), w')
      | (Inr (Some (ord, fingerprint)), w') \<Rightarrow>
          if fingerprint \<noteq> rq_fingerprint req then (Inl Err_idempotency_conflict, w') else (Inr (ord, True), w'))"

definition new_order :: "create_order_request \<Rightarrow> string \<Rightarrow> gotime \<Rightarrow> nat \<Rightarrow> order" where
  "new_order req oid now n = \<lparr>order_id = oid, tenant_id = rq_tenant req, event_id = rq_event_id req,
     quantity = rq_quantity req, order_status = order_confirmed, created_at = now, updated_at = now,
     sequence = of_nat n\<rparr>"

definition order_row_of :: "create_order_request \<Rightarrow> order \<Rightarrow> (gotime \<Rightarrow> gotime) \<Rightarrow> order_row" where
  "order_row_of req ord stored = \<lparr>ow_order = ord\<lparr>created_at := stored (created_at ord), updated_at := stored (updated_at ord)\<rparr>,
     ow_key = rq_key req, ow_fingerprint = rq_fingerprint req, ow_source = rq_source req,
     ow_external_id = rq_external_id req\<rparr>"

definition event_row_of :: "order \<Rightarrow> nat \<Rightarrow> gotime \<Rightarrow> event_row" where
  "event_row_of ord n at = \<lparr>er_sequence = n, er_type = ''order.confirmed'', er_order_id = order_id ord,
     er_tenant = tenant_id ord, er_status = order_status ord, er_at = at\<rparr>"

text \<open>The delivery that goes into the outbox with the order; its two identifiers are drawn here.\<close>

definition outbox_delivery :: "create_order_request \<Rightarrow> order \<Rightarrow> gotime \<Rightarrow> pworld \<Rightarrow> webhook_delivery \<times> pworld" where
  "outbox_delivery req ord now w =
     (case product_id ''evt'' w of (eid, w1) \<Rightarrow>
      (case product_id ''wh'' w1 of (did, w2) \<Rightarrow>
        (\<lparr>wd_id = did, wd_tenant = tenant_id ord, wd_event_type = ''order.confirmed'',
          wd_payload = p_payload w \<lparr>oe_id = eid, oe_type = ''order.confirmed'', oe_created = now, oe_data = ord\<rparr>,
          wd_target = rq_webhook_url req, wd_status = delivery_pending, wd_attempts = 0,
          wd_max_attempts = rq_max_attempts req, wd_next_attempt = p_stored w now, wd_last_error = [],
          wd_created = p_stored w now, wd_updated = p_stored w now\<rparr>, w2)))"

definition enqueue_delivery ::
  "create_order_request \<Rightarrow> order \<Rightarrow> gotime \<Rightarrow> pending \<Rightarrow> pworld \<Rightarrow> (product_error + webhook_delivery list) \<times> pworld" where
  "enqueue_delivery req ord now held w =
     (if rq_webhook_url req = [] then (Inr [], w)
      else case outbox_delivery req ord now w of
             (d, w1) \<Rightarrow>
               (case statement held (\<lambda>_. insert_delivery_statement d) w1 of
                  (Inl e, w2) \<Rightarrow> (Inl (Wrapped ''enqueue transactional webhook: '' e []), w2)
                | (Inr _, w2) \<Rightarrow> (Inr [d], w2)))"

text \<open>The transaction behind the first look-up, from the event to the commit.\<close>

definition insert_all :: "create_order_request \<Rightarrow> pworld \<Rightarrow> (product_error + order \<times> bool) \<times> pworld" where
  "insert_all req w0 =
     (let now = p_clock w0
      in case product_id ''ord'' w0 of (oid, w1) \<Rightarrow>
        (case statement nothing_pending (\<lambda>_. next_sequence_statement) w1 of
           (Inl e, w2) \<Rightarrow> (Inl (Wrapped ''insert order event: '' e []), w2)
         | (Inr n, w2) \<Rightarrow>
             (let ord = new_order req oid now n;
                  r = order_row_of req ord (p_stored w2);
                  event_held = nothing_pending\<lparr>pn_sequences := [n]\<rparr>;
                  held = event_held\<lparr>pn_orders := [r]\<rparr>
              in case statement event_held (\<lambda>_. insert_order_statement r) w2 of
                   (Inl e, w3) \<Rightarrow>
                     if is_unique_violation e then resolve_concurrent_create req w3
                     else (Inl (Wrapped ''insert order: '' e []), w3)
                 | (Inr _, w3) \<Rightarrow>
                     (case enqueue_delivery req ord now held w3 of
                        (Inl e, w4) \<Rightarrow> (Inl e, w4)
                      | (Inr ds, w4) \<Rightarrow>
                          (case statement (held\<lparr>pn_deliveries := ds\<rparr>)
                                  (\<lambda>_. commit_statement (event_row_of ord n (p_stored w4 now)) r ds) w4 of
                             (Inl e, w5) \<Rightarrow> (Inl (Wrapped ''commit order transaction: '' e []), w5)
                           | (Inr _, w5) \<Rightarrow> (Inr (ord, False), w5))))))"

definition repo_create_order :: "create_order_request \<Rightarrow> pworld \<Rightarrow> (product_error + order \<times> bool) \<times> pworld" where
  "repo_create_order req w =
     (case statement nothing_pending (\<lambda>_ db. (Inr (), db)) w of
        (Inl e, w1) \<Rightarrow> (Inl (Wrapped ''begin order transaction: '' e []), w1)
      | (Inr _, w1) \<Rightarrow>
          (case find_order nothing_pending (rq_tenant req) (rq_key req) w1 of
             (Inl e, w2) \<Rightarrow> (Inl e, w2)
           | (Inr (Some (existing, fingerprint)), w2) \<Rightarrow>
               if fingerprint \<noteq> rq_fingerprint req then (Inl Err_idempotency_conflict, w2)
               else (Inr (existing, True), w2)
           | (Inr None, w2) \<Rightarrow> insert_all req w2))"

section \<open>Reading orders\<close>

definition repo_ping :: "pworld \<Rightarrow> product_error option \<times> pworld" where
  "repo_ping w =
     (case statement nothing_pending (\<lambda>_ db. (Inr (), db)) w of
        (Inl e, w') \<Rightarrow> (Some (Wrapped ''ping postgres: '' e []), w')
      | (Inr _, w') \<Rightarrow> (None, w'))"

definition repo_get_order :: "string \<Rightarrow> string \<Rightarrow> pworld \<Rightarrow> (product_error + order) \<times> pworld" where
  "repo_get_order t oid w =
     (case statement nothing_pending
         (\<lambda>_ db. (Inr (find (\<lambda>r. tenant_id (ow_order r) = t \<and> order_id (ow_order r) = oid) (order_rows db)), db)) w of
        (Inl e, w') \<Rightarrow> (Inl (Wrapped ''get order: '' e []), w')
      | (Inr None, w') \<Rightarrow> (Inl Err_not_found, w')
      | (Inr (Some r), w') \<Rightarrow> (Inr (ow_order r), w'))"

text \<open>\<open>ORDER BY sequence DESC LIMIT\<close>.\<close>

definition list_orders_query :: "string \<Rightarrow> nat \<Rightarrow> database \<Rightarrow> order list" where
  "list_orders_query t limit db =
     take limit (rev (sort_key (\<lambda>o'. unat (sequence o')) (map ow_order (filter (\<lambda>r. tenant_id (ow_order r) = t) (order_rows db)))))"

definition clamp_limit :: "int \<Rightarrow> int \<Rightarrow> int \<Rightarrow> nat" where
  "clamp_limit most fallback limit = nat (if limit < 1 \<or> most < limit then fallback else limit)"

definition repo_list_orders :: "string \<Rightarrow> int \<Rightarrow> pworld \<Rightarrow> (product_error + order list) \<times> pworld" where
  "repo_list_orders t limit w =
     (case statement nothing_pending (\<lambda>_ db. (Inr (list_orders_query t (clamp_limit 200 100 limit) db), db)) w of
        (res, w') \<Rightarrow> (wrap_error ''list orders: '' res, w'))"

section \<open>Deliveries\<close>

definition milliseconds :: "duration \<Rightarrow> int" where
  "milliseconds d = d sdiv millisecond"

definition delivery_due :: "gotime \<Rightarrow> duration \<Rightarrow> webhook_delivery \<Rightarrow> bool" where
  "delivery_due now lease d \<longleftrightarrow>
     wd_status d = delivery_pending \<and> wd_next_attempt d \<le> now \<or>
     wd_status d = delivery_processing \<and> wd_updated d \<le> now - milliseconds lease * millisecond"

text \<open>The \<open>candidates\<close> of the claim: due, not locked, by next attempt and then by creation, limited.\<close>

definition claim_candidates :: "gotime \<Rightarrow> duration \<Rightarrow> (string \<Rightarrow> bool) \<Rightarrow> nat \<Rightarrow> database \<Rightarrow> webhook_delivery list" where
  "claim_candidates now lease locked limit db =
     take limit (sort_key wd_next_attempt (sort_key wd_created
       (filter (\<lambda>d. delivery_due now lease d \<and> \<not> locked (wd_id d)) (delivery_rows db))))"

definition claimed :: "gotime \<Rightarrow> webhook_delivery \<Rightarrow> webhook_delivery" where
  "claimed now d = d\<lparr>wd_status := delivery_processing, wd_attempts := wd_attempts d + 1, wd_updated := now\<rparr>"

definition update_where :: "(webhook_delivery \<Rightarrow> bool) \<Rightarrow> (webhook_delivery \<Rightarrow> webhook_delivery) \<Rightarrow> database \<Rightarrow> nat \<times> database" where
  "update_where P f db =
     (length (filter P (delivery_rows db)), db\<lparr>delivery_rows := map (\<lambda>d. if P d then f d else d) (delivery_rows db)\<rparr>)"

definition claim_statement :: "duration \<Rightarrow> nat \<Rightarrow> pworld \<Rightarrow> database \<Rightarrow> (product_error + webhook_delivery list) \<times> database" where
  "claim_statement lease limit w db =
     (let now = db_now w;
          ids = map wd_id (claim_candidates now lease (p_locked w (p_calls w)) limit db);
          hit = (\<lambda>d. wd_id d \<in> set ids)
      in (Inr (map (claimed now) (filter hit (delivery_rows db))), snd (update_where hit (claimed now) db)))"

definition repo_claim_deliveries :: "int \<Rightarrow> duration \<Rightarrow> pworld \<Rightarrow> (product_error + webhook_delivery list) \<times> pworld" where
  "repo_claim_deliveries limit lease w =
     (case statement nothing_pending (claim_statement lease (clamp_limit 100 10 limit)) w of
        (res, w') \<Rightarrow> (wrap_error ''claim webhook deliveries: '' res, w'))"

text \<open>An \<open>UPDATE\<close> of which the code looks at the number of rows.\<close>

definition update_one :: "string \<Rightarrow> (webhook_delivery \<Rightarrow> bool) \<Rightarrow> (pworld \<Rightarrow> webhook_delivery \<Rightarrow> webhook_delivery) \<Rightarrow>
    pworld \<Rightarrow> product_error option \<times> pworld" where
  "update_one text P f w =
     (case statement nothing_pending (\<lambda>w db. case update_where P (f w) db of (n, db') \<Rightarrow> (Inr n, db')) w of
        (Inl e, w') \<Rightarrow> (Some (Wrapped text e []), w')
      | (Inr n, w') \<Rightarrow> (if n \<noteq> 1 then Some Err_not_found else None, w'))"

definition repo_mark_succeeded :: "string \<Rightarrow> pworld \<Rightarrow> product_error option \<times> pworld" where
  "repo_mark_succeeded did =
     update_one ''complete webhook delivery: '' (\<lambda>d. wd_id d = did \<and> wd_status d = delivery_processing)
       (\<lambda>w d. d\<lparr>wd_status := delivery_delivered, wd_last_error := [], wd_updated := db_now w\<rparr>)"

definition failed_status :: "webhook_delivery \<Rightarrow> delivery_status" where
  "failed_status d = (if wd_max_attempts d \<le> wd_attempts d then delivery_dead_letter else delivery_pending)"

definition repo_mark_failed ::
  "webhook_delivery \<Rightarrow> string \<Rightarrow> duration \<Rightarrow> pworld \<Rightarrow> (product_error + delivery_status) \<times> pworld" where
  "repo_mark_failed dl msg delay w =
     (case update_one ''fail webhook delivery: '' (\<lambda>d. wd_id d = wd_id dl \<and> wd_status d = delivery_processing)
         (\<lambda>w d. d\<lparr>wd_status := failed_status dl, wd_next_attempt := db_now w + milliseconds delay * millisecond,
            wd_last_error := msg, wd_updated := db_now w\<rparr>) w of
        (Some e, w') \<Rightarrow> (Inl e, w')
      | (None, w') \<Rightarrow> (Inr (failed_status dl), w'))"

definition list_deliveries_query :: "string \<Rightarrow> delivery_status \<Rightarrow> nat \<Rightarrow> database \<Rightarrow> webhook_delivery list" where
  "list_deliveries_query t st limit db =
     take limit (sort_key (\<lambda>d. - wd_created d)
       (filter (\<lambda>d. wd_tenant d = t \<and> (st = [] \<or> wd_status d = st)) (delivery_rows db)))"

definition repo_list_deliveries ::
  "string \<Rightarrow> delivery_status \<Rightarrow> int \<Rightarrow> pworld \<Rightarrow> (product_error + webhook_delivery list) \<times> pworld" where
  "repo_list_deliveries t st limit w =
     (case statement nothing_pending (\<lambda>_ db. (Inr (list_deliveries_query t st (clamp_limit 200 100 limit) db), db)) w of
        (res, w') \<Rightarrow> (wrap_error ''list webhook deliveries: '' res, w'))"

definition repo_replay_delivery :: "string \<Rightarrow> string \<Rightarrow> pworld \<Rightarrow> product_error option \<times> pworld" where
  "repo_replay_delivery t did =
     update_one ''replay dead-letter delivery: ''
       (\<lambda>d. wd_tenant d = t \<and> wd_id d = did \<and> wd_status d = delivery_dead_letter)
       (\<lambda>w d. d\<lparr>wd_status := delivery_pending, wd_attempts := 0, wd_next_attempt := db_now w,
          wd_last_error := [], wd_updated := db_now w\<rparr>)"

section \<open>Opening and migrating\<close>

text \<open>\<open>OpenPostgres\<close>, given what configuring the pool gave: the pool is usable only when it answers.\<close>

definition open_postgres :: "product_error option \<Rightarrow> pworld \<Rightarrow> product_error option \<times> pworld" where
  "open_postgres pool_error w =
     (case pool_error of
        Some e \<Rightarrow> (Some (Wrapped ''configure postgres pool: '' e []), w)
      | None \<Rightarrow> repo_ping w)"

text \<open>
  \<open>Migrate\<close> over the embedded files in sorted order: \<open>contents\<close> reads a file, \<open>exec\<close> runs a script on
  the schema \<open>'d\<close> and reports an error.
\<close>

fun apply_migrations :: "(string \<Rightarrow> product_error + string) \<Rightarrow> (string \<Rightarrow> 'd \<Rightarrow> product_error option \<times> 'd) \<Rightarrow>
    string list \<Rightarrow> 'd \<Rightarrow> product_error option \<times> 'd" where
  "apply_migrations contents exec [] d = (None, d)"
| "apply_migrations contents exec (path # paths) d =
     (case contents path of
        Inl e \<Rightarrow> (Some (Wrapped (''read migration '' @ path @ '': '') e []), d)
      | Inr script \<Rightarrow>
          (case exec script d of
             (Some e, d') \<Rightarrow> (Some (Wrapped (''apply migration '' @ path @ '': '') e []), d')
           | (None, d') \<Rightarrow> apply_migrations contents exec paths d'))"

definition migrate ::
  "product_error + string list \<Rightarrow> (string \<Rightarrow> product_error + string) \<Rightarrow>
   (string \<Rightarrow> 'd \<Rightarrow> product_error option \<times> 'd) \<Rightarrow> 'd \<Rightarrow> product_error option \<times> 'd" where
  "migrate paths contents exec d =
     (case paths of
        Inl e \<Rightarrow> (Some (Wrapped ''list migrations: '' e []), d)
      | Inr ps \<Rightarrow> apply_migrations contents exec (sort ps) d)"

end
