(* ===== verification/Repository_Properties.thy ===== *)
theory Repository_Properties
  imports Repository
begin

text \<open>
  What the order side of the repository guarantees next to any number of concurrent clients, by
  rely and guarantee: \<open>db_rely\<close> is what every other client may do to the tables, given what our
  transaction has inserted; our own calls stay within it (\<open>db_evolves\<close>), so it holds of all of them.
\<close>

section \<open>Sound tables and their evolution\<close>

definition event_of_row :: "event_row \<Rightarrow> order_row \<Rightarrow> bool" where
  "event_of_row ev r \<longleftrightarrow> of_nat (er_sequence ev) = sequence (ow_order r) \<and> er_order_id ev = order_id (ow_order r) \<and>
     er_tenant ev = tenant_id (ow_order r) \<and> er_type ev = ''order.confirmed'' \<and> er_status ev = order_status (ow_order r)"

definition used_sequences :: "database \<Rightarrow> nat set" where
  "used_sequences db = er_sequence ` set (event_rows db)"

definition delivery_ids :: "database \<Rightarrow> string set" where
  "delivery_ids db = wd_id ` set (delivery_rows db)"

definition no_conflict :: "order_row \<Rightarrow> database \<Rightarrow> bool" where
  "no_conflict r db \<longleftrightarrow> (\<forall>r' \<in> set (order_rows db). \<not> conflicts r r')"

definition db_ok :: "database \<Rightarrow> bool" where
  "db_ok db \<longleftrightarrow> distinct (map row_scope (order_rows db)) \<and> distinct (map (order_id \<circ> ow_order) (order_rows db)) \<and>
     distinct (map er_sequence (event_rows db)) \<and> (\<forall>n \<in> used_sequences db. n \<le> last_sequence db) \<and>
     (\<forall>r \<in> set (order_rows db). \<exists>ev \<in> set (event_rows db). event_of_row ev r) \<and>
     distinct (map wd_id (delivery_rows db))"

lemma db_okD:
  assumes "db_ok db"
  shows "distinct (map row_scope (order_rows db))" "distinct (map (order_id \<circ> ow_order) (order_rows db))"
    "distinct (map er_sequence (event_rows db))" "n \<in> used_sequences db \<Longrightarrow> n \<le> last_sequence db"
    "r \<in> set (order_rows db) \<Longrightarrow> \<exists>ev \<in> set (event_rows db). event_of_row ev r" "distinct (map wd_id (delivery_rows db))"
  using assms by (simp_all add: db_ok_def)

lemma db_ok_empty [simp]: "db_ok empty_database"
  by (simp add: db_ok_def empty_database_def used_sequences_def)

definition db_grows :: "database \<Rightarrow> database \<Rightarrow> bool" where
  "db_grows db db' \<longleftrightarrow> prefix (order_rows db) (order_rows db') \<and> prefix (event_rows db) (event_rows db') \<and>
     last_sequence db \<le> last_sequence db' \<and> delivery_ids db \<subseteq> delivery_ids db'"

definition db_evolves :: "database \<Rightarrow> database \<Rightarrow> bool" where
  "db_evolves db db' \<longleftrightarrow> db_grows db db' \<and> (db_ok db \<longrightarrow> db_ok db')"

lemma db_evolves_refl [simp]: "db_evolves db db"
  by (simp add: db_evolves_def db_grows_def)

lemma db_evolves_trans: "db_evolves a b \<Longrightarrow> db_evolves b c \<Longrightarrow> db_evolves a c"
  by (auto simp: db_evolves_def db_grows_def intro: prefix_order.trans)

lemma db_evolves_rows: "db_evolves a b \<Longrightarrow> r \<in> set (order_rows a) \<Longrightarrow> r \<in> set (order_rows b)"
  by (auto simp: db_evolves_def db_grows_def dest: set_mono_prefix)

text \<open>
  The rely: the tables grow and stay sound, and nobody commits a row that collides with one that
  our open transaction has inserted, a documented property of unique indexes and of sequences.
\<close>

definition db_rely :: "pending \<Rightarrow> database \<Rightarrow> database \<Rightarrow> bool" where
  "db_rely held db db' \<longleftrightarrow> db_evolves db db' \<and>
     (\<forall>n \<in> set (pn_sequences held). n \<notin> used_sequences db \<longrightarrow> n \<notin> used_sequences db') \<and>
     (\<forall>r \<in> set (pn_orders held). no_conflict r db \<longrightarrow> no_conflict r db') \<and>
     (\<forall>d \<in> set (pn_deliveries held). wd_id d \<notin> delivery_ids db \<longrightarrow> wd_id d \<notin> delivery_ids db')"

lemma db_rely_refl [simp]: "db_rely held db db"
  by (simp add: db_rely_def)

lemma db_relyD:
  assumes "db_rely held db db'"
  shows "db_evolves db db'" "n \<in> set (pn_sequences held) \<Longrightarrow> n \<notin> used_sequences db \<Longrightarrow> n \<notin> used_sequences db'"
    "r \<in> set (pn_orders held) \<Longrightarrow> no_conflict r db \<Longrightarrow> no_conflict r db'"
    "d \<in> set (pn_deliveries held) \<Longrightarrow> wd_id d \<notin> delivery_ids db \<Longrightarrow> wd_id d \<notin> delivery_ids db'"
  using assms by (simp_all add: db_rely_def)

definition others_rely :: "pworld \<Rightarrow> bool" where
  "others_rely w \<longleftrightarrow> (\<forall>n held db rd. db_rely held db (fst (p_others w n held (db, rd))))"

text \<open>An error that comes from outside the program, and the assumption on all of them.\<close>

definition external_error :: "product_error \<Rightarrow> bool" where
  "external_error e \<longleftrightarrow> (case e of Pg_error _ _ \<Rightarrow> True | Ctx_done _ \<Rightarrow> True | Other_error _ \<Rightarrow> True | _ \<Rightarrow> False)"

definition faults_external :: "pworld \<Rightarrow> bool" where
  "faults_external w \<longleftrightarrow> (\<forall>n e applied. p_faults w n = Some (e, applied) \<longrightarrow> external_error e)"

text \<open>What no operation changes.\<close>

definition same_env :: "pworld \<Rightarrow> pworld \<Rightarrow> bool" where
  "same_env w w' \<longleftrightarrow> p_others w' = p_others w \<and> p_faults w' = p_faults w \<and> p_delays w' = p_delays w \<and>
     p_db_time w' = p_db_time w \<and> p_stored w' = p_stored w \<and> p_locked w' = p_locked w \<and> p_payload w' = p_payload w \<and>
     p_random w' = p_random w \<and> p_ties w' = p_ties w"

lemma same_env_refl [simp]: "same_env w w"
  by (simp add: same_env_def)

lemma same_env_trans: "same_env a b \<Longrightarrow> same_env b c \<Longrightarrow> same_env a c"
  by (simp add: same_env_def)

lemma faults_external_env: "same_env w w' \<Longrightarrow> faults_external w \<Longrightarrow> faults_external w'"
  by (simp add: same_env_def faults_external_def)

lemma external_not_conflict: "external_error e \<Longrightarrow> \<not> product_is e Err_idempotency_conflict"
  by (cases e) (simp_all add: external_error_def)

lemma others_rely_env: "same_env w w' \<Longrightarrow> others_rely w \<Longrightarrow> others_rely w'"
  by (simp add: same_env_def others_rely_def)

section \<open>One statement\<close>

lemma statement_cases:
  assumes "others_rely w" and "statement held f w = (res, w')"
  obtains db1 where "db_rely held (p_db w) db1" "same_env w w'" "p_draws w' = p_draws w" "p_replayed w' = p_replayed w"
    "p_clock w \<le> p_clock w'"
    "(case f (w\<lparr>p_clock := p_clock w'\<rparr>) db1 of (res', db2) \<Rightarrow>
        p_db w' = db2 \<and> res = res' \<or>
        (\<exists>e applied n. res = Inl e \<and> p_faults w n = Some (e, applied) \<and> (p_db w' = db2 \<or> p_db w' = db1)))"
proof -
  let ?st = "p_others w (p_calls w) held (p_db w, p_redis w)"
  have "db_rely held (p_db w) (fst ?st)" using assms(1) unfolding others_rely_def by blast
  with assms(2) show thesis
    by (intro that [of "fst ?st"])
      (auto simp: statement_def external_call_def Let_def same_env_def split: prod.splits option.splits if_splits)
qed

text \<open>A statement that only reads.\<close>

lemma read_cases:
  assumes "others_rely w" and "statement held (\<lambda>_ db. (Inr (g db), db)) w = (res, w')"
  shows "db_rely held (p_db w) (p_db w')" "same_env w w'" "p_draws w' = p_draws w" "p_replayed w' = p_replayed w"
    "p_clock w \<le> p_clock w'"
    "res = Inr (g (p_db w')) \<or> (\<exists>e applied n. res = Inl e \<and> p_faults w n = Some (e, applied))"
  by (rule statement_cases [OF assms]; auto split: prod.splits)+

lemma find_row_Some: "find_row db t k = Some r \<Longrightarrow> r \<in> set (order_rows db) \<and> row_scope r = (t, k)"
  by (auto simp: find_row_def find_Some_iff)

lemma find_row_None: "find_row db t k = None \<Longrightarrow> r \<in> set (order_rows db) \<Longrightarrow> row_scope r \<noteq> (t, k)"
  unfolding find_row_def find_None_iff by blast

lemma find_order_cases:
  assumes "others_rely w" and "find_order held t k w = (res, w')"
  shows "db_rely held (p_db w) (p_db w')" "same_env w w'" "p_draws w' = p_draws w" "p_replayed w' = p_replayed w"
    "p_clock w \<le> p_clock w'"
    "res = Inr (map_option (\<lambda>r. (ow_order r, ow_fingerprint r)) (find_row (p_db w') t k)) \<or>
     (\<exists>e applied n. res = Inl (Wrapped ''find idempotent order: '' e []) \<and> p_faults w n = Some (e, applied))"
proof -
  obtain res0 where st: "statement held (\<lambda>_ db. (Inr (map_option (\<lambda>r. (ow_order r, ow_fingerprint r)) (find_row db t k)), db)) w = (res0, w')"
    and res: "res = wrap_error ''find idempotent order: '' res0"
    using assms(2) by (auto simp: find_order_def split: prod.splits)
  note R = read_cases [OF assms(1) st]
  show "db_rely held (p_db w) (p_db w')" "same_env w w'" "p_draws w' = p_draws w" "p_replayed w' = p_replayed w"
    "p_clock w \<le> p_clock w'" by (rule R)+
  show "res = Inr (map_option (\<lambda>r. (ow_order r, ow_fingerprint r)) (find_row (p_db w') t k)) \<or>
     (\<exists>e applied n. res = Inl (Wrapped ''find idempotent order: '' e []) \<and> p_faults w n = Some (e, applied))"
    using R(6) by (auto simp: res wrap_error_def)
qed

section \<open>Creating an order\<close>

definition request_scope :: "create_order_request \<Rightarrow> string \<times> string" where
  "request_scope req = (rq_tenant req, rq_key req)"

text \<open>The row a request is answered from.\<close>

definition answers :: "create_order_request \<Rightarrow> order \<Rightarrow> order_row \<Rightarrow> bool" where
  "answers req ord r \<longleftrightarrow> row_scope r = request_scope req \<and> ow_fingerprint r = rq_fingerprint req \<and> ow_order r = ord"

definition enqueued :: "create_order_request \<Rightarrow> order \<Rightarrow> webhook_delivery \<Rightarrow> bool" where
  "enqueued req ord d \<longleftrightarrow> wd_tenant d = tenant_id ord \<and> wd_target d = rq_webhook_url req \<and> wd_status d = delivery_pending \<and>
     wd_attempts d = 0 \<and> wd_max_attempts d = rq_max_attempts req"

definition create_answer :: "create_order_request \<Rightarrow> product_error + order \<times> bool \<Rightarrow> pworld \<Rightarrow> bool" where
  "create_answer req res w \<longleftrightarrow>
     (case res of
        Inl e \<Rightarrow> product_is e Err_idempotency_conflict \<longrightarrow>
          (\<exists>r \<in> set (order_rows (p_db w)). row_scope r = request_scope req \<and> ow_fingerprint r \<noteq> rq_fingerprint req)
      | Inr (ord, True) \<Rightarrow> \<exists>r \<in> set (order_rows (p_db w)). answers req ord r
      | Inr (ord, False) \<Rightarrow> order_row_of req ord (p_stored w) \<in> set (order_rows (p_db w)) \<and>
          (\<exists>oid now n. ord = new_order req oid now n) \<and>
          (rq_webhook_url req \<noteq> [] \<longrightarrow> (\<exists>d \<in> set (delivery_rows (p_db w)). enqueued req ord d)))"

text \<open>What a call to the repository does: the tables evolve, the environment stays.\<close>

definition repo_step :: "pworld \<Rightarrow> pworld \<Rightarrow> bool" where
  "repo_step w w' \<longleftrightarrow> db_evolves (p_db w) (p_db w') \<and> same_env w w' \<and> p_replayed w' = p_replayed w \<and> p_clock w \<le> p_clock w'"

lemma repo_step_refl [simp]: "repo_step w w"
  by (simp add: repo_step_def)

lemma repo_step_trans: "repo_step a b \<Longrightarrow> repo_step b c \<Longrightarrow> repo_step a c"
  unfolding repo_step_def by (auto intro: db_evolves_trans same_env_trans)

lemma repo_step_env: "repo_step w w' \<Longrightarrow> others_rely w \<Longrightarrow> others_rely w'" "repo_step w w' \<Longrightarrow> faults_external w \<Longrightarrow> faults_external w'"
  by (auto simp: repo_step_def intro: others_rely_env faults_external_env)

lemma find_order_step: "others_rely w \<Longrightarrow> find_order held t k w = (res, w') \<Longrightarrow> repo_step w w'"
  using find_order_cases [of w held t k res w'] by (simp add: repo_step_def db_relyD(1))

lemma wrapped_external: "faults_external w \<Longrightarrow> p_faults w n = Some (e, applied) \<Longrightarrow> \<not> product_is (Wrapped pre e post) Err_idempotency_conflict"
  using external_not_conflict [of e] by (auto simp: faults_external_def)

lemma resolve_answer:
  assumes "others_rely w" and "faults_external w" and "resolve_concurrent_create req w = (res, w')"
  shows "repo_step w w'" and "create_answer req res w'"
    and "res = Inl (Other_error ''idempotency conflict committed without an order'') \<Longrightarrow>
      \<forall>r \<in> set (order_rows (p_db w')). row_scope r \<noteq> request_scope req"
proof -
  obtain found w1 where f: "find_order nothing_pending (rq_tenant req) (rq_key req) w = (found, w1)" by fastforce
  have w1: "w1 = w'" using assms(3) f by (auto simp: resolve_concurrent_create_def split: sum.splits option.splits if_splits)
  note F = find_order_cases [OF assms(1) f [unfolded w1]]
  show "repo_step w w'" by (rule find_order_step [OF assms(1) f [unfolded w1]])
  show "create_answer req res w'"
  proof (cases found)
    case (Inl e)
    then have "\<not> product_is e Err_idempotency_conflict"
      using F(6) wrapped_external [OF assms(2)] by auto
    then show ?thesis using assms(3) f Inl by (auto simp: resolve_concurrent_create_def create_answer_def)
  next
    case (Inr x)
    then have x: "x = map_option (\<lambda>r. (ow_order r, ow_fingerprint r)) (find_row (p_db w') (rq_tenant req) (rq_key req))"
      using F(6) by auto
    show ?thesis
    proof (cases "find_row (p_db w') (rq_tenant req) (rq_key req)")
      case None
      then show ?thesis using assms(3) f Inr x by (auto simp: resolve_concurrent_create_def create_answer_def)
    next
      case (Some r)
      note r = find_row_Some [OF Some]
      show ?thesis
        using assms(3) f Inr x Some r
        by (cases "ow_fingerprint r = rq_fingerprint req")
          (auto simp: resolve_concurrent_create_def create_answer_def answers_def request_scope_def intro!: bexI [of _ r])
    qed
  qed
  show "res = Inl (Other_error ''idempotency conflict committed without an order'') \<Longrightarrow>
      \<forall>r \<in> set (order_rows (p_db w')). row_scope r \<noteq> request_scope req"
    using F(6) assms(3) f
    by (auto simp: resolve_concurrent_create_def request_scope_def w1 dest: find_row_None split: if_splits option.splits)
qed

lemma draw_shape: "product_id pre w = (s, w') \<Longrightarrow> w' = w\<lparr>p_draws := Suc (p_draws w)\<rparr>"
  by (auto simp: product_id_def draw_bytes_def split: option.splits)

lemma repo_step_draw: "product_id pre w = (s, w') \<Longrightarrow> repo_step w w'"
  by (drule draw_shape) (simp add: repo_step_def same_env_def)

text \<open>What the transaction knows of the tables once its event, its order and its delivery are inserted.\<close>

definition event_reserved :: "nat \<Rightarrow> database \<Rightarrow> bool" where
  "event_reserved n db \<longleftrightarrow> n \<notin> used_sequences db \<and> n \<le> last_sequence db"

lemma event_reserved_rely:
  "db_rely held db db' \<Longrightarrow> n \<in> set (pn_sequences held) \<Longrightarrow> event_reserved n db \<Longrightarrow> event_reserved n db'"
  by (auto simp: event_reserved_def db_rely_def db_evolves_def db_grows_def)

lemma next_sequence_cases:
  assumes "others_rely w" and "db_ok (p_db w)" and "statement nothing_pending (\<lambda>_. next_sequence_statement) w = (res, w')"
  shows "repo_step w w'" "p_draws w' = p_draws w" "res = Inr n \<Longrightarrow> event_reserved n (p_db w')"
    "res = Inl e \<Longrightarrow> \<not> product_is e Err_idempotency_conflict \<or> \<not> faults_external w"
proof -
  obtain db1 where st: "db_rely nothing_pending (p_db w) db1" "same_env w w'" "p_draws w' = p_draws w" "p_replayed w' = p_replayed w"
      "p_clock w \<le> p_clock w'"
      "case next_sequence_statement db1 of (res', db2) \<Rightarrow> p_db w' = db2 \<and> res = res' \<or>
        (\<exists>e applied n. res = Inl e \<and> p_faults w n = Some (e, applied) \<and> (p_db w' = db2 \<or> p_db w' = db1))"
    by (rule statement_cases [OF assms(1,3)], rule that)
  have ev: "db_evolves (p_db w) db1" using db_relyD(1) [OF st(1)] .
  then have ok: "db_ok db1" using assms(2) by (simp add: db_evolves_def)
  have grow: "db_evolves db1 (db1\<lparr>last_sequence := Suc (last_sequence db1)\<rparr>)"
    by (auto simp: db_evolves_def db_grows_def db_ok_def used_sequences_def delivery_ids_def)
  have "p_db w' = db1 \<or> p_db w' = db1\<lparr>last_sequence := Suc (last_sequence db1)\<rparr>"
    using st(6) by (auto simp: next_sequence_statement_def split: if_splits)
  then have "db_evolves db1 (p_db w')" using grow by auto
  with ev st show "repo_step w w'" by (auto simp: repo_step_def intro: db_evolves_trans)
  show "p_draws w' = p_draws w" by (rule st(3))
  have fresh: "Suc (last_sequence db1) \<notin> used_sequences db1" using db_okD(4) [OF ok, of "Suc (last_sequence db1)"] by auto
  show "res = Inr n \<Longrightarrow> event_reserved n (p_db w')"
    using st(6) fresh by (auto simp: next_sequence_statement_def event_reserved_def used_sequences_def split: if_splits)
  show "res = Inl e \<Longrightarrow> \<not> product_is e Err_idempotency_conflict \<or> \<not> faults_external w"
    using st(6) external_not_conflict [of e] by (auto simp: next_sequence_statement_def faults_external_def split: if_splits)
qed

lemma insert_order_cases:
  assumes "others_rely w" and "statement held (\<lambda>_. insert_order_statement r) w = (res, w')"
  shows "repo_step w w'" "db_rely held (p_db w) (p_db w')" "p_draws w' = p_draws w"
    "res = Inr x \<Longrightarrow> no_conflict r (p_db w')" "res = Inl e \<Longrightarrow> \<not> product_is e Err_idempotency_conflict \<or> \<not> faults_external w"
proof -
  obtain db1 where st: "db_rely held (p_db w) db1" "same_env w w'" "p_draws w' = p_draws w" "p_replayed w' = p_replayed w"
      "p_clock w \<le> p_clock w'"
      "case insert_order_statement r db1 of (res', db2) \<Rightarrow> p_db w' = db2 \<and> res = res' \<or>
        (\<exists>e applied n. res = Inl e \<and> p_faults w n = Some (e, applied) \<and> (p_db w' = db2 \<or> p_db w' = db1))"
    by (rule statement_cases [OF assms], rule that)
  have db: "p_db w' = db1" using st(6) by (auto simp: insert_order_statement_def split: if_splits)
  show "repo_step w w'" using st db db_relyD(1) [OF st(1)] by (simp add: repo_step_def)
  show "db_rely held (p_db w) (p_db w')" "p_draws w' = p_draws w" using st(1,3) db by simp_all
  show "res = Inr x \<Longrightarrow> no_conflict r (p_db w')"
    using st(6) by (auto simp: insert_order_statement_def no_conflict_def list_ex_iff split: if_splits)
  show "res = Inl e \<Longrightarrow> \<not> product_is e Err_idempotency_conflict \<or> \<not> faults_external w"
    using st(6) external_not_conflict [of e] by (auto simp: insert_order_statement_def faults_external_def split: if_splits)
qed

lemma enqueue_cases:
  assumes "others_rely w" and "enqueue_delivery req ord now held w = (res, w')"
  shows "repo_step w w'" "db_rely held (p_db w) (p_db w')"
    "res = Inr ds \<Longrightarrow> (rq_webhook_url req = [] \<longrightarrow> ds = []) \<and>
       (rq_webhook_url req \<noteq> [] \<longrightarrow> (\<exists>d. ds = [d] \<and> enqueued req ord d \<and> wd_id d \<notin> delivery_ids (p_db w')))"
    "res = Inl e \<Longrightarrow> \<not> product_is e Err_idempotency_conflict \<or> \<not> faults_external w"
proof -
  have "repo_step w w' \<and> db_rely held (p_db w) (p_db w') \<and>
    (\<forall>ds. res = Inr ds \<longrightarrow> (rq_webhook_url req = [] \<longrightarrow> ds = []) \<and>
       (rq_webhook_url req \<noteq> [] \<longrightarrow> (\<exists>d. ds = [d] \<and> enqueued req ord d \<and> wd_id d \<notin> delivery_ids (p_db w')))) \<and>
    (\<forall>e. res = Inl e \<longrightarrow> \<not> product_is e Err_idempotency_conflict \<or> \<not> faults_external w)"
  proof (cases "rq_webhook_url req = []")
    case True
    then show ?thesis using assms(2) by (auto simp: enqueue_delivery_def)
  next
    case False
    obtain d w1 where d: "outbox_delivery req ord now w = (d, w1)" by fastforce
    have w1: "w1 = w\<lparr>p_draws := Suc (Suc (p_draws w))\<rparr>" and enq: "enqueued req ord d"
      using d by (auto simp: outbox_delivery_def enqueued_def dest!: draw_shape split: prod.splits)
    have env: "same_env w w1" "p_db w1 = p_db w" "p_replayed w1 = p_replayed w" "p_clock w1 = p_clock w"
      by (simp_all add: w1 same_env_def)
    obtain r where s: "statement held (\<lambda>_. insert_delivery_statement d) w1 = (r, w')"
      and res: "res = (case r of Inl e \<Rightarrow> Inl (Wrapped ''enqueue transactional webhook: '' e []) | Inr _ \<Rightarrow> Inr [d])"
      using assms(2) False d by (auto simp: enqueue_delivery_def split: prod.splits sum.splits)
    obtain db1 where st: "db_rely held (p_db w1) db1" "same_env w1 w'" "p_replayed w' = p_replayed w1" "p_clock w1 \<le> p_clock w'"
        "case insert_delivery_statement d db1 of (res', db2) \<Rightarrow> p_db w' = db2 \<and> r = res' \<or>
          (\<exists>e applied n. r = Inl e \<and> p_faults w1 n = Some (e, applied) \<and> (p_db w' = db2 \<or> p_db w' = db1))"
      by (rule statement_cases [OF others_rely_env [OF env(1) assms(1)] s], rule that)
    have db: "p_db w' = db1" using st(5) by (auto simp: insert_delivery_statement_def split: if_splits)
    have "repo_step w w'"
      using st(2-4) env db db_relyD(1) [OF st(1)] by (auto simp: repo_step_def intro: same_env_trans)
    moreover have "db_rely held (p_db w) (p_db w')" using st(1) env(2) db by simp
    moreover have "wd_id d \<notin> delivery_ids (p_db w')" if "r = Inr x" for x
      using st(5) that by (auto simp: insert_delivery_statement_def delivery_ids_def list_ex_iff split: if_splits)
    moreover have "\<not> product_is e Err_idempotency_conflict \<or> \<not> faults_external w" if "r = Inl e" for e
      using st(5) that external_not_conflict [of e]
      by (auto simp: insert_delivery_statement_def faults_external_def w1 split: if_splits)
    ultimately show ?thesis using enq False by (auto simp: res split: sum.splits)
  qed
  then show "repo_step w w'" "db_rely held (p_db w) (p_db w')"
    "res = Inr ds \<Longrightarrow> (rq_webhook_url req = [] \<longrightarrow> ds = []) \<and>
       (rq_webhook_url req \<noteq> [] \<longrightarrow> (\<exists>d. ds = [d] \<and> enqueued req ord d \<and> wd_id d \<notin> delivery_ids (p_db w')))"
    "res = Inl e \<Longrightarrow> \<not> product_is e Err_idempotency_conflict \<or> \<not> faults_external w" by blast+
qed

text \<open>The commit: the rows of the transaction fit the tables, because the rely has kept them apart.\<close>

lemma commit_ok:
  assumes "db_ok db" and "er_sequence ev = n" and "event_reserved n db" and "no_conflict r db" and "event_of_row ev r"
    and "\<forall>d \<in> set ds. wd_id d \<notin> delivery_ids db" and "distinct (map wd_id ds)"
  shows "db_evolves db (db\<lparr>event_rows := event_rows db @ [ev], order_rows := order_rows db @ [r],
      delivery_rows := delivery_rows db @ ds\<rparr>)" (is "db_evolves db ?db")
proof -
  note ok = db_okD [OF assms(1)]
  have "distinct (map row_scope (order_rows ?db))" "distinct (map (order_id \<circ> ow_order) (order_rows ?db))"
    using ok(1,2) assms(4) by (auto simp: no_conflict_def conflicts_def)
  moreover have "distinct (map er_sequence (event_rows ?db))" "\<forall>n \<in> used_sequences ?db. n \<le> last_sequence ?db"
    using ok(3,4) assms(2,3) by (auto simp: event_reserved_def used_sequences_def)
  moreover have "\<forall>r \<in> set (order_rows ?db). \<exists>ev \<in> set (event_rows ?db). event_of_row ev r"
    using ok(5) assms(5) by auto
  moreover have apart: "wd_id ` set (delivery_rows db) \<inter> wd_id ` set ds = {}"
  proof (unfold delivery_ids_def [symmetric], rule equals0I)
    fix x assume "x \<in> delivery_ids db \<inter> wd_id ` set ds"
    then obtain d where "d \<in> set ds" "wd_id d \<in> delivery_ids db" by (elim IntE imageE) simp
    with assms(6) show False by simp
  qed
  have "distinct (map wd_id (delivery_rows db) @ map wd_id ds)"
    by (simp only: distinct_append set_map ok(6) assms(7) apart simp_thms)
  then have "distinct (map wd_id (delivery_rows ?db))" by (simp del: distinct_append)
  ultimately have "db_ok ?db" by (simp add: db_ok_def)
  then show ?thesis by (auto simp: db_evolves_def db_grows_def delivery_ids_def)
qed

lemma commit_cases:
  assumes "others_rely w" and "db_ok (p_db w)" and "n \<in> set (pn_sequences held)" and "r \<in> set (pn_orders held)" and "pn_deliveries held = ds"
    and "er_sequence ev = n" and "event_reserved n (p_db w)" and "no_conflict r (p_db w)" and "event_of_row ev r"
    and "\<forall>d \<in> set ds. wd_id d \<notin> delivery_ids (p_db w)" and "distinct (map wd_id ds)"
    and "statement held (\<lambda>_. commit_statement ev r ds) w = (res, w')"
  shows "repo_step w w'" "res = Inr x \<Longrightarrow> r \<in> set (order_rows (p_db w')) \<and> set ds \<subseteq> set (delivery_rows (p_db w'))"
    "res = Inl e \<Longrightarrow> \<exists>applied n. p_faults w n = Some (e, applied)"
proof -
  obtain db1 where st: "db_rely held (p_db w) db1" "same_env w w'" "p_replayed w' = p_replayed w" "p_clock w \<le> p_clock w'"
      "case commit_statement ev r ds db1 of (res', db2) \<Rightarrow> p_db w' = db2 \<and> res = res' \<or>
        (\<exists>e applied n. res = Inl e \<and> p_faults w n = Some (e, applied) \<and> (p_db w' = db2 \<or> p_db w' = db1))"
    by (rule statement_cases [OF assms(1,12)], rule that)
  note rely = db_relyD [OF st(1)]
  have ok: "db_ok db1" using assms(2) rely(1) by (simp add: db_evolves_def)
  have "\<forall>d \<in> set ds. wd_id d \<notin> delivery_ids db1" using assms(5,10) rely(4) by blast
  note grown = commit_ok [OF ok assms(6) event_reserved_rely [OF st(1) assms(3,7)] rely(3) [OF assms(4,8)] assms(9) this assms(11)]
  then have "db_evolves db1 (p_db w')" using st(5) by (auto simp: commit_statement_def)
  with rely(1) st show "repo_step w w'" by (auto simp: repo_step_def intro: db_evolves_trans)
  show "res = Inr x \<Longrightarrow> r \<in> set (order_rows (p_db w')) \<and> set ds \<subseteq> set (delivery_rows (p_db w'))"
    using st(5) by (auto simp: commit_statement_def)
  show "res = Inl e \<Longrightarrow> \<exists>applied n. p_faults w n = Some (e, applied)"
    using st(5) by (auto simp: commit_statement_def)
qed

lemma new_row_event: "event_of_row (event_row_of (new_order req oid now n) n at) (order_row_of req (new_order req oid now n) stored)"
  by (simp add: event_of_row_def event_row_of_def order_row_of_def new_order_def)

lemma insert_all_answer:
  assumes env: "others_rely w" "faults_external w" and ok: "db_ok (p_db w)" and ins: "insert_all req w = (res, w')"
  shows "repo_step w w' \<and> create_answer req res w'"
proof -
  have refused: "create_answer req (Inl e) v" if "\<not> product_is e Err_idempotency_conflict" for e v
    using that by (simp add: create_answer_def)
  let ?now = "p_clock w"
  obtain oid w1 where d: "product_id ''ord'' w = (oid, w1)" by fastforce
  note s1 = repo_step_draw [OF d]
  note e1 = repo_step_env(1) [OF s1 env(1)] repo_step_env(2) [OF s1 env(2)]
  have ok1: "db_ok (p_db w1)" using ok draw_shape [OF d] by simp
  obtain r2 w2 where q2: "statement nothing_pending (\<lambda>_. next_sequence_statement) w1 = (r2, w2)" by fastforce
  note n2 = next_sequence_cases [OF e1(1) ok1 q2]
  have s2: "repo_step w w2" by (rule repo_step_trans [OF s1 n2(1)])
  note e2 = repo_step_env(1) [OF s2 env(1)] repo_step_env(2) [OF s2 env(2)]
  show ?thesis
  proof (cases r2)
    case (Inl e)
    then show ?thesis
      using ins d q2 s2 refused n2(4) [OF Inl] e1(2) by (auto simp: insert_all_def Let_def)
  next
    case (Inr n)
    have ok2: "db_ok (p_db w2)" using s2 ok by (simp add: repo_step_def db_evolves_def)
    let ?ord = "new_order req oid ?now n"
    let ?r = "order_row_of req ?ord (p_stored w2)"
    let ?eh = "nothing_pending\<lparr>pn_sequences := [n]\<rparr>"
    let ?h = "?eh\<lparr>pn_orders := [?r]\<rparr>"
    obtain r3 w3 where q3: "statement ?eh (\<lambda>_. insert_order_statement ?r) w2 = (r3, w3)" by fastforce
    note i3 = insert_order_cases [OF e2(1) q3]
    have s3: "repo_step w w3" by (rule repo_step_trans [OF s2 i3(1)])
    note e3 = repo_step_env(1) [OF s3 env(1)] repo_step_env(2) [OF s3 env(2)]
    have v3: "event_reserved n (p_db w3)" by (rule event_reserved_rely [OF i3(2) _ n2(3) [OF Inr]]) simp
    show ?thesis
    proof (cases r3)
      case e: (Inl e)
      show ?thesis
      proof (cases "is_unique_violation e")
        case True
        then have "resolve_concurrent_create req w3 = (res, w')"
          using ins d q2 Inr q3 e by (simp add: insert_all_def Let_def)
        from resolve_answer(1,2) [OF e3 this] show ?thesis using s3 repo_step_trans by blast
      next
        case False
        then show ?thesis
          using ins d q2 Inr q3 e s3 refused i3(5) [OF e] e2(2) by (auto simp: insert_all_def Let_def)
      qed
    next
      case u: (Inr u)
      have c3: "no_conflict ?r (p_db w3)" by (rule i3(4) [OF u])
      obtain r4 w4 where q4: "enqueue_delivery req ?ord ?now ?h w3 = (r4, w4)" by fastforce
      note n4 = enqueue_cases [OF e3(1) q4]
      have s4: "repo_step w w4" by (rule repo_step_trans [OF s3 n4(1)])
      note e4 = repo_step_env(1) [OF s4 env(1)] repo_step_env(2) [OF s4 env(2)]
      show ?thesis
      proof (cases r4)
        case e: (Inl e)
        then show ?thesis
          using ins d q2 Inr q3 u q4 s4 refused n4(4) [OF e] e3(2) by (auto simp: insert_all_def Let_def)
      next
        case ds: (Inr ds)
        have ok4: "db_ok (p_db w4)" using s4 ok by (simp add: repo_step_def db_evolves_def)
        have v4: "event_reserved n (p_db w4)" "no_conflict ?r (p_db w4)"
          by (rule event_reserved_rely [OF n4(2) _ v3], simp) (rule db_relyD(3) [OF n4(2) _ c3], simp)
        have fresh: "\<forall>d \<in> set ds. wd_id d \<notin> delivery_ids (p_db w4)" "distinct (map wd_id ds)"
          using n4(3) [OF ds] by (cases "rq_webhook_url req = []"; auto)+
        let ?ev = "event_row_of ?ord n (p_stored w4 ?now)"
        obtain r5 w5 where q5: "statement (?h\<lparr>pn_deliveries := ds\<rparr>) (\<lambda>_. commit_statement ?ev ?r ds) w4 = (r5, w5)" by fastforce
        have mem: "n \<in> set (pn_sequences (?h\<lparr>pn_deliveries := ds\<rparr>))" "?r \<in> set (pn_orders (?h\<lparr>pn_deliveries := ds\<rparr>))"
            "pn_deliveries (?h\<lparr>pn_deliveries := ds\<rparr>) = ds" "er_sequence ?ev = n"
          by (simp_all add: event_row_of_def)
        note c5 = commit_cases [OF e4(1) ok4 mem v4 new_row_event fresh q5]
        have s5: "repo_step w w5" by (rule repo_step_trans [OF s4 c5(1)])
        have res: "(res, w') = (case r5 of Inl e \<Rightarrow> (Inl (Wrapped ''commit order transaction: '' e []), w5) | Inr _ \<Rightarrow> (Inr (?ord, False), w5))"
          using ins d q2 Inr q3 u q4 ds q5 by (simp add: insert_all_def Let_def split: sum.splits)
        have st: "p_stored w5 = p_stored w2" using s5 s2 by (simp add: repo_step_def same_env_def)
        show ?thesis
        proof (cases r5)
          case (Inl e)
          then show ?thesis
            using res s5 refused c5(3) [OF Inl] wrapped_external [OF e4(2)] by auto
        next
          case (Inr y)
          then show ?thesis
            using res s5 c5(2) [OF Inr] n4(3) [OF ds] st by (auto simp: create_answer_def)
        qed
      qed
    qed
  qed
qed

lemma repo_create_answer:
  assumes "others_rely w" and "faults_external w" and "db_ok (p_db w)" and "repo_create_order req w = (res, w')"
  shows "repo_step w w' \<and> create_answer req res w'"
proof -
  obtain r1 w1 where q1: "statement nothing_pending (\<lambda>_ db. (Inr (), db)) w = (r1, w1)" by fastforce
  note R = read_cases [OF assms(1) q1]
  have s1: "repo_step w w1" using R db_relyD(1) [OF R(1)] by (simp add: repo_step_def)
  note e1 = repo_step_env(1) [OF s1 assms(1)] repo_step_env(2) [OF s1 assms(2)]
  show ?thesis
  proof (cases r1)
    case (Inl e)
    then have "\<not> product_is (Wrapped ''begin order transaction: '' e []) Err_idempotency_conflict"
      using R(6) wrapped_external [OF assms(2)] by auto
    then show ?thesis using assms(4) q1 Inl s1 by (auto simp: repo_create_order_def create_answer_def)
  next
    case (Inr u)
    obtain found w2 where f: "find_order nothing_pending (rq_tenant req) (rq_key req) w1 = (found, w2)" by fastforce
    note F = find_order_cases [OF e1(1) f]
    have s2: "repo_step w w2" by (rule repo_step_trans [OF s1 find_order_step [OF e1(1) f]])
    note e2 = repo_step_env(1) [OF s2 assms(1)] repo_step_env(2) [OF s2 assms(2)]
    show ?thesis
    proof (cases "find_row (p_db w2) (rq_tenant req) (rq_key req)")
      case None
      have ok: "db_ok (p_db w2)" using s2 assms(3) by (simp add: repo_step_def db_evolves_def)
      have "insert_all req w2 = (res, w') \<or> (\<exists>e. (res, w') = (Inl e, w2) \<and> \<not> product_is e Err_idempotency_conflict)"
        using assms(4) q1 Inr f F(6) None wrapped_external [OF e1(2)] by (auto simp: repo_create_order_def)
      then show ?thesis
        using insert_all_answer [OF e2 ok] s2 repo_step_trans by (auto simp: create_answer_def)
    next
      case (Some r)
      note r = find_row_Some [OF Some]
      have "(res, w') = (if ow_fingerprint r \<noteq> rq_fingerprint req then Inl Err_idempotency_conflict else Inr (ow_order r, True), w2) \<or>
          (\<exists>e. (res, w') = (Inl e, w2) \<and> \<not> product_is e Err_idempotency_conflict)"
        using assms(4) q1 Inr f F(6) Some wrapped_external [OF e1(2)] by (auto simp: repo_create_order_def)
      then show ?thesis
        using r s2 by (auto simp: create_answer_def answers_def request_scope_def intro!: bexI [of _ r] split: if_splits)
    qed
  qed
qed

section \<open>Relations that every call keeps\<close>

text \<open>
  A relation on the tables and Redis that all other clients stay in (\<open>calls_step\<close>). When it is a
  preorder that admits what creating an order writes, creating an order stays in it as a whole.
\<close>

definition calls_step :: "(database \<times> redis \<Rightarrow> database \<times> redis \<Rightarrow> bool) \<Rightarrow> pworld \<Rightarrow> pworld \<Rightarrow> bool" where
  "calls_step R w w' \<longleftrightarrow> same_env w w' \<and>
     ((\<forall>n held st. R st (p_others w n held st)) \<longrightarrow> R (p_db w, p_redis w) (p_db w', p_redis w'))"

locale call_relation =
  fixes R :: "database \<times> redis \<Rightarrow> database \<times> redis \<Rightarrow> bool"
  assumes relation_refl: "R st st"
    and relation_trans: "R a b \<Longrightarrow> R b c \<Longrightarrow> R a c"
begin

lemma calls_refl: "calls_step R w w"
  by (simp add: calls_step_def relation_refl)

lemma calls_trans:
  assumes "calls_step R a b" and "calls_step R b c"
  shows "calls_step R a c"
proof -
  have env: "same_env a b" "same_env b c" using assms by (simp_all add: calls_step_def)
  then have "p_others b = p_others a" by (simp add: same_env_def)
  with assms same_env_trans [OF env] relation_trans show ?thesis by (auto simp: calls_step_def)
qed

lemma statement_calls:
  assumes "\<And>v db rd res db'. f v db = (res, db') \<Longrightarrow> R (db, rd) (db', rd)" and "statement held f w = (res, w')"
  shows "calls_step R w w'"
proof -
  let ?st = "p_others w (p_calls w) held (p_db w, p_redis w)"
  let ?v = "w\<lparr>p_clock := p_clock w + int (p_delays w (p_calls w))\<rparr>"
  obtain r' db' where f: "f ?v (fst ?st) = (r', db')" by fastforce
  have own: "R ?st (db', snd ?st)" using assms(1) [OF f, of "snd ?st"] by simp
  have w': "same_env w w'" "(p_db w', p_redis w') = ?st \<or> (p_db w', p_redis w') = (db', snd ?st)"
    using assms(2) f
    by (auto simp: statement_def external_call_def Let_def same_env_def case_prod_beta split: option.splits if_splits)
  have "R (p_db w, p_redis w) (p_db w', p_redis w')" if "\<forall>n held st. R st (p_others w n held st)"
    using w'(2) own that relation_trans by metis
  with w'(1) show ?thesis by (simp add: calls_step_def)
qed

lemma read_calls: "statement held (\<lambda>_ db. (Inr (g db), db)) w = (res, w') \<Longrightarrow> calls_step R w w'"
  by (rule statement_calls) (auto simp: relation_refl)

lemma find_order_calls: "find_order held t k w = (res, w') \<Longrightarrow> calls_step R w w'"
  by (auto simp: find_order_def split: prod.splits dest: read_calls)

lemma draw_calls: "product_id pre w = (s, w') \<Longrightarrow> calls_step R w w'"
  by (drule draw_shape) (simp add: calls_step_def same_env_def relation_refl)

lemma resolve_calls: "resolve_concurrent_create req w = (res, w') \<Longrightarrow> calls_step R w w'"
  by (auto simp: resolve_concurrent_create_def split: prod.splits sum.splits option.splits if_splits dest: find_order_calls)

lemma enqueue_calls:
  assumes "enqueue_delivery req ord now held w = (res, w')"
  shows "calls_step R w w'"
proof (cases "rq_webhook_url req = []")
  case True
  then show ?thesis using assms by (simp add: enqueue_delivery_def calls_refl)
next
  case False
  obtain eid w1 where a: "product_id ''evt'' w = (eid, w1)" by fastforce
  obtain did w2 where b: "product_id ''wh'' w1 = (did, w2)" by fastforce
  obtain d where o: "outbox_delivery req ord now w = (d, w2)" using a b by (simp add: outbox_delivery_def)
  obtain r3 w3 where c: "statement held (\<lambda>_. insert_delivery_statement d) w2 = (r3, w3)" by fastforce
  have "w' = w3" using assms False o c by (auto simp: enqueue_delivery_def split: sum.splits)
  moreover have "calls_step R w2 w3"
    by (rule statement_calls [OF _ c]) (auto simp: insert_delivery_statement_def relation_refl split: if_splits)
  ultimately show ?thesis
    using calls_trans [OF draw_calls [OF a] draw_calls [OF b]] calls_trans by blast
qed

end

locale table_relation = call_relation +
  assumes relation_sequence: "R (db, rd) (db\<lparr>last_sequence := n\<rparr>, rd)"
    and relation_commit: "R (db, rd) (db\<lparr>event_rows := evs, order_rows := order_rows db @ [r], delivery_rows := delivery_rows db @ ds\<rparr>, rd)"
begin

lemma insert_all_calls:
  assumes "insert_all req w = (res, w')"
  shows "calls_step R w w'"
proof -
  obtain oid w1 where d: "product_id ''ord'' w = (oid, w1)" by fastforce
  obtain r2 w2 where q2: "statement nothing_pending (\<lambda>_. next_sequence_statement) w1 = (r2, w2)" by fastforce
  have s2: "calls_step R w w2"
    by (rule calls_trans [OF draw_calls [OF d] statement_calls [OF _ q2]])
      (auto simp: next_sequence_statement_def relation_refl relation_sequence split: if_splits)
  show ?thesis
  proof (cases r2)
    case (Inl e)
    then show ?thesis using assms d q2 s2 by (auto simp: insert_all_def Let_def)
  next
    case (Inr n)
    let ?ord = "new_order req oid (p_clock w) n"
    let ?r = "order_row_of req ?ord (p_stored w2)"
    let ?eh = "nothing_pending\<lparr>pn_sequences := [n]\<rparr>"
    let ?h = "?eh\<lparr>pn_orders := [?r]\<rparr>"
    obtain r3 w3 where q3: "statement ?eh (\<lambda>_. insert_order_statement ?r) w2 = (r3, w3)" by fastforce
    have s3: "calls_step R w w3"
      by (rule calls_trans [OF s2 statement_calls [OF _ q3]])
        (auto simp: insert_order_statement_def relation_refl split: if_splits)
    show ?thesis
    proof (cases r3)
      case e: (Inl e)
      then have "resolve_concurrent_create req w3 = (res, w') \<or> w' = w3"
        using assms d q2 Inr q3 by (auto simp: insert_all_def Let_def split: if_splits)
      then show ?thesis using s3 resolve_calls calls_trans by blast
    next
      case u: (Inr u)
      obtain r4 w4 where q4: "enqueue_delivery req ?ord (p_clock w) ?h w3 = (r4, w4)" by fastforce
      have s4: "calls_step R w w4" by (rule calls_trans [OF s3 enqueue_calls [OF q4]])
      show ?thesis
      proof (cases r4)
        case e: (Inl e)
        then show ?thesis using assms d q2 Inr q3 u q4 s4 by (auto simp: insert_all_def Let_def)
      next
        case ds: (Inr ds)
        let ?ev = "event_row_of ?ord n (p_stored w4 (p_clock w))"
        obtain r5 w5 where q5: "statement (?h\<lparr>pn_deliveries := ds\<rparr>) (\<lambda>_. commit_statement ?ev ?r ds) w4 = (r5, w5)" by fastforce
        have "w' = w5" using assms d q2 Inr q3 u q4 ds q5 by (simp add: insert_all_def Let_def split: sum.splits)
        moreover have "calls_step R w w5"
          by (rule calls_trans [OF s4 statement_calls [OF _ q5]]) (auto simp: commit_statement_def intro: relation_commit)
        ultimately show ?thesis by simp
      qed
    qed
  qed
qed

lemma repo_create_calls:
  assumes "repo_create_order req w = (res, w')"
  shows "calls_step R w w'"
proof -
  obtain r1 w1 where q1: "statement nothing_pending (\<lambda>_ db. (Inr (), db)) w = (r1, w1)" by fastforce
  obtain r2 w2 where q2: "find_order nothing_pending (rq_tenant req) (rq_key req) w1 = (r2, w2)" by fastforce
  have s2: "calls_step R w w2" by (rule calls_trans [OF read_calls [OF q1] find_order_calls [OF q2]])
  have "w' = w1 \<or> w' = w2 \<or> insert_all req w2 = (res, w')"
    using assms q1 q2 by (auto simp: repo_create_order_def split: sum.splits option.splits if_splits)
  then show ?thesis
    using s2 read_calls [OF q1] insert_all_calls calls_trans by blast
qed

end

text \<open>The evolution of the tables is such a relation.\<close>

interpretation tables: call_relation "\<lambda>st st'. db_evolves (fst st) (fst st')"
  by unfold_locales (auto intro: db_evolves_trans)

section \<open>Properties\<close>

text \<open>
  C22. One order per key, in every interleaving. Next to any other clients that respect the unique
  indexes, and whatever calls fail or lose their answer, creating an order keeps the tables sound:
  one row per tenant and key, one per id, a logged event for every order. An answer is always the
  row of the request's own key and fingerprint, a conflict means that the key is taken by another
  fingerprint, and a fresh order is in the table together with its outbox delivery.
\<close>

theorem repo_create_sound:
  assumes "others_rely w" and "faults_external w" and "db_ok (p_db w)" and "repo_create_order req w = (res, w')"
  shows "db_ok (p_db w') \<and> db_grows (p_db w) (p_db w') \<and> create_answer req res w' \<and>
    (\<forall>r \<in> set (order_rows (p_db w')). \<forall>r' \<in> set (order_rows (p_db w')). row_scope r = row_scope r' \<longrightarrow> r = r')"
proof -
  note A = repo_create_answer [OF assms]
  then have ok: "db_ok (p_db w')" using assms(3) by (simp add: repo_step_def db_evolves_def)
  have "r = r'" if "r \<in> set (order_rows (p_db w'))" "r' \<in> set (order_rows (p_db w'))" "row_scope r = row_scope r'" for r r'
    using db_okD(1) [OF ok] that by (metis distinct_map inj_onD)
  with A ok show ?thesis by (auto simp: repo_step_def db_evolves_def)
qed

text \<open>A database without other clients, faults or delays.\<close>

definition quiet_world :: pworld where
  "quiet_world = \<lparr>p_clock = 62135596900 * second, p_db = empty_database, p_redis = Map.empty, p_calls = 0,
     p_others = (\<lambda>_ _ st. st), p_faults = (\<lambda>_. None), p_delays = (\<lambda>_. 0), p_db_time = (\<lambda>t. t),
     p_stored = (\<lambda>t. t - t mod 1000), p_locked = (\<lambda>_ _. False), p_payload = (\<lambda>ev. oe_id ev), p_decode = (\<lambda>_. ''bad JSON''),
     p_random = (\<lambda>n. Some [word_of_nat n]), p_draws = 0, p_ties = (\<lambda>_. True), p_selects = 0, p_replayed = False,
     p_order_metric = (\<lambda>_. 0), p_delivery_metric = (\<lambda>_. 0), p_fallback_metric = 0\<rparr>"

definition sample_create :: create_order_request where
  "sample_create = \<lparr>rq_tenant = ''t'', rq_key = ''k'', rq_fingerprint = ''f'', rq_source = ''api'', rq_external_id = ''e'',
     rq_event_id = ''e'', rq_quantity = 2, rq_webhook_url = ''http://sink'', rq_max_attempts = 5\<rparr>"

lemma quiet_world_facts: "others_rely quiet_world" "faults_external quiet_world" "db_ok (p_db quiet_world)"
  by (simp_all add: others_rely_def faults_external_def quiet_world_def)

theorem repo_create_sound_witness:
  "\<exists>res w'. repo_create_order sample_create quiet_world = (res, w') \<and> db_ok (p_db w') \<and> create_answer sample_create res w'"
proof -
  obtain res w' where "repo_create_order sample_create quiet_world = (res, w')" by fastforce
  with repo_create_sound [OF quiet_world_facts this] show ?thesis by blast
qed

end
