(* ===== verification/Webhook_Worker.thy ===== *)
theory Webhook_Worker
  imports Repository_Properties
begin

text \<open>
  The webhook worker, \<open>internal/product/webhook.go\<close>. The receivers and the HTTP client are outside the
  program: a \<open>webhook_client\<close> says which target URLs make no request and what each attempt, numbered
  like the calls of the world, brings back and how long it takes. The goroutines of a batch are
  \<open>tasks\<close> with two atomic steps, the attempt and the settlement in the database; the order in which
  they run is an explicit schedule, and so are the arms of the \<open>select\<close> in \<open>Run\<close>. Logging is left out.
\<close>

section \<open>The client\<close>

record outbound_request =
  ob_target :: string
  ob_headers :: "(string \<times> string) list"
  ob_body :: string

datatype reply = No_reply product_error | Reply int string

record webhook_client =
  wc_bad_target :: "string \<Rightarrow> product_error option"
  wc_send :: "nat \<Rightarrow> outbound_request \<Rightarrow> reply"
  wc_took :: "nat \<Rightarrow> nat"

record webhook_worker =
  ww_mac :: hmac
  ww_secret :: string
  ww_lease :: duration
  ww_poll :: duration
  ww_batch :: int
  ww_metrics :: bool

definition new_webhook_worker :: "hmac \<Rightarrow> string \<Rightarrow> duration \<Rightarrow> duration \<Rightarrow> bool \<Rightarrow> webhook_worker" where
  "new_webhook_worker mac secret lease poll metrics =
     \<lparr>ww_mac = mac, ww_secret = secret, ww_lease = lease, ww_poll = poll, ww_batch = 10, ww_metrics = metrics\<rparr>"

text \<open>\<open>time.Second << min(attempt-1, 6)\<close>, at most a minute.\<close>

definition webhook_backoff :: "int \<Rightarrow> duration" where
  "webhook_backoff attempt =
     (let a = (if attempt < 1 then 1 else attempt);
          delay = second * 2 ^ nat (min (a - 1) 6)
      in min delay minute)"

definition record_delivery :: "webhook_worker \<Rightarrow> string \<Rightarrow> pworld \<Rightarrow> pworld" where
  "record_delivery wk result w =
     (if ww_metrics wk then w\<lparr>p_delivery_metric := (p_delivery_metric w)(result := Suc (p_delivery_metric w result))\<rparr> else w)"

section \<open>One delivery\<close>

definition outbound_request_of :: "webhook_worker \<Rightarrow> webhook_delivery \<Rightarrow> gotime \<Rightarrow> outbound_request" where
  "outbound_request_of wk d now =
     \<lparr>ob_target = wd_target d,
      ob_headers = [(''Content-Type'', ''application/json''), (''User-Agent'', ''Northstar-Webhook/1.0''),
        (''X-Northstar-Delivery'', wd_id d), (''X-Northstar-Event'', wd_event_type d),
        (''X-Northstar-Signature'', sign_outbound_webhook (ww_mac wk) (wd_payload d) (ww_secret wk) now)],
      ob_body = wd_payload d\<rparr>"

text \<open>What an attempt comes to: accepted, or the cause of its failure.\<close>

definition judge_reply :: "reply \<Rightarrow> product_error option" where
  "judge_reply r =
     (case r of
        No_reply e \<Rightarrow> Some e
      | Reply code body \<Rightarrow>
          if code < 200 \<or> 300 \<le> code
          then Some (Other_error (''receiver returned '' @ show_int code @ '': '' @ trim_space (take 512 body)))
          else None)"

definition send_delivery :: "webhook_client \<Rightarrow> webhook_worker \<Rightarrow> webhook_delivery \<Rightarrow> pworld \<Rightarrow> product_error option \<times> pworld" where
  "send_delivery cl wk d w =
     (case wc_bad_target cl (wd_target d) of
        Some e \<Rightarrow> (Some e, w)
      | None \<Rightarrow>
          (judge_reply (wc_send cl (p_calls w) (outbound_request_of wk d (p_clock w))),
           w\<lparr>p_calls := Suc (p_calls w), p_clock := p_clock w + int (wc_took cl (p_calls w))\<rparr>))"

definition worker_fail :: "webhook_worker \<Rightarrow> webhook_delivery \<Rightarrow> product_error \<Rightarrow> pworld \<Rightarrow> product_error option \<times> pworld" where
  "worker_fail wk d cause w =
     (case repo_mark_failed d (error_text cause) (webhook_backoff (wd_attempts d)) w of
        (Inl e, w') \<Rightarrow> (Some (Wrapped (''record failed delivery after '' @ error_text cause @ '': '') e []), w')
      | (Inr st, w') \<Rightarrow>
          (Some cause, record_delivery wk (if st = delivery_dead_letter then ''dead_letter'' else ''retry_scheduled'') w'))"

definition worker_succeed :: "webhook_worker \<Rightarrow> webhook_delivery \<Rightarrow> pworld \<Rightarrow> product_error option \<times> pworld" where
  "worker_succeed wk d w =
     (case repo_mark_succeeded (wd_id d) w of
        (Some e, w') \<Rightarrow> (Some e, w')
      | (None, w') \<Rightarrow> (None, record_delivery wk ''delivered'' w'))"

definition settle_delivery :: "webhook_worker \<Rightarrow> webhook_delivery \<Rightarrow> product_error option \<Rightarrow> pworld \<Rightarrow> product_error option \<times> pworld" where
  "settle_delivery wk d outcome w =
     (case outcome of None \<Rightarrow> worker_succeed wk d w | Some cause \<Rightarrow> worker_fail wk d cause w)"

definition process_delivery :: "webhook_client \<Rightarrow> webhook_worker \<Rightarrow> webhook_delivery \<Rightarrow> pworld \<Rightarrow> product_error option \<times> pworld" where
  "process_delivery cl wk d w = (case send_delivery cl wk d w of (outcome, w1) \<Rightarrow> settle_delivery wk d outcome w1)"

section \<open>A batch\<close>

datatype task =
    To_send webhook_delivery
  | To_settle webhook_delivery "product_error option"
  | Settled webhook_delivery "product_error option"

fun task_step :: "webhook_client \<Rightarrow> webhook_worker \<Rightarrow> task \<Rightarrow> pworld \<Rightarrow> task \<times> pworld" where
  "task_step cl wk (To_send d) w = (case send_delivery cl wk d w of (outcome, w') \<Rightarrow> (To_settle d outcome, w'))"
| "task_step cl wk (To_settle d outcome) w = (case settle_delivery wk d outcome w of (res, w') \<Rightarrow> (Settled d res, w'))"
| "task_step cl wk (Settled d res) w = (Settled d res, w)"

fun is_settled :: "task \<Rightarrow> bool" where
  "is_settled (Settled d res) = True"
| "is_settled _ = False"

fun run_tasks :: "webhook_client \<Rightarrow> webhook_worker \<Rightarrow> nat list \<Rightarrow> task list \<Rightarrow> pworld \<Rightarrow> task list \<times> pworld" where
  "run_tasks cl wk [] ts w = (ts, w)"
| "run_tasks cl wk (i # schedule) ts w =
     (if i < length ts
      then case task_step cl wk (ts ! i) w of (t, w') \<Rightarrow> run_tasks cl wk schedule (ts[i := t]) w'
      else run_tasks cl wk schedule ts w)"

text \<open>\<open>group.Wait\<close> lets \<open>ProcessBatch\<close> go on when every task has settled, \<open>None\<close> when the schedule stops before.\<close>

definition process_batch ::
  "webhook_client \<Rightarrow> webhook_worker \<Rightarrow> nat list \<Rightarrow> pworld \<Rightarrow> ((product_error + int) \<times> pworld) option" where
  "process_batch cl wk schedule w =
     (case repo_claim_deliveries (ww_batch wk) (ww_lease wk) w of
        (Inl e, w') \<Rightarrow> Some (Inl e, w')
      | (Inr ds, w') \<Rightarrow>
          (case run_tasks cl wk schedule (map To_send ds) w' of
             (ts, w2) \<Rightarrow> if list_all is_settled ts then Some (Inr (int (length ds)), w2) else None))"

text \<open>\<open>Run\<close>: each round has a schedule, the moment at which its \<open>select\<close> goes on, and whether the context ended.\<close>

fun worker_run :: "webhook_client \<Rightarrow> webhook_worker \<Rightarrow> (nat list \<times> nat \<times> bool) list \<Rightarrow> pworld \<Rightarrow> pworld option" where
  "worker_run cl wk [] w = None"
| "worker_run cl wk ((schedule, waited, done) # rounds) w =
     (case process_batch cl wk schedule w of
        None \<Rightarrow> None
      | Some (_, w1) \<Rightarrow>
          (let w2 = w1\<lparr>p_clock := p_clock w1 + int waited\<rparr>
           in if done then Some w2 else worker_run cl wk rounds w2))"

end
