(* ===== verification/Webhook_Properties.thy ===== *)
theory Webhook_Properties
  imports Webhook_Worker
begin

text \<open>
  What holds of deliveries: the state machine that every operation of the product keeps in every
  interleaving, the exclusiveness of claims, the exact effect of an attempt, the settlement of a
  batch under every schedule of its goroutines, and the backoff.
\<close>

section \<open>Backoff\<close>

lemma backoff_values:
  "webhook_backoff n = (if n \<le> 1 then second else if n \<le> 6 then second * 2 ^ nat (n - 1) else minute)"
proof -
  consider "n \<le> 1" | "n = 2" | "n = 3" | "n = 4" | "n = 5" | "n = 6" | "7 \<le> n" by linarith
  then show ?thesis
  proof cases
    case 7
    then have "nat (min (n - 1) 6) = 6" by (simp add: min_def)
    then show ?thesis using 7 by (simp add: webhook_backoff_def Let_def go_duration_defs)
  qed (simp_all add: webhook_backoff_def Let_def go_duration_defs min_def)
qed

lemma backoff_table:
  "webhook_backoff n = second \<and> n \<le> 1 \<or> webhook_backoff n = 2 * second \<and> n = 2 \<or> webhook_backoff n = 4 * second \<and> n = 3 \<or>
   webhook_backoff n = 8 * second \<and> n = 4 \<or> webhook_backoff n = 16 * second \<and> n = 5 \<or>
   webhook_backoff n = 32 * second \<and> n = 6 \<or> webhook_backoff n = 60 * second \<and> 7 \<le> n"
proof -
  consider "n \<le> 1" | "n = 2" | "n = 3" | "n = 4" | "n = 5" | "n = 6" | "7 \<le> n" by linarith
  then show ?thesis by cases (simp_all add: backoff_values minute_def)
qed

lemma backoff_milliseconds: "milliseconds (webhook_backoff n) * millisecond = webhook_backoff n"
  using backoff_table [of n] by (auto simp: milliseconds_def go_duration_defs)

text \<open>
  The delay before the next attempt doubles from one second and stays at a minute from the seventh
  attempt on; it never decreases, and it is a whole number of milliseconds, so the database loses
  nothing of it.
\<close>

theorem webhook_backoff_bounds:
  "webhook_backoff n = (if n \<le> 1 then second else if n \<le> 6 then second * 2 ^ nat (n - 1) else minute) \<and>
   second \<le> webhook_backoff n \<and> webhook_backoff n \<le> minute \<and>
   webhook_backoff n \<le> webhook_backoff (n + int k) \<and>
   milliseconds (webhook_backoff n) * millisecond = webhook_backoff n"
proof -
  have "webhook_backoff n \<le> webhook_backoff (n + int k)"
    using backoff_table [of n] backoff_table [of "n + int k"] by (auto simp: go_duration_defs)
  then show ?thesis
    using backoff_values [of n] backoff_table [of n] backoff_milliseconds [of n] by (auto simp: go_duration_defs)
qed

section \<open>The life of a delivery\<close>

text \<open>Every change of a delivery row: claimed, delivered, scheduled again, buried, replayed.\<close>

inductive delivery_move :: "webhook_delivery \<Rightarrow> webhook_delivery \<Rightarrow> bool" where
  claim: "wd_status d = delivery_pending \<or> wd_status d = delivery_processing \<Longrightarrow> delivery_move d (claimed t d)"
| deliver: "wd_status d = delivery_processing \<Longrightarrow>
    delivery_move d (d\<lparr>wd_status := delivery_delivered, wd_last_error := [], wd_updated := t\<rparr>)"
| reschedule: "wd_status d = delivery_processing \<Longrightarrow>
    delivery_move d (d\<lparr>wd_status := delivery_pending, wd_next_attempt := next_at, wd_last_error := msg, wd_updated := t\<rparr>)"
| bury: "wd_status d = delivery_processing \<Longrightarrow>
    delivery_move d (d\<lparr>wd_status := delivery_dead_letter, wd_next_attempt := next_at, wd_last_error := msg, wd_updated := t\<rparr>)"
| replay: "wd_status d = delivery_dead_letter \<Longrightarrow>
    delivery_move d (d\<lparr>wd_status := delivery_pending, wd_attempts := 0, wd_next_attempt := t, wd_last_error := [], wd_updated := t\<rparr>)"

inductive_cases delivery_moveE: "delivery_move d d'"

definition same_content :: "webhook_delivery \<Rightarrow> webhook_delivery \<Rightarrow> bool" where
  "same_content d d' \<longleftrightarrow> wd_id d' = wd_id d \<and> wd_tenant d' = wd_tenant d \<and> wd_event_type d' = wd_event_type d \<and>
     wd_payload d' = wd_payload d \<and> wd_target d' = wd_target d \<and> wd_max_attempts d' = wd_max_attempts d \<and> wd_created d' = wd_created d"

lemma move_content: "delivery_move d d' \<Longrightarrow> same_content d d'"
  by (erule delivery_move.cases) (simp_all add: same_content_def claimed_def)

lemma delivered_is_final: "delivery_move d d' \<Longrightarrow> wd_status d \<noteq> delivery_delivered"
  by (erule delivery_move.cases) auto

lemma moves_content: "delivery_move\<^sup>*\<^sup>* d d' \<Longrightarrow> same_content d d'"
  by (induction rule: rtranclp_induct) (auto simp: same_content_def dest: move_content)

lemma moves_delivered: "delivery_move\<^sup>*\<^sup>* d d' \<Longrightarrow> wd_status d = delivery_delivered \<Longrightarrow> d' = d"
  by (erule converse_rtranclpE) (auto dest: delivered_is_final)

text \<open>The rows of a table with a sound primary key move to rows of the later table.\<close>

definition deliveries_move :: "database \<times> redis \<Rightarrow> database \<times> redis \<Rightarrow> bool" where
  "deliveries_move st st' \<longleftrightarrow> (distinct (map wd_id (delivery_rows (fst st'))) \<longrightarrow>
     distinct (map wd_id (delivery_rows (fst st))) \<and>
     (\<forall>d \<in> set (delivery_rows (fst st)). \<exists>d' \<in> set (delivery_rows (fst st')). delivery_move\<^sup>*\<^sup>* d d'))"

interpretation lifecycle: table_relation deliveries_move
proof
  show "deliveries_move st st" for st by (auto simp: deliveries_move_def)
  show "deliveries_move a c" if "deliveries_move a b" "deliveries_move b c" for a b c
    using that unfolding deliveries_move_def by (meson rtranclp_trans)
  show "deliveries_move (db, rd) (db\<lparr>last_sequence := n\<rparr>, rd)" for db rd n by (auto simp: deliveries_move_def)
  show "deliveries_move (db, rd) (db\<lparr>event_rows := evs, order_rows := order_rows db @ [r], delivery_rows := delivery_rows db @ ds\<rparr>, rd)"
    for db rd evs r ds by (auto simp: deliveries_move_def)
qed

lemma update_deliveries_move:
  assumes "\<And>d. d \<in> set (delivery_rows db) \<Longrightarrow> distinct (map wd_id (delivery_rows db)) \<Longrightarrow> P d \<Longrightarrow> delivery_move d (f d)"
    and "\<And>d. wd_id (f d) = wd_id d"
  shows "deliveries_move (db, rd) (snd (update_where P f db), rd)"
proof -
  have ids: "map wd_id (map (\<lambda>d. if P d then f d else d) (delivery_rows db)) = map wd_id (delivery_rows db)"
    by (simp add: assms(2))
  have "\<exists>d' \<in> set (map (\<lambda>d. if P d then f d else d) (delivery_rows db)). delivery_move\<^sup>*\<^sup>* d d'"
    if "d \<in> set (delivery_rows db)" "distinct (map wd_id (delivery_rows db))" for d
    using assms(1) [OF that] that(1) by (intro bexI [of _ "if P d then f d else d"]) auto
  with ids show ?thesis by (simp add: deliveries_move_def update_where_def del: map_map)
qed

lemma update_one_calls:
  assumes "\<And>v d. P d \<Longrightarrow> delivery_move d (f v d)" and "\<And>v d. wd_id (f v d) = wd_id d"
    and "update_one text P f w = (res, w')"
  shows "calls_step deliveries_move w w'"
proof -
  obtain r w1 where s: "statement nothing_pending (\<lambda>w db. case update_where P (f w) db of (n, db') \<Rightarrow> (Inr n, db')) w = (r, w1)"
    by fastforce
  have "w' = w1" using assms(3) s by (auto simp: update_one_def split: sum.splits)
  moreover have "calls_step deliveries_move w w1"
  proof (rule lifecycle.statement_calls [OF _ s])
    fix v db rd r' db'
    assume "(case update_where P (f v) db of (n, db') \<Rightarrow> (Inr n, db')) = (r', db')"
    then have "db' = snd (update_where P (f v) db)" by (auto split: prod.splits)
    with assms(1,2) show "deliveries_move (db, rd) (db', rd)" by (auto intro: update_deliveries_move)
  qed
  ultimately show ?thesis by simp
qed

lemma mark_succeeded_calls: "repo_mark_succeeded did w = (res, w') \<Longrightarrow> calls_step deliveries_move w w'"
  unfolding repo_mark_succeeded_def by (rule update_one_calls) (auto intro: delivery_move.deliver)

lemma mark_failed_calls:
  assumes "repo_mark_failed dl msg delay w = (res, w')"
  shows "calls_step deliveries_move w w'"
proof -
  obtain e where "update_one ''fail webhook delivery: '' (\<lambda>d. wd_id d = wd_id dl \<and> wd_status d = delivery_processing)
         (\<lambda>w d. d\<lparr>wd_status := failed_status dl, wd_next_attempt := db_now w + milliseconds delay * millisecond,
            wd_last_error := msg, wd_updated := db_now w\<rparr>) w = (e, w')"
    using assms by (auto simp: repo_mark_failed_def split: prod.splits option.splits)
  then show ?thesis
    by (rule update_one_calls [rotated 2])
      (auto simp: failed_status_def intro: delivery_move.reschedule delivery_move.bury)
qed

lemma replay_calls: "repo_replay_delivery t did w = (res, w') \<Longrightarrow> calls_step deliveries_move w w'"
  unfolding repo_replay_delivery_def by (rule update_one_calls) (auto intro: delivery_move.replay)

lemma candidate_due: "d \<in> set (claim_candidates now lease locked limit db) \<Longrightarrow>
    d \<in> set (delivery_rows db) \<and> delivery_due now lease d \<and> \<not> locked (wd_id d)"
  unfolding claim_candidates_def by (drule in_set_takeD) simp

lemma claim_calls:
  assumes "repo_claim_deliveries limit lease w = (res, w')"
  shows "calls_step deliveries_move w w'"
proof -
  obtain r where s: "statement nothing_pending (claim_statement lease (clamp_limit 100 10 limit)) w = (r, w')"
    using assms by (auto simp: repo_claim_deliveries_def split: prod.splits)
  show ?thesis
  proof (rule lifecycle.statement_calls [OF _ s])
    fix v db rd r' db'
    let ?cs = "claim_candidates (db_now v) lease (p_locked v (p_calls v)) (clamp_limit 100 10 limit) db"
    let ?hit = "\<lambda>d. wd_id d \<in> set (map wd_id ?cs)"
    assume "claim_statement lease (clamp_limit 100 10 limit) v db = (r', db')"
    then have db': "db' = snd (update_where ?hit (claimed (db_now v)) db)" by (simp add: claim_statement_def Let_def)
    have "delivery_move d (claimed (db_now v) d)"
      if "d \<in> set (delivery_rows db)" "distinct (map wd_id (delivery_rows db))" "?hit d" for d
    proof -
      note d = that
      obtain c where c: "c \<in> set ?cs" "wd_id c = wd_id d" using d(3) by auto
      have "c = d" using c candidate_due [OF c(1)] d(1,2) by (metis distinct_map inj_onD)
      then have "delivery_due (db_now v) lease d" using candidate_due [OF c(1)] by simp
      then show ?thesis by (intro delivery_move.claim) (auto simp: delivery_due_def)
    qed
    then show "deliveries_move (db, rd) (db', rd)" unfolding db' by (intro update_deliveries_move) (auto simp: claimed_def)
  qed
qed

lemma calls_outside:
  assumes "same_env w w'" "p_db w' = p_db w" "p_redis w' = p_redis w"
  shows "calls_step deliveries_move w w'"
  using assms lifecycle.relation_refl by (simp add: calls_step_def)

lemma send_calls: "send_delivery cl wk d w = (r, w') \<Longrightarrow> calls_step deliveries_move w w'"
  by (rule calls_outside) (auto simp: send_delivery_def same_env_def split: option.splits)

lemma record_delivery_calls: "calls_step deliveries_move w (record_delivery wk result w)"
  by (rule calls_outside) (simp_all add: record_delivery_def same_env_def)

lemma settle_calls:
  assumes "settle_delivery wk d outcome w = (res, w')"
  shows "calls_step deliveries_move w w'"
proof (cases outcome)
  case None
  obtain e w1 where m: "repo_mark_succeeded (wd_id d) w = (e, w1)" by fastforce
  have "w' = w1 \<or> w' = record_delivery wk ''delivered'' w1"
    using assms None m by (auto simp: settle_delivery_def worker_succeed_def split: option.splits)
  then show ?thesis using mark_succeeded_calls [OF m] lifecycle.calls_trans [OF _ record_delivery_calls] by blast
next
  case (Some cause)
  obtain r w1 where m: "repo_mark_failed d (error_text cause) (webhook_backoff (wd_attempts d)) w = (r, w1)" by fastforce
  have "w' = w1 \<or> (\<exists>result. w' = record_delivery wk result w1)"
    using assms Some m by (auto simp: settle_delivery_def worker_fail_def split: sum.splits)
  then show ?thesis using mark_failed_calls [OF m] lifecycle.calls_trans [OF _ record_delivery_calls] by blast
qed

lemma task_calls: "task_step cl wk t w = (t', w') \<Longrightarrow> calls_step deliveries_move w w'"
  by (cases t) (auto split: prod.splits dest: send_calls settle_calls intro: lifecycle.calls_refl)

lemma run_tasks_calls: "run_tasks cl wk schedule ts w = (ts', w') \<Longrightarrow> calls_step deliveries_move w w'"
proof (induction schedule arbitrary: ts w)
  case Nil
  then show ?case by (simp add: lifecycle.calls_refl)
next
  case (Cons i schedule)
  obtain t w1 where s: "task_step cl wk (ts ! i) w = (t, w1)" by fastforce
  show ?case
  proof (cases "i < length ts")
    case True
    then have "run_tasks cl wk schedule (ts[i := t]) w1 = (ts', w')" using Cons.prems s by simp
    from lifecycle.calls_trans [OF task_calls [OF s] Cons.IH [OF this]] show ?thesis .
  next
    case False
    then show ?thesis using Cons by simp
  qed
qed

lemma batch_calls:
  assumes "process_batch cl wk schedule w = Some (res, w')"
  shows "calls_step deliveries_move w w'"
proof -
  obtain r w1 where c: "repo_claim_deliveries (ww_batch wk) (ww_lease wk) w = (r, w1)" by fastforce
  obtain ds ts w2 where "w' = w1 \<or> r = Inr ds \<and> run_tasks cl wk schedule (map To_send ds) w1 = (ts, w2) \<and> w' = w2"
    using assms c by (auto simp: process_batch_def split: sum.splits prod.splits if_splits)
  then show ?thesis using claim_calls [OF c] run_tasks_calls lifecycle.calls_trans by blast
qed

lemma worker_calls: "worker_run cl wk rounds w = Some w' \<Longrightarrow> calls_step deliveries_move w w'"
proof (induction rounds arbitrary: w)
  case (Cons x rounds)
  obtain schedule waited ended where x: "x = (schedule, waited, ended)" by (cases x)
  obtain r w1 where b: "process_batch cl wk schedule w = Some (r, w1)"
    using Cons.prems x by (auto split: option.splits)
  let ?w2 = "w1\<lparr>p_clock := p_clock w1 + int waited\<rparr>"
  have "calls_step deliveries_move w1 ?w2" by (rule calls_outside) (simp_all add: same_env_def)
  from lifecycle.calls_trans [OF batch_calls [OF b] this] have s: "calls_step deliveries_move w ?w2" .
  have "w' = ?w2 \<or> worker_run cl wk rounds ?w2 = Some w'"
    using Cons.prems x b by (auto simp: Let_def split: if_splits)
  then show ?case using s Cons.IH lifecycle.calls_trans by blast
qed simp

text \<open>The operations of the product on deliveries, by the service and by any number of workers.\<close>

inductive product_call :: "pworld \<Rightarrow> pworld \<Rightarrow> bool" where
  created: "repo_create_order q w = (res, w') \<Longrightarrow> product_call w w'"
| replayed: "repo_replay_delivery t did w = (res', w') \<Longrightarrow> product_call w w'"
| batch: "process_batch cl wk schedule w = Some (r, w') \<Longrightarrow> product_call w w'"
| worker: "worker_run cl wk rounds w = Some w' \<Longrightarrow> product_call w w'"

lemma product_calls: "product_call\<^sup>*\<^sup>* w w' \<Longrightarrow> calls_step deliveries_move w w'"
proof (induction rule: rtranclp_induct)
  case base
  show ?case by (rule lifecycle.calls_refl)
next
  case (step a b)
  from step(2) have "calls_step deliveries_move a b"
    by cases (auto intro: lifecycle.repo_create_calls replay_calls batch_calls worker_calls)
  with step(3) show ?case by (rule lifecycle.calls_trans)
qed

text \<open>
  C30. The life of a delivery. However operations of the service and of workers follow one another,
  whatever other clients do within the state machine and whatever calls fail, a delivery moves only
  from pending to processing, from there to delivered, pending or dead letter, and from dead letter
  by a replay to pending. What is delivered stays as it is, what is to be sent never changes.
\<close>

theorem delivery_lifecycle:
  assumes "\<And>n held st. deliveries_move st (p_others w n held st)" and "product_call\<^sup>*\<^sup>* w w'"
    and "distinct (map wd_id (delivery_rows (p_db w')))" and "d \<in> set (delivery_rows (p_db w))"
  shows "\<exists>d' \<in> set (delivery_rows (p_db w')). delivery_move\<^sup>*\<^sup>* d d' \<and> same_content d d' \<and>
    (wd_status d = delivery_delivered \<longrightarrow> d' = d)"
proof -
  have "deliveries_move (p_db w, p_redis w) (p_db w', p_redis w')"
    using product_calls [OF assms(2)] assms(1) by (simp add: calls_step_def)
  then obtain d' where d': "d' \<in> set (delivery_rows (p_db w'))" "delivery_move\<^sup>*\<^sup>* d d'"
    using assms(3,4) unfolding deliveries_move_def by auto
  then show ?thesis
    using moves_content [OF d'(2)] moves_delivered [OF d'(2)] by blast
qed

text \<open>A dead letter that its tenant replays, in a world without other clients.\<close>

definition sample_delivery :: "delivery_status \<Rightarrow> webhook_delivery" where
  "sample_delivery st = \<lparr>wd_id = ''wh_1'', wd_tenant = ''t'', wd_event_type = ''order.confirmed'', wd_payload = ''{}'',
     wd_target = ''http://sink'', wd_status = st, wd_attempts = 5, wd_max_attempts = 5, wd_next_attempt = 0,
     wd_last_error = [], wd_created = 0, wd_updated = 0\<rparr>"

definition delivery_world :: "delivery_status \<Rightarrow> pworld" where
  "delivery_world st = quiet_world\<lparr>p_db := empty_database\<lparr>delivery_rows := [sample_delivery st]\<rparr>\<rparr>"

lemma delivery_world_facts [simp]:
  "delivery_rows (p_db (delivery_world st)) = [sample_delivery st]" "p_others (delivery_world st) = (\<lambda>_ _ s. s)"
  "p_faults (delivery_world st) = (\<lambda>_. None)" "db_ok (p_db (delivery_world st))"
  by (simp_all add: delivery_world_def quiet_world_def db_ok_def empty_database_def used_sequences_def)

theorem delivery_lifecycle_witness:
  "\<exists>w' d'. repo_replay_delivery ''t'' ''wh_1'' (delivery_world delivery_dead_letter) = (None, w') \<and>
     d' \<in> set (delivery_rows (p_db w')) \<and> delivery_move\<^sup>*\<^sup>* (sample_delivery delivery_dead_letter) d' \<and>
     wd_status d' = delivery_pending"
proof -
  let ?w = "delivery_world delivery_dead_letter"
  obtain w' t where r: "repo_replay_delivery ''t'' ''wh_1'' ?w = (None, w')"
    and rows: "delivery_rows (p_db w') = [sample_delivery delivery_dead_letter\<lparr>wd_status := delivery_pending, wd_attempts := 0,
        wd_next_attempt := t, wd_last_error := [], wd_updated := t\<rparr>]"
    by (simp add: repo_replay_delivery_def update_one_def statement_def external_call_def Let_def update_where_def)
      (simp add: sample_delivery_def)
  have call: "product_call\<^sup>*\<^sup>* ?w w'" using product_call.replayed [OF r] by blast
  have others: "deliveries_move st (p_others ?w n held st)" for n held st by (simp add: lifecycle.relation_refl)
  have ids: "distinct (map wd_id (delivery_rows (p_db w')))" using rows by simp
  have here: "sample_delivery delivery_dead_letter \<in> set (delivery_rows (p_db ?w))" by simp
  from delivery_lifecycle [OF others call ids here] obtain d' where d': "d' \<in> set (delivery_rows (p_db w'))"
    "delivery_move\<^sup>*\<^sup>* (sample_delivery delivery_dead_letter) d'" by blast
  then have "wd_status d' = delivery_pending" using rows by simp
  with r d' show ?thesis by blast
qed

section \<open>Claims\<close>

lemma claim_result:
  assumes "others_rely w" and "db_ok (p_db w)" and "repo_claim_deliveries limit lease w = (Inr ds, w')"
  obtains db where "db_evolves (p_db w) db" "db_ok db"
    "ds = map (claimed (db_now w')) (filter (\<lambda>d. wd_id d \<in> set (map wd_id
       (claim_candidates (db_now w') lease (p_locked w (p_calls w)) (clamp_limit 100 10 limit) db))) (delivery_rows db))"
    "p_db w' = snd (update_where (\<lambda>d. wd_id d \<in> set (map wd_id
       (claim_candidates (db_now w') lease (p_locked w (p_calls w)) (clamp_limit 100 10 limit) db))) (claimed (db_now w')) db)"
proof -
  obtain r where s: "statement nothing_pending (claim_statement lease (clamp_limit 100 10 limit)) w = (r, w')"
    and r: "r = Inr ds"
    using assms(3) by (auto simp: repo_claim_deliveries_def wrap_error_def split: prod.splits sum.splits)
  let ?st = "p_others w (p_calls w) nothing_pending (p_db w, p_redis w)"
  have ev: "db_evolves (p_db w) (fst ?st)" using assms(1) unfolding others_rely_def by (blast dest: db_relyD(1))
  have now: "db_now (w\<lparr>p_clock := p_clock w + int (p_delays w (p_calls w))\<rparr>) = db_now w'"
    using s by (auto simp: statement_def external_call_def Let_def db_now_def case_prod_beta split: option.splits if_splits)
  have "claim_statement lease (clamp_limit 100 10 limit) (w\<lparr>p_clock := p_clock w + int (p_delays w (p_calls w))\<rparr>) (fst ?st) =
      (Inr ds, p_db w')"
    using s r by (auto simp: statement_def external_call_def Let_def case_prod_beta prod_eq_iff split: option.splits if_splits)
  then show thesis
    using ev assms(2) that [of "fst ?st"] unfolding claim_statement_def Let_def now
    by (simp add: db_evolves_def)
qed

lemma leased: "wd_status d = delivery_processing \<Longrightarrow> t < wd_updated d + milliseconds lease * millisecond \<Longrightarrow> \<not> delivery_due t lease d"
  by (auto simp: delivery_due_def)

lemma claim_limit_bound: "clamp_limit 100 10 limit \<le> 100"
  by (auto simp: clamp_limit_def nat_le_iff)

text \<open>
  C31. Claims are exclusive. Next to any other workers, a claim takes at most 100 deliveries, each of
  them due and not locked, counts the attempt, and leaves nothing due behind unless its limit is
  reached. The claimed rows are in the table, and none of them is due again before its lease has
  passed: as the claim left them, no other claim takes them meanwhile.
\<close>

theorem claim_exclusive:
  assumes "others_rely w" and "db_ok (p_db w)" and "repo_claim_deliveries limit lease w = (Inr ds, w')"
  shows "length ds \<le> clamp_limit 100 10 limit \<and> clamp_limit 100 10 limit \<le> 100 \<and> distinct (map wd_id ds) \<and>
    set ds \<subseteq> set (delivery_rows (p_db w')) \<and>
    (\<exists>db. db_evolves (p_db w) db \<and>
       (\<forall>d \<in> set ds. \<exists>d0 \<in> set (delivery_rows db). d = claimed (db_now w') d0 \<and> delivery_due (db_now w') lease d0 \<and>
          \<not> p_locked w (p_calls w) (wd_id d0)) \<and>
       (length ds < clamp_limit 100 10 limit \<longrightarrow> (\<forall>d0 \<in> set (delivery_rows db). delivery_due (db_now w') lease d0 \<longrightarrow>
          \<not> p_locked w (p_calls w) (wd_id d0) \<longrightarrow> claimed (db_now w') d0 \<in> set ds))) \<and>
    (\<forall>d \<in> set ds. \<forall>t < db_now w' + milliseconds lease * millisecond. \<not> delivery_due t lease d)"
proof -
  let ?now = "db_now w'" and ?n = "clamp_limit 100 10 limit" and ?locked = "p_locked w (p_calls w)"
  obtain db where db: "db_evolves (p_db w) db" "db_ok db"
    "ds = map (claimed ?now) (filter (\<lambda>d. wd_id d \<in> set (map wd_id (claim_candidates ?now lease ?locked ?n db))) (delivery_rows db))"
    "p_db w' = snd (update_where (\<lambda>d. wd_id d \<in> set (map wd_id (claim_candidates ?now lease ?locked ?n db))) (claimed ?now) db)"
    by (rule claim_result [OF assms], rule that)
  let ?cs = "claim_candidates ?now lease ?locked ?n db"
  let ?hit = "\<lambda>d. wd_id d \<in> set (map wd_id ?cs)"
  have keys: "distinct (map wd_id (delivery_rows db))" by (rule db_okD(6) [OF db(2)])
  have hit: "?hit d \<longleftrightarrow> d \<in> set ?cs" if "d \<in> set (delivery_rows db)" for d
  proof
    assume "?hit d"
    then obtain c where c: "c \<in> set ?cs" "wd_id c = wd_id d" by auto
    have "c = d" using c candidate_due [OF c(1)] that keys by (metis distinct_map inj_onD)
    then show "d \<in> set ?cs" using c by simp
  qed auto
  have ids: "map wd_id ds = map wd_id (filter ?hit (delivery_rows db))" unfolding db(3) by (simp add: claimed_def)
  have dist: "distinct (map wd_id ds)" unfolding ids by (rule distinct_map_filter [OF keys])
  have picked: "set (filter ?hit (delivery_rows db)) = set ?cs"
    using hit candidate_due [of _ ?now lease ?locked ?n db] by auto
  have len_cs: "length ?cs = min ?n (length (filter (\<lambda>d. delivery_due ?now lease d \<and> \<not> ?locked (wd_id d)) (delivery_rows db)))"
    by (simp add: claim_candidates_def)
  have "distinct (filter ?hit (delivery_rows db))" using keys by (simp add: distinct_map)
  from distinct_card [OF this] have size: "length ds = card (set ?cs)" unfolding picked db(3) length_map by (rule sym)
  also have "\<dots> \<le> length ?cs" by (rule card_length)
  finally have len: "length ds \<le> length ?cs" .
  have due: "\<exists>d0 \<in> set (delivery_rows db). d = claimed ?now d0 \<and> delivery_due ?now lease d0 \<and> \<not> ?locked (wd_id d0)"
    if "d \<in> set ds" for d
  proof -
    have "d \<in> claimed ?now ` set (filter ?hit (delivery_rows db))" using that unfolding db(3) by simp
    then obtain d0 where "d0 \<in> set ?cs" "d = claimed ?now d0" unfolding picked by blast
    then show ?thesis using candidate_due [of d0 ?now lease ?locked ?n db] by blast
  qed
  have rows: "set ds \<subseteq> set (delivery_rows (p_db w'))" unfolding db(3,4) by (auto simp: update_where_def)
  have full: "claimed ?now d0 \<in> set ds"
    if "length ds < ?n" "d0 \<in> set (delivery_rows db)" "delivery_due ?now lease d0" "\<not> ?locked (wd_id d0)" for d0
  proof -
    note d0 = that
    let ?due = "filter (\<lambda>d. delivery_due ?now lease d \<and> \<not> ?locked (wd_id d)) (delivery_rows db)"
    have dd: "distinct ?due" using keys by (simp add: distinct_map)
    then have "distinct ?cs" by (simp add: claim_candidates_def distinct_sort)
    then have "length ds = length ?cs" using size by (simp add: distinct_card)
    then have "length ?due < ?n" using d0(1) len_cs by simp
    then have "set ?cs = set ?due" by (simp add: claim_candidates_def)
    then have "d0 \<in> set (filter ?hit (delivery_rows db))" unfolding picked using d0 by simp
    then show ?thesis unfolding db(3) by auto
  qed
  have lease: "\<not> delivery_due t lease d" if "d \<in> set ds" "t < ?now + milliseconds lease * millisecond" for d t
    using due [OF that(1)] that(2) by (intro leased) (auto simp: claimed_def)
  show ?thesis
    using len len_cs claim_limit_bound dist rows due full lease db(1) by (intro conjI exI [of _ db]) auto
qed

lemma sample_claim:
  obtains d w' where "repo_claim_deliveries 10 (30 * second) (delivery_world delivery_pending) = (Inr [d], w')" "wd_id d = ''wh_1''"
  by (simp add: repo_claim_deliveries_def statement_def external_call_def Let_def wrap_error_def claim_statement_def
      claim_candidates_def clamp_limit_def)
    (simp add: delivery_world_def quiet_world_def delivery_due_def sample_delivery_def db_now_def second_def claimed_def)

theorem claim_exclusive_witness:
  "\<exists>d w'. repo_claim_deliveries 10 (30 * second) (delivery_world delivery_pending) = (Inr [d], w') \<and> wd_id d = ''wh_1'' \<and>
     (\<forall>t < db_now w' + milliseconds (30 * second) * millisecond. \<not> delivery_due t (30 * second) d)"
proof -
  let ?w = "delivery_world delivery_pending"
  have ok: "others_rely ?w" by (simp add: others_rely_def)
  obtain d w' where "repo_claim_deliveries 10 (30 * second) ?w = (Inr [d], w')" "wd_id d = ''wh_1''"
    by (rule sample_claim)
  with claim_exclusive [OF ok delivery_world_facts(4), of 10 "30 * second"] show ?thesis by fastforce
qed

section \<open>Attempts and their settlement\<close>

text \<open>A world in which no other client interferes and no call fails.\<close>

definition alone :: "pworld \<Rightarrow> bool" where
  "alone w \<longleftrightarrow> p_others w = (\<lambda>_ _ st. st) \<and> p_faults w = (\<lambda>_. None)"

definition settled_row :: "webhook_delivery \<Rightarrow> product_error option \<Rightarrow> gotime \<Rightarrow> webhook_delivery" where
  "settled_row d outcome now =
     (case outcome of
        None \<Rightarrow> d\<lparr>wd_status := delivery_delivered, wd_last_error := [], wd_updated := now\<rparr>
      | Some cause \<Rightarrow> d\<lparr>wd_status := (if wd_max_attempts d \<le> wd_attempts d then delivery_dead_letter else delivery_pending),
          wd_next_attempt := now + webhook_backoff (wd_attempts d), wd_last_error := error_text cause, wd_updated := now\<rparr>)"

lemma settled_row_id [simp]: "wd_id (settled_row d outcome now) = wd_id d"
  by (simp add: settled_row_def split: option.splits)

lemma settled_row_status: "wd_status (settled_row d outcome now) \<noteq> delivery_processing"
  by (simp add: settled_row_def split: option.splits)

lemma update_one_alone:
  assumes "alone w" and "update_one text P (\<lambda>v. g (db_now v)) w = (r, w')"
  shows "alone w'" and "p_db w' = snd (update_where P (g (db_now w')) (p_db w))"
    and "r = (if length (filter P (delivery_rows (p_db w))) \<noteq> 1 then Some Err_not_found else None)"
  using assms
  by (auto simp: update_one_def statement_def external_call_def Let_def alone_def update_where_def db_now_def split: if_splits)

lemma filter_single: "distinct xs \<Longrightarrow> d \<in> set xs \<Longrightarrow> filter (\<lambda>x. x = d) xs = [d]"
  by (induction xs) (auto simp: filter_empty_conv)

lemma row_of_id:
  assumes "distinct (map wd_id (delivery_rows db))" and "d \<in> set (delivery_rows db)"
  shows "x \<in> set (delivery_rows db) \<Longrightarrow> wd_id x = wd_id d \<longleftrightarrow> x = d"
    and "P d \<Longrightarrow> filter (\<lambda>x. wd_id x = wd_id d \<and> P x) (delivery_rows db) = [d]"
proof -
  show eq: "wd_id x = wd_id d \<longleftrightarrow> x = d" if "x \<in> set (delivery_rows db)" for x
    using assms that by (metis distinct_map inj_onD)
  assume p: "P d"
  have "filter (\<lambda>x. wd_id x = wd_id d \<and> P x) (delivery_rows db) = filter (\<lambda>x. x = d) (delivery_rows db)"
    using eq p by (intro filter_cong) auto
  also have "\<dots> = [d]"
    using assms by (intro filter_single) (simp_all add: distinct_map)
  finally show "filter (\<lambda>x. wd_id x = wd_id d \<and> P x) (delivery_rows db) = [d]" .
qed

text \<open>The settlement of a delivery that is being processed changes its row and no other.\<close>

definition settle_rows :: "webhook_delivery \<Rightarrow> product_error option \<Rightarrow> gotime \<Rightarrow> webhook_delivery list \<Rightarrow> webhook_delivery list" where
  "settle_rows d outcome now rows = map (\<lambda>x. if x = d then settled_row d outcome now else x) rows"

lemma settle_exact:
  assumes "alone w" and keys: "distinct (map wd_id (delivery_rows (p_db w)))" and d: "d \<in> set (delivery_rows (p_db w))"
    and p: "wd_status d = delivery_processing" and "settle_delivery wk d outcome w = (res, w')"
  shows "res = outcome \<and> alone w' \<and> delivery_rows (p_db w') = settle_rows d outcome (db_now w') (delivery_rows (p_db w))"
proof -
  let ?P = "\<lambda>x. wd_id x = wd_id d \<and> wd_status x = delivery_processing"
  have one: "filter ?P (delivery_rows (p_db w)) = [d]" by (rule row_of_id(2) [OF keys d]) (rule p)
  have upd: "map (\<lambda>x. if ?P x then f x else x) (delivery_rows (p_db w)) = map (\<lambda>x. if x = d then f d else x) (delivery_rows (p_db w))" for f
    using row_of_id(1) [OF keys d] p by (intro map_cong) auto
  show ?thesis
  proof (cases outcome)
    case None
    obtain e w1 where m: "repo_mark_succeeded (wd_id d) w = (e, w1)" by fastforce
    note u = update_one_alone [OF assms(1) m [unfolded repo_mark_succeeded_def]]
    have "e = None" using u(3) one by simp
    then have w': "res = None" "w' = record_delivery wk ''delivered'' w1"
      using assms(5) None m by (simp_all add: settle_delivery_def worker_succeed_def)
    show ?thesis
      using u(1,2) by (simp add: w' None record_delivery_def update_where_def upd settle_rows_def settled_row_def db_now_def alone_def)
  next
    case (Some cause)
    obtain r w1 where m: "repo_mark_failed d (error_text cause) (webhook_backoff (wd_attempts d)) w = (r, w1)" by fastforce
    obtain e where up: "update_one ''fail webhook delivery: '' ?P
         (\<lambda>v x. x\<lparr>wd_status := failed_status d, wd_next_attempt := db_now v + milliseconds (webhook_backoff (wd_attempts d)) * millisecond,
            wd_last_error := error_text cause, wd_updated := db_now v\<rparr>) w = (e, w1)"
      and r: "e = None \<Longrightarrow> r = Inr (failed_status d)"
      using m by (auto simp: repo_mark_failed_def split: prod.splits option.splits)
    note u = update_one_alone [OF assms(1) up]
    have "e = None" using u(3) one by simp
    then have w': "res = Some cause" "\<exists>result. w' = record_delivery wk result w1"
      using assms(5) Some m r by (auto simp: settle_delivery_def worker_fail_def)
    then obtain result where w1: "w' = record_delivery wk result w1" by blast
    have ms: "milliseconds (webhook_backoff n) * millisecond = webhook_backoff n" for n
      by (simp add: backoff_milliseconds)
    show ?thesis
      using u(1,2)
      by (simp add: w'(1) w1 Some record_delivery_def update_where_def upd settle_rows_def settled_row_def db_now_def alone_def
          failed_status_def ms)
  qed
qed

lemma send_alone:
  assumes "send_delivery cl wk d w = (outcome, w1)"
  shows "p_db w1 = p_db w" and "alone w1 \<longleftrightarrow> alone w"
  using assms by (auto simp: send_delivery_def alone_def split: option.splits)

text \<open>
  C32. One attempt. While nobody else uses the database (no second worker) and no call to it fails, processing a claimed
  delivery sends one request, unless its address is unusable: to the delivery's target, with its payload as the body,
  its id and event type and the signature of the payload at the present time in the headers. The attempt
  counts as delivered exactly for a status from 200 to 299; any other status, a redirect too, and a request without an
  answer are failures with their cause. The delivery's row then says delivered without an error, or keeps the cause as last
  error with another attempt due after the backoff, or is a dead letter when the attempts are used up. No
  other row changes. (A second worker could settle a delivery whose lease has ended; that is a finding.)
\<close>

theorem attempt_exact:
  assumes "alone w" and "distinct (map wd_id (delivery_rows (p_db w)))" and "d \<in> set (delivery_rows (p_db w))"
    and "wd_status d = delivery_processing" and "process_delivery cl wk d w = (res, w')"
  shows "(case wc_bad_target cl (wd_target d) of
        Some e \<Rightarrow> res = Some e
      | None \<Rightarrow> \<exists>sent. ob_target sent = wd_target d \<and> ob_body sent = wd_payload d \<and>
          map_of (ob_headers sent) ''Content-Type'' = Some ''application/json'' \<and>
          map_of (ob_headers sent) ''X-Northstar-Delivery'' = Some (wd_id d) \<and>
          map_of (ob_headers sent) ''X-Northstar-Event'' = Some (wd_event_type d) \<and>
          map_of (ob_headers sent) ''X-Northstar-Signature'' =
            Some (sign_outbound_webhook (ww_mac wk) (wd_payload d) (ww_secret wk) (p_clock w)) \<and>
          (case wc_send cl (p_calls w) sent of
             No_reply e \<Rightarrow> res = Some e
           | Reply status body \<Rightarrow>
               if 200 \<le> status \<and> status \<le> 299 then res = None
               else res = Some (Other_error (''receiver returned '' @ show_int status @ '': '' @ trim_space (take 512 body))))) \<and>
    delivery_rows (p_db w') = map (\<lambda>x. if x \<noteq> d then x else case res of
        None \<Rightarrow> d\<lparr>wd_status := delivery_delivered, wd_last_error := [], wd_updated := db_now w'\<rparr>
      | Some cause \<Rightarrow> d\<lparr>wd_status := (if wd_max_attempts d \<le> wd_attempts d then delivery_dead_letter else delivery_pending),
          wd_next_attempt := db_now w' + webhook_backoff (wd_attempts d), wd_last_error := error_text cause,
          wd_updated := db_now w'\<rparr>) (delivery_rows (p_db w)) \<and>
    alone w'"
proof -
  obtain outcome w1 where s: "send_delivery cl wk d w = (outcome, w1)" by fastforce
  note S = send_alone [OF s]
  have st: "settle_delivery wk d outcome w1 = (res, w')" using assms(5) s by (simp add: process_delivery_def)
  have "alone w1" using S(2) assms(1) by simp
  from settle_exact [OF this _ _ assms(4) st] assms(2,3) S(1)
  have R: "res = outcome" "alone w'" "delivery_rows (p_db w') = settle_rows d outcome (db_now w') (delivery_rows (p_db w))" by simp_all
  have "delivery_rows (p_db w') = map (\<lambda>x. if x \<noteq> d then x else settled_row d res (db_now w')) (delivery_rows (p_db w))"
    unfolding R(3) settle_rows_def R(1) by (intro map_cong) auto
  moreover have "case wc_bad_target cl (wd_target d) of
        Some e \<Rightarrow> res = Some e
      | None \<Rightarrow> res = judge_reply (wc_send cl (p_calls w) (outbound_request_of wk d (p_clock w)))"
    using s unfolding R(1) by (auto simp: send_delivery_def split: option.splits)
  ultimately show ?thesis
    using R(2) unfolding settled_row_def
    by (auto simp: judge_reply_def outbound_request_of_def split: option.splits reply.splits if_splits
        intro!: exI [of _ "outbound_request_of wk d (p_clock w)"])
qed

definition sample_client :: webhook_client where
  "sample_client = \<lparr>wc_bad_target = (\<lambda>_. None), wc_send = (\<lambda>_ _. Reply 503 ''busy''), wc_took = (\<lambda>_. 7)\<rparr>"

definition sample_worker :: webhook_worker where
  "sample_worker = new_webhook_worker (\<lambda>_ _. [1]) ''secret'' (30 * second) second True"

theorem attempt_exact_witness:
  "\<exists>res w'. process_delivery sample_client sample_worker (sample_delivery delivery_processing) (delivery_world delivery_processing) =
     (res, w') \<and> res = Some (Other_error ''receiver returned 503: busy'') \<and> map wd_last_error (delivery_rows (p_db w')) = [''receiver returned 503: busy'']"
proof -
  let ?d = "sample_delivery delivery_processing" and ?w = "delivery_world delivery_processing"
  obtain res w' where run: "process_delivery sample_client sample_worker ?d ?w = (res, w')" by fastforce
  have "alone ?w" "wd_status ?d = delivery_processing" by (simp_all add: alone_def sample_delivery_def)
  note A = attempt_exact [OF this(1) _ _ this(2) run]
  have shown: "show_int 503 = ''503''" "trim_space ''busy'' = ''busy''" by code_simp+
  from A have res: "res = Some (Other_error ''receiver returned 503: busy'')" by (auto simp: sample_client_def shown)
  moreover from A have "map wd_last_error (delivery_rows (p_db w')) = [''receiver returned 503: busy'']" by (simp add: res)
  ultimately show ?thesis using run by (intro exI conjI)
qed

section \<open>Batches under every schedule\<close>

fun task_delivery :: "task \<Rightarrow> webhook_delivery" where
  "task_delivery (To_send d) = d"
| "task_delivery (To_settle d outcome) = d"
| "task_delivery (Settled d res) = d"

text \<open>Where a task stands in the table: its row untouched, or settled by its own outcome.\<close>

definition task_row :: "webhook_delivery list \<Rightarrow> task \<Rightarrow> bool" where
  "task_row rows t \<longleftrightarrow> wd_status (task_delivery t) = delivery_processing \<and>
     (case t of Settled d res \<Rightarrow> \<exists>now. settled_row d res now \<in> set rows | _ \<Rightarrow> task_delivery t \<in> set rows)"

definition tasks_ok :: "task list \<Rightarrow> pworld \<Rightarrow> bool" where
  "tasks_ok ts w \<longleftrightarrow> alone w \<and> distinct (map wd_id (delivery_rows (p_db w))) \<and>
     distinct (map (wd_id \<circ> task_delivery) ts) \<and> (\<forall>t \<in> set ts. task_row (delivery_rows (p_db w)) t)"

lemma settle_rows_keys [simp]: "map wd_id (settle_rows d outcome now rows) = map wd_id rows"
  by (induction rows) (simp_all add: settle_rows_def)

lemma task_row_settle:
  assumes "task_row rows t" and "wd_id (task_delivery t) \<noteq> wd_id d"
  shows "task_row (settle_rows d outcome now rows) t"
proof -
  have keep: "x \<in> set (settle_rows d outcome now rows)" if "x \<in> set rows" "wd_id x \<noteq> wd_id d" for x
    using that by (auto simp: settle_rows_def image_iff intro!: bexI [of _ x])
  show ?thesis
  proof (cases t)
    case (Settled e res)
    then obtain u where "settled_row e res u \<in> set rows" using assms(1) by (auto simp: task_row_def)
    then show ?thesis using assms Settled keep [of "settled_row e res u"] by (auto simp: task_row_def)
  qed (use assms keep in \<open>auto simp: task_row_def\<close>)
qed

lemma task_step_ok:
  assumes ok: "tasks_ok ts w" and i: "i < length ts" and s: "task_step cl wk (ts ! i) w = (t, w')"
  shows "tasks_ok (ts[i := t]) w'" and "task_delivery t = task_delivery (ts ! i)"
proof -
  show same: "task_delivery t = task_delivery (ts ! i)" using s by (cases "ts ! i") (auto split: prod.splits)
  have ids: "map (wd_id \<circ> task_delivery) (ts[i := t]) = map (wd_id \<circ> task_delivery) ts"
    using i same by (intro nth_equalityI) (auto simp: nth_list_update)
  have env: "alone w" "distinct (map wd_id (delivery_rows (p_db w)))" "distinct (map (wd_id \<circ> task_delivery) ts)"
    using ok by (simp_all add: tasks_ok_def)
  have here: "task_row (delivery_rows (p_db w)) (ts ! i)" using ok i by (simp add: tasks_ok_def)
  have others: "wd_id (task_delivery (ts ! j)) \<noteq> wd_id (task_delivery (ts ! i))" if "j < length ts" "j \<noteq> i" for j
    using env(3) that i by (auto simp: distinct_conv_nth)
  have build: "tasks_ok (ts[i := t]) w'"
    if "alone w'" "map wd_id (delivery_rows (p_db w')) = map wd_id (delivery_rows (p_db w))" "task_row (delivery_rows (p_db w')) t"
      "\<And>j. j < length ts \<Longrightarrow> j \<noteq> i \<Longrightarrow> task_row (delivery_rows (p_db w')) (ts ! j)"
  proof -
    note h = that
    have "task_row (delivery_rows (p_db w')) x" if x: "x \<in> set (ts[i := t])" for x
    proof -
      obtain j where "j < length ts" "x = ts[i := t] ! j" using x by (auto simp: in_set_conv_nth)
      then show ?thesis using h(3,4) i by (cases "j = i") auto
    qed
    then show ?thesis unfolding tasks_ok_def ids using h(1,2) env by simp
  qed
  have kept: "task_row (delivery_rows (p_db w)) (ts ! j)" if "j < length ts" for j using ok that by (simp add: tasks_ok_def)
  show "tasks_ok (ts[i := t]) w'"
  proof (cases "ts ! i")
    case (To_send d)
    obtain outcome where o: "send_delivery cl wk d w = (outcome, w')" "t = To_settle d outcome"
      using s To_send by (auto split: prod.splits)
    show ?thesis using send_alone [OF o(1)] env here kept o(2) To_send by (intro build) (auto simp: task_row_def)
  next
    case (To_settle d outcome)
    obtain res where r: "settle_delivery wk d outcome w = (res, w')" "t = Settled d res"
      using s To_settle by (auto split: prod.splits)
    have row: "d \<in> set (delivery_rows (p_db w))" "wd_status d = delivery_processing" using here To_settle by (simp_all add: task_row_def)
    note E = settle_exact [OF env(1,2) row r(1)]
    have "task_row (delivery_rows (p_db w')) t"
      using E row r(2) by (auto simp: task_row_def settle_rows_def image_iff intro!: bexI [of _ d])
    moreover have "task_row (delivery_rows (p_db w')) (ts ! j)" if "j < length ts" "j \<noteq> i" for j
      using task_row_settle [OF kept [OF that(1)], of d outcome "db_now w'"] others [OF that] To_settle E by simp
    ultimately show ?thesis using E by (intro build) simp_all
  next
    case (Settled d res)
    then show ?thesis using s ok here kept by (intro build) (auto simp: tasks_ok_def)
  qed
qed

lemma run_tasks_ok:
  "tasks_ok ts w \<Longrightarrow> run_tasks cl wk schedule ts w = (ts', w') \<Longrightarrow>
   tasks_ok ts' w' \<and> map task_delivery ts' = map task_delivery ts"
proof (induction schedule arbitrary: ts w)
  case Nil
  then show ?case by simp
next
  case (Cons i schedule)
  show ?case
  proof (cases "i < length ts")
    case False
    then show ?thesis using Cons by simp
  next
    case True
    obtain t w1 where s: "task_step cl wk (ts ! i) w = (t, w1)" by fastforce
    note S = task_step_ok [OF Cons.prems(1) True s]
    have "run_tasks cl wk schedule (ts[i := t]) w1 = (ts', w')" using Cons.prems(2) True s by simp
    from Cons.IH [OF S(1) this] have "tasks_ok ts' w'" "map task_delivery ts' = map task_delivery (ts[i := t])" by simp_all
    moreover have "map task_delivery (ts[i := t]) = map task_delivery ts"
      using S(2) True by (intro nth_equalityI) (auto simp: nth_list_update)
    ultimately show ?thesis by simp
  qed
qed

lemma is_settled_row: "is_settled t \<Longrightarrow> task_row rows t \<Longrightarrow> \<exists>res now. settled_row (task_delivery t) res now \<in> set rows"
  by (cases t) (auto simp: task_row_def)

text \<open>
  A batch settles what it claimed. Under every schedule of its goroutines that lets all of them
  finish, and whatever the receivers answer, every claimed delivery ends up delivered, scheduled
  again or a dead letter by its own outcome: none stays in processing.
\<close>

theorem batch_settles_all:
  assumes "alone w" and "db_ok (p_db w)" and "process_batch cl wk schedule w = Some (Inr n, w')"
  shows "\<exists>ds v. repo_claim_deliveries (ww_batch wk) (ww_lease wk) w = (Inr ds, v) \<and> n = int (length ds) \<and>
    distinct (map wd_id (delivery_rows (p_db w'))) \<and>
    (\<forall>d \<in> set ds. \<exists>res now. settled_row d res now \<in> set (delivery_rows (p_db w')))"
proof -
  obtain ds v ts where c: "repo_claim_deliveries (ww_batch wk) (ww_lease wk) w = (Inr ds, v)"
    and r: "run_tasks cl wk schedule (map To_send ds) v = (ts, w')" "list_all is_settled ts" and n: "n = int (length ds)"
    using assms(3) by (auto simp: process_batch_def split: sum.splits prod.splits if_splits)
  have rely: "others_rely w" using assms(1) by (simp add: alone_def others_rely_def)
  let ?hit = "\<lambda>db d. wd_id d \<in> set (map wd_id (claim_candidates (db_now v) (ww_lease wk) (p_locked w (p_calls w)) (clamp_limit 100 10 (ww_batch wk)) db))"
  obtain db where db: "db_evolves (p_db w) db" "db_ok db" "ds = map (claimed (db_now v)) (filter (?hit db) (delivery_rows db))"
    "p_db v = snd (update_where (?hit db) (claimed (db_now v)) db)"
    by (rule claim_result [OF rely assms(2) c], rule that)
  have keys: "map wd_id (delivery_rows (p_db v)) = map wd_id (delivery_rows db)"
    unfolding db(4) by (simp add: update_where_def claimed_def)
  have "alone v" using c assms(1)
    by (auto simp: repo_claim_deliveries_def statement_def external_call_def Let_def alone_def split: prod.splits)
  moreover have "distinct (map wd_id (delivery_rows (p_db v)))" unfolding keys by (rule db_okD(6) [OF db(2)])
  moreover have "map (wd_id \<circ> task_delivery) (map To_send ds) = map wd_id (filter (?hit db) (delivery_rows db))"
    unfolding db(3) by (simp add: claimed_def)
  moreover have "distinct (map wd_id (filter (?hit db) (delivery_rows db)))" by (rule distinct_map_filter [OF db_okD(6) [OF db(2)]])
  moreover have "task_row (delivery_rows (p_db v)) (To_send d)" if "d \<in> set ds" for d
    using that unfolding db(3,4) by (auto simp: task_row_def update_where_def claimed_def)
  ultimately have "tasks_ok (map To_send ds) v" unfolding tasks_ok_def by auto
  from run_tasks_ok [OF this r(1)] have ok: "tasks_ok ts w'" "map task_delivery ts = ds" by (simp_all add: comp_def)
  have "\<exists>res now. settled_row d res now \<in> set (delivery_rows (p_db w'))" if "d \<in> set ds" for d
  proof -
    obtain t where t: "t \<in> set ts" "task_delivery t = d" using \<open>d \<in> set ds\<close> ok(2) by auto
    then show ?thesis using is_settled_row [of t] r(2) ok(1) by (auto simp: list_all_iff tasks_ok_def)
  qed
  with c n ok(1) show ?thesis by (auto simp: tasks_ok_def)
qed

theorem batch_settles_all_witness:
  "\<exists>w' d res now. process_batch sample_client sample_worker [0, 0] (delivery_world delivery_pending) = Some (Inr 1, w') \<and>
     wd_id d = ''wh_1'' \<and> settled_row d res now \<in> set (delivery_rows (p_db w'))"
proof -
  let ?w = "delivery_world delivery_pending"
  obtain d v where c: "repo_claim_deliveries 10 (30 * second) ?w = (Inr [d], v)" "wd_id d = ''wh_1''"
    by (rule sample_claim)
  have wk: "ww_batch sample_worker = 10" "ww_lease sample_worker = 30 * second"
    by (simp_all add: sample_worker_def new_webhook_worker_def)
  obtain outcome w1 where s: "send_delivery sample_client sample_worker d v = (outcome, w1)" by fastforce
  obtain res w' where t: "settle_delivery sample_worker d outcome w1 = (res, w')" by fastforce
  have run: "process_batch sample_client sample_worker [0, 0] ?w = Some (Inr 1, w')"
    by (simp add: process_batch_def wk c s t)
  have "alone ?w" by (simp add: alone_def)
  from batch_settles_all [OF this delivery_world_facts(4) run] c(1) wk
  have "\<exists>res now. settled_row d res now \<in> set (delivery_rows (p_db w'))" by auto
  with run c(2) show ?thesis by blast
qed

end
