(* ===== verification/Webhook_Sink.thy ===== *)
theory Webhook_Sink
  imports Signatures "HOL-Library.Multiset"
begin

text \<open>
  The webhook receiver of the demo, \<open>cmd/webhook-sink/main.go\<close>: it verifies the signature, fails the
  first deliveries on purpose and keeps the last 50. A request is handled in atomic steps: what
  needs no shared state, the \<open>Load\<close> and the \<open>Add\<close> of the atomic counter, and the append under the
  mutex; concurrent requests are \<open>sink_task\<close>s that a schedule interleaves. Only \<open>ListenAndServe\<close> and
  the JSON encoding of the answers are left out.
\<close>

record received_delivery =
  rd_id :: string
  rd_event_type :: string
  rd_payload :: string
  rd_at :: gotime

record sink =
  sk_remaining :: int
  sk_deliveries :: "received_delivery list"

record sink_request =
  sr_id :: string
  sr_event :: string
  sr_signature :: string
  sr_body :: "string option"

text \<open>\<open>sr_body\<close> is what \<open>http.MaxBytesReader\<close> lets through, \<open>None\<close> when reading fails.\<close>

definition max_sink_body :: nat where
  "max_sink_body = 1048576"

definition new_sink :: "(string \<Rightarrow> string) \<Rightarrow> sink" where
  "new_sink env = \<lparr>sk_remaining = parse_int_ignoring_error (env ''SINK_FAIL_FIRST''), sk_deliveries = []\<rparr>"

definition sink_env :: "(string \<Rightarrow> string) \<Rightarrow> string \<Rightarrow> string \<Rightarrow> string" where
  "sink_env env key fallback = (if env key \<noteq> [] then env key else fallback)"

definition sink_address :: "(string \<Rightarrow> string) \<Rightarrow> string" where
  "sink_address env = sink_env env ''SINK_ADDRESS'' '':8090''"

text \<open>The body and the signature: the status of a refusal, or the payload.\<close>

definition sink_admit :: "hmac \<Rightarrow> string \<Rightarrow> gotime \<Rightarrow> sink_request \<Rightarrow> int + string" where
  "sink_admit mac secret now r =
     (case sr_body r of
        None \<Rightarrow> Inl 400
      | Some payload \<Rightarrow>
          if max_sink_body < length payload then Inl 400
          else (case verify_outbound_webhook mac (sr_signature r) payload secret now (5 * minute) of
                  Some _ \<Rightarrow> Inl 401
                | None \<Rightarrow> Inr payload))"

definition store_received :: "received_delivery \<Rightarrow> received_delivery list \<Rightarrow> received_delivery list" where
  "store_received d ds =
     (let ds' = ds @ [d] in if 50 < length ds' then drop (length ds' - 50) ds' else ds')"

datatype sink_task =
    To_admit sink_request
  | To_load sink_request string
  | To_add sink_request string
  | To_store sink_request string
  | Refused int
  | Outage
  | Kept received_delivery

text \<open>One atomic step of a request at the given time.\<close>

fun sink_step :: "hmac \<Rightarrow> string \<Rightarrow> gotime \<Rightarrow> sink_task \<Rightarrow> sink \<Rightarrow> sink_task \<times> sink" where
  "sink_step mac secret now (To_admit r) s =
     (case sink_admit mac secret now r of Inl status \<Rightarrow> (Refused status, s) | Inr payload \<Rightarrow> (To_load r payload, s))"
| "sink_step mac secret now (To_load r payload) s =
     (if 0 < sk_remaining s then (To_add r payload, s) else (To_store r payload, s))"
| "sink_step mac secret now (To_add r payload) s =
     (let left = wrap64 (sk_remaining s - 1); s' = s\<lparr>sk_remaining := left\<rparr>
      in if 0 \<le> left then (Outage, s') else (To_store r payload, s'))"
| "sink_step mac secret now (To_store r payload) s =
     (let d = \<lparr>rd_id = sr_id r, rd_event_type = sr_event r, rd_payload = payload, rd_at = now\<rparr>
      in (Kept d, s\<lparr>sk_deliveries := store_received d (sk_deliveries s)\<rparr>))"
| "sink_step mac secret now t s = (t, s)"

text \<open>The status a finished request was answered with.\<close>

fun sink_status :: "sink_task \<Rightarrow> int option" where
  "sink_status (Refused status) = Some status"
| "sink_status Outage = Some 503"
| "sink_status (Kept d) = Some 204"
| "sink_status _ = None"

fun run_sink :: "hmac \<Rightarrow> string \<Rightarrow> (nat \<times> gotime) list \<Rightarrow> sink_task list \<Rightarrow> sink \<Rightarrow> sink_task list \<times> sink" where
  "run_sink mac secret [] ts s = (ts, s)"
| "run_sink mac secret ((i, now) # schedule) ts s =
     (if i < length ts
      then case sink_step mac secret now (ts ! i) s of (t, s') \<Rightarrow> run_sink mac secret schedule (ts[i := t]) s'
      else run_sink mac secret schedule ts s)"

text \<open>\<open>GET /deliveries\<close> copies what is kept.\<close>

definition sink_snapshot :: "sink \<Rightarrow> received_delivery list" where
  "sink_snapshot s = sk_deliveries s"

section \<open>The last fifty\<close>

definition last_fifty :: "'a list \<Rightarrow> 'a list" where
  "last_fifty xs = drop (length xs - 50) xs"

lemma store_received_last: "store_received d (last_fifty xs) = last_fifty (xs @ [d])"
proof (cases "49 < length xs")
  case True
  then have "Suc (length xs - 50) = length xs - 49" by simp
  then show ?thesis using True by (simp add: store_received_def last_fifty_def Let_def)
qed (simp add: store_received_def last_fifty_def Let_def)

section \<open>Counting outages\<close>

definition outages :: "sink_task list \<Rightarrow> nat" where
  "outages ts = length (filter (\<lambda>t. t = Outage) ts)"

fun past_counter :: "sink_task \<Rightarrow> bool" where
  "past_counter (To_store r payload) = True"
| "past_counter (Kept d) = True"
| "past_counter Outage = True"
| "past_counter _ = False"

fun kept :: "sink_task \<Rightarrow> received_delivery list" where
  "kept (Kept d) = [d]"
| "kept _ = []"

text \<open>\<open>N\<close> is the number of failures to simulate. A request gets through only when the counter is used up.\<close>

definition sink_ok :: "int \<Rightarrow> sink_task list \<Rightarrow> sink \<Rightarrow> bool" where
  "sink_ok N ts s \<longleftrightarrow> sk_remaining s \<le> N \<and> int (outages ts) = N - max 0 (sk_remaining s) \<and>
     N - sk_remaining s \<le> int (length (filter past_counter ts)) \<and>
     ((\<exists>t \<in> set ts. past_counter t \<and> t \<noteq> Outage) \<longrightarrow> sk_remaining s \<le> 0)"

lemma filter_update:
  assumes "i < length ts"
  shows "length (filter P (ts[i := t])) + (if P (ts ! i) then 1 else 0) = length (filter P ts) + (if P t then 1 else 0)"
  using assms
proof (induction ts arbitrary: i)
  case (Cons x ts)
  show ?case using Cons.IH [of "i - 1"] Cons.prems by (cases i) auto
qed simp

lemma concat_update:
  assumes "i < length ts"
  shows "mset (concat (map f (ts[i := t]))) + mset (f (ts ! i)) = mset (concat (map f ts)) + mset (f t)"
  using assms
proof (induction ts arbitrary: i)
  case (Cons x ts)
  show ?case using Cons.IH [of "i - 1"] Cons.prems by (cases i) (simp_all add: ac_simps)
qed simp

lemma sink_ok_step:
  assumes ok: "sink_ok N ts s" and i: "i < length ts" and s: "sink_step mac secret now (ts ! i) s = (t, s')"
    and fits: "in_int64 N" "0 \<le> N" "length ts < 2 ^ 62"
  shows "sink_ok N (ts[i := t]) s'"
proof -
  have some: "\<exists>t' \<in> set (ts[i := t]). past_counter t' \<and> t' \<noteq> Outage \<Longrightarrow>
      (\<exists>t' \<in> set ts. past_counter t' \<and> t' \<noteq> Outage) \<or> past_counter t \<and> t \<noteq> Outage"
    using set_update_subset_insert [of ts i t] by blast
  note out = filter_update [OF i, of "\<lambda>t. t = Outage" t]
  note past = filter_update [OF i, of past_counter t]
  have count: "sk_remaining s \<le> N" "int (outages ts) = N - max 0 (sk_remaining s)"
    "N - sk_remaining s \<le> int (length (filter past_counter ts))"
    "(\<exists>t \<in> set ts. past_counter t \<and> t \<noteq> Outage) \<Longrightarrow> sk_remaining s \<le> 0"
    using ok by (auto simp: sink_ok_def)
  have "N - sk_remaining s \<le> int (length ts)" using count(3) length_filter_le [of past_counter ts] by linarith
  then have range: "in_int64 (sk_remaining s - 1)"
    using fits count(1) by (auto simp: in_int64_def int64_max_def int64_min_def)
  have idle: ?thesis if "s' = s" "past_counter (ts ! i) \<longleftrightarrow> past_counter t" "ts ! i = Outage \<longleftrightarrow> t = Outage"
    "past_counter t \<Longrightarrow> t \<noteq> Outage \<Longrightarrow> ts ! i = t"
  proof -
    have "past_counter t \<and> t \<noteq> Outage \<Longrightarrow> \<exists>t \<in> set ts. past_counter t \<and> t \<noteq> Outage" using that(4) i nth_mem by metis
    then show ?thesis using count some out past that by (auto simp: sink_ok_def outages_def)
  qed
  show ?thesis
  proof (cases "ts ! i")
    case (To_admit r)
    then show ?thesis using s by (intro idle) (auto split: sum.splits)
  next
    case (To_load r payload)
    show ?thesis
    proof (cases "0 < sk_remaining s")
      case True
      then show ?thesis using s To_load by (intro idle) auto
    next
      case False
      then have "t = To_store r payload" "s' = s" using s To_load by auto
      then show ?thesis using False count out past To_load by (auto simp: sink_ok_def outages_def)
    qed
  next
    case (To_add r payload)
    let ?left = "sk_remaining s - 1"
    have step: "s' = s\<lparr>sk_remaining := ?left\<rparr>" "t = (if 0 \<le> ?left then Outage else To_store r payload)"
      using s To_add range by (auto simp: Let_def split: if_splits)
    have "(\<exists>t' \<in> set (ts[i := t]). past_counter t' \<and> t' \<noteq> Outage) \<Longrightarrow> ?left \<le> 0"
      using some count(4) step(2) by (auto split: if_splits)
    then show ?thesis using count out past To_add step by (auto simp: sink_ok_def outages_def split: if_splits)
  next
    case (To_store r payload)
    obtain d where step: "t = Kept d" "s' = s\<lparr>sk_deliveries := store_received d (sk_deliveries s)\<rparr>"
      using s To_store by (auto simp: Let_def)
    have "sk_remaining s \<le> 0" using count(4) To_store i nth_mem [OF i] by fastforce
    then show ?thesis using count out past To_store step unfolding sink_ok_def outages_def by auto
  qed (use s in \<open>(intro idle; auto)\<close>)+
qed

lemma run_sink_ok:
  "sink_ok N ts s \<Longrightarrow> in_int64 N \<Longrightarrow> 0 \<le> N \<Longrightarrow> length ts < 2 ^ 62 \<Longrightarrow> run_sink mac secret schedule ts s = (ts', s') \<Longrightarrow>
   sink_ok N ts' s' \<and> length ts' = length ts"
proof (induction schedule arbitrary: ts s)
  case Nil
  then show ?case by simp
next
  case (Cons x schedule)
  obtain i now where x: "x = (i, now)" by fastforce
  obtain t s1 where st: "sink_step mac secret now (ts ! i) s = (t, s1)" by fastforce
  show ?case
  proof (cases "i < length ts")
    case False
    then show ?thesis using Cons x by simp
  next
    case True
    have "run_sink mac secret schedule (ts[i := t]) s1 = (ts', s')" using Cons.prems(5) x True st by simp
    from Cons.IH [OF sink_ok_step [OF Cons.prems(1) True st Cons.prems(2-4)] Cons.prems(2,3) _ this] Cons.prems(4)
    show ?thesis by simp
  qed
qed

lemma outages_split:
  "\<forall>t \<in> set ts. sink_status t \<noteq> None \<Longrightarrow>
   outages ts + length (concat (map kept ts)) + length (filter (\<lambda>t. \<exists>status. t = Refused status) ts) = length ts"
proof (induction ts)
  case (Cons t ts)
  then show ?case by (cases t) (simp_all add: outages_def)
qed (simp add: outages_def)

lemma sink_ok_new: "0 \<le> sk_remaining s \<Longrightarrow> sk_deliveries s = [] \<Longrightarrow> sink_ok (sk_remaining s) (map To_admit rs) s"
  by (auto simp: sink_ok_def outages_def filter_map o_def comp_def)

text \<open>The deliveries in the order in which the requests of a schedule store them.\<close>

fun stored_in_order :: "hmac \<Rightarrow> string \<Rightarrow> (nat \<times> gotime) list \<Rightarrow> sink_task list \<Rightarrow> sink \<Rightarrow> received_delivery list" where
  "stored_in_order mac secret [] ts s = []"
| "stored_in_order mac secret ((i, now) # schedule) ts s =
     (if i < length ts
      then (case ts ! i of
              To_store r payload \<Rightarrow> [\<lparr>rd_id = sr_id r, rd_event_type = sr_event r, rd_payload = payload, rd_at = now\<rparr>]
            | _ \<Rightarrow> []) @
        (case sink_step mac secret now (ts ! i) s of (t, s') \<Rightarrow> stored_in_order mac secret schedule (ts[i := t]) s')
      else stored_in_order mac secret schedule ts s)"

lemma step_stores:
  "sink_step mac secret now u s = (t, s1) \<Longrightarrow> sk_deliveries s = last_fifty xs \<Longrightarrow>
   sk_deliveries s1 = last_fifty (xs @ (case u of
      To_store r payload \<Rightarrow> [\<lparr>rd_id = sr_id r, rd_event_type = sr_event r, rd_payload = payload, rd_at = now\<rparr>] | _ \<Rightarrow> [])) \<and>
   mset (kept t) = mset (kept u) + mset (case u of
      To_store r payload \<Rightarrow> [\<lparr>rd_id = sr_id r, rd_event_type = sr_event r, rd_payload = payload, rd_at = now\<rparr>] | _ \<Rightarrow> [])"
  by (cases u) (auto simp: store_received_last Let_def split: sum.splits if_splits)

lemma stored_order:
  "sk_deliveries s = last_fifty xs \<Longrightarrow> run_sink mac secret schedule ts s = (ts', s') \<Longrightarrow>
   sk_deliveries s' = last_fifty (xs @ stored_in_order mac secret schedule ts s) \<and>
   mset (concat (map kept ts')) = mset (concat (map kept ts)) + mset (stored_in_order mac secret schedule ts s)"
proof (induction schedule arbitrary: ts s xs)
  case Nil
  then show ?case by simp
next
  case (Cons x schedule)
  obtain i now where x: "x = (i, now)" by fastforce
  show ?case
  proof (cases "i < length ts")
    case False
    then show ?thesis using Cons x by simp
  next
    case True
    obtain t s1 where st: "sink_step mac secret now (ts ! i) s = (t, s1)" by fastforce
    define new where "new = (case ts ! i of
        To_store r payload \<Rightarrow> [\<lparr>rd_id = sr_id r, rd_event_type = sr_event r, rd_payload = payload, rd_at = now\<rparr>] | _ \<Rightarrow> [])"
    have run: "run_sink mac secret schedule (ts[i := t]) s1 = (ts', s')" using Cons.prems(2) x True st by simp
    note S = step_stores [OF st Cons.prems(1), folded new_def]
    note IH = Cons.IH [OF conjunct1 [OF S] run]
    from S have "mset (concat (map kept (ts[i := t]))) = mset (concat (map kept ts)) + mset new"
      using concat_update [OF True, of kept t] by simp
    moreover have "stored_in_order mac secret (x # schedule) ts s = new @ stored_in_order mac secret schedule (ts[i := t]) s1"
      using True st by (simp add: x new_def)
    ultimately show ?thesis using IH by (simp add: ac_simps)
  qed
qed

text \<open>What became of a request: every stage goes back to the check of its body and signature.\<close>

definition sink_fate :: "hmac \<Rightarrow> string \<Rightarrow> sink_request \<Rightarrow> sink_task \<Rightarrow> bool" where
  "sink_fate mac secret r t \<longleftrightarrow>
     (case t of
        To_admit r' \<Rightarrow> r' = r
      | To_load r' payload \<Rightarrow> r' = r \<and> (\<exists>now. sink_admit mac secret now r = Inr payload)
      | To_add r' payload \<Rightarrow> r' = r \<and> (\<exists>now. sink_admit mac secret now r = Inr payload)
      | To_store r' payload \<Rightarrow> r' = r \<and> (\<exists>now. sink_admit mac secret now r = Inr payload)
      | Refused status \<Rightarrow> \<exists>now. sink_admit mac secret now r = Inl status
      | Outage \<Rightarrow> \<exists>now payload. sink_admit mac secret now r = Inr payload
      | Kept d \<Rightarrow> rd_id d = sr_id r \<and> rd_event_type d = sr_event r \<and> (\<exists>now. sink_admit mac secret now r = Inr (rd_payload d)))"

lemma sink_fate_step: "sink_fate mac secret r t \<Longrightarrow> sink_step mac secret now t s = (t', s') \<Longrightarrow> sink_fate mac secret r t'"
  by (cases t) (auto simp: sink_fate_def Let_def split: sum.splits if_splits)

lemma sink_fate_run:
  "\<forall>i < length ts. sink_fate mac secret (rs ! i) (ts ! i) \<Longrightarrow> run_sink mac secret schedule ts s = (ts', s') \<Longrightarrow>
   \<forall>i < length ts. sink_fate mac secret (rs ! i) (ts' ! i)"
proof (induction schedule arbitrary: ts s)
  case Nil
  then show ?case by simp
next
  case (Cons x schedule)
  obtain i now where x: "x = (i, now)" by fastforce
  show ?case
  proof (cases "i < length ts")
    case False
    then show ?thesis using Cons x by simp
  next
    case True
    obtain t s1 where st: "sink_step mac secret now (ts ! i) s = (t, s1)" by fastforce
    have "\<forall>j < length (ts[i := t]). sink_fate mac secret (rs ! j) (ts[i := t] ! j)"
      using Cons.prems(1) True sink_fate_step [OF _ st] by (auto simp: nth_list_update)
    from Cons.IH [OF this, of s1] show ?thesis using Cons.prems(2) x True st by simp
  qed
qed

text \<open>
  C33. Exactly the configured failures. However concurrent requests interleave, once all of them are
  answered, each was refused because its body or signature did not pass, failed on purpose, or was kept with
  its own id, event type and payload. The failures are N of those that passed, or all of them if there are fewer. The
  sink holds the last 50 of the kept ones, in the order in which the requests stored them.
\<close>

theorem sink_fails_exactly:
  assumes "0 \<le> sk_remaining s" "in_int64 (sk_remaining s)" "sk_deliveries s = []" "length rs < 2 ^ 62"
    and "run_sink mac secret schedule (map To_admit rs) s = (ts, s')" and "\<forall>t \<in> set ts. sink_status t \<noteq> None"
  shows "(\<forall>i < length rs. case ts ! i of
        Refused status \<Rightarrow> \<exists>now. sink_admit mac secret now (rs ! i) = Inl status
      | Outage \<Rightarrow> \<exists>now payload. sink_admit mac secret now (rs ! i) = Inr payload
      | Kept d \<Rightarrow> rd_id d = sr_id (rs ! i) \<and> rd_event_type d = sr_event (rs ! i) \<and>
          (\<exists>now. sink_admit mac secret now (rs ! i) = Inr (rd_payload d))
      | _ \<Rightarrow> False) \<and>
    outages ts = min (nat (sk_remaining s)) (length rs - length (filter (\<lambda>t. \<exists>status. t = Refused status) ts)) \<and>
    outages ts + length (concat (map kept ts)) + length (filter (\<lambda>t. \<exists>status. t = Refused status) ts) = length rs \<and>
    sk_deliveries s' = last_fifty (stored_in_order mac secret schedule (map To_admit rs) s) \<and>
    mset (stored_in_order mac secret schedule (map To_admit rs) s) = mset (concat (map kept ts))"
proof -
  have "length (map To_admit rs) < 2 ^ 62" using assms(4) by simp
  note R = run_sink_ok [OF sink_ok_new [OF assms(1,3)] assms(2,1) this assms(5)]
  then have len: "length ts = length rs" by simp
  note split = outages_split [OF assms(6), unfolded len]
  have ok: "sk_remaining s' \<le> sk_remaining s" "int (outages ts) = sk_remaining s - max 0 (sk_remaining s')"
    "(\<exists>t \<in> set ts. past_counter t \<and> t \<noteq> Outage) \<Longrightarrow> sk_remaining s' \<le> 0"
    using R by (auto simp: sink_ok_def)
  have "concat (map kept (map To_admit rs)) = []" by (simp add: comp_def)
  then have last: "sk_deliveries s' = last_fifty (stored_in_order mac secret schedule (map To_admit rs) s)"
    "mset (stored_in_order mac secret schedule (map To_admit rs) s) = mset (concat (map kept ts))"
    using stored_order [OF _ assms(5), of "[]"] assms(3) by (simp_all add: last_fifty_def)
  have fate: "sink_fate mac secret (rs ! i) (ts ! i)" "sink_status (ts ! i) \<noteq> None" if "i < length rs" for i
    using sink_fate_run [OF _ assms(5), of rs] assms(6) that len by (simp_all add: sink_fate_def)
  have "case ts ! i of
        Refused status \<Rightarrow> \<exists>now. sink_admit mac secret now (rs ! i) = Inl status
      | Outage \<Rightarrow> \<exists>now payload. sink_admit mac secret now (rs ! i) = Inr payload
      | Kept d \<Rightarrow> rd_id d = sr_id (rs ! i) \<and> rd_event_type d = sr_event (rs ! i) \<and>
          (\<exists>now. sink_admit mac secret now (rs ! i) = Inr (rd_payload d))
      | _ \<Rightarrow> False" if "i < length rs" for i
    using fate [OF that] by (cases "ts ! i") (simp_all add: sink_fate_def)
  moreover have "outages ts = min (nat (sk_remaining s)) (outages ts + length (concat (map kept ts)))"
  proof (cases "concat (map kept ts) = []")
    case True
    have none: "length (concat (map kept ts)) = 0" by (simp only: True list.size)
    show ?thesis using ok(2) assms(1) unfolding none by simp
  next
    case False
    then obtain t where t: "t \<in> set ts" "kept t \<noteq> []" by auto
    have "past_counter t \<and> t \<noteq> Outage" using t(2) by (cases t) auto
    then have "sk_remaining s' \<le> 0" using ok(3) t(1) by blast
    then show ?thesis using ok(2) by simp
  qed
  then have "outages ts = min (nat (sk_remaining s)) (length rs - length (filter (\<lambda>t. \<exists>status. t = Refused status) ts))"
    using split by (metis add_diff_cancel_right')
  ultimately show ?thesis using split last by blast
qed

definition sample_sink :: sink where
  "sample_sink = \<lparr>sk_remaining = 1, sk_deliveries = []\<rparr>"

definition signed_request :: sink_request where
  "signed_request = \<lparr>sr_id = ''wh_1'', sr_event = ''order.confirmed'',
     sr_signature = ''t='' @ show_int 100 @ '',v1='' @ hex_encode [112], sr_body = Some ''p''\<rparr>"

lemma signed_request_admitted:
  "sink_admit (\<lambda>_ _. [112]) ''k'' (62135596900 * second) signed_request = Inr ''p''"
proof -
  have h: "read_header (''t='' @ show_int 100 @ '',v1='' @ hex_encode [112]) = (100, [hex_encode [112]])"
    by (rule read_header_signed) (simp add: in_int64_def int64_min_def int64_max_def)
  have "time_unix 100 = 62135596900 * second" by (simp add: time_unix_def wrap64_def second_def)
  then have "verify_outbound_webhook (\<lambda>_ _. [112]) (''t='' @ show_int 100 @ '',v1='' @ hex_encode [112]) ''p'' ''k''
      (62135596900 * second) (5 * minute) = None"
    unfolding verify_outbound_webhook_def verify_timestamped_signature_def h
    by (simp add: hmac_hex_def Let_def minute_def second_def time_sub_def int64_min_def int64_max_def)
  then show ?thesis by (simp add: sink_admit_def signed_request_def max_sink_body_def)
qed

theorem sink_fails_exactly_witness:
  "\<exists>ts s'. run_sink (\<lambda>_ _. [112]) ''k'' (map (\<lambda>i. (i, 62135596900 * second)) [0, 1, 0, 1, 0, 1, 1])
     (map To_admit [signed_request, signed_request]) sample_sink = (ts, s') \<and> outages ts = 1 \<and> length (sk_deliveries s') = 1"
proof -
  let ?d = "\<lparr>rd_id = ''wh_1'', rd_event_type = ''order.confirmed'', rd_payload = ''p'', rd_at = 62135596900 * second\<rparr>"
  have run: "run_sink (\<lambda>_ _. [112]) ''k'' (map (\<lambda>i. (i, 62135596900 * second)) [0, 1, 0, 1, 0, 1, 1])
      (map To_admit [signed_request, signed_request]) sample_sink =
      ([Outage, Kept ?d], \<lparr>sk_remaining = -1, sk_deliveries = [?d]\<rparr>)"
    by (simp add: signed_request_admitted sample_sink_def Let_def store_received_def)
      (simp add: signed_request_def wrap64_def)
  have "outages [Outage, Kept ?d] = 1"
    using sink_fails_exactly [OF _ _ _ _ run] by (simp add: sample_sink_def in_int64_def int64_max_def int64_min_def)
  moreover have "length (sk_deliveries \<lparr>sk_remaining = -1, sk_deliveries = [?d]\<rparr>) = 1" by simp
  ultimately show ?thesis using run by blast
qed

end
