(* ===== verification/Webhook_Demo.thy ===== *)
theory Webhook_Demo
  imports Webhook_Properties Webhook_Sink
begin

text \<open>
  The worker of the product against the receiver of the demo, as \<open>compose.product.yaml\<close> runs them: every
  request of a goroutine of \<open>ProcessBatch\<close> is handled by the sink in the state it then has, and the answer
  goes back to the goroutine. The two programs are composed here from their own models; the theorem
  is that every webhook arrives, exactly once, although the sink fails the first requests on purpose.
\<close>

section \<open>Worker and sink together\<close>

definition outbound_header :: "outbound_request \<Rightarrow> string \<Rightarrow> string" where
  "outbound_header ob name = (case map_of (ob_headers ob) name of Some v \<Rightarrow> v | None \<Rightarrow> [])"

definition sink_request_of :: "outbound_request \<Rightarrow> sink_request" where
  "sink_request_of ob = \<lparr>sr_id = outbound_header ob ''X-Northstar-Delivery'', sr_event = outbound_header ob ''X-Northstar-Event'',
     sr_signature = outbound_header ob ''X-Northstar-Signature'',
     sr_body = (if max_sink_body < length (ob_body ob) then None else Some (ob_body ob))\<rparr>"

text \<open>A request that no other interrupts.\<close>

definition sink_serve :: "hmac \<Rightarrow> string \<Rightarrow> gotime \<Rightarrow> sink_request \<Rightarrow> sink \<Rightarrow> sink_task \<times> sink" where
  "sink_serve mac secret now r s =
     (let step = (\<lambda>(t, s). sink_step mac secret now t s) in step (step (step (step (To_admit r, s)))))"

definition error_line :: "string \<Rightarrow> string" where
  "error_line text = text @ [CHR 0x0A]"

fun sink_reply :: "sink_task \<Rightarrow> reply" where
  "sink_reply (Refused status) = Reply status (error_line (if status = 400 then ''invalid payload'' else ''invalid signature''))"
| "sink_reply Outage = Reply 503 (error_line ''simulated receiver outage'')"
| "sink_reply (Kept d) = Reply 204 []"
| "sink_reply _ = No_reply (Other_error ''no answer'')"

text \<open>
  The parts that stay: the worker, the address and secret of the sink, how long a request travels and
  how long the numbered calls take.
\<close>

record demo =
  dm_worker :: webhook_worker
  dm_url :: string
  dm_secret :: string
  dm_travel :: nat
  dm_took :: "nat \<Rightarrow> nat"

definition sink_answer :: "demo \<Rightarrow> pworld \<Rightarrow> sink \<Rightarrow> outbound_request \<Rightarrow> sink_task \<times> sink" where
  "sink_answer dm w s ob =
     sink_serve (ww_mac (dm_worker dm)) (dm_secret dm) (p_clock w + int (dm_travel dm)) (sink_request_of ob) s"

definition sink_client :: "demo \<Rightarrow> pworld \<Rightarrow> sink \<Rightarrow> webhook_client" where
  "sink_client dm w s = \<lparr>wc_bad_target = (\<lambda>_. None),
     wc_send = (\<lambda>_ ob. if ob_target ob = dm_url dm then sink_reply (fst (sink_answer dm w s ob))
                 else No_reply (Other_error ''no route to host'')),
     wc_took = dm_took dm\<rparr>"

text \<open>One step of a goroutine; a request that reaches the sink changes it.\<close>

definition demo_step :: "demo \<Rightarrow> task \<Rightarrow> pworld \<times> sink \<Rightarrow> task \<times> pworld \<times> sink" where
  "demo_step dm t ws =
     (case ws of (w, s) \<Rightarrow>
        (case task_step (sink_client dm w s) (dm_worker dm) t w of
           (t', w') \<Rightarrow>
             (t', w', case t of
                        To_send d \<Rightarrow>
                          if wd_target d = dm_url dm
                          then snd (sink_answer dm w s (outbound_request_of (dm_worker dm) d (p_clock w))) else s
                      | _ \<Rightarrow> s)))"

fun demo_tasks :: "demo \<Rightarrow> nat list \<Rightarrow> task list \<Rightarrow> pworld \<times> sink \<Rightarrow> task list \<times> pworld \<times> sink" where
  "demo_tasks dm [] ts ws = (ts, ws)"
| "demo_tasks dm (i # schedule) ts ws =
     (if i < length ts
      then case demo_step dm (ts ! i) ws of (t, ws') \<Rightarrow> demo_tasks dm schedule (ts[i := t]) ws'
      else demo_tasks dm schedule ts ws)"

text \<open>The rounds of \<open>Run\<close>, each with its schedule and the time until the next; \<open>None\<close> when a schedule stops early.\<close>

definition demo_batch :: "demo \<Rightarrow> nat list \<Rightarrow> pworld \<times> sink \<Rightarrow> (pworld \<times> sink) option" where
  "demo_batch dm schedule ws =
     (case ws of (w, s) \<Rightarrow>
        (case repo_claim_deliveries (ww_batch (dm_worker dm)) (ww_lease (dm_worker dm)) w of
           (Inl e, w') \<Rightarrow> Some (w', s)
         | (Inr ds, w') \<Rightarrow>
             (case demo_tasks dm schedule (map To_send ds) (w', s) of
                (ts, ws') \<Rightarrow> if list_all is_settled ts then Some ws' else None)))"

fun demo_run :: "demo \<Rightarrow> (nat list \<times> nat) list \<Rightarrow> pworld \<times> sink \<Rightarrow> (pworld \<times> sink) option" where
  "demo_run dm [] ws = Some ws"
| "demo_run dm ((schedule, waited) # rounds) ws =
     (case demo_batch dm schedule ws of
        None \<Rightarrow> None
      | Some (w, s) \<Rightarrow> demo_run dm rounds (w\<lparr>p_clock := p_clock w + int waited\<rparr>, s))"

section \<open>A request at the sink\<close>

lemma unix_second:
  assumes "62135596801 * second \<le> t" and "t < 315537897600 * second"
  shows "unix_seconds t \<noteq> 0" "time_unix (unix_seconds t) \<le> t" "t < time_unix (unix_seconds t) + second"
proof -
  have s: "62135596801 \<le> t div second" "t div second < 315537897600" using assms by (simp_all add: second_def)
  then have "unix_seconds t = t div second - 62135596800" "time_unix (unix_seconds t) = t div second * second"
    by (simp_all add: unix_seconds_def time_unix_def wrap64_def)
  then show "unix_seconds t \<noteq> 0" "time_unix (unix_seconds t) \<le> t" "t < time_unix (unix_seconds t) + second"
    using s by (simp_all add: second_def)
qed

definition plain_request :: "demo \<Rightarrow> webhook_delivery \<Rightarrow> gotime \<Rightarrow> bool" where
  "plain_request dm d t \<longleftrightarrow> wd_target d = dm_url dm \<and> length (wd_payload d) \<le> max_sink_body \<and>
     62135596801 * second \<le> t \<and> t < 315537897600 * second"

lemma sink_answers:
  assumes plain: "plain_request dm d (p_clock w)" and secret: "dm_secret dm = ww_secret (dm_worker dm)"
    and travel: "int (dm_travel dm) \<le> 4 * minute" and left: "0 \<le> sk_remaining s" "in_int64 (sk_remaining s)"
  shows "sink_answer dm w s (outbound_request_of (dm_worker dm) d (p_clock w)) =
    (if 0 < sk_remaining s then (Outage, s\<lparr>sk_remaining := sk_remaining s - 1\<rparr>)
     else let k = \<lparr>rd_id = wd_id d, rd_event_type = wd_event_type d, rd_payload = wd_payload d, rd_at = p_clock w + int (dm_travel dm)\<rparr>
       in (Kept k, s\<lparr>sk_deliveries := store_received k (sk_deliveries s)\<rparr>))"
proof -
  let ?wk = "dm_worker dm" and ?now = "p_clock w + int (dm_travel dm)"
  let ?r = "sink_request_of (outbound_request_of ?wk d (p_clock w))"
  note P = plain [unfolded plain_request_def]
  note U = unix_second [of "p_clock w"]
  have r: "sr_body ?r = Some (wd_payload d)" "sr_id ?r = wd_id d" "sr_event ?r = wd_event_type d"
    "sr_signature ?r = sign_outbound_webhook (ww_mac ?wk) (wd_payload d) (ww_secret ?wk) (p_clock w)"
    using P by (simp_all add: sink_request_of_def outbound_request_of_def outbound_header_def)
  have "verify_outbound_webhook (ww_mac ?wk) (sr_signature ?r) (wd_payload d) (dm_secret dm) ?now (5 * minute) = None"
    unfolding r(4) secret using U P travel
    by (subst signed_accepted) (simp_all add: go_duration_defs int64_max_def)
  then have "sink_admit (ww_mac ?wk) (dm_secret dm) ?now ?r = Inr (wd_payload d)"
    using P r(1) by (simp add: sink_admit_def)
  moreover have "wrap64 (sk_remaining s - 1) = sk_remaining s - 1" if "0 < sk_remaining s"
    using that left(2) by (intro wrap64_id) (auto simp: in_int64_def int64_min_def)
  ultimately show ?thesis using r by (simp add: sink_answer_def sink_serve_def Let_def)
qed

section \<open>A batch\<close>

text \<open>Nobody else uses the database, no call fails, and the database has the clock of the worker.\<close>

definition calm :: "pworld \<Rightarrow> bool" where
  "calm w \<longleftrightarrow> alone w \<and> p_db_time w = (\<lambda>t. t) \<and> p_locked w = (\<lambda>_ _. False)"

lemma calm_env: "calm w \<Longrightarrow> same_env w w' \<Longrightarrow> calm w'"
  by (simp add: calm_def alone_def same_env_def)

lemma statement_clock: "statement held f w = (r, w') \<Longrightarrow> p_clock w \<le> p_clock w'"
  by (auto simp: statement_def external_call_def Let_def split: prod.splits option.splits)

lemma settle_clock: "settle_delivery wk d outcome w = (res, w') \<Longrightarrow> p_clock w \<le> p_clock w'"
  by (auto simp: settle_delivery_def worker_succeed_def worker_fail_def repo_mark_succeeded_def repo_mark_failed_def
      update_one_def record_delivery_def split: prod.splits option.splits sum.splits if_splits dest!: statement_clock)

lemma send_clock: "send_delivery cl wk d w = (res, w') \<Longrightarrow> p_clock w \<le> p_clock w'"
  by (auto simp: send_delivery_def split: option.splits)

lemma task_clock: "task_step cl wk t w = (t', w') \<Longrightarrow> p_clock w \<le> p_clock w'"
  by (cases t) (auto split: prod.splits dest: settle_clock send_clock)

fun task_failed :: "task \<Rightarrow> bool" where
  "task_failed (To_settle d (Some e)) \<longleftrightarrow> True"
| "task_failed (Settled d (Some e)) \<longleftrightarrow> True"
| "task_failed _ \<longleftrightarrow> False"

fun task_reached :: "task \<Rightarrow> webhook_delivery list" where
  "task_reached (To_settle d None) = [d]"
| "task_reached (Settled d None) = [d]"
| "task_reached _ = []"

definition note_of :: "webhook_delivery \<Rightarrow> string \<times> string \<times> string" where
  "note_of d = (wd_id d, wd_event_type d, wd_payload d)"

definition note_received :: "received_delivery \<Rightarrow> string \<times> string \<times> string" where
  "note_received k = (rd_id k, rd_event_type k, rd_payload k)"

definition deliverable :: "demo \<Rightarrow> webhook_delivery \<Rightarrow> bool" where
  "deliverable dm d \<longleftrightarrow> wd_target d = dm_url dm \<and> length (wd_payload d) \<le> max_sink_body"

definition good_demo :: "demo \<Rightarrow> bool" where
  "good_demo dm \<longleftrightarrow> dm_secret dm = ww_secret (dm_worker dm) \<and> int (dm_travel dm) \<le> 4 * minute"

text \<open>
  Between two steps of a batch: \<open>R\<close> failures were left to the sink before it, and \<open>M\<close> was what it had kept.
  Every failure since was one of them, and it keeps exactly what reached it.
\<close>

definition demo_ok :: "demo \<Rightarrow> int \<Rightarrow> (string \<times> string \<times> string) multiset \<Rightarrow> task list \<Rightarrow> pworld \<Rightarrow> sink \<Rightarrow> bool" where
  "demo_ok dm R M ts w s \<longleftrightarrow> calm w \<and> tasks_ok ts w \<and> 0 \<le> sk_remaining s \<and>
     sk_remaining s + int (length (filter task_failed ts)) = R \<and>
     mset (map note_received (sk_deliveries s)) = M + mset (map note_of (concat (map task_reached ts))) \<and>
     (\<forall>t \<in> set ts. deliverable dm (task_delivery t)) \<and>
     (\<forall>x \<in> set (delivery_rows (p_db w)). wd_next_attempt x \<le> p_clock w + minute)"

lemma backoff_at_most: "webhook_backoff n \<le> minute"
  using backoff_table [of n] by (auto simp: minute_def second_def)

lemma reached_length: "length (concat (map task_reached ts)) \<le> length ts"
proof (induction ts)
  case (Cons t ts)
  then show ?case by (cases t rule: task_reached.cases) simp_all
qed simp

lemma sent_to_sink:
  assumes good: "good_demo dm" and d: "plain_request dm d (p_clock w)" and left: "0 \<le> sk_remaining s" "in_int64 (sk_remaining s)"
    and step: "demo_step dm (To_send d) (w, s) = (t, w', s')"
  shows "if 0 < sk_remaining s then (\<exists>e. t = To_settle d (Some e)) \<and> s' = s\<lparr>sk_remaining := sk_remaining s - 1\<rparr>
    else t = To_settle d None \<and> (\<exists>k. note_received k = note_of d \<and> s' = s\<lparr>sk_deliveries := store_received k (sk_deliveries s)\<rparr>)"
proof -
  note A = sink_answers [OF d _ _ left] good [unfolded good_demo_def]
  have url: "wd_target d = dm_url dm" using d by (simp add: plain_request_def)
  have target: "ob_target (outbound_request_of (dm_worker dm) d (p_clock w)) = dm_url dm" using url by (simp add: outbound_request_of_def)
  note shape = demo_step_def send_delivery_def sink_client_def judge_reply_def Let_def
  show ?thesis
  proof (cases "0 < sk_remaining s")
    case True
    then show ?thesis using step A url target by (auto simp: shape)
  next
    case False
    let ?k = "\<lparr>rd_id = wd_id d, rd_event_type = wd_event_type d, rd_payload = wd_payload d, rd_at = p_clock w + int (dm_travel dm)\<rparr>"
    have "t = To_settle d None" "s' = s\<lparr>sk_deliveries := store_received ?k (sk_deliveries s)\<rparr>"
      using False step A url target by (auto simp: shape)
    moreover have "note_received ?k = note_of d" by (simp add: note_received_def note_of_def)
    ultimately show ?thesis using False by auto
  qed
qed

lemma demo_step_ok:
  assumes ok: "demo_ok dm R M ts w s" and good: "good_demo dm" and i: "i < length ts"
    and step: "demo_step dm (ts ! i) (w, s) = (t, w', s')" and fits: "R \<le> int64_max" "size M + length ts \<le> 50"
    and time: "62135596801 * second \<le> p_clock w" "p_clock w' < 315537897600 * second"
  shows "demo_ok dm R M (ts[i := t]) w' s'" and "task_delivery t = task_delivery (ts ! i)" and "p_clock w \<le> p_clock w'"
proof -
  have ts: "task_step (sink_client dm w s) (dm_worker dm) (ts ! i) w = (t, w')"
    using step by (auto simp: demo_step_def split: prod.splits)
  show clock: "p_clock w \<le> p_clock w'" using task_clock [OF ts] .
  have env: "calm w" "tasks_ok ts w" "0 \<le> sk_remaining s" "sk_remaining s + int (length (filter task_failed ts)) = R"
    "mset (map note_received (sk_deliveries s)) = M + mset (map note_of (concat (map task_reached ts)))"
    "\<forall>t \<in> set ts. deliverable dm (task_delivery t)" "\<forall>x \<in> set (delivery_rows (p_db w)). wd_next_attempt x \<le> p_clock w + minute"
    using ok by (simp_all add: demo_ok_def)
  note T = task_step_ok [OF env(2) i ts]
  show same: "task_delivery t = task_delivery (ts ! i)" using T(2) .
  have calm: "calm w'" using task_calls [OF ts] calm_env [OF env(1)] by (simp add: calls_step_def)
  have deliver: "\<forall>x \<in> set (ts[i := t]). deliverable dm (task_delivery x)"
    using env(6) same i set_update_subset_insert [of ts i t] by auto
  note count = filter_update [OF i, of task_failed t]
  note reach = concat_update [OF i, of task_reached t]
  have told: "mset (map note_of (concat (map task_reached (ts[i := t])))) + mset (map note_of (task_reached (ts ! i))) =
      mset (map note_of (concat (map task_reached ts))) + mset (map note_of (task_reached t))"
    using arg_cong [OF reach, of "image_mset note_of"] by simp
  have build: "demo_ok dm R M (ts[i := t]) w' s'"
    if "0 \<le> sk_remaining s'" "sk_remaining s' + int (length (filter task_failed (ts[i := t]))) = R"
      "mset (map note_received (sk_deliveries s')) = M + mset (map note_of (concat (map task_reached (ts[i := t]))))"
      "\<forall>x \<in> set (delivery_rows (p_db w')). wd_next_attempt x \<le> p_clock w' + minute"
    using that calm T(1) deliver by (simp add: demo_ok_def)
  show "demo_ok dm R M (ts[i := t]) w' s'"
  proof (cases "ts ! i")
    case (To_send d)
    have d: "deliverable dm d" using env(6) i To_send nth_mem [of i ts] by fastforce
    then have plain: "plain_request dm d (p_clock w)" using time clock by (simp add: plain_request_def deliverable_def)
    have fit: "in_int64 (sk_remaining s)" using env(3,4) fits(1) by (simp add: in_int64_def int64_min_def)
    have rows: "delivery_rows (p_db w') = delivery_rows (p_db w)"
      using ts To_send send_alone(1) by (auto split: prod.splits)
    have soon: "\<forall>x \<in> set (delivery_rows (p_db w')). wd_next_attempt x \<le> p_clock w' + minute"
      using env(7) clock unfolding rows by (metis add_mono_thms_linordered_semiring(3) order_trans)
    note S = sent_to_sink [OF good plain env(3) fit step [unfolded To_send]]
    show ?thesis
    proof (cases "0 < sk_remaining s")
      case True
      then obtain e where "t = To_settle d (Some e)" "s' = s\<lparr>sk_remaining := sk_remaining s - 1\<rparr>" using S by auto
      then show ?thesis using True env(4,5) count told soon To_send by (intro build) simp_all
    next
      case False
      then obtain k where k: "t = To_settle d None" "note_received k = note_of d"
        "s' = s\<lparr>sk_deliveries := store_received k (sk_deliveries s)\<rparr>" using S by auto
      have "Suc (length (concat (map task_reached ts))) \<le> length ts"
        using arg_cong [OF reach, of size] reached_length [of "ts[i := t]"] To_send k(1) by simp
      moreover have "length (sk_deliveries s) = size M + length (concat (map task_reached ts))"
        using arg_cong [OF env(5), of size] by simp
      ultimately have "store_received k (sk_deliveries s) = sk_deliveries s @ [k]"
        using fits(2) by (simp add: store_received_def)
      then show ?thesis using k False env(3-5) count told soon To_send by (intro build) simp_all
    qed
  next
    case (To_settle d outcome)
    have s': "s' = s" using step To_settle by (auto simp: demo_step_def split: prod.splits)
    obtain res where r: "settle_delivery (dm_worker dm) d outcome w = (res, w')" "t = Settled d res"
      using ts To_settle by (auto split: prod.splits)
    have tr: "task_row (delivery_rows (p_db w)) (To_settle d outcome)" using env(2) i To_settle nth_mem [of i ts] by (force simp: tasks_ok_def)
    have env2: "alone w" "distinct (map wd_id (delivery_rows (p_db w)))" using env(2) by (simp_all add: tasks_ok_def)
    have row: "d \<in> set (delivery_rows (p_db w))" "wd_status d = delivery_processing" using tr by (simp_all add: task_row_def)
    note E = settle_exact [OF env2 row r(1)]
    have now: "db_now w' = p_clock w'" using calm by (simp add: calm_def db_now_def)
    have soon: "wd_next_attempt x \<le> p_clock w' + minute" if x: "x \<in> set (delivery_rows (p_db w'))" for x
    proof -
      obtain y where y: "y \<in> set (delivery_rows (p_db w))" "x = (if y = d then settled_row d outcome (p_clock w') else y)"
        using x E unfolding now by (auto simp: settle_rows_def)
      have "wd_next_attempt y \<le> p_clock w' + minute" using env(7) y(1) clock by force
      then show ?thesis using y(2) backoff_at_most [of "wd_attempts d"] by (auto simp: settled_row_def split: option.splits)
    qed
    have "task_failed t = task_failed (ts ! i)" "task_reached t = task_reached (ts ! i)"
      using E r(2) To_settle by (cases outcome; simp)+
    then show ?thesis using s' env(3-5) count told soon by (intro build) (auto split: if_splits)
  next
    case (Settled d res)
    then have "t = ts ! i" "w' = w" using ts by simp_all
    moreover have "s' = s" using step [unfolded Settled] by (simp add: demo_step_def)
    ultimately show ?thesis using ok i by simp
  qed
qed

text \<open>The rows of other deliveries stay as they are.\<close>

definition rows_apart :: "string set \<Rightarrow> pworld \<Rightarrow> pworld \<Rightarrow> bool" where
  "rows_apart ids w w' \<longleftrightarrow> map wd_id (delivery_rows (p_db w')) = map wd_id (delivery_rows (p_db w)) \<and>
     (\<forall>x \<in> set (delivery_rows (p_db w)). wd_id x \<notin> ids \<longrightarrow> x \<in> set (delivery_rows (p_db w')))"

lemma rows_apart_trans: "rows_apart ids a b \<Longrightarrow> rows_apart ids b c \<Longrightarrow> rows_apart ids a c"
  by (simp add: rows_apart_def)

lemma task_rows_apart:
  assumes ok: "tasks_ok ts w" and i: "i < length ts" and s: "task_step cl wk (ts ! i) w = (t, w')"
  shows "rows_apart (set (map (wd_id \<circ> task_delivery) ts)) w w'"
proof (cases "ts ! i")
  case (To_send d)
  then have "p_db w' = p_db w" using s send_alone(1) by (auto split: prod.splits)
  then show ?thesis by (simp add: rows_apart_def)
next
  case (To_settle d outcome)
  obtain res where r: "settle_delivery wk d outcome w = (res, w')" using s To_settle by (auto split: prod.splits)
  have "task_row (delivery_rows (p_db w)) (To_settle d outcome)" using ok i To_settle nth_mem [of i ts] by (force simp: tasks_ok_def)
  then have row: "d \<in> set (delivery_rows (p_db w))" "wd_status d = delivery_processing" by (simp_all add: task_row_def)
  have env: "alone w" "distinct (map wd_id (delivery_rows (p_db w)))" using ok by (simp_all add: tasks_ok_def)
  note E = settle_exact [OF env row r]
  have "wd_id d \<in> set (map (wd_id \<circ> task_delivery) ts)" using To_settle nth_mem [OF i] by (force simp: image_iff)
  then show ?thesis using E by (auto simp: rows_apart_def settle_rows_def image_iff intro!: bexI)
next
  case (Settled d res)
  then show ?thesis using s by (simp add: rows_apart_def)
qed

lemma demo_tasks_clock: "demo_tasks dm schedule ts (w, s) = (ts', w', s') \<Longrightarrow> p_clock w \<le> p_clock w'"
proof (induction schedule arbitrary: ts w s)
  case (Cons i schedule)
  obtain t w1 s1 where st: "demo_step dm (ts ! i) (w, s) = (t, w1, s1)" by (rule prod_cases3)
  have "p_clock w \<le> p_clock w1" using st by (auto simp: demo_step_def dest: task_clock split: prod.splits)
  then show ?case using Cons.IH [of "ts[i := t]" w1 s1] Cons.IH [of ts w s] Cons.prems st by (auto split: if_splits)
qed simp

lemma demo_tasks_ok:
  "demo_ok dm R M ts w s \<Longrightarrow> good_demo dm \<Longrightarrow> R \<le> int64_max \<Longrightarrow> size M + length ts \<le> 50 \<Longrightarrow> 62135596801 * second \<le> p_clock w \<Longrightarrow>
   demo_tasks dm schedule ts (w, s) = (ts', w', s') \<Longrightarrow> p_clock w' < 315537897600 * second \<Longrightarrow>
   demo_ok dm R M ts' w' s' \<and> map task_delivery ts' = map task_delivery ts \<and>
   rows_apart (set (map (wd_id \<circ> task_delivery) ts)) w w'"
proof (induction schedule arbitrary: ts w s)
  case Nil
  then show ?case by (simp add: rows_apart_def)
next
  case (Cons i schedule)
  show ?case
  proof (cases "i < length ts")
    case False
    then show ?thesis using Cons by simp
  next
    case True
    obtain t w1 s1 where st: "demo_step dm (ts ! i) (w, s) = (t, w1, s1)" by (rule prod_cases3)
    then have rest: "demo_tasks dm schedule (ts[i := t]) (w1, s1) = (ts', w', s')" using Cons.prems(6) True by simp
    have late: "p_clock w1 < 315537897600 * second" using demo_tasks_clock [OF rest] Cons.prems(7) by simp
    note S = demo_step_ok [OF Cons.prems(1,2) True st Cons.prems(3,4,5) late]
    have ts: "task_step (sink_client dm w s) (dm_worker dm) (ts ! i) w = (t, w1)"
      using st by (auto simp: demo_step_def split: prod.splits)
    have "tasks_ok ts w" using Cons.prems(1) by (simp add: demo_ok_def)
    note A = task_rows_apart [OF this True ts]
    have ds: "map task_delivery (ts[i := t]) = map task_delivery ts"
      using S(2) True by (intro nth_equalityI) (auto simp: nth_list_update)
    then have ids: "map (wd_id \<circ> task_delivery) (ts[i := t]) = map (wd_id \<circ> task_delivery) ts"
      by (simp only: map_map [symmetric])
    have len: "size M + length (ts[i := t]) \<le> 50" and early: "62135596801 * second \<le> p_clock w1" using Cons.prems(4,5) S(3) by simp_all
    from Cons.IH [OF S(1) Cons.prems(2,3) len early rest Cons.prems(7)] ds rows_apart_trans [OF A]
    show ?thesis unfolding ids by simp
  qed
qed

fun task_progress :: "task \<Rightarrow> nat" where
  "task_progress (To_send d) = 0"
| "task_progress (To_settle d outcome) = 1"
| "task_progress (Settled d res) = 2"

lemma task_step_progress: "task_step cl wk t w = (t', w') \<Longrightarrow> task_progress t' = min 2 (Suc (task_progress t))"
  by (cases t) (auto split: prod.splits)

lemma demo_tasks_progress:
  "demo_tasks dm schedule ts ws = (ts', ws') \<Longrightarrow> length ts' = length ts \<and>
   (\<forall>i < length ts. task_progress (ts' ! i) = min 2 (task_progress (ts ! i) + count_list schedule i))"
proof (induction schedule arbitrary: ts ws)
  case Nil
  have "task_progress t \<le> 2" for t by (cases t) simp_all
  then show ?case using Nil by (simp add: min_absorb2)
next
  case (Cons j schedule)
  show ?case
  proof (cases "j < length ts")
    case False
    then show ?thesis using Cons by auto
  next
    case True
    obtain w s where ws: "ws = (w, s)" by (cases ws)
    obtain t w1 s1 where st: "demo_step dm (ts ! j) (w, s) = (t, w1, s1)" by (rule prod_cases3)
    then have "task_step (sink_client dm w s) (dm_worker dm) (ts ! j) w = (t, w1)" by (auto simp: demo_step_def split: prod.splits)
    note P = task_step_progress [OF this]
    have "demo_tasks dm schedule (ts[j := t]) (w1, s1) = (ts', ws')" using Cons.prems True st ws by simp
    from Cons.IH [OF this] have "length ts' = length ts"
      "task_progress (ts' ! i) = min 2 (task_progress (ts[j := t] ! i) + count_list schedule i)" if "i < length ts" for i
      using that by simp_all
    then show ?thesis using P True by (auto simp: nth_list_update)
  qed
qed

lemma fair_batch:
  assumes "\<forall>i < length ds. 2 \<le> count_list schedule i" and "demo_tasks dm schedule (map To_send ds) ws = (ts, ws')"
  shows "list_all is_settled ts"
proof -
  have "is_settled (ts ! i)" if "i < length ts" for i
    using demo_tasks_progress [OF assms(2)] assms(1) that by (cases "ts ! i") (auto simp: min_def split: if_splits)
  then show ?thesis by (simp add: list_all_length)
qed

section \<open>Between two rounds\<close>

abbreviation waiting :: "webhook_delivery \<Rightarrow> bool" where
  "waiting d \<equiv> wd_status d = delivery_pending"

text \<open>A waiting delivery whose next attempt is due; only these are claimed.\<close>

abbreviation due_at :: "gotime \<Rightarrow> webhook_delivery \<Rightarrow> bool" where
  "due_at c d \<equiv> waiting d \<and> wd_next_attempt d \<le> c"

definition resting :: "webhook_delivery \<Rightarrow> bool" where
  "resting d \<longleftrightarrow> wd_status d \<in> {delivery_pending, delivery_delivered, delivery_dead_letter}"

text \<open>
  At most \<open>N\<close> refusals are left, \<open>M\<close> is what the sink has kept together with what still waits, and the
  deliveries \<open>ids\<close> are waiting or delivered. A waiting delivery has more attempts left than the sink has refusals.
\<close>

definition demo_between :: "demo \<Rightarrow> int \<Rightarrow> (string \<times> string \<times> string) multiset \<Rightarrow> string set \<Rightarrow> pworld \<times> sink \<Rightarrow> bool" where
  "demo_between dm N M ids ws \<longleftrightarrow> (case ws of (w, s) \<Rightarrow>
     calm w \<and> distinct (map wd_id (delivery_rows (p_db w))) \<and> 0 \<le> sk_remaining s \<and> sk_remaining s \<le> N \<and>
     62135596801 * second \<le> p_clock w \<and>
     (\<forall>x \<in> set (delivery_rows (p_db w)). resting x \<and> wd_next_attempt x \<le> p_clock w + minute \<and>
        (wd_id x \<in> ids \<longrightarrow> wd_status x \<noteq> delivery_dead_letter) \<and>
        (waiting x \<longrightarrow> deliverable dm x \<and> wd_attempts x + sk_remaining s < wd_max_attempts x)) \<and>
     length (filter waiting (delivery_rows (p_db w))) \<le> 10 \<and> ids \<subseteq> set (map wd_id (delivery_rows (p_db w))) \<and>
     mset (map note_received (sk_deliveries s)) + mset (map note_of (filter waiting (delivery_rows (p_db w)))) = M)"

lemma status_names [simp]:
  "delivery_pending \<noteq> delivery_processing" "delivery_delivered \<noteq> delivery_processing" "delivery_dead_letter \<noteq> delivery_processing"
  "delivery_pending \<noteq> delivery_delivered" "delivery_pending \<noteq> delivery_dead_letter" "delivery_delivered \<noteq> delivery_dead_letter"
  by (simp_all add: delivery_pending_def delivery_processing_def delivery_delivered_def delivery_dead_letter_def)

lemmas status_names_sym [simp] = status_names [symmetric]

lemma claim_shape:
  assumes "calm w" and keys: "distinct (map wd_id (delivery_rows (p_db w)))"
  obtains v hit where "repo_claim_deliveries 10 lease w = (Inr (map (claimed (p_clock v)) (filter hit (delivery_rows (p_db w)))), v)"
    "calm v" "p_clock w \<le> p_clock v"
    "delivery_rows (p_db v) = map (\<lambda>x. if hit x then claimed (p_clock v) x else x) (delivery_rows (p_db w))"
    "hit = (\<lambda>d. wd_id d \<in> set (map wd_id (claim_candidates (p_clock v) lease (\<lambda>_. False) 10 (p_db w))))"
    "length (filter hit (delivery_rows (p_db w))) \<le> 10" "tasks_ok (map To_send (map (claimed (p_clock v)) (filter hit (delivery_rows (p_db w))))) v"
proof -
  let ?v = "w\<lparr>p_clock := p_clock w + int (p_delays w (p_calls w))\<rparr>" and ?rows = "delivery_rows (p_db w)"
  have env: "p_others w = (\<lambda>_ _ st. st)" "p_faults w = (\<lambda>_. None)" "p_db_time w = (\<lambda>t. t)" "p_locked w = (\<lambda>_ _. False)"
    using assms(1) by (simp_all add: calm_def alone_def)
  let ?ids = "map wd_id (claim_candidates (p_clock ?v) lease (\<lambda>_. False) 10 (p_db w))"
  let ?hit = "\<lambda>d. wd_id d \<in> set ?ids"
  let ?rows' = "map (\<lambda>x. if ?hit x then claimed (p_clock ?v) x else x) ?rows" and ?ds = "map (claimed (p_clock ?v)) (filter ?hit ?rows)"
  let ?w' = "?v\<lparr>p_calls := Suc (p_calls w), p_db := (p_db w)\<lparr>delivery_rows := ?rows'\<rparr>\<rparr>"
  have now: "db_now ?v = p_clock ?v" by (simp add: db_now_def env)
  have "claim_statement lease (clamp_limit 100 10 10) ?v (p_db w) = (Inr ?ds, (p_db w)\<lparr>delivery_rows := ?rows'\<rparr>)"
    unfolding claim_statement_def now by (simp add: clamp_limit_def update_where_def env Let_def)
  then have run: "repo_claim_deliveries 10 lease w = (Inr ?ds, ?w')"
    by (simp add: repo_claim_deliveries_def statement_def external_call_def wrap_error_def env Let_def)
  have found: "distinct (map wd_id (filter ?hit ?rows))" using keys by (rule distinct_map_filter)
  have "length (filter ?hit ?rows) = card (set (map wd_id (filter ?hit ?rows)))"
    using distinct_card [OF found] by simp
  also have "\<dots> \<le> card (set ?ids)" by (intro card_mono) auto
  also have "\<dots> \<le> length ?ids" by (rule card_length)
  also have "\<dots> \<le> 10" by (simp add: claim_candidates_def)
  finally have few: "length (filter ?hit ?rows) \<le> 10" .
  have "map (wd_id \<circ> task_delivery) (map To_send ?ds) = map wd_id (filter ?hit ?rows)" by (simp add: claimed_def)
  then have "distinct (map (wd_id \<circ> task_delivery) (map To_send ?ds))" using found by (simp only:)
  moreover have "\<forall>t \<in> set (map To_send ?ds). task_row ?rows' t" by (auto simp: task_row_def claimed_def)
  moreover have "map wd_id ?rows' = map wd_id ?rows" by (simp add: claimed_def)
  moreover have "delivery_rows (p_db ?w') = ?rows'" "alone ?w'" using env by (simp_all add: alone_def)
  ultimately have "tasks_ok (map To_send ?ds) ?w'" unfolding tasks_ok_def using keys by (simp only:)
  then show thesis using that [of ?w' ?hit] run few assms(1) by (simp add: calm_def alone_def)
qed

lemma filter_less: "length (filter (\<lambda>x. P x \<and> Q x) xs) \<le> length (filter P xs)"
  by (induction xs) simp_all

lemma calm_claim:
  assumes "calm w" and keys: "distinct (map wd_id (delivery_rows (p_db w)))"
    and rows: "\<forall>x \<in> set (delivery_rows (p_db w)). resting x"
    and few: "length (filter waiting (delivery_rows (p_db w))) \<le> 10"
  obtains v where "repo_claim_deliveries 10 lease w = (Inr (map (claimed (p_clock v)) (filter (due_at (p_clock v)) (delivery_rows (p_db w)))), v)"
    "calm v" "p_clock w \<le> p_clock v"
    "delivery_rows (p_db v) = map (\<lambda>x. if due_at (p_clock v) x then claimed (p_clock v) x else x) (delivery_rows (p_db w))"
    "tasks_ok (map To_send (map (claimed (p_clock v)) (filter (due_at (p_clock v)) (delivery_rows (p_db w))))) v"
proof -
  let ?rows = "delivery_rows (p_db w)"
  obtain v hit where v: "repo_claim_deliveries 10 lease w = (Inr (map (claimed (p_clock v)) (filter hit ?rows)), v)"
    "calm v" "p_clock w \<le> p_clock v" "delivery_rows (p_db v) = map (\<lambda>x. if hit x then claimed (p_clock v) x else x) ?rows"
    "hit = (\<lambda>d. wd_id d \<in> set (map wd_id (claim_candidates (p_clock v) lease (\<lambda>_. False) 10 (p_db w))))"
    "tasks_ok (map To_send (map (claimed (p_clock v)) (filter hit ?rows))) v"
    by (rule claim_shape [OF assms(1) keys])
  let ?due = "due_at (p_clock v)"
  have due: "filter (\<lambda>d. delivery_due (p_clock v) lease d) ?rows = filter ?due ?rows"
    using rows by (intro filter_cong) (auto simp: delivery_due_def resting_def)
  have "length (filter ?due ?rows) \<le> length (filter waiting ?rows)"
    by (rule filter_less)
  then have cands: "set (claim_candidates (p_clock v) lease (\<lambda>_. False) 10 (p_db w)) = set (filter ?due ?rows)"
    using few by (simp add: claim_candidates_def due)
  have inj: "inj_on wd_id (set ?rows)" using keys by (simp add: distinct_map)
  have hit: "hit d \<longleftrightarrow> ?due d" if d: "d \<in> set ?rows" for d
  proof
    assume "hit d"
    then obtain e where e: "e \<in> set ?rows" "?due e" "wd_id d = wd_id e" unfolding v(5) set_map cands by auto
    with inj_onD [OF inj e(3) d e(1)] show "?due d" by simp
  qed (use d in \<open>auto simp: v(5) cands\<close>)
  have same: "filter hit ?rows = filter ?due ?rows" using hit by (intro filter_cong) auto
  have "delivery_rows (p_db v) = map (\<lambda>x. if ?due x then claimed (p_clock v) x else x) ?rows"
    unfolding v(4) using hit by (intro map_cong) auto
  then show thesis using that v(1,2,3,6) unfolding same by blast
qed

text \<open>What became of a row in a round: it was not due and stayed, or one of the tasks settled it.\<close>

definition round_done :: "gotime \<Rightarrow> webhook_delivery list \<Rightarrow> webhook_delivery list \<Rightarrow> task list \<Rightarrow> bool" where
  "round_done c rows rows' ts \<longleftrightarrow> distinct (map wd_id rows') \<and> map wd_id rows' = map wd_id rows \<and>
     list_all is_settled ts \<and> (\<forall>t \<in> set ts. task_row rows' t) \<and> map task_delivery ts = map (claimed c) (filter (due_at c) rows) \<and>
     (\<forall>x \<in> set rows. \<not> due_at c x \<longrightarrow> x \<in> set rows')"

lemma round_row:
  assumes "round_done c rows rows' ts" and y: "y \<in> set rows'"
  obtains (kept) "y \<in> set rows" "\<not> due_at c y"
    | (tried) x res now where "x \<in> set rows" "due_at c x" "Settled (claimed c x) res \<in> set ts" "y = settled_row (claimed c x) res now"
proof -
  have keys: "distinct (map wd_id rows')" "map wd_id rows' = map wd_id rows"
    and tasks: "list_all is_settled ts" "\<forall>t \<in> set ts. task_row rows' t" "map task_delivery ts = map (claimed c) (filter (due_at c) rows)"
    and apart: "\<forall>x \<in> set rows. \<not> due_at c x \<longrightarrow> x \<in> set rows'"
    using assms(1) unfolding round_done_def by blast+
  have "wd_id y \<in> set (map wd_id rows)" using y by (simp flip: keys(2))
  then obtain x where x: "x \<in> set rows" "wd_id x = wd_id y" by auto
  have inj: "inj_on wd_id (set rows')" using keys(1) by (simp add: distinct_map)
  have same: "z = y" if "z \<in> set rows'" "wd_id z = wd_id y" for z
    by (rule inj_onD [OF inj that(2,1) y])
  show thesis
  proof (cases "due_at c x")
    case False
    then have "x = y" using apart x same by blast
    then show thesis using kept x(1) False by blast
  next
    case True
    then have "claimed c x \<in> set (map task_delivery ts)" using x(1) unfolding tasks(3) by simp
    then obtain t where t: "t \<in> set ts" "task_delivery t = claimed c x" by auto
    have "is_settled t" using tasks(1) t(1) by (simp add: list_all_iff)
    then obtain res where r: "t = Settled (claimed c x) res" using t(2) by (cases t) simp_all
    then obtain now where n: "settled_row (claimed c x) res now \<in> set rows'"
      using bspec [OF tasks(2) t(1)] by (auto simp: task_row_def)
    have "settled_row (claimed c x) res now = y" using same [OF n] x(2) by (simp add: claimed_def)
    then show thesis using tried [of x res now] x(1) True r t(1) by simp
  qed
qed

lemma reached_or_failed:
  "list_all is_settled ts \<Longrightarrow> mset (map note_of (concat (map task_reached ts))) +
     mset (map (note_of \<circ> task_delivery) (filter task_failed ts)) = mset (map (note_of \<circ> task_delivery) ts)"
proof (induction ts)
  case (Cons t ts)
  then show ?case by (cases t rule: task_reached.cases) (simp_all add: ac_simps)
qed simp

lemma note_of_claimed [simp]: "note_of (claimed c d) = note_of d" "note_of (settled_row d res now) = note_of d"
  by (simp_all add: note_of_def claimed_def settled_row_def split: option.splits)

lemma notes_distinct: "distinct (map wd_id ds) \<Longrightarrow> distinct (map note_of ds)"
  by (auto simp: distinct_map inj_on_def note_of_def)

text \<open>What still waits after a round: the attempts that failed, and what was not due.\<close>

abbreviation later_due :: "gotime \<Rightarrow> webhook_delivery \<Rightarrow> bool" where
  "later_due c d \<equiv> waiting d \<and> \<not> wd_next_attempt d \<le> c"

lemma waiting_split:
  "mset (map f (filter waiting rows)) = mset (map f (filter (due_at c) rows)) + mset (map f (filter (later_due c) rows))"
  by (induction rows) simp_all

lemma note_inj: "distinct (map wd_id rows) \<Longrightarrow> x \<in> set rows \<Longrightarrow> y \<in> set rows \<Longrightarrow> note_of x = note_of y \<Longrightarrow> x = y"
  unfolding note_of_def distinct_map by (blast dest: inj_onD)

lemma round_failed:
  assumes r: "round_done c rows rows' ts"
    and more: "\<And>x e. x \<in> set rows \<Longrightarrow> waiting x \<Longrightarrow> Settled (claimed c x) (Some e) \<in> set ts \<Longrightarrow> wd_attempts x + 1 < wd_max_attempts x"
  shows "mset (map note_of (filter waiting rows')) =
    mset (map (note_of \<circ> task_delivery) (filter task_failed ts)) + mset (map note_of (filter (later_due c) rows))"
proof -
  have R: "distinct (map wd_id rows')" "map wd_id rows' = map wd_id rows" "list_all is_settled ts"
    "\<forall>t \<in> set ts. task_row rows' t" "map task_delivery ts = map (claimed c) (filter (due_at c) rows)"
    "\<forall>x \<in> set rows. \<not> due_at c x \<longrightarrow> x \<in> set rows'"
    using r unfolding round_done_def by blast+
  have keys: "distinct (map wd_id rows)" using R(1,2) by simp
  let ?failed = "map (note_of \<circ> task_delivery) (filter task_failed ts)" and ?rest = "map note_of (filter (later_due c) rows)"
  have told: "map (note_of \<circ> task_delivery) ts = map note_of (filter (due_at c) rows)"
    using arg_cong [OF R(5), of "map note_of"] by (simp add: comp_def)
  have "distinct (map note_of (filter (due_at c) rows))"
    using keys by (intro notes_distinct distinct_map_filter)
  then have "distinct ?failed" unfolding told [symmetric] by (rule distinct_map_filter)
  moreover have "distinct ?rest" using keys by (intro notes_distinct distinct_map_filter)
  moreover have "set ?failed \<inter> set ?rest = {}"
  proof -
    have "set ?failed \<subseteq> set (map (note_of \<circ> task_delivery) ts)" by auto
    then have due: "set ?failed \<subseteq> note_of ` set (filter (due_at c) rows)" unfolding told set_map .
    have "n \<notin> set ?rest" if n: "n \<in> set ?failed" for n
    proof
      assume "n \<in> set ?rest"
      then obtain y where y: "y \<in> set rows" "later_due c y" "n = note_of y" by auto
      obtain x where x: "x \<in> set rows" "due_at c x" "n = note_of x" using subsetD [OF due n] by auto
      have "x = y" using note_inj [OF keys x(1) y(1)] x(3) y(3) by simp
      with x(2) y(2) show False by simp
    qed
    then show ?thesis by blast
  qed
  ultimately have d: "distinct (?failed @ ?rest)" by simp
  have d': "distinct (map note_of (filter waiting rows'))" using R(1) by (intro notes_distinct distinct_map_filter)
  have below: "note_of y \<in> set (?failed @ ?rest)" if y: "y \<in> set rows'" "waiting y" for y
    using r y(1)
  proof (cases rule: round_row)
    case kept
    then show ?thesis using y(2) by auto
  next
    case (tried x res now)
    then have "res \<noteq> None" using y(2) by (cases res) (simp_all add: settled_row_def)
    then have "task_failed (Settled (claimed c x) res)" by auto
    then show ?thesis using tried(3,4) by (force simp: image_iff)
  qed
  have again: "\<exists>y \<in> set rows'. waiting y \<and> note_of y = note_of (task_delivery t)" if t: "t \<in> set ts" "task_failed t" for t
  proof -
    have "is_settled t" using R(3) t(1) by (simp add: list_all_iff)
    then obtain d e where t': "t = Settled d (Some e)" using t(2) by (cases t rule: task_failed.cases) simp_all
    have "task_delivery t \<in> set (map task_delivery ts)" using t(1) by simp
    then obtain x where x: "x \<in> set rows" "waiting x" "d = claimed c x" unfolding R(5) t' by auto
    obtain now where n: "settled_row d (Some e) now \<in> set rows'"
      using bspec [OF R(4) t(1)] t' by (auto simp: task_row_def)
    have "waiting (settled_row d (Some e) now)" using more [of x e] x t(1) t' by (simp add: settled_row_def claimed_def)
    then show ?thesis using n t' by (intro bexI [of _ "settled_row d (Some e) now"]) simp_all
  qed
  have "set ?failed \<subseteq> note_of ` set (filter waiting rows')"
  proof
    fix n
    assume "n \<in> set ?failed"
    then obtain t where t: "t \<in> set ts" "task_failed t" "n = note_of (task_delivery t)" by auto
    from again [OF t(1,2)] obtain y where "y \<in> set rows'" "waiting y" "note_of y = n" unfolding t(3) by blast
    then show "n \<in> note_of ` set (filter waiting rows')" by auto
  qed
  moreover have "set ?rest \<subseteq> note_of ` set (filter waiting rows')" using R(6) by auto
  ultimately have "set (?failed @ ?rest) \<subseteq> note_of ` set (filter waiting rows')" by (simp only: set_append Un_subset_iff simp_thms)
  moreover have "note_of ` set (filter waiting rows') \<subseteq> set (?failed @ ?rest)" by (intro image_subsetI below) simp_all
  ultimately have "set (map note_of (filter waiting rows')) = set (?failed @ ?rest)"
    unfolding set_map by (intro equalityI)
  then have "mset (map note_of (filter waiting rows')) = mset (?failed @ ?rest)"
    using set_eq_iff_mset_eq_distinct [OF d' d] by blast
  then show ?thesis by (simp only: mset_append)
qed

lemma demo_betweenD:
  assumes "demo_between dm N M ids (w, s)"
  shows "calm w" "distinct (map wd_id (delivery_rows (p_db w)))" "0 \<le> sk_remaining s" "sk_remaining s \<le> N"
    "62135596801 * second \<le> p_clock w"
    "\<forall>x \<in> set (delivery_rows (p_db w)). resting x \<and> wd_next_attempt x \<le> p_clock w + minute \<and>
        (wd_id x \<in> ids \<longrightarrow> wd_status x \<noteq> delivery_dead_letter) \<and>
        (waiting x \<longrightarrow> deliverable dm x \<and> wd_attempts x + sk_remaining s < wd_max_attempts x)"
    "length (filter waiting (delivery_rows (p_db w))) \<le> 10" "ids \<subseteq> set (map wd_id (delivery_rows (p_db w)))"
    "mset (map note_received (sk_deliveries s)) + mset (map note_of (filter waiting (delivery_rows (p_db w)))) = M"
  using assms unfolding demo_between_def by (blast+ | simp)+

text \<open>The tasks after the claim.\<close>

lemma demo_start:
  assumes b: "demo_between dm N M ids (w, s)" and few: "size M \<le> 50"
  obtains v where "repo_claim_deliveries 10 lease w = (Inr (map (claimed (p_clock v)) (filter (due_at (p_clock v)) (delivery_rows (p_db w)))), v)"
    "p_clock w \<le> p_clock v"
    "delivery_rows (p_db v) = map (\<lambda>x. if due_at (p_clock v) x then claimed (p_clock v) x else x) (delivery_rows (p_db w))"
    "demo_ok dm (sk_remaining s) (mset (map note_received (sk_deliveries s)))
       (map To_send (map (claimed (p_clock v)) (filter (due_at (p_clock v)) (delivery_rows (p_db w))))) v s"
proof -
  let ?rows = "delivery_rows (p_db w)"
  note B = demo_betweenD [OF b]
  have "\<forall>x \<in> set ?rows. resting x" using B(6) by blast
  from calm_claim [OF B(1,2) this B(7)] obtain v where
    v: "repo_claim_deliveries 10 lease w = (Inr (map (claimed (p_clock v)) (filter (due_at (p_clock v)) ?rows)), v)" "calm v" "p_clock w \<le> p_clock v"
    "delivery_rows (p_db v) = map (\<lambda>x. if due_at (p_clock v) x then claimed (p_clock v) x else x) ?rows"
    "tasks_ok (map To_send (map (claimed (p_clock v)) (filter (due_at (p_clock v)) ?rows))) v" .
  let ?ts = "map To_send (map (claimed (p_clock v)) (filter (due_at (p_clock v)) ?rows))"
  have soon: "\<forall>x \<in> set (delivery_rows (p_db v)). wd_next_attempt x \<le> p_clock v + minute"
    using B(6) v(3) unfolding v(4) by (force simp: claimed_def minute_def second_def)
  have "\<forall>t \<in> set ?ts. deliverable dm (task_delivery t)" using B(6) by (auto simp: claimed_def deliverable_def)
  moreover have "filter task_failed ?ts = []" "concat (map task_reached ?ts) = []" by (simp_all add: filter_empty_conv)
  ultimately have "demo_ok dm (sk_remaining s) (mset (map note_received (sk_deliveries s))) ?ts v s"
    using v(2,5) B(3) soon by (simp add: demo_ok_def)
  then show thesis using that v by blast
qed

abbreviation still_waiting :: "pworld \<Rightarrow> nat" where
  "still_waiting w \<equiv> length (filter waiting (delivery_rows (p_db w)))"

text \<open>
  One round, at any time: it attempts what is due. When no attempt fails, only what was not yet due waits;
  otherwise the sink has fewer refusals left, and whatever waits is due within a minute.
\<close>

lemma demo_round:
  assumes b: "demo_between dm N M ids (w, s)" and good: "good_demo dm" and batch: "ww_batch (dm_worker dm) = 10"
    and fits: "N \<le> int64_max" "size M \<le> 50" and fair: "\<forall>i < 10. 2 \<le> count_list schedule i"
  obtains w1 s1 where "demo_batch dm schedule (w, s) = Some (w1, s1)" "p_clock w \<le> p_clock w1"
    "p_clock w1 < 315537897600 * second \<longrightarrow>
       demo_between dm N M ids (w1\<lparr>p_clock := p_clock w1 + int waited\<rparr>, s1) \<and> still_waiting w1 \<le> still_waiting w \<and>
       sk_remaining s1 \<le> sk_remaining s \<and> (\<forall>y \<in> set (delivery_rows (p_db w1)). wd_next_attempt y \<le> p_clock w1 + minute) \<and>
       (sk_remaining s1 = sk_remaining s \<longrightarrow> (\<forall>y \<in> set (delivery_rows (p_db w1)). waiting y \<longrightarrow>
          y \<in> set (delivery_rows (p_db w)) \<and> p_clock w < wd_next_attempt y))"
proof -
  let ?rows = "delivery_rows (p_db w)" and ?M = "mset (map note_received (sk_deliveries s))"
  note B = demo_betweenD [OF b]
  obtain v where v: "repo_claim_deliveries 10 (ww_lease (dm_worker dm)) w = (Inr (map (claimed (p_clock v)) (filter (due_at (p_clock v)) ?rows)), v)"
    "p_clock w \<le> p_clock v" "delivery_rows (p_db v) = map (\<lambda>x. if due_at (p_clock v) x then claimed (p_clock v) x else x) ?rows"
    "demo_ok dm (sk_remaining s) ?M (map To_send (map (claimed (p_clock v)) (filter (due_at (p_clock v)) ?rows))) v s"
    using demo_start [OF b fits(2)] by blast
  let ?c = "p_clock v" and ?ts = "map To_send (map (claimed (p_clock v)) (filter (due_at (p_clock v)) ?rows))"
  obtain ts w1 s1 where run: "demo_tasks dm schedule ?ts (v, s) = (ts, w1, s1)" by (rule prod_cases3)
  have "length (filter (due_at ?c) ?rows) \<le> still_waiting w" by (rule filter_less)
  then have settled: "list_all is_settled ts" using fair B(7) by (intro fair_batch [OF _ run]) simp
  have "demo_batch dm schedule (w, s) = Some (w1, s1)" using v(1) run settled by (simp add: demo_batch_def batch)
  moreover have "p_clock w \<le> p_clock w1" using v(2) demo_tasks_clock [OF run] by simp
  moreover have "demo_between dm N M ids (w1\<lparr>p_clock := p_clock w1 + int waited\<rparr>, s1) \<and> still_waiting w1 \<le> still_waiting w \<and>
      sk_remaining s1 \<le> sk_remaining s \<and> (\<forall>y \<in> set (delivery_rows (p_db w1)). wd_next_attempt y \<le> p_clock w1 + minute) \<and>
      (sk_remaining s1 = sk_remaining s \<longrightarrow> (\<forall>y \<in> set (delivery_rows (p_db w1)). waiting y \<longrightarrow>
          y \<in> set ?rows \<and> p_clock w < wd_next_attempt y))"
    if time: "p_clock w1 < 315537897600 * second"
  proof -
    let ?rows' = "delivery_rows (p_db w1)"
    have "size M = size ?M + still_waiting w" unfolding B(9) [symmetric] by (simp only: size_union size_mset length_map)
    then have len: "size ?M + length ?ts \<le> 50" using fits(2) filter_less [of waiting "\<lambda>d. wd_next_attempt d \<le> ?c" ?rows] by simp
    have early: "62135596801 * second \<le> ?c" "sk_remaining s \<le> int64_max" using B(4,5) v(2) fits(1) by simp_all
    note T = demo_tasks_ok [OF v(4) good early(2) len early(1) run time]
    have ok: "calm w1" "tasks_ok ts w1" "0 \<le> sk_remaining s1" "sk_remaining s1 + int (length (filter task_failed ts)) = sk_remaining s"
      "mset (map note_received (sk_deliveries s1)) = ?M + mset (map note_of (concat (map task_reached ts)))"
      "\<forall>x \<in> set ?rows'. wd_next_attempt x \<le> p_clock w1 + minute" and ds: "map task_delivery ts = map task_delivery ?ts"
      and apart: "rows_apart (set (map (wd_id \<circ> task_delivery) ?ts)) v w1"
      using T by (simp_all add: demo_ok_def)
    have keys: "map wd_id ?rows' = map wd_id ?rows" using apart v(3) by (simp add: rows_apart_def claimed_def)
    have "x \<in> set ?rows'" if x: "x \<in> set ?rows" "\<not> due_at ?c x" for x
    proof -
      have inj: "inj_on wd_id (set ?rows)" using B(2) by (simp add: distinct_map)
      have "wd_id x \<notin> set (map (wd_id \<circ> task_delivery) ?ts)"
      proof
        assume "wd_id x \<in> set (map (wd_id \<circ> task_delivery) ?ts)"
        then obtain y where y: "y \<in> set ?rows" "due_at ?c y" "wd_id x = wd_id y" by (auto simp: claimed_def)
        from inj_onD [OF inj y(3) x(1) y(1)] y(2) x(2) show False by simp
      qed
      moreover have "x \<in> set (delivery_rows (p_db v))" using x unfolding v(3) by (force simp: image_iff)
      ultimately show ?thesis using apart unfolding rows_apart_def by blast
    qed
    then have rd: "round_done ?c ?rows ?rows' ts"
      using ok(2) keys settled ds by (simp add: round_done_def tasks_ok_def)
    have lost: "sk_remaining s1 < sk_remaining s" if "t \<in> set ts" "task_failed t" for t
    proof -
      have "t \<in> set (filter task_failed ts)" using that by simp
      then have "0 < length (filter task_failed ts)" by (rule length_pos_if_in_set)
      then show ?thesis using ok(4) by linarith
    qed
    have more: "wd_attempts x + 1 < wd_max_attempts x" "wd_attempts x + 1 + sk_remaining s1 < wd_max_attempts x"
      if "x \<in> set ?rows" "waiting x" "Settled (claimed ?c x) (Some e) \<in> set ts" for x e
      using bspec [OF B(6) that(1)] lost [OF that(3)] ok(3) that(2) by auto
    have F: "mset (map note_of (filter waiting ?rows')) =
        mset (map (note_of \<circ> task_delivery) (filter task_failed ts)) + mset (map note_of (filter (later_due ?c) ?rows))"
      by (rule round_failed [OF rd]) (rule more(1))
    have told: "mset (map note_received (sk_deliveries s1)) + mset (map note_of (filter waiting ?rows')) = M"
    proof -
      have "map (note_of \<circ> task_delivery) ts = map note_of (filter (due_at ?c) ?rows)"
        using arg_cong [OF ds, of "map note_of"] by (simp add: comp_def)
      then have D: "mset (map note_of (concat (map task_reached ts))) + mset (map (note_of \<circ> task_delivery) (filter task_failed ts)) =
          mset (map note_of (filter (due_at ?c) ?rows))" using reached_or_failed [OF settled] by (simp only:)
      show ?thesis unfolding B(9) [symmetric] F ok(5) waiting_split [of note_of ?rows ?c] D [symmetric]
        by (simp only: union_ac)
    qed
    have "still_waiting w1 = length (filter task_failed ts) + length (filter (later_due ?c) ?rows)"
      using arg_cong [OF F, of size] by (simp only: size_union size_mset length_map)
    moreover have "length ts = length (filter (due_at ?c) ?rows)" using arg_cong [OF ds, of length] by simp
    moreover have "still_waiting w = length (filter (due_at ?c) ?rows) + length (filter (later_due ?c) ?rows)"
      using arg_cong [OF waiting_split [of note_of ?rows ?c], of size] by (simp only: size_union size_mset length_map)
    ultimately have few: "still_waiting w1 \<le> 10" "still_waiting w1 \<le> still_waiting w"
      using B(7) length_filter_le [of task_failed ts] by linarith+
    have fewer: "sk_remaining s1 \<le> sk_remaining s" using ok(4) by linarith
    have idle: "y \<in> set ?rows \<and> p_clock w < wd_next_attempt y"
      if "sk_remaining s1 = sk_remaining s" and y: "y \<in> set ?rows'" "waiting y" for y
      using rd y(1)
    proof (cases rule: round_row)
      case kept
      then show ?thesis using y(2) v(2) by simp
    next
      case (tried x res now)
      then obtain e where "res = Some e" using y(2) by (cases res) (simp_all add: settled_row_def)
      then show ?thesis using lost [OF tried(3)] that(1) by simp
    qed
    have "resting y \<and> wd_next_attempt y \<le> p_clock w1 + int waited + minute \<and> (wd_id y \<in> ids \<longrightarrow> wd_status y \<noteq> delivery_dead_letter) \<and>
        (waiting y \<longrightarrow> deliverable dm y \<and> wd_attempts y + sk_remaining s1 < wd_max_attempts y)" if y: "y \<in> set ?rows'" for y
      using rd y
    proof (cases rule: round_row)
      case kept
      note b = bspec [OF B(6) kept(1)] and n = bspec [OF ok(6) y]
      show ?thesis
      proof (intro conjI impI)
        show "wd_attempts y + sk_remaining s1 < wd_max_attempts y" if "waiting y" using b that fewer by linarith
      qed (use b n in \<open>simp_all\<close>)
    next
      case (tried x res now)
      have soon: "wd_next_attempt y \<le> p_clock w1 + int waited + minute" using bspec [OF ok(6) y] by simp
      note b = bspec [OF B(6) tried(1)]
      show ?thesis
      proof (cases res)
        case None
        then show ?thesis using tried(4) soon by (simp add: settled_row_def resting_def)
      next
        case (Some e)
        note m = more [OF tried(1) conjunct1 [OF tried(2)] tried(3) [unfolded Some]]
        have "y = settled_row (claimed ?c x) (Some e) now" using tried(4) Some by simp
        then show ?thesis using m soon b tried(2)
          by (simp add: settled_row_def resting_def claimed_def deliverable_def)
      qed
    qed
    moreover have "calm (w1\<lparr>p_clock := p_clock w1 + int waited\<rparr>)" using ok(1) by (simp add: calm_def alone_def)
    moreover have "wd_id ` set ?rows' = wd_id ` set ?rows" using arg_cong [OF keys, of set] by simp
    ultimately have "demo_between dm N M ids (w1\<lparr>p_clock := p_clock w1 + int waited\<rparr>, s1)"
      using few(1) told keys B(2-5,8) ok(3,4) \<open>p_clock w \<le> p_clock w1\<close> by (simp add: demo_between_def)
    then show ?thesis using few(2) fewer idle ok(6) by blast
  qed
  ultimately show thesis using that by blast
qed

section \<open>Every run returns\<close>

text \<open>\<open>ProcessBatch\<close> waits for its goroutines: the schedule of a round lets each of them come to its end.\<close>

definition fair_round :: "nat list \<times> nat \<Rightarrow> bool" where
  "fair_round round \<longleftrightarrow> (\<forall>i < 10. 2 \<le> count_list (fst round) i)"

text \<open>How long the worker lets pass in a round, with the wait after it, when each call takes at most \<open>T\<close>.\<close>

definition round_time :: "nat \<Rightarrow> nat list \<times> nat \<Rightarrow> nat" where
  "round_time T round = T * Suc (length (fst round)) + snd round"

definition time_waited :: "(nat list \<times> nat) list \<Rightarrow> nat" where
  "time_waited rounds = sum_list (map snd rounds)"

lemma demo_tasks_calm:
  "tasks_ok ts w \<Longrightarrow> calm w \<Longrightarrow> demo_tasks dm schedule ts (w, s) = (ts', w', s') \<Longrightarrow> tasks_ok ts' w' \<and> calm w'"
proof (induction schedule arbitrary: ts w s)
  case (Cons i schedule)
  show ?case
  proof (cases "i < length ts")
    case False
    then show ?thesis using Cons by simp
  next
    case True
    obtain t w1 s1 where st: "demo_step dm (ts ! i) (w, s) = (t, w1, s1)" by (rule prod_cases3)
    then have ts: "task_step (sink_client dm w s) (dm_worker dm) (ts ! i) w = (t, w1)" by (auto simp: demo_step_def split: prod.splits)
    have "calm w1" using task_calls [OF ts] calm_env [OF Cons.prems(2)] by (simp add: calls_step_def)
    moreover have "demo_tasks dm schedule (ts[i := t]) (w1, s1) = (ts', w', s')" using Cons.prems(3) True st by simp
    ultimately show ?thesis using Cons.IH task_step_ok(1) [OF Cons.prems(1) True ts] by blast
  qed
qed simp

lemma demo_batch_total:
  assumes "calm w" and "distinct (map wd_id (delivery_rows (p_db w)))" and "ww_batch (dm_worker dm) = 10"
    and fair: "\<forall>i < 10. 2 \<le> count_list schedule i"
  obtains w1 s1 where "demo_batch dm schedule (w, s) = Some (w1, s1)" "calm w1" "distinct (map wd_id (delivery_rows (p_db w1)))"
    "p_clock w \<le> p_clock w1"
proof -
  obtain v hit where c: "repo_claim_deliveries 10 (ww_lease (dm_worker dm)) w =
      (Inr (map (claimed (p_clock v)) (filter hit (delivery_rows (p_db w)))), v)" "calm v" "p_clock w \<le> p_clock v"
    "length (filter hit (delivery_rows (p_db w))) \<le> 10"
    "tasks_ok (map To_send (map (claimed (p_clock v)) (filter hit (delivery_rows (p_db w))))) v"
    by (rule claim_shape [OF assms(1,2)])
  define ds where "ds = map (claimed (p_clock v)) (filter hit (delivery_rows (p_db w)))"
  have v: "repo_claim_deliveries 10 (ww_lease (dm_worker dm)) w = (Inr ds, v)" "calm v" "p_clock w \<le> p_clock v"
    "length ds \<le> 10" "tasks_ok (map To_send ds) v"
    using c by (simp_all add: ds_def)
  obtain ts w1 s1 where run: "demo_tasks dm schedule (map To_send ds) (v, s) = (ts, w1, s1)" by (rule prod_cases3)
  have "list_all is_settled ts" using fair v(4) by (intro fair_batch [OF _ run]) simp
  then have "demo_batch dm schedule (w, s) = Some (w1, s1)" using v(1) run by (simp add: demo_batch_def assms(3))
  moreover have "tasks_ok ts w1" "calm w1" using demo_tasks_calm [OF v(5,2) run] by blast+
  moreover have "p_clock w \<le> p_clock w1" using v(3) demo_tasks_clock [OF run] by simp
  ultimately show thesis using that by (simp add: tasks_ok_def)
qed

lemma demo_run_total:
  "calm w \<Longrightarrow> distinct (map wd_id (delivery_rows (p_db w))) \<Longrightarrow> ww_batch (dm_worker dm) = 10 \<Longrightarrow> \<forall>r \<in> set rounds. fair_round r \<Longrightarrow>
   \<exists>w' s'. demo_run dm rounds (w, s) = Some (w', s') \<and> p_clock w + int (time_waited rounds) \<le> p_clock w'"
proof (induction rounds arbitrary: w s)
  case Nil
  then show ?case by (simp add: time_waited_def)
next
  case (Cons r rounds)
  obtain schedule waited where r: "r = (schedule, waited)" by (cases r)
  have fair: "\<forall>i < 10. 2 \<le> count_list schedule i" using Cons.prems(4) r by (simp add: fair_round_def)
  obtain w1 s1 where b: "demo_batch dm schedule (w, s) = Some (w1, s1)" "calm w1" "distinct (map wd_id (delivery_rows (p_db w1)))"
    "p_clock w \<le> p_clock w1"
    by (rule demo_batch_total [OF Cons.prems(1-3) fair])
  have "calm (w1\<lparr>p_clock := p_clock w1 + int waited\<rparr>)" using b(2) by (simp add: calm_def alone_def)
  from Cons.IH [OF this _ Cons.prems(3), of s1] obtain w' s' where
    "demo_run dm rounds (w1\<lparr>p_clock := p_clock w1 + int waited\<rparr>, s1) = Some (w', s')"
    "p_clock w1 + int waited + int (time_waited rounds) \<le> p_clock w'"
    using b(3) Cons.prems(4) by auto
  then show ?case using b r by (simp add: time_waited_def)
qed

section \<open>How long a run takes\<close>

definition brisk :: "nat \<Rightarrow> demo \<Rightarrow> pworld \<Rightarrow> bool" where
  "brisk T dm w \<longleftrightarrow> (\<forall>n. p_delays w n \<le> T \<and> dm_took dm n \<le> T)"

lemma statement_late: "statement held f w = (r, w') \<Longrightarrow> brisk T dm w \<Longrightarrow> p_clock w' \<le> p_clock w + int T \<and> brisk T dm w'"
  by (auto simp: statement_def external_call_def brisk_def Let_def split: prod.splits option.splits)

lemma settle_late: "settle_delivery wk d outcome w = (res, w') \<Longrightarrow> brisk T dm w \<Longrightarrow> p_clock w' \<le> p_clock w + int T \<and> brisk T dm w'"
  by (auto simp: settle_delivery_def worker_succeed_def worker_fail_def repo_mark_succeeded_def repo_mark_failed_def
      update_one_def record_delivery_def brisk_def [of T dm "_ \<lparr>p_delivery_metric := _\<rparr>"] brisk_def [symmetric]
      split: prod.splits option.splits sum.splits if_splits dest!: statement_late)

lemma task_late:
  "task_step (sink_client dm w s) wk t w = (t', w') \<Longrightarrow> brisk T dm w \<Longrightarrow> p_clock w' \<le> p_clock w + int T \<and> brisk T dm w'"
  by (cases t) (auto simp: send_delivery_def sink_client_def brisk_def [of T dm "w \<lparr>p_calls := _, p_clock := _\<rparr>"] brisk_def
      split: prod.splits option.splits dest: settle_late)

lemma demo_tasks_late:
  "demo_tasks dm schedule ts (w, s) = (ts', w', s') \<Longrightarrow> brisk T dm w \<Longrightarrow>
   p_clock w' \<le> p_clock w + int (T * length schedule) \<and> brisk T dm w'"
proof (induction schedule arbitrary: ts w s)
  case (Cons i schedule)
  obtain t w1 s1 where st: "demo_step dm (ts ! i) (w, s) = (t, w1, s1)" by (rule prod_cases3)
  then have "task_step (sink_client dm w s) (dm_worker dm) (ts ! i) w = (t, w1)" by (auto simp: demo_step_def split: prod.splits)
  from task_late [OF this Cons.prems(2)]
  show ?case using Cons.IH [of "ts[i := t]" w1 s1] Cons.IH [of ts w s] Cons.prems st by (auto simp: distrib_left split: if_splits)
qed simp

definition demo_time :: "nat \<Rightarrow> (nat list \<times> nat) list \<Rightarrow> nat" where
  "demo_time T rounds = sum_list (map (round_time T) rounds)"

lemma demo_batch_late:
  assumes "demo_batch dm schedule (w, s) = Some (w', s')" and "brisk T dm w"
  shows "p_clock w' \<le> p_clock w + int (T * Suc (length schedule)) \<and> brisk T dm w'"
proof -
  obtain res v where c: "repo_claim_deliveries (ww_batch (dm_worker dm)) (ww_lease (dm_worker dm)) w = (res, v)" by fastforce
  have v: "p_clock v \<le> p_clock w + int T \<and> brisk T dm v"
    using c assms(2) by (auto simp: repo_claim_deliveries_def split: prod.splits dest!: statement_late)
  show ?thesis
  proof (cases res)
    case (Inl e)
    then have "w' = v" using assms(1) c by (simp add: demo_batch_def)
    moreover have "int T \<le> int (T * Suc (length schedule))" by (simp only: of_nat_le_iff) simp
    ultimately show ?thesis using v by (metis add_left_mono order_trans)
  next
    case (Inr ds)
    then obtain ts where "demo_tasks dm schedule (map To_send ds) (v, s) = (ts, w', s')"
      using assms(1) c by (auto simp: demo_batch_def split: prod.splits if_splits)
    from demo_tasks_late [OF this conjunct2 [OF v]] v show ?thesis by simp
  qed
qed

lemma demo_run_late:
  "demo_run dm rounds (w, s) = Some (w', s') \<Longrightarrow> brisk T dm w \<Longrightarrow> p_clock w' \<le> p_clock w + int (demo_time T rounds)"
proof (induction rounds arbitrary: w s)
  case Nil
  then show ?case by (simp add: demo_time_def)
next
  case (Cons r rounds)
  obtain schedule waited where r: "r = (schedule, waited)" by (cases r)
  obtain w1 s1 where b: "demo_batch dm schedule (w, s) = Some (w1, s1)"
    "demo_run dm rounds (w1\<lparr>p_clock := p_clock w1 + int waited\<rparr>, s1) = Some (w', s')"
    using Cons.prems(1) r by (auto split: option.splits)
  note L = demo_batch_late [OF b(1) Cons.prems(2)]
  then have "brisk T dm (w1\<lparr>p_clock := p_clock w1 + int waited\<rparr>)" by (simp add: brisk_def)
  from Cons.IH [OF b(2) this] L show ?case by (simp add: r demo_time_def round_time_def)
qed

text \<open>
  The run pays for its time with the refusals the sink has left: while deliveries wait, the clock is at most
  one round behind the time \<open>L\<close> by which all of them are due; once it has passed it, a round attempts all of
  them, and either they arrive or refusals are used up and \<open>L\<close> moves by at most a round and a minute.
\<close>

lemma demo_rounds:
  assumes good: "good_demo dm" and batch: "ww_batch (dm_worker dm) = 10" and fits: "N \<le> int64_max" "size M \<le> 50"
  shows "demo_between dm N M ids (w, s) \<Longrightarrow> \<forall>x \<in> set (delivery_rows (p_db w)). waiting x \<longrightarrow> wd_next_attempt x \<le> L \<Longrightarrow>
    p_clock w \<le> L + int G \<Longrightarrow> brisk T dm w \<Longrightarrow> \<forall>r \<in> set rounds. fair_round r \<and> round_time T r \<le> G \<Longrightarrow>
    demo_run dm rounds (w, s) = Some (w', s') \<Longrightarrow> p_clock w' < 315537897600 * second \<Longrightarrow>
    demo_between dm N M ids (w', s') \<and> still_waiting w' \<le> still_waiting w \<and>
    (still_waiting w' = 0 \<or> p_clock w' \<le> L + int G + sk_remaining s * (minute + 2 * int G))"
proof (induction rounds arbitrary: w s L)
  case Nil
  have "0 \<le> sk_remaining s * (minute + 2 * int G)"
    using demo_betweenD(3) [OF Nil.prems(1)] by (intro mult_nonneg_nonneg) (simp_all add: minute_def second_def)
  then show ?case using Nil by simp
next
  case (Cons r rounds)
  obtain schedule waited where r: "r = (schedule, waited)" by (cases r)
  have fair: "\<forall>i < 10. 2 \<le> count_list schedule i" and dur: "T * Suc (length schedule) + waited \<le> G"
    using Cons.prems(5) r by (simp_all add: fair_round_def round_time_def)
  obtain w1 s1 where b: "demo_batch dm schedule (w, s) = Some (w1, s1)" and "p_clock w \<le> p_clock w1"
    and after: "p_clock w1 < 315537897600 * second \<longrightarrow>
       demo_between dm N M ids (w1\<lparr>p_clock := p_clock w1 + int waited\<rparr>, s1) \<and> still_waiting w1 \<le> still_waiting w \<and>
       sk_remaining s1 \<le> sk_remaining s \<and> (\<forall>y \<in> set (delivery_rows (p_db w1)). wd_next_attempt y \<le> p_clock w1 + minute) \<and>
       (sk_remaining s1 = sk_remaining s \<longrightarrow> (\<forall>y \<in> set (delivery_rows (p_db w1)). waiting y \<longrightarrow>
          y \<in> set (delivery_rows (p_db w)) \<and> p_clock w < wd_next_attempt y))"
    by (rule demo_round [OF Cons.prems(1) good batch fits fair, of waited])
  let ?v = "w1\<lparr>p_clock := p_clock w1 + int waited\<rparr>" and ?price = "minute + 2 * int G"
  have rest: "demo_run dm rounds (?v, s1) = Some (w', s')" using Cons.prems(6) b r by simp
  have fairs: "\<forall>r \<in> set rounds. fair_round r \<and> round_time T r \<le> G" using Cons.prems(5) by simp
  note B = demo_betweenD [OF Cons.prems(1)]
  obtain w2 s2 where t: "demo_batch dm schedule (w, s) = Some (w2, s2)" "calm w2" "distinct (map wd_id (delivery_rows (p_db w2)))"
    by (rule demo_batch_total [OF B(1,2) batch fair])
  have "calm ?v" "distinct (map wd_id (delivery_rows (p_db ?v)))" using t b by (simp_all add: calm_def alone_def)
  from demo_run_total [OF this batch, of rounds s1] fairs rest have "p_clock w1 < 315537897600 * second" using Cons.prems(7) by auto
  with after have A: "demo_between dm N M ids (?v, s1)" "still_waiting ?v \<le> still_waiting w" "sk_remaining s1 \<le> sk_remaining s"
    "\<forall>y \<in> set (delivery_rows (p_db ?v)). wd_next_attempt y \<le> p_clock w1 + minute"
    and idle: "sk_remaining s1 = sk_remaining s \<longrightarrow> (\<forall>y \<in> set (delivery_rows (p_db ?v)). waiting y \<longrightarrow>
          y \<in> set (delivery_rows (p_db w)) \<and> p_clock w < wd_next_attempt y)" by simp_all
  note late = demo_batch_late [OF b Cons.prems(4)]
  have brisk: "brisk T dm ?v" using late by (simp add: brisk_def)
  have "int (T * Suc (length schedule)) + int waited \<le> int G" using dur by (simp only: of_nat_add [symmetric] of_nat_le_iff)
  moreover have "0 \<le> int (T * Suc (length schedule))" by (rule of_nat_0_le_iff)
  ultimately have clock: "p_clock ?v \<le> p_clock w + int G" "p_clock ?v \<le> p_clock w1 + int G" "p_clock w1 \<le> p_clock w + int G"
    using conjunct1 [OF late] by (simp_all del: of_nat_mult of_nat_Suc mult_Suc_right)
  note IH = Cons.IH [OF A(1) _ _ brisk fairs rest Cons.prems(7)]
  consider "sk_remaining s1 < sk_remaining s" | "sk_remaining s1 = sk_remaining s" "L \<le> p_clock w"
    | "sk_remaining s1 = sk_remaining s" "p_clock w < L" using A(3) by linarith
  then show ?case
  proof cases
    case 1
    have I: "demo_between dm N M ids (w', s')" "still_waiting w' \<le> still_waiting ?v"
      "still_waiting w' = 0 \<or> p_clock w' \<le> p_clock w1 + minute + int G + sk_remaining s1 * ?price"
      using IH [of "p_clock w1 + minute"] A(4) clock(2) by (simp_all add: minute_def second_def)
    have "(sk_remaining s1 + 1) * ?price \<le> sk_remaining s * ?price"
      using 1 by (intro mult_right_mono) (simp_all add: minute_def second_def)
    then have "sk_remaining s1 * ?price + ?price \<le> sk_remaining s * ?price" by (simp add: distrib_right)
    then have "p_clock w1 + minute + int G + sk_remaining s1 * ?price \<le> L + int G + sk_remaining s * ?price"
      using clock(3) Cons.prems(3) by linarith
    then show ?thesis using I A(2) by (meson order_trans)
  next
    case 2
    have "\<not> waiting y" if "y \<in> set (delivery_rows (p_db ?v))" for y
    proof
      assume "waiting y"
      with idle 2(1) that have y: "y \<in> set (delivery_rows (p_db w))" "p_clock w < wd_next_attempt y" by blast+
      with Cons.prems(2) \<open>waiting y\<close> have "wd_next_attempt y \<le> L" by blast
      with y(2) 2(2) show False by simp
    qed
    then have none: "still_waiting ?v = 0" by (simp add: filter_empty_conv)
    then have "\<forall>x \<in> set (delivery_rows (p_db ?v)). waiting x \<longrightarrow> wd_next_attempt x \<le> p_clock ?v" by (simp add: filter_empty_conv)
    from IH [OF this] show ?thesis using none A(2) by simp
  next
    case 3
    have "\<forall>x \<in> set (delivery_rows (p_db ?v)). waiting x \<longrightarrow> wd_next_attempt x \<le> L"
      using idle 3(1) Cons.prems(2) by blast
    moreover have "p_clock ?v \<le> L + int G" using clock(1) 3(2) by simp
    ultimately have I: "demo_between dm N M ids (w', s')" "still_waiting w' \<le> still_waiting ?v"
      "still_waiting w' = 0 \<or> p_clock w' \<le> L + int G + sk_remaining s1 * ?price"
      using IH [of L] by blast+
    then show ?thesis using A(2) unfolding 3(1) by (intro conjI) simp_all
  qed
qed

section \<open>Every webhook arrives\<close>

lemma demo_first:
  assumes "calm w" and "distinct (map wd_id (delivery_rows (p_db w)))" and "62135596801 * second \<le> p_clock w"
    and "\<forall>x \<in> set (delivery_rows (p_db w)). resting x \<and> wd_next_attempt x \<le> p_clock w + minute \<and>
      (waiting x \<longrightarrow> deliverable dm x \<and> wd_attempts x + sk_remaining s < wd_max_attempts x)"
    and "still_waiting w \<le> 10" and "0 \<le> sk_remaining s"
  shows "demo_between dm (sk_remaining s)
    (mset (map note_received (sk_deliveries s)) + mset (map note_of (filter waiting (delivery_rows (p_db w)))))
    (wd_id ` set (filter waiting (delivery_rows (p_db w)))) (w, s)"
proof -
  have dead: "wd_status x \<noteq> delivery_dead_letter" if x: "x \<in> set (delivery_rows (p_db w))"
    "wd_id x \<in> wd_id ` set (filter waiting (delivery_rows (p_db w)))" for x
  proof -
    obtain y where y: "y \<in> set (delivery_rows (p_db w))" "waiting y" "wd_id x = wd_id y" using x(2) by auto
    have "inj_on wd_id (set (delivery_rows (p_db w)))" using assms(2) by (simp add: distinct_map)
    from inj_onD [OF this y(3) x(1) y(1)] y(2) show ?thesis by simp
  qed
  have "resting x \<and> wd_next_attempt x \<le> p_clock w + minute \<and>
      (wd_id x \<in> wd_id ` set (filter waiting (delivery_rows (p_db w))) \<longrightarrow> wd_status x \<noteq> delivery_dead_letter) \<and>
      (waiting x \<longrightarrow> deliverable dm x \<and> wd_attempts x + sk_remaining s < wd_max_attempts x)"
    if x: "x \<in> set (delivery_rows (p_db w))" for x
  proof (intro conjI impI)
    show "wd_status x \<noteq> delivery_dead_letter" if "wd_id x \<in> wd_id ` set (filter waiting (delivery_rows (p_db w)))"
      by (rule dead [OF x that])
  qed (use bspec [OF assms(4) x] in simp_all)
  moreover have "wd_id ` set (filter waiting (delivery_rows (p_db w))) \<subseteq> set (map wd_id (delivery_rows (p_db w)))" by auto
  ultimately show ?thesis unfolding demo_between_def prod.case using assms(1-3,5,6) by (intro conjI ballI) (simp_all only:, simp_all)
qed

text \<open>
  How long the worker needs at most: a minute and a round until everything is due, and a minute and two
  rounds for each refusal.
\<close>

definition delivery_deadline :: "nat \<Rightarrow> int \<Rightarrow> int" where
  "delivery_deadline G refusals = minute + int G + refusals * (minute + 2 * int G)"

lemma demo_delivers:
  assumes demo: "dm_worker dm = new_webhook_worker mac (dm_secret dm) lease poll metrics" "int (dm_travel dm) \<le> 4 * minute"
    and world: "calm w" "distinct (map wd_id (delivery_rows (p_db w)))" "62135596801 * second \<le> p_clock w"
    and rows: "\<forall>x \<in> set (delivery_rows (p_db w)). resting x \<and> wd_next_attempt x \<le> p_clock w + minute \<and>
      (waiting x \<longrightarrow> deliverable dm x \<and> wd_attempts x + sk_remaining s < wd_max_attempts x)"
    and few: "still_waiting w \<le> 10" "length (sk_deliveries s) + still_waiting w \<le> 50"
    and sink: "0 \<le> sk_remaining s" "in_int64 (sk_remaining s)"
    and rounds: "\<forall>r \<in> set rounds. fair_round r \<and> round_time T r \<le> G"
    and time: "brisk T dm w" "p_clock w + int (demo_time T rounds) < 315537897600 * second"
  shows "\<exists>w' s'. demo_run dm rounds (w, s) = Some (w', s') \<and> p_clock w + int (time_waited rounds) \<le> p_clock w' \<and>
    mset (map note_received (sk_deliveries s')) + mset (map note_of (filter waiting (delivery_rows (p_db w')))) =
      mset (map note_received (sk_deliveries s)) + mset (map note_of (filter waiting (delivery_rows (p_db w)))) \<and>
    (p_clock w + delivery_deadline G (sk_remaining s) < p_clock w' \<longrightarrow>
      (\<forall>d \<in> set (filter waiting (delivery_rows (p_db w))). \<exists>d' \<in> set (delivery_rows (p_db w')).
        wd_id d' = wd_id d \<and> wd_status d' = delivery_delivered) \<and>
      mset (map note_received (sk_deliveries s')) =
        mset (map note_received (sk_deliveries s)) + mset (map note_of (filter waiting (delivery_rows (p_db w)))))"
proof -
  let ?W = "filter waiting (delivery_rows (p_db w))"
  have good: "good_demo dm" and batch: "ww_batch (dm_worker dm) = 10"
    using demo by (simp_all add: good_demo_def new_webhook_worker_def)
  have fair: "\<forall>r \<in> set rounds. fair_round r" using rounds by blast
  obtain w' s' where run: "demo_run dm rounds (w, s) = Some (w', s')" and waits: "p_clock w + int (time_waited rounds) \<le> p_clock w'"
    using demo_run_total [OF world(1,2) batch fair] by blast
  have year: "p_clock w' < 315537897600 * second" using demo_run_late [OF run time(1)] time(2) by simp
  have fits: "sk_remaining s \<le> int64_max" "size (mset (map note_received (sk_deliveries s)) + mset (map note_of ?W)) \<le> 50"
    using sink(2) few(2) by (simp_all add: in_int64_def del: mset_map mset_filter)
  have due: "\<forall>x \<in> set (delivery_rows (p_db w)). waiting x \<longrightarrow> wd_next_attempt x \<le> p_clock w + minute" using rows by blast
  have soon: "p_clock w \<le> p_clock w + minute + int G" by (simp add: minute_def second_def)
  note R = demo_rounds [OF good batch fits demo_first [OF world rows few(1) sink(1)] due soon time(1) rounds run year]
  note B = demo_betweenD [OF conjunct1 [OF R]]
  have "(\<forall>d \<in> set ?W. \<exists>d' \<in> set (delivery_rows (p_db w')). wd_id d' = wd_id d \<and> wd_status d' = delivery_delivered) \<and>
      mset (map note_received (sk_deliveries s')) = mset (map note_received (sk_deliveries s)) + mset (map note_of ?W)"
    if late: "p_clock w + delivery_deadline G (sk_remaining s) < p_clock w'"
  proof -
    have none: "filter waiting (delivery_rows (p_db w')) = []" using R late by (auto simp: delivery_deadline_def)
    have "\<exists>d' \<in> set (delivery_rows (p_db w')). wd_id d' = wd_id d \<and> wd_status d' = delivery_delivered" if d: "d \<in> set ?W" for d
    proof -
      have "wd_id d \<in> set (map wd_id (delivery_rows (p_db w')))" using B(8) d by blast
      then obtain d' where d': "d' \<in> set (delivery_rows (p_db w'))" "wd_id d' = wd_id d" by auto
      have "resting d'" "wd_status d' \<noteq> delivery_dead_letter" using B(6) d d' by auto
      moreover have "\<not> waiting d'" using none d'(1) by (simp add: filter_empty_conv)
      ultimately show ?thesis using d' by (auto simp: resting_def)
    qed
    then show ?thesis using B(9) none by simp
  qed
  then show ?thesis using run waits B(9) by blast
qed

text \<open>
  C39. Every webhook arrives, exactly once. The worker runs against the receiver of the demo, which shares its
  secret, has a clock at most four minutes ahead and refuses the first requests on purpose. At most ten
  deliveries wait, each of at most 1 MiB, addressed to the receiver and with more attempts left than the
  receiver has refusals; no row is being processed or has its next attempt more than a minute ahead, and the receiver has room for them among its last fifty.
  Nobody else uses the database and no call to it fails. Then, however the goroutines of each round interleave and however
  long the worker waits between rounds (the shipped poll interval is 250 milliseconds), every run
  returns; at its end what the receiver has got since and what still waits are together the deliveries that
  waited, each once, with its id, event type and payload; and once the clock has passed the deadline (a minute and a round,
  and a minute and two rounds for each refusal, where \<open>G\<close> bounds a round with its wait when each call takes at most \<open>T\<close>), every
  delivery is marked delivered and the receiver has got each exactly once. Times are between 1970 and the year 10000.
\<close>

theorem webhooks_reach_sink:
  assumes demo: "dm_worker dm = new_webhook_worker mac (dm_secret dm) lease poll metrics" "int (dm_travel dm) \<le> 4 * minute"
    and world: "calm w" "distinct (map wd_id (delivery_rows (p_db w)))" "62135596801 * second \<le> p_clock w"
    and rows: "\<forall>x \<in> set (delivery_rows (p_db w)). resting x \<and> wd_next_attempt x \<le> p_clock w + minute \<and>
      (waiting x \<longrightarrow> deliverable dm x \<and> wd_attempts x + sk_remaining s < wd_max_attempts x)"
    and few: "still_waiting w \<le> 10" "length (sk_deliveries s) + still_waiting w \<le> 50"
    and sink: "0 \<le> sk_remaining s" "in_int64 (sk_remaining s)"
    and rounds: "\<forall>r \<in> set rounds. fair_round r \<and> round_time T r \<le> G"
    and time: "brisk T dm w" "p_clock w + int (demo_time T rounds) < 315537897600 * second"
  shows "\<exists>w' s'. demo_run dm rounds (w, s) = Some (w', s') \<and> p_clock w + int (time_waited rounds) \<le> p_clock w' \<and>
    mset (map note_received (sk_deliveries s')) + mset (map note_of (filter waiting (delivery_rows (p_db w')))) =
      mset (map note_received (sk_deliveries s)) + mset (map note_of (filter waiting (delivery_rows (p_db w)))) \<and>
    (p_clock w + delivery_deadline G (sk_remaining s) < p_clock w' \<longrightarrow>
      (\<forall>d \<in> set (filter waiting (delivery_rows (p_db w))). \<exists>d' \<in> set (delivery_rows (p_db w')).
        wd_id d' = wd_id d \<and> wd_status d' = delivery_delivered) \<and>
      mset (map note_received (sk_deliveries s')) =
        mset (map note_received (sk_deliveries s)) + mset (map note_of (filter waiting (delivery_rows (p_db w)))))"
  using assms by (rule demo_delivers)

definition demo_world :: pworld where
  "demo_world = quiet_world\<lparr>p_clock := 62135600000 * second, p_db := empty_database\<lparr>delivery_rows :=
     [(sample_delivery delivery_pending)\<lparr>wd_attempts := 0\<rparr>]\<rparr>\<rparr>"

definition sample_demo :: demo where
  "sample_demo = \<lparr>dm_worker = new_webhook_worker (\<lambda>_ _. [1]) ''secret'' (30 * second) (250 * millisecond) True, dm_url = ''http://sink'',
     dm_secret = ''secret'', dm_travel = 5, dm_took = (\<lambda>_. 9)\<rparr>"

text \<open>Eight hundred rounds at the shipped poll interval, enough for two refusals.\<close>

definition sample_rounds :: "(nat list \<times> nat) list" where
  "sample_rounds = replicate 800 ([0..<10] @ [0..<10], 250000000)"

lemma sample_fair: "\<forall>r \<in> set sample_rounds. fair_round r \<and> round_time 9 r \<le> 250000189"
proof -
  have "\<forall>i \<in> set [0..<10]. 2 \<le> count_list ([0..<10] @ [0..<10]) i" by code_simp
  then show ?thesis by (simp add: fair_round_def round_time_def sample_rounds_def)
qed

lemma sample_time: "demo_time 9 sample_rounds = 200000151200" "time_waited sample_rounds = 200000000000"
    "delivery_deadline 250000189 2 = 181250000945"
  by (simp_all add: demo_time_def time_waited_def sample_rounds_def map_replicate sum_list_replicate round_time_def
      delivery_deadline_def minute_def second_def)

theorem webhooks_reach_sink_witness:
  "\<exists>w' s'. demo_run sample_demo sample_rounds (demo_world, \<lparr>sk_remaining = 2, sk_deliveries = []\<rparr>) =
       Some (w', s') \<and> map note_received (sk_deliveries s') = [(''wh_1'', ''order.confirmed'', ''{}'')]"
proof -
  let ?s = "\<lparr>sk_remaining = 2, sk_deliveries = []\<rparr>"
  have w: "calm demo_world" "delivery_rows (p_db demo_world) = [(sample_delivery delivery_pending)\<lparr>wd_attempts := 0\<rparr>]"
    "p_clock demo_world = 62135600000 * second"
    by (simp_all add: calm_def alone_def demo_world_def quiet_world_def)
  have time: "brisk 9 sample_demo demo_world" by (simp add: brisk_def demo_world_def quiet_world_def sample_demo_def)
  have row: "waiting ((sample_delivery delivery_pending)\<lparr>wd_attempts := 0\<rparr>)" by (simp add: sample_delivery_def)
  have dm: "dm_worker sample_demo = new_webhook_worker (\<lambda>_ _. [1]) (dm_secret sample_demo) (30 * second) (250 * millisecond) True"
    "int (dm_travel sample_demo) \<le> 4 * minute"
    by (simp_all add: sample_demo_def minute_def second_def)
  have rows: "\<forall>x \<in> set (delivery_rows (p_db demo_world)). resting x \<and> wd_next_attempt x \<le> p_clock demo_world + minute \<and>
      (waiting x \<longrightarrow> deliverable sample_demo x \<and> wd_attempts x + sk_remaining ?s < wd_max_attempts x)"
    unfolding w by (simp add: resting_def deliverable_def sample_delivery_def sample_demo_def max_sink_body_def second_def minute_def)
  have rest: "distinct (map wd_id (delivery_rows (p_db demo_world)))" "62135596801 * second \<le> p_clock demo_world"
    "still_waiting demo_world \<le> 10" "length (sk_deliveries ?s) + still_waiting demo_world \<le> 50"
    "0 \<le> sk_remaining ?s" "in_int64 (sk_remaining ?s)"
    "p_clock demo_world + int (demo_time 9 sample_rounds) < 315537897600 * second"
    unfolding sample_time w by (simp_all add: second_def in_int64_def int64_min_def int64_max_def)
  obtain w' s' where run: "demo_run sample_demo sample_rounds (demo_world, ?s) = Some (w', s')"
    and late: "p_clock demo_world + int (time_waited sample_rounds) \<le> p_clock w'"
    and told: "p_clock demo_world + delivery_deadline 250000189 2 < p_clock w' \<longrightarrow>
      mset (map note_received (sk_deliveries s')) = mset (map note_of (filter waiting (delivery_rows (p_db demo_world))))"
    using webhooks_reach_sink [OF dm w(1) rest(1,2) rows rest(3-6) sample_fair time rest(7)] by auto
  have "p_clock demo_world + delivery_deadline 250000189 2 < p_clock w'" using late unfolding sample_time by simp
  with told have told: "mset (map note_received (sk_deliveries s')) = mset (map note_of (filter waiting (delivery_rows (p_db demo_world))))" by blast
  have "mset (map note_received (sk_deliveries s')) = {#(''wh_1'', ''order.confirmed'', ''{}'')#}"
    unfolding told w(2) by (simp add: note_of_def sample_delivery_def)
  then have "map note_received (sk_deliveries s') = [(''wh_1'', ''order.confirmed'', ''{}'')]" by (simp only: mset_single_iff)
  with run show ?thesis by (intro exI conjI)
qed

end
