(* ===== verification/Coordinator.thy ===== *)
theory Coordinator
  imports Repository Go_Json
begin

text \<open>
  The Redis coordinator of idempotent requests, \<open>internal/product/coordinator.go\<close>. Redis is the map
  \<open>p_redis\<close> of the product's world: values with the time they expire at. Each command is one
  \<open>external_call\<close>, so other clients may act before it and it may fail or lose its answer. SHA-256
  is the parameter \<open>sha\<close>; \<open>fn\<close> is the closure that \<open>Do\<close> coordinates. \<open>coordinator_do\<close> has fuel for the
  rounds of its polling loop, \<open>None\<close> when they are used up.
\<close>

type_synonym digest = "string \<Rightarrow> 8 word list"

record redis_coordinator =
  rc_prefix :: string
  rc_result_ttl :: duration
  rc_lock_ttl :: duration
  rc_poll :: duration

definition new_redis_coordinator :: "string \<Rightarrow> redis_coordinator" where
  "new_redis_coordinator pre = \<lparr>rc_prefix = pre, rc_result_ttl = 24 * 60 * minute, rc_lock_ttl = 15 * second,
     rc_poll = 20 * millisecond\<rparr>"

section \<open>Commands\<close>

text \<open>The value under a key that has not expired.\<close>

definition live_value :: "gotime \<Rightarrow> redis \<Rightarrow> string \<Rightarrow> cached option" where
  "live_value now rd K = (case rd K of None \<Rightarrow> None | Some (v, expires) \<Rightarrow> if now < expires then Some v else None)"

type_synonym 'a redis_command = "gotime \<Rightarrow> redis \<Rightarrow> (product_error + 'a) \<times> redis"

definition redis_ping :: "unit redis_command" where
  "redis_ping now rd = (Inr (), rd)"

definition redis_get :: "string \<Rightarrow> cached redis_command" where
  "redis_get K now rd = (case live_value now rd K of None \<Rightarrow> (Inl Redis_nil, rd) | Some v \<Rightarrow> (Inr v, rd))"

definition redis_set :: "string \<Rightarrow> cached \<Rightarrow> duration \<Rightarrow> unit redis_command" where
  "redis_set K v ttl now rd = (Inr (), rd(K \<mapsto> (v, now + ttl)))"

definition redis_setnx :: "string \<Rightarrow> cached \<Rightarrow> duration \<Rightarrow> bool redis_command" where
  "redis_setnx K v ttl now rd =
     (if live_value now rd K = None then (Inr True, rd(K \<mapsto> (v, now + ttl))) else (Inr False, rd))"

text \<open>The release script: delete the lock if it still holds the token.\<close>

definition release_script :: "string \<Rightarrow> string \<Rightarrow> nat redis_command" where
  "release_script K token now rd =
     (if live_value now rd K = Some (Token token) then (Inr 1, rd(K := None)) else (Inr 0, rd))"

definition redis_call :: "'a redis_command \<Rightarrow> pworld \<Rightarrow> (product_error + 'a) \<times> pworld" where
  "redis_call f = external_call nothing_pending (\<lambda>w (db, rd). case f (p_clock w) rd of (res, rd') \<Rightarrow> (res, (db, rd')))"

section \<open>Keys, tokens and encoded results\<close>

definition coordination_key :: "digest \<Rightarrow> string \<Rightarrow> string \<Rightarrow> string \<Rightarrow> string \<Rightarrow> string" where
  "coordination_key sha pre kind t k = pre @ '':'' @ kind @ '':'' @ hex_encode (sha (json_pair t k))"

definition random_token :: "pworld \<Rightarrow> string \<times> pworld" where
  "random_token w =
     (case draw_bytes w of
        (None, w') \<Rightarrow> (show_int (wrap64 (p_clock w - 62135596800 * second)), w')
      | (Some bs, w') \<Rightarrow> (hex_encode bs, w'))"

text \<open>What \<open>json.Marshal\<close> and \<open>json.Unmarshal\<close> make of an order.\<close>

definition json_order :: "order \<Rightarrow> order" where
  "json_order ord = ord\<lparr>order_id := valid_text (order_id ord), tenant_id := valid_text (tenant_id ord),
     event_id := valid_text (event_id ord), order_status := valid_text (order_status ord)\<rparr>"

text \<open>A result with a time outside the years 0 to 9999 has no JSON form.\<close>

definition marshal_result :: "coordination_result \<Rightarrow> product_error + cached" where
  "marshal_result c =
     (if json_time_ok (created_at (co_order c)) \<and> json_time_ok (updated_at (co_order c))
      then Inr (Encoded \<lparr>co_fingerprint = valid_text (co_fingerprint c), co_order = json_order (co_order c)\<rparr>)
      else Inl (Other_error (''json: error calling MarshalJSON for type time.Time: '' @
        ''Time.MarshalJSON: year outside of range [0,9999]'')))"

section \<open>The coordinator\<close>

definition coordinator_ping :: "pworld \<Rightarrow> product_error option \<times> pworld" where
  "coordinator_ping w =
     (case redis_call redis_ping w of
        (Inl e, w') \<Rightarrow> (Some (Wrapped [] Err_coordination_unavailable ('': '' @ error_text e)), w')
      | (Inr _, w') \<Rightarrow> (None, w'))"

definition load_result :: "string \<Rightarrow> pworld \<Rightarrow> (product_error + coordination_result option) \<times> pworld" where
  "load_result K w =
     (case redis_call (redis_get K) w of
        (Inl e, w') \<Rightarrow>
          if product_is e Redis_nil then (Inr None, w')
          else (Inl (Wrapped [] Err_coordination_unavailable ('': result read failed: '' @ error_text e)), w')
      | (Inr v, w') \<Rightarrow>
          (case v of
             Encoded c \<Rightarrow>
               if co_fingerprint c = [] \<or> order_id (co_order c) = []
               then (Inl (Wrapped [] Err_coordination_unavailable '': cached result is incomplete''), w')
               else (Inr (Some c), w')
           | _ \<Rightarrow> (Inl (Wrapped [] Err_coordination_unavailable ('': decode cached result: '' @ p_decode w' v)), w')))"

text \<open>The release ignores every error.\<close>

definition release_lock :: "string \<Rightarrow> string \<Rightarrow> pworld \<Rightarrow> pworld" where
  "release_lock K token w = snd (redis_call (release_script K token) w)"

text \<open>What a cached result answers to a request with the given fingerprint.\<close>

definition cached_answer :: "string \<Rightarrow> coordination_result \<Rightarrow> product_error + order \<times> bool" where
  "cached_answer fp c = (if co_fingerprint c \<noteq> fp then Inl Err_idempotency_conflict else Inr (co_order c, True))"

type_synonym creation = "pworld \<Rightarrow> (product_error + order) \<times> pworld"

definition store_result :: "redis_coordinator \<Rightarrow> string \<Rightarrow> string \<Rightarrow> order \<Rightarrow> pworld \<Rightarrow> (product_error + order \<times> bool) \<times> pworld" where
  "store_result co rk fp ord w =
     (case marshal_result \<lparr>co_fingerprint = fp, co_order = ord\<rparr> of
        Inl e \<Rightarrow> (Inl e, w)
      | Inr encoded \<Rightarrow>
          (case redis_call (redis_set rk encoded (rc_result_ttl co)) w of
             (Inl e, w') \<Rightarrow> (Inl (Wrapped [] Err_coordination_unavailable ('': result write failed: '' @ error_text e)), w')
           | (Inr _, w') \<Rightarrow> (Inr (ord, False), w')))"

definition execute_locked :: "redis_coordinator \<Rightarrow> string \<Rightarrow> string \<Rightarrow> creation \<Rightarrow> pworld \<Rightarrow> (product_error + order \<times> bool) \<times> pworld" where
  "execute_locked co rk fp fn w =
     (case load_result rk w of
        (Inl e, w1) \<Rightarrow> (Inl e, w1)
      | (Inr (Some c), w1) \<Rightarrow> (cached_answer fp c, w1)
      | (Inr None, w1) \<Rightarrow>
          (case fn w1 of
             (Inl e, w2) \<Rightarrow> (Inl e, w2)
           | (Inr ord, w2) \<Rightarrow> store_result co rk fp ord w2))"

definition coordinator_execute ::
  "redis_coordinator \<Rightarrow> string \<Rightarrow> string \<Rightarrow> string \<Rightarrow> string \<Rightarrow> creation \<Rightarrow> pworld \<Rightarrow> (product_error + order \<times> bool) \<times> pworld" where
  "coordinator_execute co rk lk token fp fn w = (case execute_locked co rk fp fn w of (res, w') \<Rightarrow> (res, release_lock lk token w'))"

definition poll_wait :: "redis_coordinator \<Rightarrow> ctx \<Rightarrow> pworld \<Rightarrow> go_error option \<times> pworld" where
  "poll_wait co c w =
     (case select_timer (p_ties w (p_selects w)) c (p_clock w) (rc_poll co) of
        (e, t) \<Rightarrow> (e, w\<lparr>p_clock := t, p_selects := Suc (p_selects w)\<rparr>))"

fun coordination_loop ::
  "nat \<Rightarrow> redis_coordinator \<Rightarrow> ctx \<Rightarrow> string \<Rightarrow> string \<Rightarrow> string \<Rightarrow> string \<Rightarrow> creation \<Rightarrow> pworld \<Rightarrow>
   ((product_error + order \<times> bool) \<times> pworld) option" where
  "coordination_loop 0 co c rk lk token fp fn w = None"
| "coordination_loop (Suc n) co c rk lk token fp fn w =
     (case load_result rk w of
        (Inl e, w1) \<Rightarrow> Some (Inl e, w1)
      | (Inr (Some r), w1) \<Rightarrow> Some (cached_answer fp r, w1)
      | (Inr None, w1) \<Rightarrow>
          (case redis_call (redis_setnx lk (Token token) (rc_lock_ttl co)) w1 of
             (Inl e, w2) \<Rightarrow> Some (Inl (Wrapped [] Err_coordination_unavailable ('': '' @ error_text e)), w2)
           | (Inr True, w2) \<Rightarrow> Some (coordinator_execute co rk lk token fp fn w2)
           | (Inr False, w2) \<Rightarrow>
               (case poll_wait co c w2 of
                  (Some e, w3) \<Rightarrow> Some (Inl (Ctx_done e), w3)
                | (None, w3) \<Rightarrow> coordination_loop n co c rk lk token fp fn w3)))"

definition coordinator_do ::
  "nat \<Rightarrow> digest \<Rightarrow> redis_coordinator \<Rightarrow> ctx \<Rightarrow> string \<Rightarrow> string \<Rightarrow> string \<Rightarrow> creation \<Rightarrow> pworld \<Rightarrow>
   ((product_error + order \<times> bool) \<times> pworld) option" where
  "coordinator_do fuel sha co c t k fp fn w =
     (let rk = coordination_key sha (rc_prefix co) ''result'' t k;
          lk = coordination_key sha (rc_prefix co) ''lock'' t k
      in case random_token w of
           (token, w') \<Rightarrow> coordination_loop fuel co c rk lk token fp fn w')"

end
