(* ===== verification/Contracts.thy ===== *)
theory Contracts
  imports Product_Model
begin

text \<open>
  The interfaces of \<open>internal/product/contracts.go\<close> with the promises their users rely on. An
  \<open>order_repository\<close> works on a world with an invariant and a relation \<open>evolves\<close> between an earlier and
  a later world; it answers requests with orders that are and remain \<open>recorded\<close>, and reports a
  conflict only for a request whose key is \<open>taken\<close>; an order it calls new is \<open>fresh\<close>. An \<open>idempotency_coordinator\<close> may replace the
  repository's answer by an earlier one, an order that is still \<open>shown\<close> by the record.
  \<open>coordinated_create\<close> is how the service uses both: it coordinates the creation and creates
  without coordination when the coordinator is unavailable.
\<close>

definition create_closure ::
  "('q \<Rightarrow> 'w \<Rightarrow> (product_error + order \<times> bool) \<times> 'w) \<Rightarrow> (bool \<Rightarrow> 'w \<Rightarrow> 'w) \<Rightarrow> 'q \<Rightarrow> 'w \<Rightarrow> (product_error + order) \<times> 'w" where
  "create_closure create remember q w =
     (case create q w of
        (Inl e, w') \<Rightarrow> (Inl e, remember False w')
      | (Inr (ord, replayed), w') \<Rightarrow> (Inr ord, remember replayed w'))"

definition coordinated_create ::
  "('q \<Rightarrow> ('w \<Rightarrow> (product_error + order) \<times> 'w) \<Rightarrow> 'w \<Rightarrow> ((product_error + order \<times> bool) \<times> 'w) option) \<Rightarrow>
   ('q \<Rightarrow> 'w \<Rightarrow> (product_error + order \<times> bool) \<times> 'w) \<Rightarrow> (bool \<Rightarrow> 'w \<Rightarrow> 'w) \<Rightarrow> ('w \<Rightarrow> 'w) \<Rightarrow> 'q \<Rightarrow> 'w \<Rightarrow>
   ((product_error + order \<times> bool) \<times> 'w) option" where
  "coordinated_create coordinate create remember note_fallback q w =
     (case coordinate q (create_closure create remember q) (remember False w) of
        None \<Rightarrow> None
      | Some (Inr (ord, replayed), w1) \<Rightarrow> Some (Inr (ord, replayed), w1)
      | Some (Inl e, w1) \<Rightarrow>
          if \<not> product_is e Err_coordination_unavailable then Some (Inl e, w1)
          else case create q (note_fallback w1) of
                 (Inl e', w2) \<Rightarrow> Some (Inl e', remember False w2)
               | (Inr (ord, replayed), w2) \<Rightarrow> Some (Inr (ord, False), remember replayed w2))"

locale order_repository =
  fixes sound :: "'w \<Rightarrow> bool"
    and evolves :: "'w \<Rightarrow> 'w \<Rightarrow> bool"
    and recorded :: "'q \<Rightarrow> order \<Rightarrow> 'w \<Rightarrow> bool"
    and taken :: "'q \<Rightarrow> 'w \<Rightarrow> bool"
    and fresh :: "'q \<Rightarrow> order \<Rightarrow> 'w \<Rightarrow> bool"
    and create :: "'q \<Rightarrow> 'w \<Rightarrow> (product_error + order \<times> bool) \<times> 'w"
  assumes evolves_refl: "evolves w w"
    and evolves_trans: "evolves a b \<Longrightarrow> evolves b c \<Longrightarrow> evolves a c"
    and sound_evolves: "sound w \<Longrightarrow> evolves w w' \<Longrightarrow> sound w'"
    and recorded_evolves: "recorded q ord w \<Longrightarrow> evolves w w' \<Longrightarrow> recorded q ord w'"
    and taken_evolves: "taken q w \<Longrightarrow> evolves w w' \<Longrightarrow> taken q w'"
    and create_evolves: "sound w \<Longrightarrow> create q w = (res, w') \<Longrightarrow> evolves w w'"
    and create_recorded: "sound w \<Longrightarrow> create q w = (Inr (ord, replayed), w') \<Longrightarrow> recorded q ord w'"
    and create_fresh: "sound w \<Longrightarrow> create q w = (Inr (ord, False), w') \<Longrightarrow> fresh q ord w'"
    and fresh_evolves: "fresh q ord w \<Longrightarrow> evolves w w' \<Longrightarrow> fresh q ord w'"
    and create_taken: "sound w \<Longrightarrow> create q w = (Inl e, w') \<Longrightarrow> product_is e Err_idempotency_conflict \<Longrightarrow> taken q w'"

text \<open>A closure that behaves like the repository.\<close>

definition lawful ::
  "('w \<Rightarrow> bool) \<Rightarrow> ('w \<Rightarrow> 'w \<Rightarrow> bool) \<Rightarrow> (order \<Rightarrow> 'w \<Rightarrow> bool) \<Rightarrow> ('w \<Rightarrow> bool) \<Rightarrow>
   ('w \<Rightarrow> (product_error + order) \<times> 'w) \<Rightarrow> bool" where
  "lawful sound evolves recorded taken fn \<longleftrightarrow>
     (\<forall>w res w'. sound w \<longrightarrow> fn w = (res, w') \<longrightarrow> evolves w w' \<and>
        (case res of Inl e \<Rightarrow> product_is e Err_idempotency_conflict \<longrightarrow> taken w' | Inr ord \<Rightarrow> recorded ord w'))"

locale idempotency_coordinator = order_repository sound evolves recorded taken fresh create
  for sound :: "'w \<Rightarrow> bool" and evolves and recorded :: "'q \<Rightarrow> order \<Rightarrow> 'w \<Rightarrow> bool" and taken and fresh and create +
  fixes shown :: "'q \<Rightarrow> order \<Rightarrow> 'w \<Rightarrow> bool"
    and valid :: "'q \<Rightarrow> bool"
    and coordinate :: "'q \<Rightarrow> ('w \<Rightarrow> (product_error + order) \<times> 'w) \<Rightarrow> 'w \<Rightarrow> ((product_error + order \<times> bool) \<times> 'w) option"
    and remember :: "bool \<Rightarrow> 'w \<Rightarrow> 'w"
    and remembered :: "'w \<Rightarrow> bool"
    and note_fallback :: "'w \<Rightarrow> 'w"
  assumes recorded_shown: "recorded q ord w \<Longrightarrow> shown q ord w"
    and remember_evolves: "evolves w (remember b w)"
    and remembered_remember: "remembered (remember b w) = b"
    and fallback_evolves: "evolves w (note_fallback w)"
    and coordinate_lawful: "valid q \<Longrightarrow> lawful sound evolves (recorded q) (taken q) fn \<Longrightarrow> sound w \<Longrightarrow>
      coordinate q fn w = Some (res, w') \<Longrightarrow> evolves w w' \<and>
        (case res of Inl e \<Rightarrow> product_is e Err_idempotency_conflict \<longrightarrow> taken q w' | Inr (ord, _) \<Rightarrow> shown q ord w')"
    and coordinate_created: "valid q \<Longrightarrow> lawful sound evolves (recorded q) (taken q) fn \<Longrightarrow> sound w \<Longrightarrow>
      coordinate q fn w = Some (Inr (ord, False), w') \<Longrightarrow>
      \<exists>v v'. sound v \<and> fn v = (Inr ord, v') \<and> evolves v' w' \<and> remembered w' = remembered v'"
    and shown_evolves: "shown q ord w \<Longrightarrow> evolves w w' \<Longrightarrow> shown q ord w'"
begin

lemma create_closure_lawful: "lawful sound evolves (recorded q) (taken q) (create_closure create remember q)"
  unfolding lawful_def
proof (intro allI impI)
  fix w res w'
  assume w: "sound w" and c: "create_closure create remember q w = (res, w')"
  obtain r w1 where k: "create q w = (r, w1)" by fastforce
  have later: "evolves w w1" by (rule create_evolves [OF w k])
  obtain b where w': "w' = remember b w1" using c k by (auto simp: create_closure_def split: sum.splits)
  have e: "evolves w1 w'" unfolding w' by (rule remember_evolves)
  have "case res of Inl e \<Rightarrow> product_is e Err_idempotency_conflict \<longrightarrow> taken q w' | Inr ord \<Rightarrow> recorded q ord w'"
  proof (cases r)
    case (Inl x)
    then have "res = Inl x" using c k by (simp add: create_closure_def)
    then show ?thesis using create_taken [OF w k [unfolded Inl]] taken_evolves [OF _ e] by auto
  next
    case (Inr x)
    obtain ord replayed where x: "x = (ord, replayed)" by fastforce
    have "res = Inr ord" using c k Inr x by (simp add: create_closure_def)
    then show ?thesis using create_recorded [OF w k [unfolded Inr x]] recorded_evolves [OF _ e] by auto
  qed
  then show "evolves w w' \<and> (case res of Inl e \<Rightarrow> product_is e Err_idempotency_conflict \<longrightarrow> taken q w' | Inr ord \<Rightarrow> recorded q ord w')"
    using evolves_trans [OF later e] by simp
qed

text \<open>Whatever the coordinator does within its contract, a coordinated creation answers like the repository.\<close>

lemma coordinated_create_lawful:
  assumes "sound w" and "valid q" and "coordinated_create coordinate create remember note_fallback q w = Some (res, w')"
  shows "evolves w w' \<and>
    (case res of Inl e \<Rightarrow> product_is e Err_idempotency_conflict \<longrightarrow> taken q w' | Inr (ord, _) \<Rightarrow> shown q ord w')"
proof -
  obtain r w1 where co: "coordinate q (create_closure create remember q) (remember False w) = Some (r, w1)"
    using assms(3) by (auto simp: coordinated_create_def split: option.splits)
  have s0: "sound (remember False w)" by (rule sound_evolves [OF assms(1) remember_evolves])
  note C = coordinate_lawful [OF assms(2) create_closure_lawful s0 co]
  then have e1: "evolves w w1" using evolves_trans [OF remember_evolves] by blast
  show ?thesis
  proof (cases "\<exists>e. r = Inl e \<and> product_is e Err_coordination_unavailable")
    case False
    then have "res = r \<and> w' = w1"
      using assms(3) co by (auto simp: coordinated_create_def split: sum.splits if_splits)
    then show ?thesis using C e1 by auto
  next
    case True
    let ?w1 = "note_fallback w1"
    have e2: "evolves w ?w1" by (rule evolves_trans [OF e1 fallback_evolves])
    have s2: "sound ?w1" by (rule sound_evolves [OF assms(1) e2])
    obtain r2 w2 where k: "create q ?w1 = (r2, w2)" by fastforce
    have e3: "evolves w w2" by (rule evolves_trans [OF e2 create_evolves [OF s2 k]])
    show ?thesis
    proof (cases r2)
      case (Inl e)
      then have "res = Inl e" "w' = remember False w2"
        using assms(3) co True k by (auto simp: coordinated_create_def)
      then show ?thesis
        using create_taken [OF s2 k [unfolded Inl]] taken_evolves [OF _ remember_evolves] evolves_trans [OF e3 remember_evolves]
        by auto
    next
      case (Inr x)
      obtain ord replayed where x: "x = (ord, replayed)" by fastforce
      have "res = Inr (ord, False)" "w' = remember replayed w2"
        using assms(3) co True k Inr x by (auto simp: coordinated_create_def)
      then show ?thesis
        using shown_evolves [OF recorded_shown [OF create_recorded [OF s2 k [unfolded Inr x]]] remember_evolves]
          evolves_trans [OF e3 remember_evolves] by auto
    qed
  qed
qed

text \<open>An order that is reported as new was created in this call.\<close>

lemma coordinated_create_fresh:
  assumes "sound w" and "valid q"
    and "coordinated_create coordinate create remember note_fallback q w = Some (Inr (ord, False), w')"
    and "\<not> remembered w'"
  shows "fresh q ord w'"
proof -
  obtain r w1 where co: "coordinate q (create_closure create remember q) (remember False w) = Some (r, w1)"
    using assms(3) by (auto simp: coordinated_create_def split: option.splits)
  have s0: "sound (remember False w)" by (rule sound_evolves [OF assms(1) remember_evolves])
  note C = coordinate_lawful [OF assms(2) create_closure_lawful s0 co]
  show ?thesis
  proof (cases r)
    case Inr
    then have res: "r = Inr (ord, False)" "w' = w1" using assms(3) co by (auto simp: coordinated_create_def)
    obtain v v' where v: "sound v" "create_closure create remember q v = (Inr ord, v')" "evolves v' w1" "remembered w1 = remembered v'"
      using coordinate_created [OF assms(2) create_closure_lawful s0 co [unfolded res(1)]] by blast
    obtain b v1 where k: "create q v = (Inr (ord, b), v1)" "v' = remember b v1"
      using v(2) by (auto simp: create_closure_def split: prod.splits sum.splits)
    have "\<not> b" using v(4) k(2) assms(4) res(2) by (simp add: remembered_remember)
    then have "fresh q ord v1" using create_fresh [OF v(1)] k(1) by simp
    from fresh_evolves [OF fresh_evolves [OF this remember_evolves] v(3) [unfolded k(2)]] res(2) show ?thesis by simp
  next
    case (Inl e)
    let ?w1 = "note_fallback w1"
    have "evolves w ?w1"
      using C evolves_trans [OF remember_evolves evolves_trans [OF _ fallback_evolves]] by blast
    then have s2: "sound ?w1" by (rule sound_evolves [OF assms(1)])
    obtain b w2 where k: "create q ?w1 = (Inr (ord, b), w2)" "w' = remember b w2"
      using assms(3) co Inl by (auto simp: coordinated_create_def split: prod.splits sum.splits if_splits)
    have "\<not> b" using k(2) assms(4) by (simp add: remembered_remember)
    then have "fresh q ord w2" using create_fresh [OF s2] k(1) by simp
    from fresh_evolves [OF this remember_evolves] show ?thesis by (simp add: k(2))
  qed
qed

end

end
