(* ===== verification/Coordinator_Properties.thy ===== *)
theory Coordinator_Properties
  imports Coordinator Repository_Properties Contracts
begin

text \<open>
  What the coordinator guarantees next to other clients of Redis and of the database: a cached
  result is always the row of its key (\<open>cache_ok\<close>), which every client that runs this code keeps;
  the lock of a key has one holder at a time; and \<open>Do\<close> returns when its context ends.
\<close>

section \<open>Honest caches\<close>

text \<open>How an order that a client saw relates to its row: the database rounds its times, JSON repairs its text.\<close>

definition stored_order :: "(gotime \<Rightarrow> gotime) \<Rightarrow> order \<Rightarrow> order" where
  "stored_order stored ord = ord\<lparr>created_at := stored (created_at ord), updated_at := stored (updated_at ord)\<rparr>"

definition row_of :: "(gotime \<Rightarrow> gotime) \<Rightarrow> order \<Rightarrow> order_row \<Rightarrow> bool" where
  "row_of stored ord r \<longleftrightarrow> ow_order r = ord \<or> ow_order r = stored_order stored ord"

definition shows_row :: "(gotime \<Rightarrow> gotime) \<Rightarrow> order \<Rightarrow> order_row \<Rightarrow> bool" where
  "shows_row stored ord r \<longleftrightarrow>
     (\<exists>ord0. row_of stored ord0 r \<and> (ord = ord0 \<or> ord = json_order ord0))"

type_synonym scope_key = "string \<times> string \<Rightarrow> string"

definition result_key :: "digest \<Rightarrow> redis_coordinator \<Rightarrow> scope_key" where
  "result_key sha co s = coordination_key sha (rc_prefix co) ''result'' (fst s) (snd s)"

definition lock_key :: "digest \<Rightarrow> redis_coordinator \<Rightarrow> scope_key" where
  "lock_key sha co s = coordination_key sha (rc_prefix co) ''lock'' (fst s) (snd s)"

lemma lock_not_result: "lock_key sha co s \<noteq> result_key sha co s'"
  by (simp add: lock_key_def result_key_def coordination_key_def)

definition honest :: "scope_key \<Rightarrow> (gotime \<Rightarrow> gotime) \<Rightarrow> database \<Rightarrow> string \<Rightarrow> coordination_result \<Rightarrow> bool" where
  "honest rk stored db K c \<longleftrightarrow>
     (\<exists>r \<in> set (order_rows db). rk (row_scope r) = K \<and> co_fingerprint c = ow_fingerprint r \<and>
        shows_row stored (co_order c) r)"

definition cache_ok :: "scope_key \<Rightarrow> (gotime \<Rightarrow> gotime) \<Rightarrow> database \<times> redis \<Rightarrow> bool" where
  "cache_ok rk stored st \<longleftrightarrow>
     (\<forall>K c t. snd st K = Some (Encoded c, t) \<longrightarrow> honest rk stored (fst st) K c)"

definition others_cache :: "scope_key \<Rightarrow> pworld \<Rightarrow> bool" where
  "others_cache rk w \<longleftrightarrow>
     (\<forall>n held st. cache_ok rk (p_stored w) st \<longrightarrow> cache_ok rk (p_stored w) (p_others w n held st))"

text \<open>Everything that is assumed of the world at the start and kept by the program.\<close>

definition world_ok :: "scope_key \<Rightarrow> pworld \<Rightarrow> bool" where
  "world_ok rk w \<longleftrightarrow> others_rely w \<and> faults_external w \<and> others_cache rk w \<and> db_ok (p_db w) \<and>
     cache_ok rk (p_stored w) (p_db w, p_redis w)"

definition world_step :: "scope_key \<Rightarrow> pworld \<Rightarrow> pworld \<Rightarrow> bool" where
  "world_step rk w w' \<longleftrightarrow> db_evolves (p_db w) (p_db w') \<and> same_env w w' \<and> p_clock w \<le> p_clock w' \<and>
     (others_cache rk w \<longrightarrow> others_rely w \<longrightarrow> cache_ok rk (p_stored w) (p_db w, p_redis w) \<longrightarrow>
        cache_ok rk (p_stored w') (p_db w', p_redis w'))"

lemma others_cache_env: "same_env w w' \<Longrightarrow> others_cache rk w \<Longrightarrow> others_cache rk w'"
  by (simp add: same_env_def others_cache_def)

lemma world_step_refl [simp]: "world_step rk w w"
  by (simp add: world_step_def)

lemma world_step_trans: "world_step rk a b \<Longrightarrow> world_step rk b c \<Longrightarrow> world_step rk a c"
  unfolding world_step_def
  by (auto intro: db_evolves_trans same_env_trans dest: others_cache_env others_rely_env)

lemma world_step_ok: "world_ok rk w \<Longrightarrow> world_step rk w w' \<Longrightarrow> world_ok rk w'"
  by (auto simp: world_ok_def world_step_def db_evolves_def intro: others_cache_env others_rely_env faults_external_env)

lemma honest_grows: "honest rk stored db K c \<Longrightarrow> db_evolves db db' \<Longrightarrow> honest rk stored db' K c"
  by (auto simp: honest_def dest: db_evolves_rows)

lemma cache_ok_rows: "cache_ok rk stored (db, rd) \<Longrightarrow> set (order_rows db) \<subseteq> set (order_rows db') \<Longrightarrow> cache_ok rk stored (db', rd)"
  by (fastforce simp: cache_ok_def honest_def)

section \<open>The repository keeps the cache honest\<close>

definition cache_kept :: "scope_key \<Rightarrow> (gotime \<Rightarrow> gotime) \<Rightarrow> database \<times> redis \<Rightarrow> database \<times> redis \<Rightarrow> bool" where
  "cache_kept rk stored st st' \<longleftrightarrow> (cache_ok rk stored st \<longrightarrow> cache_ok rk stored st')"

interpretation cached: table_relation "cache_kept rk stored" for rk stored
  by unfold_locales (auto simp: cache_kept_def elim: cache_ok_rows)

lemma repo_create_world_step:
  assumes "world_ok rk w" and "repo_create_order req w = (res, w')"
  shows "world_step rk w w'" and "create_answer req res w'"
proof -
  have "others_rely w" "faults_external w" "db_ok (p_db w)" using assms(1) by (simp_all add: world_ok_def)
  note R = repo_create_answer [OF this assms(2)]
  show "world_step rk w w'"
    using R cached.repo_create_calls [OF assms(2), of rk "p_stored w"]
    by (auto simp: repo_step_def calls_step_def world_step_def same_env_def cache_kept_def others_cache_def)
  show "create_answer req res w'" using R by simp
qed

section \<open>One Redis command\<close>

lemma redis_cases:
  assumes "redis_call f w = (res, w')" and "others_rely w"
  obtains rd where "world_step rk w (w'\<lparr>p_redis := rd\<rparr>)" "same_env w w'"
    "p_draws w' = p_draws w" "p_replayed w' = p_replayed w" "p_selects w' = p_selects w"
    "(case f (p_clock w') rd of (res', rd') \<Rightarrow>
        p_redis w' = rd' \<and> res = res' \<or>
        (\<exists>e applied n. res = Inl e \<and> p_faults w n = Some (e, applied) \<and> (p_redis w' = rd' \<or> p_redis w' = rd)))"
proof -
  let ?st = "p_others w (p_calls w) nothing_pending (p_db w, p_redis w)"
  have ev: "db_evolves (p_db w) (fst ?st)"
    using assms(2) unfolding others_rely_def by (blast dest: db_relyD(1))
  obtain res1 rd1 where f: "f (p_clock w + int (p_delays w (p_calls w))) (snd ?st) = (res1, rd1)" by fastforce
  have w': "p_db w' = fst ?st" "p_clock w' = p_clock w + int (p_delays w (p_calls w))" "same_env w w'"
    "p_draws w' = p_draws w" "p_replayed w' = p_replayed w" "p_selects w' = p_selects w"
    "p_redis w' = rd1 \<and> res = res1 \<or>
        (\<exists>e applied n. res = Inl e \<and> p_faults w n = Some (e, applied) \<and> (p_redis w' = rd1 \<or> p_redis w' = snd ?st))"
    using assms(1) f
    by (auto simp: redis_call_def external_call_def Let_def same_env_def case_prod_beta split: option.splits if_splits)
  have "others_cache rk w \<Longrightarrow> cache_ok rk (p_stored w) (p_db w, p_redis w) \<Longrightarrow> cache_ok rk (p_stored w) ?st"
    by (simp add: others_cache_def)
  then have "world_step rk w (w'\<lparr>p_redis := snd ?st\<rparr>)"
    using ev w'(1-3) by (simp add: world_step_def same_env_def)
  then show thesis using that [of "snd ?st"] w' f by simp
qed

text \<open>A command that writes at most what is honest is a step of the world.\<close>

lemma redis_world_step:
  assumes "redis_call f w = (res, w')" and "world_ok rk w"
    and "\<And>now rd res' rd' K c t db. f now rd = (res', rd') \<Longrightarrow> rd' K = Some (Encoded c, t) \<Longrightarrow>
      db_evolves (p_db w) db \<Longrightarrow> rd K = Some (Encoded c, t) \<or> honest rk (p_stored w) db K c"
  shows "world_step rk w w'"
proof -
  have oth: "others_rely w" using assms(2) by (simp add: world_ok_def)
  obtain rd where rd: "world_step rk w (w'\<lparr>p_redis := rd\<rparr>)" "same_env w w'"
    "p_draws w' = p_draws w" "p_replayed w' = p_replayed w" "p_selects w' = p_selects w"
    "case f (p_clock w') rd of (res', rd') \<Rightarrow>
        p_redis w' = rd' \<and> res = res' \<or>
        (\<exists>e applied n. res = Inl e \<and> p_faults w n = Some (e, applied) \<and> (p_redis w' = rd' \<or> p_redis w' = rd))"
    by (rule redis_cases [OF assms(1) oth, where rk = rk], rule that)
  have c0: "cache_ok rk (p_stored w) (p_db w', rd)"
    using rd(1,2) assms(2) by (auto simp: world_step_def world_ok_def same_env_def)
  have ev: "db_evolves (p_db w) (p_db w')" using rd(1) by (simp add: world_step_def)
  obtain res' rd' where f: "f (p_clock w') rd = (res', rd')" by fastforce
  have c1: "cache_ok rk (p_stored w) (p_db w', rd')"
  proof -
    have "honest rk (p_stored w) (p_db w') K c" if "rd' K = Some (Encoded c, t)" for K c t
      using assms(3) [OF f that ev] c0 by (auto simp: cache_ok_def)
    then show ?thesis by (simp add: cache_ok_def)
  qed
  have "p_redis w' = rd' \<or> p_redis w' = rd" using rd(6) f by auto
  then have "cache_ok rk (p_stored w) (p_db w', p_redis w')" using c0 c1 by auto
  with rd(1,2) show ?thesis by (simp add: world_step_def same_env_def)
qed

section \<open>Answers of the coordinator\<close>

definition scope_taken :: "scope_key \<Rightarrow> pworld \<Rightarrow> string \<times> string \<Rightarrow> string \<Rightarrow> bool" where
  "scope_taken rk w s fp \<longleftrightarrow> (\<exists>r \<in> set (order_rows (p_db w)). rk (row_scope r) = rk s \<and> ow_fingerprint r \<noteq> fp)"

definition scope_row :: "scope_key \<Rightarrow> (order \<Rightarrow> order_row \<Rightarrow> bool) \<Rightarrow> pworld \<Rightarrow> string \<times> string \<Rightarrow> string \<Rightarrow> order \<Rightarrow> bool" where
  "scope_row rk S w s fp ord \<longleftrightarrow>
     (\<exists>r \<in> set (order_rows (p_db w)). rk (row_scope r) = rk s \<and> ow_fingerprint r = fp \<and> S ord r)"

text \<open>An answer is an order of the row of the key and fingerprint; a conflict means another fingerprint has the key.\<close>

definition answer_ok :: "scope_key \<Rightarrow> string \<times> string \<Rightarrow> string \<Rightarrow> product_error + order \<times> bool \<Rightarrow> pworld \<Rightarrow> bool" where
  "answer_ok rk s fp res w \<longleftrightarrow>
     (case res of
        Inl e \<Rightarrow> product_is e Err_idempotency_conflict \<longrightarrow> scope_taken rk w s fp
      | Inr (ord, _) \<Rightarrow> scope_row rk (shows_row (p_stored w)) w s fp ord)"

definition creation_ok :: "scope_key \<Rightarrow> string \<times> string \<Rightarrow> string \<Rightarrow> creation \<Rightarrow> bool" where
  "creation_ok rk s fp fn \<longleftrightarrow>
     (\<forall>w res w'. world_ok rk w \<longrightarrow> fn w = (res, w') \<longrightarrow> world_step rk w w' \<and>
        (case res of
           Inl e \<Rightarrow> product_is e Err_idempotency_conflict \<longrightarrow> scope_taken rk w' s fp
         | Inr ord \<Rightarrow> scope_row rk (row_of (p_stored w')) w' s fp ord))"

lemma scope_taken_step: "scope_taken rk w s fp \<Longrightarrow> world_step rk w w' \<Longrightarrow> scope_taken rk w' s fp"
  by (auto simp: scope_taken_def world_step_def dest: db_evolves_rows)

lemma scope_row_step: "scope_row rk S w s fp ord \<Longrightarrow> world_step rk w w' \<Longrightarrow> scope_row rk S w' s fp ord"
  by (auto simp: scope_row_def world_step_def dest: db_evolves_rows)

lemma scope_row_mono: "scope_row rk S w s fp ord \<Longrightarrow> (\<And>r. S ord r \<Longrightarrow> S' ord' r) \<Longrightarrow> scope_row rk S' w s fp ord'"
  by (auto simp: scope_row_def)

lemma world_step_stored: "world_step rk w w' \<Longrightarrow> p_stored w' = p_stored w"
  by (simp add: world_step_def same_env_def)

lemma answer_ok_step: "answer_ok rk s fp res w \<Longrightarrow> world_step rk w w' \<Longrightarrow> answer_ok rk s fp res w'"
  by (auto simp: answer_ok_def world_step_stored intro: scope_taken_step scope_row_step split: sum.splits)

lemma redis_error_not_conflict [simp]:
  "\<not> product_is (Wrapped [] Err_coordination_unavailable text) Err_idempotency_conflict"
  by simp

lemma load_result_cases:
  assumes "world_ok rk w" and "load_result K w = (res, w')"
  shows "world_step rk w w'" and "res = Inr (Some c) \<Longrightarrow> honest rk (p_stored w') (p_db w') K c"
    and "res = Inl e \<Longrightarrow> product_is e Err_coordination_unavailable \<and> \<not> product_is e Err_idempotency_conflict"
    and "p_draws w' = p_draws w \<and> p_replayed w' = p_replayed w \<and> p_selects w' = p_selects w"
proof -
  obtain v w1 where g: "redis_call (redis_get K) w = (v, w1)" by fastforce
  have w1: "w1 = w'" using assms(2) g by (auto simp: load_result_def split: sum.splits if_splits cached.splits)
  show step: "world_step rk w w'"
    unfolding w1 [symmetric]
    by (rule redis_world_step [OF g assms(1)]) (auto simp: redis_get_def split: option.splits)
  have oth: "others_rely w" using assms(1) by (simp add: world_ok_def)
  obtain rd where rd: "world_step rk w (w1\<lparr>p_redis := rd\<rparr>)" "same_env w w1"
    "p_draws w1 = p_draws w" "p_replayed w1 = p_replayed w" "p_selects w1 = p_selects w"
    "case redis_get K (p_clock w1) rd of (res', rd') \<Rightarrow>
        p_redis w1 = rd' \<and> v = res' \<or>
        (\<exists>e applied n. v = Inl e \<and> p_faults w n = Some (e, applied) \<and> (p_redis w1 = rd' \<or> p_redis w1 = rd))"
    by (rule redis_cases [OF g oth, where rk = rk], rule that)
  show "p_draws w' = p_draws w \<and> p_replayed w' = p_replayed w \<and> p_selects w' = p_selects w" using rd(3-5) w1 by simp
  show "res = Inl e \<Longrightarrow> product_is e Err_coordination_unavailable \<and> \<not> product_is e Err_idempotency_conflict"
    using assms(2) g by (auto simp: load_result_def split: sum.splits if_splits cached.splits)
  show "honest rk (p_stored w') (p_db w') K c" if "res = Inr (Some c)"
  proof -
    have v: "v = Inr (Encoded c)"
      using assms(2) g that by (auto simp: load_result_def split: sum.splits if_splits cached.splits)
    then have "\<exists>t. rd K = Some (Encoded c, t)"
      using rd(6) by (auto simp: redis_get_def live_value_def split: option.splits if_splits)
    moreover have "cache_ok rk (p_stored w') (p_db w', rd)"
      using rd(1,2) assms(1) w1 by (auto simp: world_step_def world_ok_def same_env_def)
    ultimately show ?thesis by (auto simp: cache_ok_def)
  qed
qed

lemma cached_answer_ok:
  assumes "honest rk (p_stored w) (p_db w) (rk s) c"
  shows "answer_ok rk s fp (cached_answer fp c) w"
  using assms by (auto simp: honest_def cached_answer_def answer_ok_def scope_taken_def scope_row_def)

lemma release_lock_step:
  assumes "world_ok rk w"
  shows "world_step rk w (release_lock K token w)"
proof -
  obtain v w1 where g: "redis_call (release_script K token) w = (v, w1)" by fastforce
  have "world_step rk w w1"
    by (rule redis_world_step [OF g assms]) (auto simp: release_script_def split: if_splits)
  then show ?thesis by (simp add: release_lock_def g)
qed

lemma store_result_cases:
  assumes "world_ok rk w" and "scope_row rk (row_of (p_stored w)) w s fp ord" and "valid_text fp = fp"
    and "store_result co (rk s) fp ord w = (res, w')"
  shows "world_step rk w w' \<and> answer_ok rk s fp res w'"
proof (cases "marshal_result \<lparr>co_fingerprint = fp, co_order = ord\<rparr>")
  case (Inl e)
  then have "\<not> product_is e Err_idempotency_conflict" by (auto simp: marshal_result_def split: if_splits)
  then show ?thesis using assms(4) Inl by (auto simp: store_result_def answer_ok_def)
next
  case (Inr v)
  have v: "v = Encoded \<lparr>co_fingerprint = fp, co_order = json_order ord\<rparr>"
    using Inr assms(3) by (simp add: marshal_result_def split: if_splits)
  obtain r w1 where g: "redis_call (redis_set (rk s) v (rc_result_ttl co)) w = (r, w1)" by fastforce
  have honest: "honest rk (p_stored w) db (rk s) \<lparr>co_fingerprint = fp, co_order = json_order ord\<rparr>"
    if "db_evolves (p_db w) db" for db
    using assms(2) db_evolves_rows [OF that] by (fastforce simp: scope_row_def honest_def shows_row_def)
  have step: "world_step rk w w1"
    by (rule redis_world_step [OF g assms(1)]) (auto simp: redis_set_def v honest split: if_splits)
  have "scope_row rk (shows_row (p_stored w1)) w1 s fp ord"
    using scope_row_mono [OF scope_row_step [OF assms(2) step], of "shows_row (p_stored w1)" ord]
      world_step_stored [OF step] by (auto simp: shows_row_def)
  then show ?thesis
    using assms(4) Inr g step by (auto simp: store_result_def answer_ok_def split: sum.splits)
qed

lemma execute_locked_sound:
  assumes "world_ok rk w" and "creation_ok rk s fp fn" and "valid_text fp = fp"
    and "execute_locked co (rk s) fp fn w = (res, w')"
  shows "world_step rk w w' \<and> answer_ok rk s fp res w'"
proof -
  obtain l w1 where l: "load_result (rk s) w = (l, w1)" by fastforce
  note L = load_result_cases [OF assms(1) l]
  have ok1: "world_ok rk w1" by (rule world_step_ok [OF assms(1) L(1)])
  consider (err) e where "l = Inl e" | (hit) c where "l = Inr (Some c)" | (miss) "l = Inr None"
    by (metis sum.exhaust option.exhaust)
  then show ?thesis
  proof cases
    case err
    then show ?thesis using assms(4) l L by (auto simp: execute_locked_def answer_ok_def)
  next
    case hit
    then show ?thesis using assms(4) l L(1) cached_answer_ok [OF L(2) [OF hit]] by (auto simp: execute_locked_def)
  next
    case miss
    obtain r w2 where f: "fn w1 = (r, w2)" by fastforce
    have F: "world_step rk w1 w2" "case r of
           Inl e \<Rightarrow> product_is e Err_idempotency_conflict \<longrightarrow> scope_taken rk w2 s fp
         | Inr ord \<Rightarrow> scope_row rk (row_of (p_stored w2)) w2 s fp ord"
      using assms(2) ok1 f unfolding creation_ok_def by blast+
    have s2: "world_step rk w w2" by (rule world_step_trans [OF L(1) F(1)])
    show ?thesis
    proof (cases r)
      case (Inl e)
      then show ?thesis using assms(4) l miss f s2 F(2) by (auto simp: execute_locked_def answer_ok_def)
    next
      case (Inr ord)
      have st: "store_result co (rk s) fp ord w2 = (res, w')" using assms(4) l miss f Inr by (simp add: execute_locked_def)
      have row: "scope_row rk (row_of (p_stored w2)) w2 s fp ord" using F(2) Inr by simp
      show ?thesis
        using store_result_cases [OF world_step_ok [OF ok1 F(1)] row assms(3) st] world_step_trans [OF s2] by blast
    qed
  qed
qed

lemma coordinator_execute_sound:
  assumes "world_ok rk w" and "creation_ok rk s fp fn" and "valid_text fp = fp"
    and "coordinator_execute co (rk s) lk token fp fn w = (res, w')"
  shows "world_step rk w w' \<and> answer_ok rk s fp res w'"
proof -
  obtain r w1 where b: "execute_locked co (rk s) fp fn w = (r, w1)" by fastforce
  have B: "world_step rk w w1" "answer_ok rk s fp r w1" using execute_locked_sound [OF assms(1-3) b] by simp_all
  have w': "res = r" "w' = release_lock lk token w1" using assms(4) b by (simp_all add: coordinator_execute_def)
  have R: "world_step rk w1 w'" unfolding w' by (rule release_lock_step [OF world_step_ok [OF assms(1) B(1)]])
  show ?thesis using world_step_trans [OF B(1) R] answer_ok_step [OF B(2) R] w' by simp
qed

lemma poll_wait_step: "poll_wait co c w = (e, w') \<Longrightarrow> world_step rk w w'"
  using select_timer_time(1) [of "p_clock w" "p_ties w (p_selects w)" c "rc_poll co"]
  by (auto simp: poll_wait_def world_step_def same_env_def split: prod.splits)

lemma coordination_loop_sound:
  assumes "creation_ok rk s fp fn" and "valid_text fp = fp"
  shows "world_ok rk w \<Longrightarrow> coordination_loop n co c (rk s) lk token fp fn w = Some (res, w') \<Longrightarrow>
    world_step rk w w' \<and> answer_ok rk s fp res w'"
proof (induction n arbitrary: w)
  case 0
  then show ?case by simp
next
  case (Suc n)
  obtain l w1 where l: "load_result (rk s) w = (l, w1)" by fastforce
  note L = load_result_cases [OF Suc.prems(1) l]
  have ok1: "world_ok rk w1" by (rule world_step_ok [OF Suc.prems(1) L(1)])
  consider (err) e where "l = Inl e" | (hit) r where "l = Inr (Some r)" | (miss) "l = Inr None"
    by (metis sum.exhaust option.exhaust)
  then show ?case
  proof cases
    case err
    then show ?thesis using Suc.prems(2) l L by (auto simp: answer_ok_def)
  next
    case hit
    then show ?thesis using Suc.prems(2) l L(1) cached_answer_ok [OF L(2) [OF hit]] by auto
  next
    case miss
    obtain a w2 where g: "redis_call (redis_setnx lk (Token token) (rc_lock_ttl co)) w1 = (a, w2)" by fastforce
    have G: "world_step rk w1 w2"
      by (rule redis_world_step [OF g ok1]) (auto simp: redis_setnx_def split: if_splits)
    have s2: "world_step rk w w2" by (rule world_step_trans [OF L(1) G])
    have ok2: "world_ok rk w2" by (rule world_step_ok [OF ok1 G])
    consider (fault) e where "a = Inl e" | (acquired) "a = Inr True" | (held) "a = Inr False"
      by (metis sum.exhaust)
    then show ?thesis
    proof cases
      case fault
      then show ?thesis using Suc.prems(2) l miss g s2 by (auto simp: answer_ok_def)
    next
      case acquired
      then have "coordinator_execute co (rk s) lk token fp fn w2 = (res, w')" using Suc.prems(2) l miss g by simp
      from coordinator_execute_sound [OF ok2 assms this] show ?thesis using world_step_trans [OF s2] by blast
    next
      case held
      obtain e w3 where p: "poll_wait co c w2 = (e, w3)" by fastforce
      have s3: "world_step rk w2 w3" by (rule poll_wait_step [OF p])
      show ?thesis
      proof (cases e)
        case None
        then have "coordination_loop n co c (rk s) lk token fp fn w3 = Some (res, w')"
          using Suc.prems(2) l miss g held p by simp
        from Suc.IH [OF world_step_ok [OF ok2 s3] this] show ?thesis
          using world_step_trans [OF world_step_trans [OF s2 s3]] by blast
      next
        case (Some x)
        then show ?thesis
          using Suc.prems(2) l miss g held p world_step_trans [OF s2 s3] by (auto simp: answer_ok_def)
      qed
    qed
  qed
qed

lemma random_token_step: "random_token w = (token, w') \<Longrightarrow> world_step rk w w'"
  by (auto simp: random_token_def draw_bytes_def world_step_def same_env_def split: option.splits)

lemma coordinator_sound:
  assumes "creation_ok (result_key sha co) (t, k) fp fn" and "valid_text fp = fp"
    and "world_ok (result_key sha co) w" and "coordinator_do fuel sha co c t k fp fn w = Some (res, w')"
  shows "world_step (result_key sha co) w w' \<and> answer_ok (result_key sha co) (t, k) fp res w'"
proof -
  obtain token w1 where d: "random_token w = (token, w1)" by fastforce
  have s1: "world_step (result_key sha co) w w1" by (rule random_token_step [OF d])
  have "coordination_loop fuel co c (result_key sha co (t, k)) (coordination_key sha (rc_prefix co) ''lock'' t k) token fp fn w1 =
      Some (res, w')"
    using assms(4) d by (simp add: coordinator_do_def result_key_def)
  from coordination_loop_sound [OF assms(1,2) world_step_ok [OF assms(3) s1] this] show ?thesis
    using world_step_trans [OF s1] by blast
qed

section \<open>New orders come from the closure\<close>

lemma redis_call_replayed: "redis_call f w = (res, w') \<Longrightarrow> p_replayed w' = p_replayed w"
  by (auto simp: redis_call_def external_call_def Let_def case_prod_beta split: option.splits if_splits)

lemma coordinator_execute_created:
  assumes "world_ok rk w" and "creation_ok rk s fp fn" and "valid_text fp = fp"
    and "coordinator_execute co (rk s) lk token fp fn w = (Inr (ord, False), w')"
  shows "\<exists>v v'. world_ok rk v \<and> fn v = (Inr ord, v') \<and> world_step rk v' w' \<and> p_replayed w' = p_replayed v'"
proof -
  obtain r w1 where b: "execute_locked co (rk s) fp fn w = (r, w1)" by fastforce
  have w': "r = Inr (ord, False)" "w' = release_lock lk token w1" using assms(4) b by (simp_all add: coordinator_execute_def)
  have ok1: "world_ok rk w1" using execute_locked_sound [OF assms(1-3) b] world_step_ok [OF assms(1)] by blast
  have R: "world_step rk w1 w'" "p_replayed w' = p_replayed w1"
    unfolding w'(2) using release_lock_step [OF ok1] redis_call_replayed [OF surjective_pairing, of "release_script lk token" w1]
    by (auto simp: release_lock_def)
  obtain l v where l: "load_result (rk s) w = (l, v)" by fastforce
  have okv: "world_ok rk v" by (rule world_step_ok [OF assms(1) load_result_cases(1) [OF assms(1) l]])
  obtain x v' where f: "fn v = (x, v')" by fastforce
  have "l = Inr None" using b l w'(1)
    by (auto simp: execute_locked_def cached_answer_def split: sum.splits option.splits if_splits)
  moreover then obtain o' where x: "x = Inr o'" using b l w'(1) f by (auto simp: execute_locked_def split: sum.splits)
  ultimately have st: "store_result co (rk s) fp o' v' = (Inr (ord, False), w1)"
    using b l w'(1) f by (simp add: execute_locked_def)
  have F: "world_step rk v v'" "scope_row rk (row_of (p_stored v')) v' s fp o'"
    using assms(2) okv f x unfolding creation_ok_def by fastforce+
  have "o' = ord" "p_replayed w1 = p_replayed v'"
    using st by (auto simp: store_result_def split: sum.splits prod.splits dest: redis_call_replayed)
  moreover have "world_step rk v' w1"
    using store_result_cases [OF world_step_ok [OF okv F(1)] F(2) assms(3) st] by simp
  ultimately show ?thesis using okv f x R world_step_trans by auto
qed

lemma coordination_loop_created:
  assumes "creation_ok rk s fp fn" and "valid_text fp = fp"
  shows "world_ok rk w \<Longrightarrow> coordination_loop n co c (rk s) lk token fp fn w = Some (Inr (ord, False), w') \<Longrightarrow>
    \<exists>v v'. world_ok rk v \<and> fn v = (Inr ord, v') \<and> world_step rk v' w' \<and> p_replayed w' = p_replayed v'"
proof (induction n arbitrary: w)
  case 0
  then show ?case by simp
next
  case (Suc n)
  obtain l w1 where l: "load_result (rk s) w = (l, w1)" by fastforce
  have ok1: "world_ok rk w1" by (rule world_step_ok [OF Suc.prems(1) load_result_cases(1) [OF Suc.prems(1) l]])
  obtain a w2 where g: "redis_call (redis_setnx lk (Token token) (rc_lock_ttl co)) w1 = (a, w2)" by fastforce
  have "world_step rk w1 w2"
    by (rule redis_world_step [OF g ok1]) (auto simp: redis_setnx_def split: if_splits)
  then have ok2: "world_ok rk w2" by (rule world_step_ok [OF ok1])
  obtain e w3 where p: "poll_wait co c w2 = (e, w3)" by fastforce
  have ok3: "world_ok rk w3" by (rule world_step_ok [OF ok2 poll_wait_step [OF p]])
  have "l = Inr None" using Suc.prems(2) l by (auto simp: cached_answer_def split: sum.splits option.splits if_splits)
  then consider "coordinator_execute co (rk s) lk token fp fn w2 = (Inr (ord, False), w')"
    | "coordination_loop n co c (rk s) lk token fp fn w3 = Some (Inr (ord, False), w')"
    using Suc.prems(2) l g p by (auto split: sum.splits bool.splits option.splits)
  then show ?case
  proof cases
    case 1
    then show ?thesis by (rule coordinator_execute_created [OF ok2 assms])
  next
    case 2
    then show ?thesis by (rule Suc.IH [OF ok3])
  qed
qed

lemma coordinator_created:
  assumes "creation_ok (result_key sha co) (t, k) fp fn" and "valid_text fp = fp"
    and "world_ok (result_key sha co) w" and "coordinator_do fuel sha co c t k fp fn w = Some (Inr (ord, False), w')"
  shows "\<exists>v v'. world_ok (result_key sha co) v \<and> fn v = (Inr ord, v') \<and> world_step (result_key sha co) v' w' \<and>
    p_replayed w' = p_replayed v'"
proof -
  obtain token w1 where d: "random_token w = (token, w1)" by fastforce
  have "coordination_loop fuel co c (result_key sha co (t, k)) (coordination_key sha (rc_prefix co) ''lock'' t k) token fp fn w1 =
      Some (Inr (ord, False), w')"
    using assms(4) d by (simp add: coordinator_do_def result_key_def)
  from coordination_loop_created [OF assms(1,2) world_step_ok [OF assms(3) random_token_step [OF d]] this] show ?thesis .
qed

section \<open>The contracts hold\<close>

definition order_recorded :: "scope_key \<Rightarrow> create_order_request \<Rightarrow> order \<Rightarrow> pworld \<Rightarrow> bool" where
  "order_recorded rk q ord w \<longleftrightarrow> scope_row rk (row_of (p_stored w)) w (request_scope q) (rq_fingerprint q) ord"

definition order_shown :: "scope_key \<Rightarrow> create_order_request \<Rightarrow> order \<Rightarrow> pworld \<Rightarrow> bool" where
  "order_shown rk q ord w \<longleftrightarrow> scope_row rk (shows_row (p_stored w)) w (request_scope q) (rq_fingerprint q) ord"

definition order_taken :: "scope_key \<Rightarrow> create_order_request \<Rightarrow> pworld \<Rightarrow> bool" where
  "order_taken rk q w \<longleftrightarrow> scope_taken rk w (request_scope q) (rq_fingerprint q)"

definition order_fresh :: "create_order_request \<Rightarrow> order \<Rightarrow> pworld \<Rightarrow> bool" where
  "order_fresh q ord w \<longleftrightarrow> order_row_of q ord (p_stored w) \<in> set (order_rows (p_db w)) \<and>
     (\<exists>oid now n. ord = new_order q oid now n)"

lemma create_answer_recorded:
  assumes "create_answer q (Inr (ord, replayed)) w"
  shows "order_recorded rk q ord w"
proof (cases replayed)
  case True
  then obtain r where "r \<in> set (order_rows (p_db w))" "answers q ord r" using assms by (auto simp: create_answer_def)
  then show ?thesis
    unfolding order_recorded_def scope_row_def by (intro bexI [of _ r]) (simp_all add: answers_def row_of_def)
next
  case False
  let ?r = "order_row_of q ord (p_stored w)"
  have "?r \<in> set (order_rows (p_db w))" "\<exists>oid now n. ord = new_order q oid now n"
    using assms False by (auto simp: create_answer_def)
  then show ?thesis
    unfolding order_recorded_def scope_row_def
    by (intro bexI [of _ ?r])
      (auto simp: row_of_def stored_order_def order_row_of_def row_scope_def request_scope_def new_order_def)
qed

interpretation repository: order_repository "world_ok rk" "world_step rk" "order_recorded rk" "order_taken rk" order_fresh repo_create_order
  for rk
proof
  show "world_step rk w w" for w by simp
  show "world_step rk a c" if "world_step rk a b" "world_step rk b c" for a b c using that by (rule world_step_trans)
  show "world_ok rk w'" if "world_ok rk w" "world_step rk w w'" for w w' using that by (rule world_step_ok)
  show "order_recorded rk q ord w'" if "order_recorded rk q ord w" "world_step rk w w'" for q ord w w'
    using that by (auto simp: order_recorded_def world_step_stored intro: scope_row_step)
  show "order_taken rk q w'" if "order_taken rk q w" "world_step rk w w'" for q w w'
    using that by (auto simp: order_taken_def intro: scope_taken_step)
  show "world_step rk w w'" if "world_ok rk w" "repo_create_order q w = (res, w')" for w q res w'
    using that by (rule repo_create_world_step(1))
  show "order_recorded rk q ord w'" if "world_ok rk w" "repo_create_order q w = (Inr (ord, replayed), w')" for w q ord replayed w'
    using repo_create_world_step(2) [OF that] by (rule create_answer_recorded)
  show "order_fresh q ord w'" if "world_ok rk w" "repo_create_order q w = (Inr (ord, False), w')" for w q ord w'
    using repo_create_world_step(2) [OF that] by (simp add: create_answer_def order_fresh_def)
  show "order_fresh q ord w'" if "order_fresh q ord w" "world_step rk w w'" for q ord w w'
    using that by (auto simp: order_fresh_def world_step_stored) (auto simp: world_step_def dest: db_evolves_rows)
  show "order_taken rk q w'" if "world_ok rk w" "repo_create_order q w = (Inl e, w')" "product_is e Err_idempotency_conflict"
    for w q e w'
  proof -
    note hyp = that
    obtain r where "r \<in> set (order_rows (p_db w'))" "row_scope r = request_scope q \<and> ow_fingerprint r \<noteq> rq_fingerprint q"
      using repo_create_world_step(2) [OF hyp(1,2)] hyp(3) by (auto simp: create_answer_def)
    then show ?thesis unfolding order_taken_def scope_taken_def by (intro bexI [of _ r]) simp_all
  qed
qed

lemma lawful_creation:
  "lawful (world_ok rk) (world_step rk) (order_recorded rk q) (order_taken rk q) fn \<longleftrightarrow>
   creation_ok rk (request_scope q) (rq_fingerprint q) fn"
  unfolding lawful_def creation_ok_def order_recorded_def order_taken_def ..

definition remember_replayed :: "bool \<Rightarrow> pworld \<Rightarrow> pworld" where
  "remember_replayed b w = w\<lparr>p_replayed := b\<rparr>"

definition record_fallback :: "bool \<Rightarrow> pworld \<Rightarrow> pworld" where
  "record_fallback metrics w = (if metrics then w\<lparr>p_fallback_metric := Suc (p_fallback_metric w)\<rparr> else w)"

definition coordinate_request ::
  "nat \<Rightarrow> digest \<Rightarrow> redis_coordinator \<Rightarrow> ctx \<Rightarrow> create_order_request \<Rightarrow> creation \<Rightarrow> pworld \<Rightarrow>
   ((product_error + order \<times> bool) \<times> pworld) option" where
  "coordinate_request fuel sha co c q fn = coordinator_do fuel sha co c (rq_tenant q) (rq_key q) (rq_fingerprint q) fn"

interpretation coordination: idempotency_coordinator
  "world_ok (result_key sha co)" "world_step (result_key sha co)" "order_recorded (result_key sha co)"
  "order_taken (result_key sha co)" order_fresh repo_create_order "order_shown (result_key sha co)"
  "\<lambda>q. valid_text (rq_fingerprint q) = rq_fingerprint q" "coordinate_request fuel sha co c"
  remember_replayed p_replayed "record_fallback metrics"
  for sha co fuel c metrics
proof
  show "order_shown (result_key sha co) q ord w" if "order_recorded (result_key sha co) q ord w" for q ord w
    using that unfolding order_recorded_def order_shown_def by (rule scope_row_mono) (auto simp: shows_row_def)
  show "world_step (result_key sha co) w (remember_replayed b w)" for w b
    by (simp add: remember_replayed_def world_step_def same_env_def)
  show "p_replayed (remember_replayed b w) = b" for b w by (simp add: remember_replayed_def)
  show "world_step (result_key sha co) w (record_fallback metrics w)" for w
    by (simp add: record_fallback_def world_step_def same_env_def)
  show "order_shown (result_key sha co) q ord w'" if "order_shown (result_key sha co) q ord w" "world_step (result_key sha co) w w'" for q ord w w'
    using that by (auto simp: order_shown_def world_step_stored intro: scope_row_step)
  fix q fn w
  assume v: "valid_text (rq_fingerprint q) = rq_fingerprint q"
    and l: "lawful (world_ok (result_key sha co)) (world_step (result_key sha co)) (order_recorded (result_key sha co) q) (order_taken (result_key sha co) q) fn"
    and w: "world_ok (result_key sha co) w"
  have cr: "creation_ok (result_key sha co) (rq_tenant q, rq_key q) (rq_fingerprint q) fn"
    using l by (simp add: lawful_creation request_scope_def)
  show "world_step (result_key sha co) w w' \<and>
      (case res of Inl e \<Rightarrow> product_is e Err_idempotency_conflict \<longrightarrow> order_taken (result_key sha co) q w'
       | Inr (ord, _) \<Rightarrow> order_shown (result_key sha co) q ord w')"
    if "coordinate_request fuel sha co c q fn w = Some (res, w')" for res w'
    using coordinator_sound [OF cr v w that [unfolded coordinate_request_def]]
    unfolding answer_ok_def order_taken_def order_shown_def request_scope_def .
  show "\<exists>v v'. world_ok (result_key sha co) v \<and> fn v = (Inr ord, v') \<and> world_step (result_key sha co) v' w' \<and> p_replayed w' = p_replayed v'"
    if "coordinate_request fuel sha co c q fn w = Some (Inr (ord, False), w')" for ord w'
    using coordinator_created [OF cr v w that [unfolded coordinate_request_def]] .
qed

section \<open>Waiting ends with the context\<close>

lemma redis_call_clock: "redis_call f w = (res, w') \<Longrightarrow> p_clock w \<le> p_clock w'"
  by (auto simp: redis_call_def external_call_def Let_def case_prod_beta split: option.splits if_splits)

lemma load_result_clock: "load_result K w = (res, w') \<Longrightarrow> p_clock w \<le> p_clock w'"
  by (auto simp: load_result_def split: prod.splits sum.splits if_splits cached.splits dest: redis_call_clock)

lemma poll_wait_continues:
  assumes "poll_wait co c w = (None, w')" and "done_at c = Some (t, e)" and "0 < rc_poll co"
  shows "p_clock w + rc_poll co \<le> t \<and> p_clock w' = p_clock w + rc_poll co"
  using assms by (auto simp: poll_wait_def select_timer_def Let_def split: prod.splits if_splits)

text \<open>As many rounds as polls fit before the deadline are enough.\<close>

lemma coordination_loop_returns:
  assumes c: "done_at c = Some (t, e)" and "0 < rc_poll co"
  shows "0 < n \<Longrightarrow> t - p_clock w < int n * rc_poll co \<Longrightarrow> \<exists>r. coordination_loop n co c rk lk token fp fn w = Some r"
proof (induction n arbitrary: w)
  case 0
  then show ?case by simp
next
  case (Suc n)
  obtain l w1 where l: "load_result rk w = (l, w1)" by fastforce
  obtain a w2 where g: "redis_call (redis_setnx lk (Token token) (rc_lock_ttl co)) w1 = (a, w2)" by fastforce
  obtain x w3 where p: "poll_wait co c w2 = (x, w3)" by fastforce
  have later: "p_clock w \<le> p_clock w2" using load_result_clock [OF l] redis_call_clock [OF g] by simp
  show ?case
  proof (cases "l = Inr None \<and> a = Inr False \<and> x = None")
    case True
    have now: "p_clock w2 + rc_poll co \<le> t" "p_clock w3 = p_clock w2 + rc_poll co"
      using poll_wait_continues [OF _ c assms(2), of w2 w3] p True by simp_all
    have "rc_poll co < int (Suc n) * rc_poll co" using Suc.prems(2) later now(1) by linarith
    then have "0 < n" using assms(2) by (cases n) simp_all
    moreover have "t - p_clock w3 < int n * rc_poll co"
      using Suc.prems(2) later now(2) by (simp add: distrib_right)
    ultimately obtain r where "coordination_loop n co c rk lk token fp fn w3 = Some r" using Suc.IH by blast
    then show ?thesis using l g p True by simp
  next
    case False
    then show ?thesis using l g p by (auto split: sum.splits option.splits bool.splits)
  qed
qed

lemma coordination_loop_more: "coordination_loop n co c rk lk token fp fn w = Some r \<Longrightarrow> n \<le> m \<Longrightarrow>
    coordination_loop m co c rk lk token fp fn w = Some r"
proof (induction n arbitrary: w m)
  case 0
  then show ?case by simp
next
  case (Suc n)
  obtain m' where m: "m = Suc m'" "n \<le> m'" using Suc.prems(2) by (cases m) auto
  show ?case using Suc.prems(1) Suc.IH [OF _ m(2)] unfolding m(1)
    by (auto split: prod.splits sum.splits option.splits bool.splits)
qed

text \<open>
  C29. Coordination ends. When the context has a deadline, \<open>Do\<close> returns after at most as many rounds as
  polling intervals fit before it, whatever Redis, the other clients and the closure do, and more
  fuel changes nothing.
\<close>

theorem coordinator_returns:
  assumes "done_at c = Some (t, e)" and "0 < rc_poll co" and "0 < fuel" and "t - p_clock w < int fuel * rc_poll co"
  shows "\<exists>r. \<forall>more \<ge> fuel. coordinator_do more sha co c tenant key fp fn w = Some r"
proof -
  obtain token w1 where d: "random_token w = (token, w1)" by fastforce
  have "p_clock w1 = p_clock w" using d by (auto simp: random_token_def draw_bytes_def split: option.splits)
  then have "t - p_clock w1 < int fuel * rc_poll co" using assms(4) by simp
  then obtain r where "coordination_loop fuel co c (coordination_key sha (rc_prefix co) ''result'' tenant key)
      (coordination_key sha (rc_prefix co) ''lock'' tenant key) token fp fn w1 = Some r"
    using coordination_loop_returns [OF assms(1-3)] by blast
  from coordination_loop_more [OF this] d
  show ?thesis by (intro exI [of _ r] allI impI) (simp add: coordinator_do_def)
qed

theorem coordinator_returns_witness:
  "\<exists>r. coordinator_do 51 (\<lambda>_. []) (new_redis_coordinator ''lab'') (with_timeout background (p_clock quiet_world) second)
     ''t'' ''k'' ''f'' (\<lambda>w. (Inl Err_not_found, w)) quiet_world = Some r"
  using coordinator_returns [of "with_timeout background (p_clock quiet_world) second" "p_clock quiet_world + second"
      CtxDeadlineExceeded "new_redis_coordinator ''lab''" 51 quiet_world "\<lambda>_. []" "''t''" "''k''" "''f''"
      "\<lambda>w. (Inl Err_not_found, w)"]
  by (auto simp: with_timeout_def background_def time_add_def new_redis_coordinator_def go_duration_defs)

section \<open>The lock of a key\<close>

text \<open>
  The life of one lock among any number of clients: a client that acquired it holds it until it runs
  the release; a command may be carried out although its caller gets an error; Redis drops expired
  keys; everything else leaves the lock alone. Tokens that reached Redis are not used again.
\<close>

record lock_state =
  ls_now :: gotime
  ls_redis :: redis
  ls_held :: "string \<rightharpoonup> gotime"
  ls_spent :: "string set"

inductive lock_step :: "string \<Rightarrow> duration \<Rightarrow> lock_state \<Rightarrow> lock_state \<Rightarrow> bool" for K :: string and ttl :: duration where
  elapse: "ls_now s \<le> t \<Longrightarrow> lock_step K ttl s (s\<lparr>ls_now := t\<rparr>)"
| acquire: "token \<notin> ls_spent s \<Longrightarrow> redis_setnx K (Token token) ttl (ls_now s) (ls_redis s) = (Inr True, rd) \<Longrightarrow>
    lock_step K ttl s (s\<lparr>ls_redis := rd, ls_held := (ls_held s)(token \<mapsto> ls_now s), ls_spent := insert token (ls_spent s)\<rparr>)"
| lost: "token \<notin> ls_spent s \<Longrightarrow> redis_setnx K (Token token) ttl (ls_now s) (ls_redis s) = (Inr True, rd) \<Longrightarrow>
    lock_step K ttl s (s\<lparr>ls_redis := rd, ls_spent := insert token (ls_spent s)\<rparr>)"
| refused: "redis_setnx K (Token token) ttl (ls_now s) (ls_redis s) = (Inr False, rd) \<Longrightarrow>
    lock_step K ttl s (s\<lparr>ls_redis := rd\<rparr>)"
| release: "ls_held s token = Some a \<Longrightarrow> release_script K token (ls_now s) (ls_redis s) = (Inr n, rd) \<Longrightarrow>
    rd' = rd \<or> rd' = ls_redis s \<Longrightarrow> lock_step K ttl s (s\<lparr>ls_redis := rd', ls_held := (ls_held s)(token := None)\<rparr>)"
| crash: "lock_step K ttl s (s\<lparr>ls_held := (ls_held s)(token := None)\<rparr>)"
| elsewhere: "rd K = ls_redis s K \<or> live_value (ls_now s) (ls_redis s) K = None \<and> rd K = None \<Longrightarrow>
    lock_step K ttl s (s\<lparr>ls_redis := rd\<rparr>)"

inductive lock_reachable :: "string \<Rightarrow> duration \<Rightarrow> lock_state \<Rightarrow> bool" for K :: string and ttl :: duration where
  start: "lock_reachable K ttl \<lparr>ls_now = t, ls_redis = rd, ls_held = Map.empty, ls_spent = {}\<rparr>"
| move: "lock_reachable K ttl s \<Longrightarrow> lock_step K ttl s s' \<Longrightarrow> lock_reachable K ttl s'"

inductive_cases lock_stepE: "lock_step K ttl s s'"

text \<open>A fresh lease is in Redis under its token, and the holders are clients whose token reached Redis.\<close>

definition lease_ok :: "string \<Rightarrow> duration \<Rightarrow> lock_state \<Rightarrow> bool" where
  "lease_ok K ttl s \<longleftrightarrow> (\<forall>token a. ls_held s token = Some a \<longrightarrow> token \<in> ls_spent s \<and>
     (ls_now s < a + ttl \<longrightarrow> ls_redis s K = Some (Token token, a + ttl)))"

lemma lease_ok_live: "lease_ok K ttl s \<Longrightarrow> ls_held s token = Some a \<Longrightarrow> ls_now s < a + ttl \<Longrightarrow>
    live_value (ls_now s) (ls_redis s) K = Some (Token token)"
  by (simp add: lease_ok_def live_value_def)

lemma setnx_True: "redis_setnx K v ttl now rd = (Inr True, rd') \<Longrightarrow> live_value now rd K = None \<and> rd' = rd(K \<mapsto> (v, now + ttl))"
  by (simp add: redis_setnx_def split: if_splits)

lemma lease_ok_step:
  assumes "lock_step K ttl s s'" and ok: "lease_ok K ttl s"
  shows "lease_ok K ttl s'"
  using assms(1)
proof (cases rule: lock_step.cases)
  case (elapse t)
  then show ?thesis using ok by (fastforce simp: lease_ok_def)
next
  case (acquire token rd)
  then show ?thesis
    using ok lease_ok_live [OF ok] setnx_True [OF acquire(3)] by (auto simp: lease_ok_def)
next
  case (lost token rd)
  then show ?thesis
    using ok lease_ok_live [OF ok] setnx_True [OF lost(3)] by (auto simp: lease_ok_def)
next
  case (refused token rd)
  then show ?thesis using ok by (auto simp: lease_ok_def redis_setnx_def split: if_splits)
next
  case (release token a n rd rd')
  then show ?thesis using ok lease_ok_live [OF ok] by (auto simp: lease_ok_def release_script_def split: if_splits)
next
  case (crash token)
  then show ?thesis using ok by (auto simp: lease_ok_def)
next
  case (elsewhere rd)
  then show ?thesis using ok lease_ok_live [OF ok] by (auto simp: lease_ok_def)
qed

lemma lease_ok_reachable: "lock_reachable K ttl s \<Longrightarrow> lease_ok K ttl s"
  by (induction rule: lock_reachable.induct) (simp add: lease_ok_def, erule (1) lease_ok_step)

text \<open>
  C28. Mutual exclusion. In every interleaving of clients, lost answers and crashes, two clients that
  both hold the lock of a key and whose leases have not run out are the same client; a client whose
  lease ran out cannot remove the lock of the next one.
\<close>

theorem coordinator_mutual_exclusion:
  assumes "lock_reachable K ttl s" and "ls_held s x = Some a" and "ls_now s < a + ttl"
  shows "(ls_held s y = Some b \<longrightarrow> ls_now s < b + ttl \<longrightarrow> x = y) \<and>
    (y \<noteq> x \<longrightarrow> snd (release_script K y (ls_now s) (ls_redis s)) = ls_redis s) \<and>
    fst (redis_setnx K (Token y) ttl (ls_now s) (ls_redis s)) = Inr False"
proof -
  have ok: "lease_ok K ttl s" by (rule lease_ok_reachable [OF assms(1)])
  note live = lease_ok_live [OF ok]
  have "live_value (ls_now s) (ls_redis s) K = Some (Token x)" by (rule live [OF assms(2,3)])
  then show ?thesis using live [of y b] by (auto simp: release_script_def redis_setnx_def)
qed

theorem coordinator_mutual_exclusion_witness:
  "\<exists>s. lock_reachable ''K'' (15 * second) s \<and> ls_held s ''A'' = Some 0 \<and>
     fst (redis_setnx ''K'' (Token ''B'') (15 * second) (ls_now s) (ls_redis s)) = Inr False"
proof -
  let ?s0 = "\<lparr>ls_now = 0, ls_redis = Map.empty, ls_held = Map.empty, ls_spent = {}\<rparr>"
  let ?s1 = "?s0\<lparr>ls_redis := [''K'' \<mapsto> (Token ''A'', 15 * second)], ls_held := [''A'' \<mapsto> 0], ls_spent := {''A''}\<rparr>"
  have "lock_step ''K'' (15 * second) ?s0 ?s1"
    using lock_step.acquire [of "''A''" ?s0 "''K''" "15 * second"]
    by (simp add: redis_setnx_def live_value_def)
  then have r: "lock_reachable ''K'' (15 * second) ?s1" by (rule lock_reachable.move [OF lock_reachable.start])
  have "fst (redis_setnx ''K'' (Token ''B'') (15 * second) (ls_now ?s1) (ls_redis ?s1)) = Inr False"
    using coordinator_mutual_exclusion [OF r, of "''A''" 0 "''B''"] by (simp add: go_duration_defs)
  with r show ?thesis by (intro exI [of _ ?s1]) simp
qed

end
