(* ===== verification/Product_Service.thy ===== *)
theory Product_Service
  imports Coordinator_Properties
begin

text \<open>
  The product's order service, \<open>internal/product/service.go\<close>. \<open>CreateOrder\<close> validates, fingerprints the
  request, coordinates the creation through Redis and falls back to the repository's uniqueness when
  Redis is unavailable (\<open>coordinated_create\<close> of \<open>Contracts\<close>). The closure variable
  \<open>repositoryReplayed\<close> is \<open>p_replayed\<close> of the world. Logging is left out. \<open>strings.ToLower\<close> of a
  metric label is taken on ASCII letters; the program passes \<open>api\<close>, \<open>stripe\<close> and \<open>shopify\<close>.
\<close>

record product_service =
  ps_sha :: digest
  ps_coordinator :: redis_coordinator
  ps_metrics :: bool
  ps_webhook_url :: string
  ps_max_attempts :: int

definition new_product_service :: "digest \<Rightarrow> redis_coordinator \<Rightarrow> bool \<Rightarrow> string \<Rightarrow> int \<Rightarrow> product_service" where
  "new_product_service sha co metrics url n =
     \<lparr>ps_sha = sha, ps_coordinator = co, ps_metrics = metrics, ps_webhook_url = url, ps_max_attempts = n\<rparr>"

definition fingerprint_text :: "create_order_input \<Rightarrow> string \<Rightarrow> string \<Rightarrow> string" where
  "fingerprint_text inp source external = in_event_id inp @ [CHR 0x00] @ show_int (in_quantity inp) @ [CHR 0x00] @
     source @ [CHR 0x00] @ external"

definition order_fingerprint :: "digest \<Rightarrow> create_order_input \<Rightarrow> string \<Rightarrow> string \<Rightarrow> string" where
  "order_fingerprint sha inp source external = hex_encode (sha (fingerprint_text inp source external))"

definition record_order :: "product_service \<Rightarrow> string \<Rightarrow> string \<Rightarrow> pworld \<Rightarrow> pworld" where
  "record_order s result source w =
     (let labels = (result, map lower_ascii source)
      in if ps_metrics s then w\<lparr>p_order_metric := (p_order_metric w)(labels := Suc (p_order_metric w labels))\<rparr> else w)"

definition invalid_create :: "string \<Rightarrow> string \<Rightarrow> string \<Rightarrow> string \<Rightarrow> create_order_input \<Rightarrow> bool" where
  "invalid_create t k source external inp \<longleftrightarrow>
     t = [] \<or> 100 < length t \<or> k = [] \<or> 200 < length k \<or> source = [] \<or> 50 < length source \<or>
     external = [] \<or> 200 < length external \<or> in_event_id inp = [] \<or> 200 < length (in_event_id inp) \<or>
     in_quantity inp < 1 \<or> 12 < in_quantity inp"

definition invalid_create_error :: product_error where
  "invalid_create_error = Wrapped [] Err_invalid_input (
     '': tenant, idempotency key, source, external_id and event_id are required and bounded; '' @
     ''quantity must be between 1 and 12'')"

definition service_request ::
  "product_service \<Rightarrow> string \<Rightarrow> string \<Rightarrow> string \<Rightarrow> string \<Rightarrow> create_order_input \<Rightarrow> create_order_request" where
  "service_request s t k source external inp =
     \<lparr>rq_tenant = t, rq_key = k, rq_fingerprint = order_fingerprint (ps_sha s) inp source external, rq_source = source,
      rq_external_id = external, rq_event_id = in_event_id inp, rq_quantity = in_quantity inp,
      rq_webhook_url = ps_webhook_url s, rq_max_attempts = ps_max_attempts s\<rparr>"

text \<open>What is done with the outcome of the creation.\<close>

definition service_outcome ::
  "product_service \<Rightarrow> string \<Rightarrow> product_error + order \<times> bool \<Rightarrow> pworld \<Rightarrow> (product_error + order_result) \<times> pworld" where
  "service_outcome s source res w =
     (case res of
        Inl e \<Rightarrow> (Inl e, record_order s (if product_is e Err_idempotency_conflict then ''conflict'' else ''failed'') source w)
      | Inr (ord, coordination_replayed) \<Rightarrow>
          (let replayed = coordination_replayed \<or> p_replayed w
           in (Inr \<lparr>or_order = ord, or_replayed = replayed\<rparr>,
               record_order s (if replayed then ''replayed'' else ''created'') source w)))"

definition product_create_order ::
  "nat \<Rightarrow> product_service \<Rightarrow> ctx \<Rightarrow> string \<Rightarrow> string \<Rightarrow> string \<Rightarrow> string \<Rightarrow> create_order_input \<Rightarrow> pworld \<Rightarrow>
   ((product_error + order_result) \<times> pworld) option" where
  "product_create_order fuel s c t k source0 external0 inp w =
     (let source = (if source0 = [] then ''api'' else source0);
          external = (if external0 = [] then in_event_id inp else external0)
      in if invalid_create t k source external inp
         then Some (Inl invalid_create_error, record_order s ''invalid'' source w)
         else map_option (\<lambda>(res, w'). service_outcome s source res w')
                (coordinated_create (coordinate_request fuel (ps_sha s) (ps_coordinator s) c) repo_create_order
                   remember_replayed (record_fallback (ps_metrics s)) (service_request s t k source external inp) w))"

definition product_get_order :: "string \<Rightarrow> string \<Rightarrow> pworld \<Rightarrow> (product_error + order) \<times> pworld" where
  "product_get_order = repo_get_order"

definition product_list_orders :: "string \<Rightarrow> int \<Rightarrow> pworld \<Rightarrow> (product_error + order list) \<times> pworld" where
  "product_list_orders = repo_list_orders"

definition known_status :: "delivery_status \<Rightarrow> bool" where
  "known_status st \<longleftrightarrow> st = delivery_pending \<or> st = delivery_processing \<or> st = delivery_delivered \<or> st = delivery_dead_letter"

definition product_list_deliveries ::
  "string \<Rightarrow> delivery_status \<Rightarrow> int \<Rightarrow> pworld \<Rightarrow> (product_error + webhook_delivery list) \<times> pworld" where
  "product_list_deliveries t st limit w =
     (if st \<noteq> [] \<and> \<not> known_status st then (Inl (Wrapped [] Err_invalid_input '': unknown delivery status''), w)
      else repo_list_deliveries t st limit w)"

definition product_replay_delivery :: "string \<Rightarrow> string \<Rightarrow> pworld \<Rightarrow> product_error option \<times> pworld" where
  "product_replay_delivery = repo_replay_delivery"

definition product_ready :: "pworld \<Rightarrow> product_error option \<times> pworld" where
  "product_ready w =
     (case repo_ping w of
        (Some e, w') \<Rightarrow> (Some e, w')
      | (None, w') \<Rightarrow> coordinator_ping w')"

section \<open>Fingerprints\<close>

lemma valid_text_hex [simp]: "valid_text (hex_encode bs) = hex_encode bs"
proof (rule valid_text_ascii)
  show "ascii (hex_encode bs)" unfolding ascii_def using hex_encode_chars [of _ bs] by fastforce
qed

lemma service_request_fields [simp]:
  "rq_tenant (service_request s t k source external inp) = t" "rq_key (service_request s t k source external inp) = k"
  "rq_fingerprint (service_request s t k source external inp) = order_fingerprint (ps_sha s) inp source external"
  "request_scope (service_request s t k source external inp) = (t, k)"
  "valid_text (order_fingerprint sha inp source external) = order_fingerprint sha inp source external"
  by (simp_all add: service_request_def request_scope_def order_fingerprint_def)

lemma nul_separated_unique:
  assumes "CHR 0x00 \<notin> set a" "CHR 0x00 \<notin> set a'" and "a @ CHR 0x00 # b = a' @ CHR 0x00 # b'"
  shows "a = a' \<and> b = b'"
proof -
  have "takeWhile (\<lambda>c. c \<noteq> CHR 0x00) (x @ CHR 0x00 # y) = x" if "CHR 0x00 \<notin> set x" for x y
    using that by (induction x) auto
  from this [OF assms(1), of b] this [OF assms(2), of b'] have "a = a'" by (simp add: assms(3))
  then show ?thesis using assms(3) by simp
qed

lemma fingerprint_text_inject:
  assumes "CHR 0x00 \<notin> set (in_event_id i)" "CHR 0x00 \<notin> set (in_event_id i')" "CHR 0x00 \<notin> set s" "CHR 0x00 \<notin> set s'"
  shows "fingerprint_text i s x = fingerprint_text i' s' x' \<longleftrightarrow>
    in_event_id i = in_event_id i' \<and> in_quantity i = in_quantity i' \<and> s = s' \<and> x = x'"
proof
  assume "fingerprint_text i s x = fingerprint_text i' s' x'"
  then have "in_event_id i @ CHR 0x00 # show_int (in_quantity i) @ CHR 0x00 # s @ CHR 0x00 # x =
      in_event_id i' @ CHR 0x00 # show_int (in_quantity i') @ CHR 0x00 # s' @ CHR 0x00 # x'"
    by (simp add: fingerprint_text_def)
  from nul_separated_unique [OF assms(1,2) this] have e: "in_event_id i = in_event_id i'"
    "show_int (in_quantity i) @ CHR 0x00 # s @ CHR 0x00 # x = show_int (in_quantity i') @ CHR 0x00 # s' @ CHR 0x00 # x'" by simp_all
  from nul_separated_unique [OF show_int_no_nul show_int_no_nul e(2)] have q: "in_quantity i = in_quantity i'"
    "s @ CHR 0x00 # x = s' @ CHR 0x00 # x'" by simp_all
  from nul_separated_unique [OF assms(3,4) q(2)] e(1) q(1)
  show "in_event_id i = in_event_id i' \<and> in_quantity i = in_quantity i' \<and> s = s' \<and> x = x'" by simp
qed (simp add: fingerprint_text_def)

section \<open>Creating an order\<close>

text \<open>No other key of the table has the digest of this one.\<close>

definition no_collision :: "product_service \<Rightarrow> string \<Rightarrow> string \<Rightarrow> pworld \<Rightarrow> bool" where
  "no_collision s t k w \<longleftrightarrow> (\<forall>r \<in> set (order_rows (p_db w)).
     result_key (ps_sha s) (ps_coordinator s) (row_scope r) = result_key (ps_sha s) (ps_coordinator s) (t, k) \<longrightarrow>
     row_scope r = (t, k))"

lemma record_order_world [simp]:
  "p_db (record_order s result source w) = p_db w" "p_stored (record_order s result source w) = p_stored w"
  "world_ok rk (record_order s result source w) \<longleftrightarrow> world_ok rk w"
  by (auto simp: record_order_def Let_def world_ok_def others_rely_def faults_external_def others_cache_def)

lemma record_order_step [simp]: "world_step rk w (record_order s result source w)"
  by (simp add: record_order_def Let_def world_step_def same_env_def)

lemma order_fresh_record [simp]: "order_fresh q ord (record_order s result source w) \<longleftrightarrow> order_fresh q ord w"
  by (simp add: order_fresh_def)

abbreviation service_key :: "product_service \<Rightarrow> scope_key" where
  "service_key s \<equiv> result_key (ps_sha s) (ps_coordinator s)"

definition service_answer ::
  "product_service \<Rightarrow> create_order_request \<Rightarrow> product_error + order_result \<Rightarrow> pworld \<Rightarrow> bool" where
  "service_answer s q res w \<longleftrightarrow>
     (case res of
        Inl e \<Rightarrow> product_is e Err_idempotency_conflict \<longrightarrow>
          (\<exists>r \<in> set (order_rows (p_db w)). row_scope r = request_scope q \<and> ow_fingerprint r \<noteq> rq_fingerprint q)
      | Inr out \<Rightarrow>
          (\<exists>r \<in> set (order_rows (p_db w)). row_scope r = request_scope q \<and> ow_fingerprint r = rq_fingerprint q \<and>
             shows_row (p_stored w) (or_order out) r) \<and>
          (\<not> or_replayed out \<longrightarrow> order_fresh q (or_order out) w))"

lemma service_create_sound:
  assumes ok: "world_ok (service_key s) w" and valid: "\<not> invalid_create t k source external inp"
    and "product_create_order fuel s c t k source external inp w = Some (res, w')"
    and nc: "no_collision s t k w'"
  shows "world_ok (service_key s) w' \<and> db_grows (p_db w) (p_db w') \<and>
    service_answer s (service_request s t k source external inp) res w'"
proof -
  let ?q = "service_request s t k source external inp"
  have named: "source \<noteq> []" "external \<noteq> []" using valid by (simp_all add: invalid_create_def)
  obtain r w1 where co: "coordinated_create (coordinate_request fuel (ps_sha s) (ps_coordinator s) c) repo_create_order
      remember_replayed (record_fallback (ps_metrics s)) ?q w = Some (r, w1)" and out: "service_outcome s source r w1 = (res, w')"
    using assms(3) named valid by (auto simp: product_create_order_def)
  have v: "valid_text (rq_fingerprint ?q) = rq_fingerprint ?q" by simp
  note L = coordination.coordinated_create_lawful [OF ok v co]
  obtain result where w': "w' = record_order s result source w1"
    using out by (auto simp: service_outcome_def Let_def split: sum.splits)
  have ok1: "world_ok (service_key s) w1" using world_step_ok [OF ok] L by blast
  have sole: "row_scope x = (t, k)" if "x \<in> set (order_rows (p_db w1))" "service_key s (row_scope x) = service_key s (t, k)" for x
    using nc that by (simp add: no_collision_def w')
  have "service_answer s ?q res w'"
  proof (cases r)
    case (Inl e)
    have "res = Inl e" using out Inl by (simp add: service_outcome_def)
    moreover have "\<exists>x \<in> set (order_rows (p_db w1)). row_scope x = (t, k) \<and> ow_fingerprint x \<noteq> rq_fingerprint ?q"
      if "product_is e Err_idempotency_conflict"
      using L that Inl sole unfolding order_taken_def scope_taken_def service_request_fields by auto
    ultimately show ?thesis by (simp add: service_answer_def w')
  next
    case (Inr x)
    obtain ord b where x: "x = (ord, b)" by fastforce
    have "order_shown (service_key s) ?q ord w1" using L Inr x by simp
    then have row: "\<exists>y \<in> set (order_rows (p_db w1)). row_scope y = (t, k) \<and> ow_fingerprint y = rq_fingerprint ?q \<and>
        shows_row (p_stored w1) ord y"
      unfolding order_shown_def scope_row_def service_request_fields using sole by blast
    have res: "res = Inr \<lparr>or_order = ord, or_replayed = b \<or> p_replayed w1\<rparr>"
      using out Inr x by (simp add: service_outcome_def Let_def)
    have "order_fresh ?q ord w1" if "\<not> (b \<or> p_replayed w1)"
      using coordination.coordinated_create_fresh [OF ok v, of fuel c "ps_metrics s" ord w1] co Inr x that by simp
    with row res show ?thesis by (simp add: service_answer_def w')
  qed
  moreover have "db_grows (p_db w) (p_db w')" using L by (simp add: w' world_step_def db_evolves_def)
  ultimately show ?thesis using ok1 by (simp add: w')
qed

text \<open>
  C26. Redis never decides what an order is. Next to any clients that keep the unique indexes and
  cache only rows, and whatever calls to Redis or Postgres fail or lose their answer, a creation that
  succeeds returns the row of its own key and fingerprint, one that is reported as new was created in
  this call, a conflict means that another fingerprint has the key, and the tables and the cache stay
  sound. Keys of the table are assumed not to share a digest.
\<close>

theorem service_answers_from_rows:
  assumes ok: "world_ok (service_key s) w" and valid: "\<not> invalid_create t k source external inp"
    and "product_create_order fuel s c t k source external inp w = Some (res, w')"
    and nc: "no_collision s t k w'"
  shows "world_ok (service_key s) w' \<and> db_grows (p_db w) (p_db w') \<and>
    service_answer s (service_request s t k source external inp) res w'"
  by (rule service_create_sound [OF assms])

text \<open>A request that was answered before: its row is in the table and its result in Redis.\<close>

definition sample_service :: product_service where
  "sample_service = new_product_service (\<lambda>_. [1]) (new_redis_coordinator ''lab'') True ''http://sink'' 5"

definition sample_order_input :: create_order_input where
  "sample_order_input = \<lparr>in_event_id = ''e'', in_quantity = 2\<rparr>"

definition sample_row :: order_row where
  "sample_row = \<lparr>ow_order = new_order sample_create ''ord_1'' 0 1, ow_key = ''k'', ow_fingerprint = ''01'', ow_source = ''api'',
     ow_external_id = ''e''\<rparr>"

definition cached_world :: pworld where
  "cached_world = quiet_world\<lparr>
     p_db := empty_database\<lparr>order_rows := [sample_row], event_rows := [event_row_of (ow_order sample_row) 1 0], last_sequence := 1\<rparr>,
     p_redis := [''lab:result:01'' \<mapsto> (Encoded \<lparr>co_fingerprint = ''01'', co_order = ow_order sample_row\<rparr>, 62135597000 * second)]\<rparr>"

lemma hex_one [simp]: "hex_encode [1] = ''01''"
  by code_simp

lemma sample_key [simp]: "service_key sample_service x = ''lab:result:01''"
  by (simp add: result_key_def coordination_key_def sample_service_def new_product_service_def new_redis_coordinator_def)

lemma cached_world_ok: "world_ok (service_key sample_service) cached_world"
proof -
  have "db_ok (p_db cached_world)"
    by (simp add: db_ok_def cached_world_def used_sequences_def empty_database_def event_of_row_def event_row_of_def
        sample_row_def new_order_def)
  moreover have "cache_ok (service_key sample_service) (p_stored cached_world) (p_db cached_world, p_redis cached_world)"
    by (auto simp: cache_ok_def cached_world_def honest_def sample_row_def shows_row_def row_of_def split: if_splits)
  ultimately show ?thesis
    by (simp add: world_ok_def others_rely_def faults_external_def others_cache_def) (simp add: cached_world_def quiet_world_def)
qed

lemma cached_world_run:
  "\<exists>w'. product_create_order 1 sample_service background ''t'' ''k'' ''api'' ''e'' sample_order_input cached_world =
     Some (Inr \<lparr>or_order = ow_order sample_row, or_replayed = True\<rparr>, w') \<and> p_db w' = p_db cached_world"
proof -
  have v: "\<not> invalid_create ''t'' ''k'' ''api'' ''e'' sample_order_input" by (simp add: invalid_create_def sample_order_input_def)
  have fp: "order_fingerprint (ps_sha sample_service) sample_order_input ''api'' ''e'' = ''01''"
    by (simp add: order_fingerprint_def sample_service_def new_product_service_def)
  have rk: "coordination_key (ps_sha sample_service) (rc_prefix (ps_coordinator sample_service)) ''result'' ''t'' ''k'' = ''lab:result:01''"
    using sample_key [of "(''t'', ''k'')"] by (simp add: result_key_def)
  obtain token w1 where tok: "random_token (remember_replayed False cached_world) = (token, w1)" by fastforce
  have w1: "p_redis w1 = p_redis cached_world" "p_db w1 = p_db cached_world" "p_clock w1 = p_clock quiet_world"
    "p_others w1 = (\<lambda>_ _ st. st)" "p_faults w1 = (\<lambda>_. None)" "p_delays w1 = (\<lambda>_. 0)"
    using tok by (auto simp: random_token_def draw_bytes_def remember_replayed_def cached_world_def quiet_world_def split: option.splits)
  have live: "live_value (p_clock quiet_world) (p_redis cached_world) ''lab:result:01'' =
      Some (Encoded \<lparr>co_fingerprint = ''01'', co_order = ow_order sample_row\<rparr>)"
    by (simp add: live_value_def cached_world_def quiet_world_def go_duration_defs)
  have "order_id (ow_order sample_row) = ''ord_1''" by (simp add: sample_row_def new_order_def)
  then have "load_result ''lab:result:01'' w1 =
      (Inr (Some \<lparr>co_fingerprint = ''01'', co_order = ow_order sample_row\<rparr>),
       w1\<lparr>p_calls := Suc (p_calls w1), p_db := p_db cached_world, p_redis := p_redis cached_world\<rparr>)"
    by (simp add: load_result_def redis_call_def external_call_def Let_def w1 redis_get_def live)
  then show ?thesis
    by (simp add: product_create_order_def v coordinated_create_def coordinate_request_def coordinator_do_def tok fp rk
        cached_answer_def service_outcome_def Let_def w1)
qed

theorem service_answers_from_rows_witness:
  "\<exists>out w'. product_create_order 1 sample_service background ''t'' ''k'' ''api'' ''e'' sample_order_input cached_world = Some (Inr out, w') \<and>
     service_answer sample_service (service_request sample_service ''t'' ''k'' ''api'' ''e'' sample_order_input) (Inr out) w'"
proof -
  obtain w' where run: "product_create_order 1 sample_service background ''t'' ''k'' ''api'' ''e'' sample_order_input cached_world =
      Some (Inr \<lparr>or_order = ow_order sample_row, or_replayed = True\<rparr>, w')" "p_db w' = p_db cached_world"
    using cached_world_run by blast
  have v: "\<not> invalid_create ''t'' ''k'' ''api'' ''e'' sample_order_input" by (simp add: invalid_create_def sample_order_input_def)
  have "no_collision sample_service ''t'' ''k'' w'"
    by (simp add: no_collision_def run(2) cached_world_def sample_row_def row_scope_def new_order_def sample_create_def)
  from service_answers_from_rows [OF cached_world_ok v run(1) this] run(1) show ?thesis by blast
qed

section \<open>Without Redis\<close>

lemma lost_redis_call:
  assumes "p_faults w (p_calls w) = Some (e, applied)"
  shows "\<exists>w'. redis_call f w = (Inl e, w')"
  using assms by (auto simp: redis_call_def external_call_def Let_def case_prod_beta)

lemma unavailable_load:
  assumes "p_faults w (p_calls w) = Some (e, applied)" and "\<not> product_is e Redis_nil"
  shows "\<exists>e' w'. load_result K w = (Inl e', w') \<and> product_is e' Err_coordination_unavailable"
proof -
  obtain w' where "redis_call (redis_get K) w = (Inl e, w')" using lost_redis_call [OF assms(1)] by blast
  then show ?thesis using assms(2) by (simp add: load_result_def)
qed

text \<open>
  C27. Without Redis the service goes on. When the first command to Redis fails, a valid creation is not
  delayed by polling and does not fail for that reason: it is counted as a fallback and answered by
  Postgres alone, with Postgres' own word on whether it is a replay.
\<close>

theorem service_survives_redis:
  assumes "world_ok (service_key s) w" and "\<not> invalid_create t k source external inp" and "ps_metrics s"
    and "p_faults w (p_calls w) = Some (e, applied)"
  shows "\<exists>w1 res w2 w'. world_step (service_key s) w w1 \<and> p_fallback_metric w1 = Suc (p_fallback_metric w) \<and>
    repo_create_order (service_request s t k source external inp) w1 = (res, w2) \<and>
    product_create_order (Suc n) s c t k source external inp w =
      Some (map_sum (\<lambda>e. e) (\<lambda>(ord, replayed). \<lparr>or_order = ord, or_replayed = replayed\<rparr>) res, w') \<and> p_db w' = p_db w2"
proof -
  let ?q = "service_request s t k source external inp"
  let ?w0 = "remember_replayed False w"
  have named: "source \<noteq> []" "external \<noteq> []" using assms(2) by (simp_all add: invalid_create_def)
  obtain token v where tok: "random_token ?w0 = (token, v)" by fastforce
  have v: "p_faults v (p_calls v) = Some (e, applied)" "p_fallback_metric v = p_fallback_metric w"
    using tok assms(4) by (auto simp: random_token_def draw_bytes_def remember_replayed_def split: option.splits)
  have s0: "world_step (service_key s) w ?w0" by (simp add: remember_replayed_def world_step_def same_env_def)
  have s1: "world_step (service_key s) w v" by (rule world_step_trans [OF s0 random_token_step [OF tok]])
  have "external_error e" using assms(1,4) by (auto simp: world_ok_def faults_external_def)
  then have "\<not> product_is e Redis_nil" by (cases e) (simp_all add: external_error_def)
  then obtain e' u where l: "load_result (service_key s (t, k)) v = (Inl e', u)" "product_is e' Err_coordination_unavailable"
    using unavailable_load [OF v(1)] by blast
  have s2: "world_step (service_key s) w u"
    by (rule world_step_trans [OF s1 load_result_cases(1) [OF world_step_ok [OF assms(1) s1] l(1)]])
  have fm: "p_fallback_metric u = p_fallback_metric w"
    using l(1) v(2) by (auto simp: load_result_def redis_call_def external_call_def Let_def case_prod_beta
        split: prod.splits sum.splits option.splits if_splits cached.splits)
  have co: "coordinate_request (Suc n) (ps_sha s) (ps_coordinator s) c ?q fn ?w0 = Some (Inl e', u)" for fn
    using tok l(1) by (simp add: coordinate_request_def coordinator_do_def result_key_def)
  let ?w1 = "record_fallback True u"
  have s3: "world_step (service_key s) w ?w1"
    by (rule world_step_trans [OF s2 coordination.fallback_evolves])
  obtain r w2 where k: "repo_create_order ?q ?w1 = (r, w2)" by fastforce
  have f1: "p_fallback_metric ?w1 = Suc (p_fallback_metric w)" by (simp add: record_fallback_def fm)
  have "\<exists>w'. product_create_order (Suc n) s c t k source external inp w =
      Some (map_sum (\<lambda>e. e) (\<lambda>(ord, replayed). \<lparr>or_order = ord, or_replayed = replayed\<rparr>) r, w') \<and> p_db w' = p_db w2"
  proof (cases r)
    case (Inl x)
    have "coordinated_create (coordinate_request (Suc n) (ps_sha s) (ps_coordinator s) c) repo_create_order
        remember_replayed (record_fallback True) ?q w = Some (Inl x, remember_replayed False w2)"
      unfolding coordinated_create_def co using k Inl by (simp add: l(2))
    then show ?thesis
      by (simp add: product_create_order_def named assms(2,3) service_outcome_def Inl) (simp add: remember_replayed_def)
  next
    case (Inr x)
    obtain ord b where x: "x = (ord, b)" by fastforce
    have "coordinated_create (coordinate_request (Suc n) (ps_sha s) (ps_coordinator s) c) repo_create_order
        remember_replayed (record_fallback True) ?q w = Some (Inr (ord, False), remember_replayed b w2)"
      unfolding coordinated_create_def co using k Inr x by (simp add: l(2))
    then show ?thesis
      by (simp add: product_create_order_def named assms(2,3) service_outcome_def Inr x Let_def) (simp add: remember_replayed_def)
  qed
  with s3 f1 k show ?thesis by blast
qed

theorem service_survives_redis_witness:
  "\<exists>res w'. product_create_order 1 sample_service background ''t'' ''k'' ''api'' ''e'' sample_order_input
     (cached_world\<lparr>p_faults := [0 \<mapsto> (Other_error ''connection refused'', False)]\<rparr>) = Some (res, w')"
proof -
  let ?w = "cached_world\<lparr>p_faults := [0 \<mapsto> (Other_error ''connection refused'', False)]\<rparr>"
  have "world_ok (service_key sample_service) ?w"
    using cached_world_ok by (simp add: world_ok_def others_rely_def others_cache_def faults_external_def external_error_def)
  moreover have "\<not> invalid_create ''t'' ''k'' ''api'' ''e'' sample_order_input" by (simp add: invalid_create_def sample_order_input_def)
  moreover have "ps_metrics sample_service" by (simp add: sample_service_def new_product_service_def)
  moreover have "p_faults ?w (p_calls ?w) = Some (Other_error ''connection refused'', False)"
    by (simp add: cached_world_def quiet_world_def)
  ultimately show ?thesis using service_survives_redis [of sample_service ?w] by (metis One_nat_def)
qed

end
