(* ===== verification/Product_Server.thy ===== *)
theory Product_Server
  imports Product_Service Integrations
begin

text \<open>
  The HTTP API of the product, \<open>internal/product/server.go\<close>, on the product's world. A request has
  the endpoint that \<open>http.ServeMux\<close> selected, its headers and query as the accessors \<open>Get\<close> return
  them, and its body with the error its reader ends in. What the Prometheus handler and the mux
  answer by themselves is \<open>ph_other\<close>. \<open>observe\<close> only logs. \<open>None\<close> is a request that does not return
  within the fuel of the coordination.
\<close>

section \<open>Requests and responses\<close>

datatype product_endpoint =
    Pe_health | Pe_ready | Pe_metrics | Pe_stripe | Pe_shopify | Pe_create | Pe_list | Pe_get string
  | Pe_deliveries | Pe_retry string | Pe_unmatched

record product_request =
  pr_endpoint :: product_endpoint
  pr_header :: "string \<Rightarrow> string"
  pr_query :: "string \<Rightarrow> string"
  pr_body :: string
  pr_body_error :: "string option"
  pr_ctx :: ctx
  pr_tenant :: string

datatype product_body =
    Pb_error string string
  | Pb_status string
  | Pb_result order_result
  | Pb_order order
  | Pb_orders "order list"
  | Pb_deliveries "webhook_delivery list"
  | Pb_ignored
  | Pb_accepted order_result
  | Pb_other string

record product_response =
  ps_status :: int
  ps_body :: product_body

record product_http =
  ph_service :: product_service
  ph_keys :: "string \<rightharpoonup> string"
  ph_tenant :: string
  ph_stripe :: string
  ph_shopify :: string
  ph_reader :: json_reader
  ph_mac :: hmac
  ph_other :: "product_endpoint \<Rightarrow> product_response"

type_synonym product_handler = "product_request \<Rightarrow> pworld \<Rightarrow> (product_response \<times> pworld) option"

definition product_write_json :: "int \<Rightarrow> product_body \<Rightarrow> product_response" where
  "product_write_json status body = \<lparr>ps_status = status, ps_body = body\<rparr>"

definition product_write_error :: "int \<Rightarrow> string \<Rightarrow> string \<Rightarrow> product_response" where
  "product_write_error status code text = product_write_json status (Pb_error code text)"

definition write_service_error :: "product_error \<Rightarrow> product_response" where
  "write_service_error e =
     (if product_is e Err_invalid_input then product_write_error 400 ''invalid_request'' (error_text e)
      else if product_is e Err_idempotency_conflict then product_write_error 409 ''idempotency_conflict'' (error_text e)
      else if product_is e Err_not_found then product_write_error 404 ''not_found'' (error_text e)
      else product_write_error 500 ''internal_error'' ''request could not be completed'')"

text \<open>\<open>readBody\<close>: one byte more than 1 MiB is read, so an error behind that is not seen.\<close>

definition max_body :: nat where
  "max_body = 1048576"

definition read_body :: "product_request \<Rightarrow> product_error + string" where
  "read_body r =
     (if max_body < length (pr_body r) then Inl (Other_error ''request body must be at most 1 MiB'')
      else case pr_body_error r of
             Some text \<Rightarrow> Inl (Wrapped ''read request body: '' (Other_error text) [])
           | None \<Rightarrow> Inr (pr_body r))"

definition product_input_decoder :: "bool \<Rightarrow> create_order_input json_decoder" where
  "product_input_decoder strict = dec_struct strict
     [(''event_id'', dec_field in_event_id (\<lambda>x i. i\<lparr>in_event_id := x\<rparr>) dec_string),
      (''quantity'', dec_field in_quantity (\<lambda>x i. i\<lparr>in_quantity := x\<rparr>) dec_int)]"

definition zero_order_input :: create_order_input where
  "zero_order_input = \<lparr>in_event_id = [], in_quantity = 0\<rparr>"

definition read_json :: "json_reader \<Rightarrow> product_request \<Rightarrow> product_error + create_order_input" where
  "read_json rd r =
     (case read_body r of
        Inl e \<Rightarrow> Inl e
      | Inr payload \<Rightarrow> decode_json rd product_input_decoder zero_order_input True payload)"

definition query_limit :: "product_request \<Rightarrow> int \<Rightarrow> int" where
  "query_limit r fallback =
     (case parse_int (pr_query r ''limit'') of
        None \<Rightarrow> fallback
      | Some n \<Rightarrow> if n < 1 then fallback else n)"

definition tenant_from :: "product_request \<Rightarrow> string" where
  "tenant_from r = pr_tenant r"

section \<open>Handlers\<close>

definition authenticate :: "product_http \<Rightarrow> product_handler \<Rightarrow> product_handler" where
  "authenticate h handle r w =
     (case ph_keys h (pr_header r ''X-API-Key'') of
        None \<Rightarrow> Some (product_write_error 401 ''unauthorized'' ''a valid X-API-Key is required'', w)
      | Some tenant \<Rightarrow> handle (r\<lparr>pr_tenant := tenant\<rparr>) w)"

definition product_create_handler :: "nat \<Rightarrow> product_http \<Rightarrow> product_handler" where
  "product_create_handler fuel h r w =
     (case read_json (ph_reader h) r of
        Inl e \<Rightarrow> Some (product_write_error 400 ''invalid_json'' (error_text e), w)
      | Inr inp \<Rightarrow>
          map_option (\<lambda>(res, w').
              case res of
                Inl e \<Rightarrow> (write_service_error e, w')
              | Inr out \<Rightarrow> (product_write_json (if or_replayed out then 200 else 201) (Pb_result out), w'))
            (product_create_order fuel (ph_service h) (pr_ctx r) (tenant_from r) (pr_header r ''Idempotency-Key'') ''api'' [] inp w))"

definition product_get_handler :: "string \<Rightarrow> product_handler" where
  "product_get_handler oid r w =
     (case product_get_order (tenant_from r) oid w of
        (Inl e, w') \<Rightarrow> Some (write_service_error e, w')
      | (Inr ord, w') \<Rightarrow> Some (product_write_json 200 (Pb_order ord), w'))"

definition product_list_handler :: product_handler where
  "product_list_handler r w =
     (case product_list_orders (tenant_from r) (query_limit r 100) w of
        (Inl e, w') \<Rightarrow> Some (write_service_error e, w')
      | (Inr ords, w') \<Rightarrow> Some (product_write_json 200 (Pb_orders ords), w'))"

definition product_deliveries_handler :: product_handler where
  "product_deliveries_handler r w =
     (case product_list_deliveries (tenant_from r) (pr_query r ''status'') (query_limit r 100) w of
        (Inl e, w') \<Rightarrow> Some (write_service_error e, w')
      | (Inr ds, w') \<Rightarrow> Some (product_write_json 200 (Pb_deliveries ds), w'))"

definition product_retry_handler :: "string \<Rightarrow> product_handler" where
  "product_retry_handler did r w =
     (case product_replay_delivery (tenant_from r) did w of
        (Some e, w') \<Rightarrow> Some (write_service_error e, w')
      | (None, w') \<Rightarrow> Some (product_write_json 202 (Pb_status ''retry_scheduled''), w'))"

definition handle_integration ::
  "nat \<Rightarrow> product_http \<Rightarrow> string \<Rightarrow> product_error + integration_order \<Rightarrow> product_handler" where
  "handle_integration fuel h source integration r w =
     (case integration of
        Inl e \<Rightarrow>
          if product_is e Err_ignored_event then Some (product_write_json 202 Pb_ignored, w)
          else Some (write_service_error e, w)
      | Inr io \<Rightarrow>
          map_option (\<lambda>(res, w').
              case res of
                Inl e \<Rightarrow> (write_service_error e, w')
              | Inr out \<Rightarrow> (product_write_json 200 (Pb_accepted out), w'))
            (product_create_order fuel (ph_service h) (pr_ctx r) (ph_tenant h) (io_key io) source (io_external_id io) (io_input io) w))"

definition stripe_handler :: "nat \<Rightarrow> product_http \<Rightarrow> product_handler" where
  "stripe_handler fuel h r w =
     (if ph_stripe h = []
      then Some (product_write_error 503 ''integration_not_configured'' ''Stripe webhook secret is not configured'', w)
      else case read_body r of
             Inl e \<Rightarrow> Some (product_write_error 400 ''invalid_body'' (error_text e), w)
           | Inr payload \<Rightarrow>
               (case verify_stripe_signature (ph_mac h) (pr_header r ''Stripe-Signature'') payload (ph_stripe h) (p_clock w) (5 * minute) of
                  Some _ \<Rightarrow> Some (product_write_error 401 ''invalid_signature'' ''signature verification failed'', w)
                | None \<Rightarrow> handle_integration fuel h ''stripe'' (parse_stripe_order (ph_reader h) payload) r w))"

definition shopify_handler :: "nat \<Rightarrow> product_http \<Rightarrow> product_handler" where
  "shopify_handler fuel h r w =
     (if ph_shopify h = []
      then Some (product_write_error 503 ''integration_not_configured'' ''Shopify webhook secret is not configured'', w)
      else case read_body r of
             Inl e \<Rightarrow> Some (product_write_error 400 ''invalid_body'' (error_text e), w)
           | Inr payload \<Rightarrow>
               (case verify_shopify_signature (ph_mac h) (pr_header r ''X-Shopify-Hmac-Sha256'') payload (ph_shopify h) of
                  Some _ \<Rightarrow> Some (product_write_error 401 ''invalid_signature'' ''signature verification failed'', w)
                | None \<Rightarrow> handle_integration fuel h ''shopify'' (parse_shopify_order (ph_reader h) payload) r w))"

definition product_health :: product_handler where
  "product_health r w = Some (product_write_json 200 (Pb_status ''ok''), w)"

definition product_ready_handler :: product_handler where
  "product_ready_handler r w =
     (case product_ready w of
        (Some e, w') \<Rightarrow> Some (product_write_error 503 ''not_ready'' (error_text e), w')
      | (None, w') \<Rightarrow> Some (product_write_json 200 (Pb_status ''ready''), w'))"

text \<open>The routes of \<open>NewHTTPServer\<close>.\<close>

definition product_dispatch :: "nat \<Rightarrow> product_http \<Rightarrow> product_handler" where
  "product_dispatch fuel h r w =
     (case pr_endpoint r of
        Pe_health \<Rightarrow> product_health r w
      | Pe_ready \<Rightarrow> product_ready_handler r w
      | Pe_stripe \<Rightarrow> stripe_handler fuel h r w
      | Pe_shopify \<Rightarrow> shopify_handler fuel h r w
      | Pe_create \<Rightarrow> authenticate h (product_create_handler fuel h) r w
      | Pe_list \<Rightarrow> authenticate h product_list_handler r w
      | Pe_get oid \<Rightarrow> authenticate h (product_get_handler oid) r w
      | Pe_deliveries \<Rightarrow> authenticate h product_deliveries_handler r w
      | Pe_retry did \<Rightarrow> authenticate h (product_retry_handler did) r w
      | Pe_metrics \<Rightarrow> Some (ph_other h Pe_metrics, w)
      | Pe_unmatched \<Rightarrow> Some (ph_other h Pe_unmatched, w))"

end
