(* ===== verification/Product_Server_Properties.thy ===== *)
theory Product_Server_Properties
  imports Product_Server
begin

text \<open>
  What the product's HTTP API guarantees: a key holder sees only its own tenant, nothing happens
  without a key or a signature, and the status of a creation tells what became of it.
\<close>

section \<open>Answers of the service\<close>

definition guarded :: "product_endpoint \<Rightarrow> bool" where
  "guarded ep \<longleftrightarrow> ep \<notin> {Pe_health, Pe_ready, Pe_metrics, Pe_stripe, Pe_shopify, Pe_unmatched}"

lemma external_default: "product_create_order fuel s c t k source [] inp w = product_create_order fuel s c t k source (in_event_id inp) inp w"
  by (simp add: product_create_order_def Let_def)

lemma get_order_cases:
  assumes "others_rely w" and "repo_get_order t oid w = (Inr ord, w')"
  shows "\<exists>r \<in> set (order_rows (p_db w')). ow_order r = ord \<and> tenant_id ord = t \<and> order_id ord = oid"
proof -
  let ?find = "\<lambda>db. find (\<lambda>r. tenant_id (ow_order r) = t \<and> order_id (ow_order r) = oid) (order_rows db)"
  obtain res w1 where s: "statement nothing_pending (\<lambda>_ db. (Inr (?find db), db)) w = (res, w1)" by fastforce
  obtain r where r: "res = Inr (Some r)" "ow_order r = ord" "w1 = w'"
    using assms(2) s by (auto simp: repo_get_order_def split: sum.splits option.splits)
  then have "?find (p_db w') = Some r" using read_cases(6) [OF assms(1) s] by auto
  then show ?thesis using r(2) by (intro bexI [of _ r]) (auto simp: find_Some_iff)
qed

lemma list_orders_cases:
  assumes "others_rely w" and "repo_list_orders t limit w = (Inr ords, w')"
  shows "ords = list_orders_query t (clamp_limit 200 100 limit) (p_db w')"
proof -
  obtain res w1 where s: "statement nothing_pending (\<lambda>_ db. (Inr (list_orders_query t (clamp_limit 200 100 limit) db), db)) w = (res, w1)"
    by fastforce
  have "res = Inr ords" "w1 = w'" using assms(2) s by (auto simp: repo_list_orders_def wrap_error_def split: sum.splits)
  then show ?thesis using read_cases(6) [OF assms(1) s] by auto
qed

lemma list_deliveries_cases:
  assumes "others_rely w" and "repo_list_deliveries t st limit w = (Inr ds, w')"
  shows "ds = list_deliveries_query t st (clamp_limit 200 100 limit) (p_db w')"
proof -
  obtain res w1 where s: "statement nothing_pending (\<lambda>_ db. (Inr (list_deliveries_query t st (clamp_limit 200 100 limit) db), db)) w = (res, w1)"
    by fastforce
  have "res = Inr ds" "w1 = w'" using assms(2) s by (auto simp: repo_list_deliveries_def wrap_error_def split: sum.splits)
  then show ?thesis using read_cases(6) [OF assms(1) s] by auto
qed

lemma clamp_200: "clamp_limit 200 100 limit \<le> 200"
  by (auto simp: clamp_limit_def nat_le_iff)

lemma listed_orders:
  "ords = list_orders_query t n db \<Longrightarrow> length ords \<le> n \<and> (\<forall>ord \<in> set ords. tenant_id ord = t \<and> (\<exists>r \<in> set (order_rows db). ow_order r = ord))"
  by (auto simp: list_orders_query_def dest!: in_set_takeD)

lemma listed_deliveries:
  "ds = list_deliveries_query t st n db \<Longrightarrow> length ds \<le> n \<and> (\<forall>d \<in> set ds. wd_tenant d = t \<and> d \<in> set (delivery_rows db))"
  by (auto simp: list_deliveries_query_def dest!: in_set_takeD)

section \<open>Tenants\<close>

text \<open>What the holder of a tenant's key may be shown.\<close>

definition tenant_view :: "string \<Rightarrow> string \<Rightarrow> pworld \<Rightarrow> product_body \<Rightarrow> bool" where
  "tenant_view t k w b \<longleftrightarrow>
     (case b of
        Pb_order ord \<Rightarrow> tenant_id ord = t \<and> (\<exists>r \<in> set (order_rows (p_db w)). ow_order r = ord)
      | Pb_orders ords \<Rightarrow> length ords \<le> 200 \<and>
          (\<forall>ord \<in> set ords. tenant_id ord = t \<and> (\<exists>r \<in> set (order_rows (p_db w)). ow_order r = ord))
      | Pb_deliveries ds \<Rightarrow> length ds \<le> 200 \<and> (\<forall>d \<in> set ds. wd_tenant d = t \<and> d \<in> set (delivery_rows (p_db w)))
      | Pb_result out \<Rightarrow> \<exists>r \<in> set (order_rows (p_db w)). row_scope r = (t, k) \<and> shows_row (p_stored w) (or_order out) r
      | Pb_accepted out \<Rightarrow> False
      | _ \<Rightarrow> True)"

lemma error_view [simp]: "tenant_view t k w (ps_body (write_service_error e))" "tenant_view t k w (ps_body (product_write_error status code text))"
  by (simp_all add: tenant_view_def write_service_error_def product_write_error_def product_write_json_def)

definition creation_response :: "product_error + order_result \<Rightarrow> product_response" where
  "creation_response res =
     (case res of
        Inl e \<Rightarrow> write_service_error e
      | Inr out \<Rightarrow> product_write_json (if or_replayed out then 200 else 201) (Pb_result out))"

lemma read_body_tenant [simp]: "read_body (r\<lparr>pr_tenant := t\<rparr>) = read_body r"
  by (cases "pr_body_error r") (simp_all add: read_body_def)

lemma create_handler_run:
  assumes "product_create_handler fuel h r w = Some (resp, w')" and "read_json (ph_reader h) r = Inr inp"
  obtains res where "product_create_order fuel (ph_service h) (pr_ctx r) (tenant_from r) (pr_header r ''Idempotency-Key'') ''api''
      (in_event_id inp) inp w = Some (res, w')" "resp = creation_response res"
proof -
  obtain x where x: "product_create_order fuel (ph_service h) (pr_ctx r) (tenant_from r) (pr_header r ''Idempotency-Key'') ''api''
      (in_event_id inp) inp w = Some x"
    using assms by (auto simp: product_create_handler_def external_default)
  obtain res v where "x = (res, v)" by fastforce
  with x assms show thesis
    by (intro that [of res]) (cases res; simp add: product_create_handler_def external_default creation_response_def)+
qed

lemma create_handler_view:
  assumes ok: "world_ok (service_key (ph_service h)) w"
    and run: "product_create_handler fuel h r w = Some (resp, w')"
    and nc: "no_collision (ph_service h) (tenant_from r) (pr_header r ''Idempotency-Key'') w'"
  shows "tenant_view (tenant_from r) (pr_header r ''Idempotency-Key'') w' (ps_body resp)"
proof (cases "read_json (ph_reader h) r")
  case (Inl e)
  then show ?thesis using run by (auto simp: product_create_handler_def)
next
  case (Inr inp)
  let ?t = "tenant_from r" and ?k = "pr_header r ''Idempotency-Key''" and ?x = "in_event_id inp"
  obtain res where c: "product_create_order fuel (ph_service h) (pr_ctx r) ?t ?k ''api'' ?x inp w = Some (res, w')"
    and resp: "resp = creation_response res"
    by (rule create_handler_run [OF run Inr])
  show ?thesis
  proof (cases "invalid_create ?t ?k ''api'' ?x inp")
    case True
    then have "res = Inl invalid_create_error" using c by (auto simp: product_create_order_def Let_def split: if_splits)
    then show ?thesis by (simp add: resp creation_response_def)
  next
    case False
    from service_create_sound [OF ok False c nc] show ?thesis
      by (auto simp: resp creation_response_def service_answer_def tenant_view_def product_write_json_def write_service_error_def
          product_write_error_def split: sum.splits)
  qed
qed

text \<open>
  C34. Tenants of the product are isolated. Whoever presents an API key is shown, on every endpoint
  behind authentication, only orders and deliveries of the tenant that the key belongs to, at most
  200 at a time and each of them a row of the table; a creation shows the row of the tenant's own
  idempotency key, also when Redis answered.
\<close>

theorem product_tenant_isolation:
  assumes "world_ok (service_key (ph_service h)) w" and "guarded (pr_endpoint r)"
    and "ph_keys h (pr_header r ''X-API-Key'') = Some t"
    and "product_dispatch fuel h r w = Some (resp, w')"
    and "no_collision (ph_service h) t (pr_header r ''Idempotency-Key'') w'"
  shows "tenant_view t (pr_header r ''Idempotency-Key'') w' (ps_body resp)"
proof -
  have oth: "others_rely w" using assms(1) by (simp add: world_ok_def)
  let ?r = "r\<lparr>pr_tenant := t\<rparr>"
  have t: "tenant_from ?r = t" by (simp add: tenant_from_def)
  show ?thesis
  proof (cases "pr_endpoint r")
    case Pe_create
    then have "product_create_handler fuel h ?r w = Some (resp, w')" using assms(3,4) by (simp add: product_dispatch_def authenticate_def)
    from create_handler_view [OF assms(1) this] assms(5) t show ?thesis by simp
  next
    case Pe_list
    then obtain res where res: "repo_list_orders t (query_limit ?r 100) w = (res, w')"
      "resp = (case res of Inl e \<Rightarrow> write_service_error e | Inr ords \<Rightarrow> product_write_json 200 (Pb_orders ords))"
      using assms(3,4) t by (auto simp: product_dispatch_def authenticate_def product_list_handler_def product_list_orders_def split: prod.splits sum.splits)
    show ?thesis
    proof (cases res)
      case (Inl e)
      then show ?thesis using res(2) by simp
    next
      case (Inr ords)
      from listed_orders [OF list_orders_cases [OF oth res(1) [unfolded Inr]]] clamp_200 [of "query_limit ?r 100"] show ?thesis
        by (simp add: res(2) Inr tenant_view_def product_write_json_def)
    qed
  next
    case (Pe_get oid)
    then obtain res where res: "repo_get_order t oid w = (res, w')"
      "resp = (case res of Inl e \<Rightarrow> write_service_error e | Inr ord \<Rightarrow> product_write_json 200 (Pb_order ord))"
      using assms(3,4) t by (auto simp: product_dispatch_def authenticate_def product_get_handler_def product_get_order_def split: prod.splits sum.splits)
    show ?thesis
    proof (cases res)
      case (Inl e)
      then show ?thesis using res(2) by simp
    next
      case (Inr ord)
      from get_order_cases [OF oth res(1) [unfolded Inr]] show ?thesis
        by (auto simp: res(2) Inr tenant_view_def product_write_json_def)
    qed
  next
    case Pe_deliveries
    then obtain res where res: "product_list_deliveries t (pr_query r ''status'') (query_limit ?r 100) w = (res, w')"
      "resp = (case res of Inl e \<Rightarrow> write_service_error e | Inr ds \<Rightarrow> product_write_json 200 (Pb_deliveries ds))"
      using assms(3,4) t by (auto simp: product_dispatch_def authenticate_def product_deliveries_handler_def split: prod.splits sum.splits)
    show ?thesis
    proof (cases res)
      case (Inl e)
      then show ?thesis using res(2) by simp
    next
      case (Inr ds)
      then have "repo_list_deliveries t (pr_query r ''status'') (query_limit ?r 100) w = (Inr ds, w')"
        using res(1) by (auto simp: product_list_deliveries_def split: if_splits)
      from listed_deliveries [OF list_deliveries_cases [OF oth this]] clamp_200 [of "query_limit ?r 100"] show ?thesis
        by (auto simp: res(2) Inr tenant_view_def product_write_json_def)
    qed
  next
    case (Pe_retry did)
    then show ?thesis using assms(3,4)
      by (auto simp: product_dispatch_def authenticate_def product_retry_handler_def tenant_view_def product_write_json_def
          write_service_error_def product_write_error_def split: prod.splits option.splits)
  qed (use assms(2) in \<open>simp_all add: guarded_def\<close>)
qed

section \<open>Refusals\<close>

text \<open>
  How a webhook is to be answered, given its secret, whether its signature is valid and what its body says: the
  refusals in their order, each without any effect, and only then what the service makes of the order.
\<close>

definition webhook_answer ::
  "string \<Rightarrow> bool \<Rightarrow> product_error + integration_order \<Rightarrow> product_request \<Rightarrow> product_response \<Rightarrow> bool \<Rightarrow> bool" where
  "webhook_answer secret valid parsed r resp changed \<longleftrightarrow>
     (if secret = [] then ps_status resp = 503 \<and> \<not> changed
      else if 1048576 < length (pr_body r) \<or> pr_body_error r \<noteq> None then ps_status resp = 400 \<and> \<not> changed
      else if \<not> valid then ps_status resp = 401 \<and> \<not> changed
      else case parsed of
          Inl e \<Rightarrow> ps_status resp = (if e = Err_ignored_event then 202 else 400) \<and> \<not> changed
        | Inr order \<Rightarrow> ps_status resp \<in> {200, 400, 404, 409, 500})"

lemma read_body_cases:
  obtains (refused) e where "read_body r = Inl e" "1048576 < length (pr_body r) \<or> pr_body_error r \<noteq> None"
    | (read) "read_body r = Inr (pr_body r)" "length (pr_body r) \<le> 1048576" "pr_body_error r = None"
  by (cases "1048576 < length (pr_body r)"; cases "pr_body_error r") (auto simp: read_body_def max_body_def)

lemma parse_refusals:
  "parse_stripe_order rd payload = Inl e \<Longrightarrow> e = Err_ignored_event \<or> (\<exists>post. e = Wrapped [] Err_invalid_input post)"
  "parse_shopify_order rd payload = Inl e \<Longrightarrow> \<exists>post. e = Wrapped [] Err_invalid_input post"
  by (auto simp: parse_stripe_order_def stripe_order_def parse_shopify_order_def shopify_order_of_def Let_def
      split: sum.splits if_splits)

lemma integration_answer:
  assumes run: "handle_integration fuel h source parsed r w = Some (resp, w')"
    and parsed: "\<And>e. parsed = Inl e \<Longrightarrow> e = Err_ignored_event \<or> (\<exists>post. e = Wrapped [] Err_invalid_input post)"
  shows "case parsed of
      Inl e \<Rightarrow> ps_status resp = (if e = Err_ignored_event then 202 else 400) \<and> \<not> w' \<noteq> w
    | Inr order \<Rightarrow> ps_status resp \<in> {200, 400, 404, 409, 500}"
proof (cases parsed)
  case (Inl e)
  then show ?thesis using run parsed [OF Inl]
    by (auto simp: handle_integration_def write_service_error_def product_write_error_def product_write_json_def)
next
  case (Inr io)
  have statuses: "ps_status (write_service_error e) \<in> {400, 404, 409, 500}" for e
    by (simp add: write_service_error_def product_write_error_def product_write_json_def)
  from run Inr obtain res w1 where "(case res of Inl e \<Rightarrow> (write_service_error e, w1)
      | Inr out \<Rightarrow> (product_write_json 200 (Pb_accepted out), w1)) = (resp, w')"
    by (auto simp: handle_integration_def)
  then show ?thesis using statuses Inr by (cases res) (auto simp: product_write_json_def)
qed

lemma stripe_answer:
  assumes "stripe_handler fuel h r w = Some (resp, w')"
  shows "webhook_answer (ph_stripe h) (verify_stripe_signature (ph_mac h) (pr_header r ''Stripe-Signature'') (pr_body r) (ph_stripe h)
      (p_clock w) (5 * minute) = None) (parse_stripe_order (ph_reader h) (pr_body r)) r resp (w' \<noteq> w)"
proof (cases rule: read_body_cases [of r])
  case (refused e)
  then show ?thesis using assms
    by (auto simp: webhook_answer_def stripe_handler_def product_write_error_def product_write_json_def split: if_splits)
next
  case read
  show ?thesis
  proof (cases "ph_stripe h = [] \<or> verify_stripe_signature (ph_mac h) (pr_header r ''Stripe-Signature'') (pr_body r) (ph_stripe h)
      (p_clock w) (5 * minute) \<noteq> None")
    case True
    then show ?thesis using assms read
      by (auto simp: webhook_answer_def stripe_handler_def product_write_error_def product_write_json_def split: if_splits)
  next
    case False
    then have "handle_integration fuel h ''stripe'' (parse_stripe_order (ph_reader h) (pr_body r)) r w = Some (resp, w')"
      using assms read by (simp add: stripe_handler_def)
    from integration_answer [OF this parse_refusals(1)] show ?thesis using False read by (simp add: webhook_answer_def)
  qed
qed

lemma shopify_answer:
  assumes "shopify_handler fuel h r w = Some (resp, w')"
  shows "webhook_answer (ph_shopify h) (verify_shopify_signature (ph_mac h) (pr_header r ''X-Shopify-Hmac-Sha256'') (pr_body r)
      (ph_shopify h) = None) (parse_shopify_order (ph_reader h) (pr_body r)) r resp (w' \<noteq> w)"
proof (cases rule: read_body_cases [of r])
  case (refused e)
  then show ?thesis using assms
    by (auto simp: webhook_answer_def shopify_handler_def product_write_error_def product_write_json_def split: if_splits)
next
  case read
  show ?thesis
  proof (cases "ph_shopify h = [] \<or> verify_shopify_signature (ph_mac h) (pr_header r ''X-Shopify-Hmac-Sha256'') (pr_body r)
      (ph_shopify h) \<noteq> None")
    case True
    then show ?thesis using assms read
      by (auto simp: webhook_answer_def shopify_handler_def product_write_error_def product_write_json_def split: if_splits)
  next
    case False
    then have "handle_integration fuel h ''shopify'' (parse_shopify_order (ph_reader h) (pr_body r)) r w = Some (resp, w')"
      using assms read by (simp add: shopify_handler_def)
    from integration_answer [OF this disjI2 [OF parse_refusals(2)]] show ?thesis using False read by (simp add: webhook_answer_def)
  qed
qed

text \<open>
  C35. Nothing happens without a key or a signature. Behind authentication an unknown key gets 401 and
  changes nothing. A Stripe and a Shopify webhook alike is answered 503 when its secret is not configured, 400 when its body
  has more than 1 MiB or cannot be read, 401 when its signature over exactly this body is not valid, 202 for an event that is
  ignored and 400 for one that is not an order, in this order and each without any effect. Only
  behind all of these does the service see an order, and the answer is then 200, 400, 404, 409 or 500.
\<close>

theorem product_refusals:
  assumes "product_dispatch fuel h r w = Some (resp, w')"
  shows "(guarded (pr_endpoint r) \<and> ph_keys h (pr_header r ''X-API-Key'') = None \<longrightarrow> ps_status resp = 401 \<and> w' = w) \<and>
    (pr_endpoint r = Pe_stripe \<longrightarrow> webhook_answer (ph_stripe h)
       (verify_stripe_signature (ph_mac h) (pr_header r ''Stripe-Signature'') (pr_body r) (ph_stripe h) (p_clock w) (5 * minute) = None)
       (parse_stripe_order (ph_reader h) (pr_body r)) r resp (w' \<noteq> w)) \<and>
    (pr_endpoint r = Pe_shopify \<longrightarrow> webhook_answer (ph_shopify h)
       (verify_shopify_signature (ph_mac h) (pr_header r ''X-Shopify-Hmac-Sha256'') (pr_body r) (ph_shopify h) = None)
       (parse_shopify_order (ph_reader h) (pr_body r)) r resp (w' \<noteq> w))"
proof -
  have "guarded (pr_endpoint r) \<and> ph_keys h (pr_header r ''X-API-Key'') = None \<longrightarrow> ps_status resp = 401 \<and> w' = w"
    using assms by (cases "pr_endpoint r")
      (auto simp: guarded_def product_dispatch_def authenticate_def product_write_error_def product_write_json_def)
  moreover have "stripe_handler fuel h r w = Some (resp, w')" if "pr_endpoint r = Pe_stripe"
    using assms that by (simp add: product_dispatch_def)
  moreover have "shopify_handler fuel h r w = Some (resp, w')" if "pr_endpoint r = Pe_shopify"
    using assms that by (simp add: product_dispatch_def)
  ultimately show ?thesis using stripe_answer [of fuel h r w resp w'] shopify_answer [of fuel h r w resp w'] by blast
qed

section \<open>The status of a creation\<close>

text \<open>
  C36. The status of a creation tells what became of it. For a valid order of a known key, 201 comes
  with an order that this request created, 200 with the row that the tenant's idempotency key and
  this very payload already had, 409 only when the key belongs to another payload; a payload that is
  not valid is a 400 and calls neither Redis nor Postgres.
\<close>

theorem product_create_status:
  assumes "world_ok (service_key (ph_service h)) w" and "pr_endpoint r = Pe_create"
    and "ph_keys h (pr_header r ''X-API-Key'') = Some t" and "read_json (ph_reader h) r = Inr inp"
    and "product_dispatch fuel h r w = Some (resp, w')"
    and "no_collision (ph_service h) t (pr_header r ''Idempotency-Key'') w'"
  shows "let q = service_request (ph_service h) t (pr_header r ''Idempotency-Key'') ''api'' (in_event_id inp) inp;
        rows = set (order_rows (p_db w'))
      in (ps_status resp = 201 \<longrightarrow> (\<exists>out. ps_body resp = Pb_result out \<and> order_fresh q (or_order out) w')) \<and>
        (ps_status resp = 200 \<longrightarrow> (\<exists>out. ps_body resp = Pb_result out \<and>
           (\<exists>row \<in> rows. row_scope row = request_scope q \<and> ow_fingerprint row = rq_fingerprint q \<and> shows_row (p_stored w') (or_order out) row))) \<and>
        (ps_status resp = 409 \<longrightarrow> (\<exists>row \<in> rows. row_scope row = request_scope q \<and> ow_fingerprint row \<noteq> rq_fingerprint q)) \<and>
        (invalid_create t (pr_header r ''Idempotency-Key'') ''api'' (in_event_id inp) inp \<longrightarrow>
           ps_status resp = 400 \<and> p_calls w' = p_calls w \<and> p_db w' = p_db w \<and> p_redis w' = p_redis w)"
proof -
  let ?r = "r\<lparr>pr_tenant := t\<rparr>" and ?k = "pr_header r ''Idempotency-Key''" and ?x = "in_event_id inp"
  have rj: "read_json (ph_reader h) ?r = Inr inp" using assms(4) by (simp add: read_json_def)
  have run: "product_create_handler fuel h ?r w = Some (resp, w')" using assms(2,3,5) by (simp add: product_dispatch_def authenticate_def)
  obtain res where c: "product_create_order fuel (ph_service h) (pr_ctx r) t ?k ''api'' ?x inp w = Some (res, w')"
    and resp: "resp = creation_response res"
    by (rule create_handler_run [OF run rj]) (simp add: tenant_from_def)
  have codes: "ps_status (write_service_error e) = (if product_is e Err_invalid_input then 400
      else if product_is e Err_idempotency_conflict then 409 else if product_is e Err_not_found then 404 else 500)" for e
    by (simp add: write_service_error_def product_write_error_def product_write_json_def)
  show ?thesis
  proof (cases "invalid_create t ?k ''api'' ?x inp")
    case True
    then have "res = Inl invalid_create_error" "w' = record_order (ph_service h) ''invalid'' ''api'' w"
      using c by (auto simp: product_create_order_def Let_def split: if_splits)
    then show ?thesis by (simp add: resp creation_response_def codes invalid_create_error_def Let_def record_order_def)
  next
    case False
    from service_create_sound [OF assms(1) False c assms(6)]
    have a: "service_answer (ph_service h) (service_request (ph_service h) t ?k ''api'' ?x inp) res w'" by simp
    show ?thesis
    proof (cases res)
      case (Inl e)
      then show ?thesis using a False unfolding Let_def service_answer_def
        by (auto simp: resp creation_response_def codes split: if_splits)
    next
      case (Inr out)
      then show ?thesis using a False unfolding Let_def service_answer_def
        by (auto simp: resp creation_response_def product_write_json_def)
    qed
  qed
qed

section \<open>Witnesses\<close>

definition sample_http :: product_http where
  "sample_http = \<lparr>ph_service = sample_service, ph_keys = [''key'' \<mapsto> ''t''], ph_tenant = ''t'', ph_stripe = [], ph_shopify = [],
     ph_reader = \<lparr>read_values = (\<lambda>_. one_value (JObject [(''event_id'', JString ''e''), (''quantity'', JNumber (show_int 2))])),
       json_error = (\<lambda>_. [])\<rparr>,
     ph_mac = (\<lambda>_ _. []), ph_other = (\<lambda>_. product_write_json 404 (Pb_other []))\<rparr>"

definition sample_post :: product_request where
  "sample_post = \<lparr>pr_endpoint = Pe_create, pr_header = (\<lambda>n. if n = ''X-API-Key'' then ''key'' else ''k''), pr_query = (\<lambda>_. []),
     pr_body = ''{}'', pr_body_error = None, pr_ctx = background, pr_tenant = []\<rparr>"

definition sample_list :: product_request where
  "sample_list = sample_post\<lparr>pr_endpoint := Pe_list\<rparr>"

lemma cached_world_rows: "order_rows (p_db cached_world) = [sample_row]" "row_scope sample_row = (''t'', ''k'')"
  by (simp_all add: cached_world_def sample_row_def row_scope_def new_order_def sample_create_def)

lemma sample_no_collision: "p_db w' = p_db cached_world \<Longrightarrow> no_collision sample_service ''t'' ''k'' w'"
  by (simp add: no_collision_def cached_world_rows)

theorem product_tenant_isolation_witness:
  "\<exists>resp w'. product_dispatch 1 sample_http sample_list cached_world = Some (resp, w') \<and> ps_body resp = Pb_orders [ow_order sample_row] \<and>
     tenant_view ''t'' ''k'' w' (ps_body resp)"
proof -
  obtain w' where list: "repo_list_orders ''t'' 100 cached_world = (Inr [ow_order sample_row], w')" "p_db w' = p_db cached_world"
    by (simp add: repo_list_orders_def statement_def external_call_def Let_def wrap_error_def clamp_limit_def list_orders_query_def)
      (simp add: cached_world_def quiet_world_def sample_row_def new_order_def sample_create_def)
  have q: "query_limit (sample_list\<lparr>pr_tenant := ''t''\<rparr>) 100 = 100"
    by (simp add: query_limit_def sample_list_def sample_post_def parse_int_def parse_uint_def)
  have run: "product_dispatch 1 sample_http sample_list cached_world = Some (product_write_json 200 (Pb_orders [ow_order sample_row]), w')"
  proof -
    have "pr_endpoint sample_list = Pe_list" "pr_header sample_list ''X-API-Key'' = ''key''" "ph_keys sample_http ''key'' = Some ''t''"
      by (simp_all add: sample_list_def sample_post_def sample_http_def)
    then show ?thesis
      using list(1) q by (simp add: product_dispatch_def authenticate_def product_list_handler_def product_list_orders_def tenant_from_def)
  qed
  have ok: "world_ok (service_key (ph_service sample_http)) cached_world" using cached_world_ok by (simp add: sample_http_def)
  have nc: "no_collision (ph_service sample_http) ''t'' (pr_header sample_list ''Idempotency-Key'') w'"
    using sample_no_collision [OF list(2)] by (simp add: sample_http_def sample_list_def sample_post_def)
  have "guarded (pr_endpoint sample_list)" "ph_keys sample_http (pr_header sample_list ''X-API-Key'') = Some ''t''"
    "pr_header sample_list ''Idempotency-Key'' = ''k''"
    by (simp_all add: guarded_def sample_http_def sample_list_def sample_post_def)
  with product_tenant_isolation [OF ok _ _ run nc] run show ?thesis by (simp add: product_write_json_def)
qed

theorem product_refusals_witness:
  "\<exists>resp. product_dispatch 1 sample_http (sample_list\<lparr>pr_header := \<lambda>_. []\<rparr>) quiet_world = Some (resp, quiet_world) \<and> ps_status resp = 401"
proof -
  let ?r = "sample_list\<lparr>pr_header := \<lambda>_. []\<rparr>"
  have run: "product_dispatch 1 sample_http ?r quiet_world =
      Some (product_write_error 401 ''unauthorized'' ''a valid X-API-Key is required'', quiet_world)"
    by (simp add: product_dispatch_def sample_list_def sample_post_def authenticate_def sample_http_def)
  have "guarded (pr_endpoint ?r)" "ph_keys sample_http (pr_header ?r ''X-API-Key'') = None"
    by (simp_all add: guarded_def sample_list_def sample_http_def)
  with product_refusals [OF run] run show ?thesis by blast
qed

lemma sample_read: "read_json (ph_reader sample_http) sample_post = Inr sample_order_input"
proof -
  have b: "read_body sample_post = Inr ''{}''" by (simp add: read_body_def sample_post_def max_body_def)
  have "product_input_decoder True (JObject [(''event_id'', JString ''e''), (''quantity'', JNumber (show_int 2))]) zero_order_input =
      (sample_order_input, True)"
    by (simp add: product_input_decoder_def dec_struct_def dec_member_def dec_field_def zero_order_input_def sample_order_input_def
        in_int64_def int64_min_def int64_max_def)
  then show ?thesis by (simp add: read_json_def b decode_json_def sample_http_def)
qed

theorem product_create_status_witness:
  "\<exists>resp w'. product_dispatch 1 sample_http sample_post cached_world = Some (resp, w') \<and> ps_status resp = 200 \<and>
     (\<exists>row \<in> set (order_rows (p_db w')). row_scope row = (''t'', ''k'') \<and> ow_fingerprint row = ''01'')"
proof -
  obtain w' where run0: "product_create_order 1 sample_service background ''t'' ''k'' ''api'' ''e'' sample_order_input cached_world =
      Some (Inr \<lparr>or_order = ow_order sample_row, or_replayed = True\<rparr>, w')" "p_db w' = p_db cached_world"
    using cached_world_run by blast
  have e: "in_event_id sample_order_input = ''e''" by (simp add: sample_order_input_def)
  have fields: "pr_endpoint sample_post = Pe_create" "pr_header sample_post ''X-API-Key'' = ''key''"
    "pr_header sample_post ''Idempotency-Key'' = ''k''" "pr_ctx sample_post = background"
    by (simp_all add: sample_post_def)
  have http: "ph_service sample_http = sample_service" "ph_keys sample_http ''key'' = Some ''t''" by (simp_all add: sample_http_def)
  have rj: "read_json (ph_reader sample_http) (sample_post\<lparr>pr_tenant := ''t''\<rparr>) = Inr sample_order_input"
    using sample_read by (simp add: read_json_def)
  have run: "product_dispatch 1 sample_http sample_post cached_world =
      Some (product_write_json 200 (Pb_result \<lparr>or_order = ow_order sample_row, or_replayed = True\<rparr>), w')"
    using run0(1) rj
    by (simp add: product_dispatch_def fields authenticate_def http product_create_handler_def tenant_from_def external_default e)
  have ok: "world_ok (service_key (ph_service sample_http)) cached_world" using cached_world_ok by (simp add: http)
  have nc: "no_collision (ph_service sample_http) ''t'' (pr_header sample_post ''Idempotency-Key'') w'"
    using sample_no_collision [OF run0(2)] by (simp add: http fields)
  have key: "ph_keys sample_http (pr_header sample_post ''X-API-Key'') = Some ''t''" by (simp add: http fields)
  have fp: "order_fingerprint (ps_sha sample_service) sample_order_input ''api'' ''e'' = ''01''"
    by (simp add: order_fingerprint_def sample_service_def new_product_service_def)
  let ?out = "\<lparr>or_order = ow_order sample_row, or_replayed = True\<rparr>"
  let ?q = "service_request sample_service ''t'' ''k'' ''api'' ''e'' sample_order_input"
  have "ps_status (product_write_json 200 (Pb_result ?out)) = 200 \<longrightarrow> (\<exists>out. ps_body (product_write_json 200 (Pb_result ?out)) = Pb_result out \<and>
      (\<exists>row \<in> set (order_rows (p_db w')). row_scope row = request_scope ?q \<and> ow_fingerprint row = rq_fingerprint ?q \<and>
         shows_row (p_stored w') (or_order out) row))"
    using product_create_status [OF ok fields(1) key sample_read run nc] unfolding Let_def http(1) fields(3) e by (elim conjE)
  then have "\<exists>row \<in> set (order_rows (p_db w')). row_scope row = (''t'', ''k'') \<and> ow_fingerprint row = ''01''"
    by (auto simp: product_write_json_def fp)
  with run show ?thesis by (simp add: product_write_json_def)
qed

end
