(* ===== verification/Float64.thy ===== *)
theory Float64
  imports Lab_Prelude "HOL-Library.Log_Nat"
begin

text \<open>
  Go's \<open>float64\<close> as a rational with IEEE-754 rounding written out. \<open>fl x\<close> is the binary64
  value nearest to the exact result \<open>x\<close>, ties to even, with gradual underflow; every
  arithmetic operation of the code is the exact operation followed by \<open>fl\<close>. Overflow to
  infinity is not represented: the values of the program stay far below \<open>2 ^ 1024\<close>.
  The lemmas give what the components need: which values are exact, that rounding never
  crosses a representable value, and the size of a rounding error.
\<close>

named_theorems float64_exact \<open>values that rounding leaves alone\<close>

section \<open>The rounding function\<close>

definition expo2 :: "rat \<Rightarrow> int" where
  "expo2 x = (let (p, q) = quotient_of x; k = bitlen p - bitlen q
              in if 2 powi k \<le> x then k else k - 1)"

definition half_even :: "rat \<Rightarrow> int" where
  "half_even x = (let n = \<lfloor>x\<rfloor>; d = x - of_int n
                  in if d < 1 / 2 then n
                     else if 1 / 2 < d then n + 1
                     else if even n then n else n + 1)"

definition ulp_exp :: "rat \<Rightarrow> int" where
  "ulp_exp x = max (expo2 \<bar>x\<bar> - 52) (- 1074)"

definition fl :: "rat \<Rightarrow> rat" where
  "fl x = (if x = 0 then 0
           else of_int (half_even (x / 2 powi ulp_exp x)) * 2 powi ulp_exp x)"

text \<open>The values binary64 can hold (with an exponent that is not bounded above).\<close>

definition is_float64 :: "rat \<Rightarrow> bool" where
  "is_float64 x \<longleftrightarrow> (\<exists>m e. \<bar>m\<bar> \<le> 2 ^ 53 \<and> - 1074 \<le> e \<and> x = of_int m * 2 powi e)"

section \<open>The binary exponent\<close>

lemma bitlen_le_power: "0 < p \<Longrightarrow> 2 powi (bitlen p - 1) \<le> (of_int p :: rat)"
proof -
  assume "0 < p"
  then have b: "2 ^ nat (bitlen p - 1) \<le> p" and "0 < bitlen p"
    using bitlen_bounds [of p] bitlen_nonneg [of p] bitlen_eq_zero_iff [of p] by auto
  from b have "(of_int (2 ^ nat (bitlen p - 1)) :: rat) \<le> of_int p"
    by (simp only: of_int_le_iff)
  with \<open>0 < bitlen p\<close> show ?thesis by (simp add: power_int_def)
qed

lemma power_less_bitlen: "0 < p \<Longrightarrow> (of_int p :: rat) < 2 powi bitlen p"
proof -
  assume "0 < p"
  then have b: "p < 2 ^ nat (bitlen p)"
    using bitlen_bounds [of p] by simp
  then have "(of_int p :: rat) < of_int (2 ^ nat (bitlen p))"
    by (simp only: of_int_less_iff)
  then show ?thesis by (simp add: power_int_def bitlen_nonneg)
qed

lemma expo2_bounds:
  assumes "0 < x"
  shows "2 powi expo2 x \<le> x" and "x < 2 powi (expo2 x + 1)"
proof -
  obtain p q where pq: "quotient_of x = (p, q)" by fastforce
  then have "0 < q" and x: "x = of_int p / of_int q"
    by (simp_all add: quotient_of_denom_pos quotient_of_div)
  with assms have "0 < p" by (simp add: zero_less_divide_iff)
  let ?k = "bitlen p - bitlen q"
  have "x < 2 powi bitlen p / 2 powi (bitlen q - 1)"
    unfolding x using power_less_bitlen [OF \<open>0 < p\<close>] bitlen_le_power [OF \<open>0 < q\<close>]
    by (intro frac_less) (use \<open>0 < p\<close> in simp_all)
  also have "\<dots> = 2 powi (?k + 1)"
    by (simp add: power_int_diff power_int_add field_simps)
  finally have up: "x < 2 powi (?k + 1)" .
  have "2 powi (bitlen p - 1) / 2 powi bitlen q \<le> x"
    unfolding x using bitlen_le_power [OF \<open>0 < p\<close>] power_less_bitlen [OF \<open>0 < q\<close>]
    by (intro frac_le) (use \<open>0 < p\<close> \<open>0 < q\<close> in simp_all)
  moreover have "2 powi (bitlen p - 1) / 2 powi bitlen q = (2 powi (?k - 1) :: rat)"
    by (simp add: power_int_diff power_int_add field_simps)
  ultimately have lo: "2 powi (?k - 1) \<le> x" by simp
  have e: "expo2 x = (if 2 powi ?k \<le> x then ?k else ?k - 1)"
    by (simp add: expo2_def pq)
  from lo up show "2 powi expo2 x \<le> x" and "x < 2 powi (expo2 x + 1)"
    by (simp_all add: e)
qed

section \<open>Rounding to an integer\<close>

lemma half_even_le: "x \<le> of_int z \<Longrightarrow> half_even x \<le> z"
  by (auto simp: half_even_def Let_def) linarith+

lemma half_even_ge: "of_int z \<le> x \<Longrightarrow> z \<le> half_even x"
  by (auto simp: half_even_def Let_def) linarith+

lemma half_even_error: "\<bar>of_int (half_even x) - x\<bar> \<le> 1 / 2"
proof -
  obtain n where n: "\<lfloor>x\<rfloor> = n" "of_int n \<le> x" "x < of_int n + 1"
    by (metis of_int_floor_le floor_less_iff less_add_one of_int_1 of_int_add)
  then show ?thesis by (auto simp: half_even_def Let_def abs_if)
qed

lemma half_even_of_int [simp]: "half_even (of_int z) = z"
  by (simp add: half_even_def)

section \<open>Rounding to binary64\<close>

lemma ulp_exp_ge: "- 1074 \<le> ulp_exp x"
  by (simp add: ulp_exp_def)

lemma abs_less_ulp: "\<bar>x\<bar> < 2 ^ 53 * 2 powi ulp_exp x"
proof (cases "x = 0")
  case False
  have "\<bar>x\<bar> < 2 powi (expo2 \<bar>x\<bar> + 1)"
    using False by (intro expo2_bounds(2)) simp
  also have "\<dots> \<le> 2 powi (53 + ulp_exp x)"
    by (intro power_int_increasing) (simp_all add: ulp_exp_def)
  also have "\<dots> = 2 ^ 53 * 2 powi ulp_exp x"
    by (simp add: power_int_add)
  finally show ?thesis .
qed (simp add: ulp_exp_def)

lemma ulp_le_abs: "x \<noteq> 0 \<Longrightarrow> - 1074 < ulp_exp x \<Longrightarrow> 2 ^ 52 * 2 powi ulp_exp x \<le> \<bar>x\<bar>"
proof -
  assume "x \<noteq> 0" and "- 1074 < ulp_exp x"
  then have "ulp_exp x = expo2 \<bar>x\<bar> - 52" by (simp add: ulp_exp_def)
  then have "2 ^ 52 * 2 powi ulp_exp x = (2 powi expo2 \<bar>x\<bar> :: rat)"
    by (simp add: power_int_diff)
  also have "\<dots> \<le> \<bar>x\<bar>" using \<open>x \<noteq> 0\<close> by (intro expo2_bounds(1)) simp
  finally show ?thesis .
qed

lemma fl_zero [simp, float64_exact]: "fl 0 = 0"
  by (simp add: fl_def)

lemma is_float64_fl [simp]: "is_float64 (fl x)"
proof (cases "x = 0")
  case False
  let ?y = "x / 2 powi ulp_exp x"
  have "\<bar>?y\<bar> < 2 ^ 53"
    using abs_less_ulp [of x] by (simp add: abs_divide divide_less_eq)
  then have "?y \<le> of_int (2 ^ 53)" and "of_int (- (2 ^ 53)) \<le> ?y"
    by (simp_all only: of_int_minus of_int_power of_int_numeral abs_less_iff) linarith+
  then have "\<bar>half_even ?y\<bar> \<le> 2 ^ 53"
    using half_even_le half_even_ge by (simp only: abs_le_iff) fastforce
  with False show ?thesis
    unfolding is_float64_def fl_def using ulp_exp_ge [of x] by auto
qed (auto simp: is_float64_def intro!: exI [of _ 0])

text \<open>Rounding does not cross a representable value, so representable values are exact.\<close>

lemma is_float64_uminus [simp]: "is_float64 (- z) \<longleftrightarrow> is_float64 z"
proof -
  have "is_float64 y \<Longrightarrow> is_float64 (- y)" for y
  proof -
    assume "is_float64 y"
    then obtain m e where "\<bar>m\<bar> \<le> 2 ^ 53" "- 1074 \<le> e" "y = of_int m * 2 powi e"
      unfolding is_float64_def by blast
    then have "\<bar>- m\<bar> \<le> 2 ^ 53" "- 1074 \<le> e" "- y = of_int (- m) * 2 powi e"
      by simp_all
    then show ?thesis unfolding is_float64_def by blast
  qed
  from this [of z] this [of "- z"] show ?thesis by auto
qed

lemma float64_grid:
  assumes "is_float64 z" and "x \<noteq> 0"
  shows "(\<exists>k. z = of_int k * 2 powi ulp_exp x) \<or>
         \<bar>z\<bar> < 2 ^ 52 * 2 powi ulp_exp x \<and> 2 ^ 52 * 2 powi ulp_exp x \<le> \<bar>x\<bar>"
proof -
  from assms(1) obtain m e where m: "\<bar>m\<bar> \<le> 2 ^ 53" and e: "- 1074 \<le> e" and z: "z = of_int m * 2 powi e"
    unfolding is_float64_def by blast
  let ?u = "ulp_exp x"
  show ?thesis
  proof (cases "?u \<le> e")
    case True
    have "(2 powi e :: rat) = 2 powi (e - ?u) * 2 powi ?u"
      by (simp flip: power_int_add)
    also have "2 powi (e - ?u) = (of_int (2 ^ nat (e - ?u)) :: rat)"
      using True by (simp add: power_int_def)
    finally have "(2 powi e :: rat) = of_int (2 ^ nat (e - ?u)) * 2 powi ?u" .
    then have "z = of_int (m * 2 ^ nat (e - ?u)) * 2 powi ?u"
      by (simp add: z)
    then show ?thesis by blast
  next
    case False
    then have "2 powi e \<le> (2 powi (?u - 1) :: rat)"
      by (intro power_int_increasing) simp_all
    moreover have "\<bar>z\<bar> \<le> 2 ^ 53 * 2 powi e"
    proof -
      have "\<bar>of_int m :: rat\<bar> \<le> 2 ^ 53"
        using m by (metis of_int_abs of_int_le_iff of_int_numeral of_int_power)
      then show ?thesis by (simp add: z abs_mult)
    qed
    ultimately have le: "\<bar>z\<bar> \<le> 2 ^ 52 * 2 powi ?u"
      by (simp add: power_int_diff)
    from False e have "- 1074 < ?u" by simp
    with assms(2) have "2 ^ 52 * 2 powi ?u \<le> \<bar>x\<bar>" by (rule ulp_le_abs)
    moreover have "\<exists>k. z = of_int k * 2 powi ?u" if "\<bar>z\<bar> = 2 ^ 52 * 2 powi ?u"
      using that by (cases "0 \<le> z") (auto intro: exI [of _ "2 ^ 52"] exI [of _ "- (2 ^ 52)"])
    ultimately show ?thesis using le by (cases "\<bar>z\<bar> = 2 ^ 52 * 2 powi ?u") auto
  qed
qed

lemma fl_le: "is_float64 z \<Longrightarrow> x \<le> z \<Longrightarrow> fl x \<le> z"
proof (cases "x = 0")
  case False
  assume z: "is_float64 z" and "x \<le> z"
  let ?u = "(2 :: rat) powi ulp_exp x"
  have pos: "0 < ?u" by simp
  have fl: "fl x = of_int (half_even (x / ?u)) * ?u" using False by (simp add: fl_def)
  from float64_grid [OF z False] show "fl x \<le> z"
  proof
    assume "\<exists>k. z = of_int k * ?u"
    then obtain k where k: "z = of_int k * ?u" by blast
    with \<open>x \<le> z\<close> pos have "x / ?u \<le> of_int k" by (simp add: divide_le_eq)
    then have "half_even (x / ?u) \<le> k" by (rule half_even_le)
    with pos show ?thesis by (simp add: fl k)
  next
    assume small: "\<bar>z\<bar> < 2 ^ 52 * ?u \<and> 2 ^ 52 * ?u \<le> \<bar>x\<bar>"
    with \<open>x \<le> z\<close> have "x \<le> - (2 ^ 52 * ?u)" by linarith
    then have "x / ?u \<le> of_int (- (2 ^ 52))" using pos by (simp add: divide_le_eq)
    then have "half_even (x / ?u) \<le> - (2 ^ 52)" by (rule half_even_le)
    then have "(of_int (half_even (x / ?u)) :: rat) \<le> of_int (- (2 ^ 52))"
      by (simp only: of_int_le_iff)
    then have "of_int (half_even (x / ?u)) * ?u \<le> of_int (- (2 ^ 52)) * ?u"
      using pos by (intro mult_right_mono) simp_all
    then have "fl x \<le> - (2 ^ 52 * ?u)" by (simp add: fl)
    with small show ?thesis by linarith
  qed
qed simp

lemma fl_uminus: "fl (- x) = - fl x"
proof -
  have "half_even (- y) = - half_even y" for y
  proof (cases "y = of_int \<lfloor>y\<rfloor>")
    case True
    then show ?thesis by (metis half_even_of_int of_int_minus)
  next
    case False
    then have "\<lceil>y\<rceil> = \<lfloor>y\<rfloor> + 1" by (metis ceiling_altdef)
    then have "\<lfloor>- y\<rfloor> = - \<lfloor>y\<rfloor> - 1" by (simp add: floor_minus)
    then show ?thesis by (auto simp: half_even_def Let_def)
  qed
  then show ?thesis by (simp add: fl_def ulp_exp_def)
qed

lemma fl_ge: "is_float64 z \<Longrightarrow> z \<le> x \<Longrightarrow> z \<le> fl x"
  using fl_le [of "- z" "- x"] by (simp add: fl_uminus)

lemma fl_exact [simp]: "is_float64 z \<Longrightarrow> fl z = z"
  by (intro antisym fl_le fl_ge) simp_all

lemma fl_idem [simp]: "fl (fl x) = fl x"
  by simp

lemma is_float64_of_int [intro, float64_exact]: "\<bar>m\<bar> \<le> 2 ^ 53 \<Longrightarrow> is_float64 (of_int m)"
  unfolding is_float64_def by (rule exI [of _ m], rule exI [of _ 0]) simp

lemma is_float64_0 [simp]: "is_float64 0" and is_float64_1 [simp]: "is_float64 1"
  using is_float64_of_int [of 0] is_float64_of_int [of 1] by simp_all

lemma is_float64_numeral [simp]: "numeral n \<le> (2 ^ 53 :: int) \<Longrightarrow> is_float64 (numeral n)"
  using is_float64_of_int [of "numeral n"] by simp

lemma fl_nonneg: "0 \<le> x \<Longrightarrow> 0 \<le> fl x"
  by (rule fl_ge) simp_all

lemma fl_ge_one: "1 \<le> x \<Longrightarrow> 1 \<le> fl x"
  by (rule fl_ge) simp_all

section \<open>Exact subtraction of one\<close>

text \<open>
  Below \<open>2 ^ 53\<close>, taking one from a \<open>float64\<close> of at least one is exact; so is giving it back.
\<close>

lemma is_float64_minus_one:
  assumes "is_float64 t" and "1 \<le> t" and "t \<le> 2 ^ 53"
  shows "is_float64 (t - 1)"
proof -
  from assms(1) obtain m e where m: "\<bar>m\<bar> \<le> 2 ^ 53" and e: "- 1074 \<le> e" and t: "t = of_int m * 2 powi e"
    unfolding is_float64_def by blast
  show ?thesis
  proof (cases "0 \<le> e")
    case True
    then have t': "t = of_int (m * 2 ^ nat e)" by (simp add: t power_int_def)
    with assms(2,3) have "(of_int 1 :: rat) \<le> of_int (m * 2 ^ nat e)"
      and "(of_int (m * 2 ^ nat e) :: rat) \<le> of_int (2 ^ 53)"
      by simp_all
    then have "\<bar>m * 2 ^ nat e - 1\<bar> \<le> 2 ^ 53" by (simp only: of_int_le_iff)
    then have "is_float64 (of_int (m * 2 ^ nat e - 1))" by (rule is_float64_of_int)
    then show ?thesis by (simp add: t')
  next
    case False
    let ?d = "2 ^ nat (- e) :: int"
    have one: "of_int ?d * 2 powi e = (1 :: rat)"
      using False by (simp add: power_int_def field_simps)
    then have t1: "t - 1 = of_int (m - ?d) * 2 powi e" by (simp add: t algebra_simps)
    with assms(2) have "0 \<le> of_int (m - ?d) * (2 powi e :: rat)" by simp
    then have "(0 :: rat) \<le> of_int (m - ?d)"
      by (metis mult_less_0_iff not_less zero_less_power_int zero_less_numeral)
    then have "0 \<le> m - ?d" by (simp only: of_int_0_le_iff)
    moreover have "0 < ?d" by simp
    ultimately have "\<bar>m - ?d\<bar> \<le> 2 ^ 53" using m by linarith
    with t1 e show ?thesis unfolding is_float64_def by blast
  qed
qed

section \<open>The size of a rounding error\<close>

definition unit_roundoff :: rat where "unit_roundoff = 1 / 2 ^ 53"
definition underflow_unit :: rat where "underflow_unit = 1 / 2 * 2 powi (- 1074)"

lemma fl_error: "\<bar>fl x - x\<bar> \<le> unit_roundoff * \<bar>x\<bar> + underflow_unit"
proof (cases "x = 0")
  case False
  let ?u = "(2 :: rat) powi ulp_exp x"
  have "fl x - x = (of_int (half_even (x / ?u)) - x / ?u) * ?u"
    using False by (simp add: fl_def left_diff_distrib)
  then have "\<bar>fl x - x\<bar> = \<bar>of_int (half_even (x / ?u)) - x / ?u\<bar> * ?u"
    by (simp add: abs_mult)
  also have "\<dots> \<le> 1 / 2 * ?u"
    by (intro mult_right_mono half_even_error) simp
  also have "\<dots> \<le> unit_roundoff * \<bar>x\<bar> + underflow_unit"
  proof (cases "ulp_exp x = - 1074")
    case True
    then have "1 / 2 * ?u = underflow_unit"
      by (simp add: underflow_unit_def)
    then show ?thesis by (simp add: unit_roundoff_def)
  next
    case nonmin: False
    with ulp_exp_ge [of x] False have "2 ^ 52 * ?u \<le> \<bar>x\<bar>" by (intro ulp_le_abs) simp_all
    then have "1 / 2 * ?u \<le> unit_roundoff * \<bar>x\<bar>" by (simp add: unit_roundoff_def)
    then show ?thesis by (simp add: underflow_unit_def add_increasing2)
  qed
  finally show ?thesis .
qed (simp add: underflow_unit_def)

lemma fl_upper: "0 \<le> x \<Longrightarrow> fl x \<le> x + unit_roundoff * x + underflow_unit"
  using fl_error [of x] by (simp add: abs_le_iff)

lemma fl_lower: "0 \<le> x \<Longrightarrow> x - unit_roundoff * x - underflow_unit \<le> fl x"
  using fl_error [of x] by (simp add: abs_le_iff)

end
