(* ===== verification/Product_Config.thy ===== *)
theory Product_Config
  imports Signatures Float64
begin

text \<open>
  The configuration of the product, \<open>internal/product/config.go\<close>, from an environment \<open>env\<close> in which
  an unset variable is empty. \<open>time.ParseDuration\<close> is written out with its 64-bit arithmetic and its
  \<open>float64\<close> fractions. \<open>url.ParseRequestURI\<close> is the parameter \<open>parse_url\<close>: scheme and host of a text
  that it accepts.
\<close>

section \<open>Durations\<close>

text \<open>Numbers up to \<open>2 ^ 63\<close> at the head of a string, and the decimals behind a point with their scale.\<close>

fun leading_int :: "nat \<Rightarrow> string \<Rightarrow> (nat \<times> string) option" where
  "leading_int x [] = Some (x, [])"
| "leading_int x (c # cs) =
     (if \<not> is_digit c then Some (x, c # cs)
      else if 2 ^ 63 div 10 < x then None
      else let y = x * 10 + (of_char c - 48) in if 2 ^ 63 < y then None else leading_int y cs)"

fun leading_fraction :: "nat \<Rightarrow> rat \<Rightarrow> bool \<Rightarrow> string \<Rightarrow> nat \<times> rat \<times> string" where
  "leading_fraction x scale overflow [] = (x, scale, [])"
| "leading_fraction x scale overflow (c # cs) =
     (if \<not> is_digit c then (x, scale, c # cs)
      else if overflow \<or> (2 ^ 63 - 1) div 10 < x then leading_fraction x scale True cs
      else let y = x * 10 + (of_char c - 48)
        in if 2 ^ 63 < y then leading_fraction x scale True cs
           else leading_fraction y (fl (scale * 10)) False cs)"

definition duration_units :: "(string \<times> nat) list" where
  "duration_units = [(''ns'', 1), (''us'', 1000), ([CHR 0xC2, CHR 0xB5, CHR ''s''], 1000), ([CHR 0xCE, CHR 0xBC, CHR ''s''], 1000),
     (''ms'', 1000000), (''s'', 1000000000), (''m'', 60000000000), (''h'', 3600000000000)]"

definition in_number :: "char \<Rightarrow> bool" where
  "in_number c \<longleftrightarrow> c = CHR ''.'' \<or> is_digit c"

text \<open>The value of a number with its fraction in a unit.\<close>

definition unit_value :: "nat \<Rightarrow> nat \<Rightarrow> rat \<Rightarrow> nat \<Rightarrow> nat option" where
  "unit_value v f scale unit =
     (if 2 ^ 63 div unit < v then None
      else if f = 0 then Some (v * unit)
      else let v' = v * unit + nat \<lfloor>fl (fl (of_nat f) * fl (of_nat unit / scale))\<rfloor>
        in if 2 ^ 63 < v' then None else Some v')"

text \<open>One number and its unit at the head of a string: the nanoseconds and the rest.\<close>

definition duration_part :: "string \<Rightarrow> (nat \<times> string) option" where
  "duration_part s =
     (if s = [] \<or> \<not> in_number (hd s) then None
      else case leading_int 0 s of
             None \<Rightarrow> None
           | Some (v, s1) \<Rightarrow>
               (let (f, scale, s2) = (if s1 \<noteq> [] \<and> hd s1 = CHR ''.'' then leading_fraction 0 1 False (tl s1) else (0, 1, s1));
                    pre = (s1 \<noteq> s);
                    post = (s1 \<noteq> [] \<and> hd s1 = CHR ''.'' \<and> s2 \<noteq> tl s1);
                    u = takeWhile (\<lambda>c. \<not> in_number c) s2
                in if \<not> pre \<and> \<not> post \<or> u = [] then None
                   else case map_of duration_units u of
                          None \<Rightarrow> None
                        | Some unit \<Rightarrow> map_option (\<lambda>n. (n, dropWhile (\<lambda>c. \<not> in_number c) s2)) (unit_value v f scale unit)))"

lemma leading_int_shorter: "leading_int x s = Some (v, r) \<Longrightarrow> length r \<le> length s"
  by (induction x s rule: leading_int.induct) (auto simp: Let_def split: if_splits)

lemma leading_fraction_shorter: "leading_fraction x scale overflow s = (f, scale', r) \<Longrightarrow> length r \<le> length s"
  by (induction x scale overflow s rule: leading_fraction.induct) (fastforce simp: Let_def split: if_splits)+

lemma dropWhile_shorter: "takeWhile P s \<noteq> [] \<Longrightarrow> length (dropWhile P s) < length s"
  using takeWhile_dropWhile_id [of P s] by (metis append_Nil length_append length_greater_0_conv less_add_same_cancel2)

lemma duration_part_shorter: "duration_part s = Some (v, r) \<Longrightarrow> length r < length s"
proof -
  assume p: "duration_part s = Some (v, r)"
  obtain n s1 where l: "leading_int 0 s = Some (n, s1)" using p by (auto simp: duration_part_def split: if_splits option.splits)
  obtain f scale s2 where q: "(if s1 \<noteq> [] \<and> hd s1 = CHR ''.'' then leading_fraction 0 1 False (tl s1) else (0, 1, s1)) = (f, scale, s2)"
    by (cases "if s1 \<noteq> [] \<and> hd s1 = CHR ''.'' then leading_fraction 0 1 False (tl s1) else (0, 1, s1)")
  have "length s2 \<le> length s1"
    using q leading_fraction_shorter [of 0 1 False "tl s1" f scale s2] by (auto split: if_splits)
  moreover have "takeWhile (\<lambda>c. \<not> in_number c) s2 \<noteq> []" "r = dropWhile (\<lambda>c. \<not> in_number c) s2"
    using p l q by (auto simp: duration_part_def Let_def split: if_splits option.splits)
  ultimately show "length r < length s"
    using leading_int_shorter [OF l] dropWhile_shorter [of "\<lambda>c. \<not> in_number c" s2] by simp
qed

text \<open>The sum is a \<open>uint64\<close>: it is checked against \<open>2 ^ 63\<close> after it may have wrapped.\<close>

function duration_loop :: "nat \<Rightarrow> string \<Rightarrow> nat option" where
  "duration_loop d s =
     (if s = [] then Some d
      else case duration_part s of
             None \<Rightarrow> None
           | Some (v, r) \<Rightarrow> (let d' = (d + v) mod 2 ^ 64 in if 2 ^ 63 < d' then None else duration_loop d' r))"
  by pat_completeness auto

termination
  by (relation "measure (length \<circ> snd)") (auto dest: duration_part_shorter)

declare duration_loop.simps [simp del]

definition parse_duration :: "string \<Rightarrow> duration option" where
  "parse_duration s =
     (let neg = (s \<noteq> [] \<and> hd s = CHR ''-'');
          rest = (if s \<noteq> [] \<and> (hd s = CHR ''-'' \<or> hd s = CHR ''+'') then tl s else s)
      in if rest = ''0'' then Some 0
         else if rest = [] then None
         else case duration_loop 0 rest of
                None \<Rightarrow> None
              | Some d \<Rightarrow> if neg then Some (- int d) else if 2 ^ 63 - 1 < d then None else Some (int d))"

section \<open>The configuration\<close>

record product_config =
  pc_address :: string
  pc_database_url :: string
  pc_redis_url :: string
  pc_api_keys :: "string \<rightharpoonup> string"
  pc_integration_tenant :: string
  pc_webhook_url :: string
  pc_webhook_secret :: string
  pc_stripe_secret :: string
  pc_shopify_secret :: string
  pc_max_attempts :: int
  pc_poll :: duration
  pc_lease :: duration
  pc_request_timeout :: duration

datatype config_error =
    Not_an_integer string
  | Not_a_duration string
  | Invalid_mapping
  | Duplicate_key string
  | Variable_required string
  | No_api_keys
  | Bad_integration_tenant
  | Secret_required
  | Bad_webhook_url
  | Not_positive
  | Lease_too_short

type_synonym environment = "string \<Rightarrow> string"

definition env_or_default :: "environment \<Rightarrow> string \<Rightarrow> string \<Rightarrow> string" where
  "env_or_default env key fallback = (if env key \<noteq> [] then env key else fallback)"

definition env_int :: "environment \<Rightarrow> string \<Rightarrow> int \<Rightarrow> config_error + int" where
  "env_int env key fallback =
     (if env key = [] then Inr fallback
      else case parse_int (env key) of None \<Rightarrow> Inl (Not_an_integer key) | Some n \<Rightarrow> Inr n)"

definition env_duration :: "environment \<Rightarrow> string \<Rightarrow> duration \<Rightarrow> config_error + duration" where
  "env_duration env key fallback =
     (if env key = [] then Inr fallback
      else case parse_duration (env key) of None \<Rightarrow> Inl (Not_a_duration key) | Some d \<Rightarrow> Inr d)"

text \<open>The entries of \<open>PRODUCT_API_KEYS\<close> in their order, on the keys read before.\<close>

fun read_api_keys :: "string list \<Rightarrow> (string \<rightharpoonup> string) \<Rightarrow> config_error + (string \<rightharpoonup> string)" where
  "read_api_keys [] keys = Inr keys"
| "read_api_keys (entry # entries) keys =
     (let trimmed = trim_space entry
      in if trimmed = [] then read_api_keys entries keys
         else case string_cut (CHR ''='') trimmed of
                None \<Rightarrow> Inl Invalid_mapping
              | Some (k, t) \<Rightarrow>
                  (let key = trim_space k; tenant = trim_space t
                   in if key = [] \<or> tenant = [] then Inl Invalid_mapping
                      else if keys key \<noteq> None then Inl (Duplicate_key key)
                      else read_api_keys entries (keys(key \<mapsto> tenant))))"

definition parse_api_keys :: "string \<Rightarrow> config_error + (string \<rightharpoonup> string)" where
  "parse_api_keys value = read_api_keys (string_split (CHR '','') value) Map.empty"

text \<open>The checks on an assembled configuration, in the order of the code.\<close>

definition config_problem :: "(string \<Rightarrow> (string \<times> string) option) \<Rightarrow> product_config \<Rightarrow> config_error option" where
  "config_problem parse_url c =
     (if pc_database_url c = [] then Some (Variable_required ''DATABASE_URL'')
      else if pc_redis_url c = [] then Some (Variable_required ''REDIS_URL'')
      else if pc_api_keys c = Map.empty then Some No_api_keys
      else if pc_integration_tenant c = [] \<or> 100 < length (pc_integration_tenant c) then Some Bad_integration_tenant
      else if pc_webhook_url c \<noteq> [] \<and> pc_webhook_secret c = [] then Some Secret_required
      else if pc_webhook_url c \<noteq> [] \<and>
        (case parse_url (pc_webhook_url c) of
           None \<Rightarrow> True
         | Some (scheme, host) \<Rightarrow> scheme \<noteq> ''http'' \<and> scheme \<noteq> ''https'' \<or> host = []) then Some Bad_webhook_url
      else if pc_max_attempts c < 1 \<or> pc_poll c \<le> 0 \<or> pc_lease c \<le> 0 \<or> pc_request_timeout c \<le> 0 then Some Not_positive
      else if pc_lease c \<le> pc_request_timeout c then Some Lease_too_short
      else None)"

definition assemble_config :: "environment \<Rightarrow> int \<Rightarrow> duration \<Rightarrow> duration \<Rightarrow> duration \<Rightarrow> (string \<rightharpoonup> string) \<Rightarrow> product_config" where
  "assemble_config env attempts poll lease timeout keys =
     \<lparr>pc_address = env_or_default env ''PRODUCT_ADDRESS'' '':8081'', pc_database_url = env ''DATABASE_URL'',
      pc_redis_url = env ''REDIS_URL'', pc_api_keys = keys,
      pc_integration_tenant = env_or_default env ''INTEGRATION_TENANT_ID'' ''tenant-alpha'',
      pc_webhook_url = env ''OUTBOUND_WEBHOOK_URL'', pc_webhook_secret = env ''OUTBOUND_WEBHOOK_SECRET'',
      pc_stripe_secret = env ''STRIPE_WEBHOOK_SECRET'', pc_shopify_secret = env ''SHOPIFY_WEBHOOK_SECRET'',
      pc_max_attempts = attempts, pc_poll = poll, pc_lease = lease, pc_request_timeout = timeout\<rparr>"

definition load_config :: "(string \<Rightarrow> (string \<times> string) option) \<Rightarrow> environment \<Rightarrow> config_error + product_config" where
  "load_config parse_url env =
     (case env_int env ''WEBHOOK_MAX_ATTEMPTS'' 5 of
        Inl e \<Rightarrow> Inl e
      | Inr attempts \<Rightarrow>
     (case env_duration env ''WEBHOOK_POLL_INTERVAL'' (250 * millisecond) of
        Inl e \<Rightarrow> Inl e
      | Inr poll \<Rightarrow>
     (case env_duration env ''WEBHOOK_LEASE'' (30 * second) of
        Inl e \<Rightarrow> Inl e
      | Inr lease \<Rightarrow>
     (case env_duration env ''WEBHOOK_REQUEST_TIMEOUT'' (5 * second) of
        Inl e \<Rightarrow> Inl e
      | Inr timeout \<Rightarrow>
     (case parse_api_keys (env ''PRODUCT_API_KEYS'') of
        Inl e \<Rightarrow> Inl e
      | Inr keys \<Rightarrow>
          (let c = assemble_config env attempts poll lease timeout keys
           in case config_problem parse_url c of Some e \<Rightarrow> Inl e | None \<Rightarrow> Inr c))))))"

section \<open>Durations read as they are written\<close>

lemma takeWhile_char: "\<not> P c \<Longrightarrow> takeWhile P (c # cs) = []"
  by simp

lemma leading_int_digits:
  assumes "\<forall>c \<in> set s. is_digit c" and "foldl (\<lambda>a c. 10 * a + (of_char c - 48)) n s \<le> 2 ^ 63"
    and "r = [] \<or> \<not> is_digit (hd r)"
  shows "leading_int n (s @ r) = Some (foldl (\<lambda>a c. 10 * a + (of_char c - 48)) n s, r)"
  using assms(1,2)
proof (induction s arbitrary: n)
  case Nil
  then show ?case using assms(3) by (cases r) simp_all
next
  case (Cons c s)
  let ?y = "10 * n + (of_char c - 48)"
  have "?y \<le> 2 ^ 63" using Cons.prems(2) foldl_digits_le [of ?y s] by simp
  then have "\<not> 2 ^ 63 div 10 < n" by simp
  then show ?case using Cons \<open>?y \<le> 2 ^ 63\<close> by (simp add: mult.commute)
qed

lemma leading_int_show: "n \<le> 2 ^ 63 \<Longrightarrow> r = [] \<or> \<not> is_digit (hd r) \<Longrightarrow> leading_int 0 (show_nat n @ r) = Some (n, r)"
  using leading_int_digits [of "show_nat n" 0 r] show_nat_digits [of _ n] digits_value_show [of n]
  by (simp add: digits_value_def)

lemma parse_duration_unit:
  assumes "map_of duration_units u = Some unit" "u \<noteq> []" "\<forall>c \<in> set u. \<not> in_number c" "n * unit < 2 ^ 63" "0 < unit"
  shows "parse_duration (show_nat n @ u) = Some (int (n * unit))"
proof -
  obtain c cs where c: "show_nat n = c # cs" by (cases "show_nat n") simp_all
  then have d: "is_digit c" using show_nat_digits [of c n] by simp
  have head: "\<not> is_digit (hd u)" "hd u \<noteq> CHR ''.''" using assms(2,3) by (auto simp: in_number_def dest: hd_in_set)
  have "n \<le> n * unit" using assms(5) by simp
  then have n: "n < 2 ^ 63" using assms(4) by linarith
  have ic: "in_number (hd (show_nat n))" using c d by (simp add: in_number_def)
  have l: "leading_int 0 (show_nat n @ u) = Some (n, u)" using n head by (intro leading_int_show) auto
  have tw: "takeWhile (\<lambda>c. \<not> in_number c) u = u" "dropWhile (\<lambda>c. \<not> in_number c) u = []"
    using assms(3) by (simp_all add: takeWhile_eq_all_conv)
  have "n \<le> 2 ^ 63 div unit" using assms(4,5) by (simp add: less_eq_div_iff_mult_less_eq)
  then have "unit_value n 0 1 unit = Some (n * unit)" by (simp add: unit_value_def)
  then have "duration_part (show_nat n @ u) = Some (n * unit, [])"
    using assms(1,2) by (simp add: duration_part_def l head tw ic)
  then have "duration_loop 0 (show_nat n @ u) = Some (n * unit)"
    using assms(4) by (simp add: duration_loop.simps [of 0 "show_nat n @ u"] duration_loop.simps [of _ "[]"])
  moreover have "c \<noteq> CHR ''-''" "c \<noteq> CHR ''+''" using d by (auto simp: is_digit_def)
  moreover have "show_nat n @ u \<noteq> ''0''" using assms(2) c by auto
  ultimately show ?thesis using assms(4) c by (auto simp: parse_duration_def Let_def)
qed

lemma parse_duration_units [simp]:
  "n * 1000000 < 2 ^ 63 \<Longrightarrow> parse_duration (show_nat n @ ''ms'') = Some (int n * millisecond)"
  "n * 1000000000 < 2 ^ 63 \<Longrightarrow> parse_duration (show_nat n @ ''s'') = Some (int n * second)"
  using parse_duration_unit [of "''ms''" 1000000 n] parse_duration_unit [of "''s''" 1000000000 n]
  by (simp_all add: duration_units_def in_number_def is_digit_def go_duration_defs)

lemma unit_value_range: "unit_value v f scale unit = Some n \<Longrightarrow> 0 < unit \<Longrightarrow> n \<le> 2 ^ 63"
  by (auto simp: unit_value_def Let_def not_less less_eq_div_iff_mult_less_eq split: if_splits)

lemma duration_loop_range: "d \<le> 2 ^ 63 \<Longrightarrow> duration_loop d s = Some n \<Longrightarrow> n \<le> 2 ^ 63"
proof (induction d s rule: duration_loop.induct)
  case (1 d s)
  show ?case
  proof (cases "s = []")
    case True
    then show ?thesis using "1.prems" by (simp add: duration_loop.simps)
  next
    case False
    obtain v r where p: "duration_part s = Some (v, r)"
      using "1.prems"(2) False by (auto simp: duration_loop.simps [of d s] split: option.splits)
    let ?d = "(d + v) mod 2 ^ 64"
    have "\<not> 2 ^ 63 < ?d" "duration_loop ?d r = Some n"
      using "1.prems"(2) False p by (auto simp: duration_loop.simps [of d s] Let_def split: if_splits)
    then show ?thesis using "1.IH" [OF False p refl refl] by simp
  qed
qed

lemma parse_duration_range: "parse_duration s = Some d \<Longrightarrow> in_int64 d"
  by (auto simp: parse_duration_def Let_def in_int64_def int64_min_def int64_max_def
      split: if_splits option.splits dest!: duration_loop_range [of 0, simplified])

section \<open>API keys\<close>

definition named_keys :: "(string \<rightharpoonup> string) \<Rightarrow> bool" where
  "named_keys keys \<longleftrightarrow> (\<forall>k t. keys k = Some t \<longrightarrow> k \<noteq> [] \<and> t \<noteq> [] \<and> trim_space k = k \<and> trim_space t = t)"

lemma read_api_keys_named: "named_keys keys \<Longrightarrow> read_api_keys entries keys = Inr keys' \<Longrightarrow> named_keys keys'"
proof (induction entries arbitrary: keys)
  case (Cons entry entries)
  show ?case
  proof (cases "trim_space entry = []")
    case True
    then show ?thesis using Cons by (simp add: Let_def)
  next
    case False
    obtain k t where c: "string_cut (CHR ''='') (trim_space entry) = Some (k, t)"
      using Cons.prems(2) False by (auto simp: Let_def split: option.splits)
    then have "read_api_keys entries (keys(trim_space k \<mapsto> trim_space t)) = Inr keys'" "trim_space k \<noteq> []" "trim_space t \<noteq> []"
      using Cons.prems(2) False by (auto simp: Let_def split: if_splits)
    then show ?thesis using Cons.prems(1) by (intro Cons.IH) (auto simp: named_keys_def)
  qed
qed simp

lemma parse_api_keys_named: "parse_api_keys s = Inr keys \<Longrightarrow> named_keys keys"
  unfolding parse_api_keys_def by (erule read_api_keys_named [rotated]) (simp add: named_keys_def)

definition valid_config :: "(string \<Rightarrow> (string \<times> string) option) \<Rightarrow> product_config \<Rightarrow> bool" where
  "valid_config parse_url c \<longleftrightarrow>
     pc_database_url c \<noteq> [] \<and> pc_redis_url c \<noteq> [] \<and> pc_api_keys c \<noteq> Map.empty \<and> named_keys (pc_api_keys c) \<and>
     pc_integration_tenant c \<noteq> [] \<and> length (pc_integration_tenant c) \<le> 100 \<and>
     (pc_webhook_url c \<noteq> [] \<longrightarrow> pc_webhook_secret c \<noteq> [] \<and>
        (\<exists>scheme host. parse_url (pc_webhook_url c) = Some (scheme, host) \<and> scheme \<in> {''http'', ''https''} \<and> host \<noteq> [])) \<and>
     1 \<le> pc_max_attempts c \<and> in_int64 (pc_max_attempts c) \<and> 0 < pc_poll c \<and> in_int64 (pc_poll c) \<and>
     0 < pc_request_timeout c \<and> pc_request_timeout c < pc_lease c \<and> in_int64 (pc_lease c)"

lemma parse_int_range: "parse_int s = Some k \<Longrightarrow> in_int64 k"
  by (auto simp: parse_int_def Let_def in_int64_def int64_min_def int64_max_def split: if_splits prod.splits)

lemma env_int_range: "env_int env key n = Inr k \<Longrightarrow> in_int64 n \<Longrightarrow> in_int64 k"
  by (auto simp: env_int_def split: if_splits option.splits dest: parse_int_range)

lemma env_duration_range: "env_duration env key d = Inr k \<Longrightarrow> in_int64 d \<Longrightarrow> in_int64 k"
  by (auto simp: env_duration_def split: if_splits option.splits dest: parse_duration_range)

text \<open>
  Only a usable configuration starts the product. Whatever the environment holds, a configuration
  that \<open>LoadConfig\<close> returns has a database, Redis, at least one API key with a non-empty key and tenant,
  a receiver with a secret and an absolute HTTP URL or none, positive attempts and durations within
  \<open>int64\<close>, and a processing lease that outlives an outbound request.
\<close>

theorem config_sound:
  assumes "load_config parse_url env = Inr c"
  shows "valid_config parse_url c"
proof -
  have fits: "in_int64 (5 :: int)" "in_int64 (250 * millisecond)" "in_int64 (30 * second)"
    by (simp_all add: in_int64_def int64_min_def int64_max_def go_duration_defs)
  obtain attempts where a: "env_int env ''WEBHOOK_MAX_ATTEMPTS'' 5 = Inr attempts"
    using assms by (auto simp: load_config_def split: sum.splits)
  obtain poll where p: "env_duration env ''WEBHOOK_POLL_INTERVAL'' (250 * millisecond) = Inr poll"
    using assms a by (auto simp: load_config_def split: sum.splits)
  obtain lease where l: "env_duration env ''WEBHOOK_LEASE'' (30 * second) = Inr lease"
    using assms a p by (auto simp: load_config_def split: sum.splits)
  obtain timeout where t: "env_duration env ''WEBHOOK_REQUEST_TIMEOUT'' (5 * second) = Inr timeout"
    using assms a p l by (auto simp: load_config_def split: sum.splits)
  obtain keys where k: "parse_api_keys (env ''PRODUCT_API_KEYS'') = Inr keys"
    using assms a p l t by (auto simp: load_config_def split: sum.splits)
  have c: "c = assemble_config env attempts poll lease timeout keys" "config_problem parse_url c = None"
    using assms a p l t k by (auto simp: load_config_def Let_def split: option.splits)
  have named: "named_keys (pc_api_keys c)" using parse_api_keys_named [OF k] by (simp add: c(1) assemble_config_def)
  have ints: "in_int64 (pc_max_attempts c)" "in_int64 (pc_poll c)" "in_int64 (pc_lease c)"
    using env_int_range [OF a fits(1)] env_duration_range [OF p fits(2)] env_duration_range [OF l fits(3)]
    by (simp_all add: c(1) assemble_config_def)
  show ?thesis
    using c(2) named ints unfolding valid_config_def config_problem_def
    by (auto split: if_splits option.splits prod.splits)
qed

definition sample_env :: environment where
  "sample_env = (\<lambda>_. [])(''DATABASE_URL'' := ''postgres://db'', ''REDIS_URL'' := ''redis://cache'', ''PRODUCT_API_KEYS'' := ''k=t'',
     ''WEBHOOK_LEASE'' := show_nat 20 @ ''s'')"

lemma sample_keys: "parse_api_keys ''k=t'' = Inr [''k'' \<mapsto> ''t'']"
proof -
  have "trim_space ''k=t'' = ''k=t''" "trim_space ''k'' = ''k''" "trim_space ''t'' = ''t''"
    by (rule trim_space_printing, simp add: printing_def)+
  then show ?thesis by (simp add: parse_api_keys_def Let_def string_cut_def)
qed

lemma sample_config: "\<exists>c. load_config (\<lambda>_. None) sample_env = Inr c \<and> pc_lease c = 20 * second"
proof -
  have lease: "parse_duration (show_nat 20 @ ''s'') = Some (20 * second)" using parse_duration_units(2) [of 20] by simp
  have ne: "show_nat 20 @ ''s'' \<noteq> []" by simp
  show ?thesis
    by (simp add: load_config_def env_int_def env_duration_def sample_env_def sample_keys lease ne del: show_nat.simps)
      (simp add: config_problem_def assemble_config_def env_or_default_def go_duration_defs)
qed

theorem config_sound_witness:
  "\<exists>c. load_config (\<lambda>_. None) sample_env = Inr c \<and> valid_config (\<lambda>_. None) c \<and> pc_lease c = 20 * second"
proof -
  obtain c where "load_config (\<lambda>_. None) sample_env = Inr c" "pc_lease c = 20 * second" using sample_config by blast
  with config_sound [OF this(1)] show ?thesis by blast
qed

text \<open>How an operator writes a list of keys.\<close>

fun write_api_keys :: "(string \<times> string) list \<Rightarrow> string" where
  "write_api_keys [] = []"
| "write_api_keys [(k, t)] = k @ ''='' @ t"
| "write_api_keys ((k, t) # ps) = k @ ''='' @ t @ '','' @ write_api_keys ps"

definition plain_pair :: "string \<times> string \<Rightarrow> bool" where
  "plain_pair p \<longleftrightarrow> (case p of (k, t) \<Rightarrow> k \<noteq> [] \<and> t \<noteq> [] \<and> printing k \<and> printing t \<and> CHR '','' \<notin> set k \<and> CHR ''='' \<notin> set k \<and>
     CHR '','' \<notin> set t)"

lemma split_written: "ps \<noteq> [] \<Longrightarrow> \<forall>p \<in> set ps. plain_pair p \<Longrightarrow>
    string_split (CHR '','') (write_api_keys ps) = map (\<lambda>(k, t). k @ ''='' @ t) ps"
proof (induction ps rule: write_api_keys.induct)
  case (2 k t)
  then show ?case using string_split_plain [of "CHR '',''" "k @ ''='' @ t"] by (auto simp: plain_pair_def)
next
  case (3 k t p ps)
  then show ?case using string_split_append [of "CHR '',''" "k @ ''='' @ t" "write_api_keys (p # ps)"] by (auto simp: plain_pair_def)
qed simp

lemma read_written: "\<forall>p \<in> set ps. plain_pair p \<Longrightarrow> distinct (map fst ps) \<Longrightarrow> (\<forall>p \<in> set ps. keys (fst p) = None) \<Longrightarrow>
    read_api_keys (map (\<lambda>(k, t). k @ ''='' @ t) ps) keys = Inr (keys ++ map_of ps)"
proof (induction ps arbitrary: keys)
  case (Cons p ps)
  obtain k t where p: "p = (k, t)" by fastforce
  have plain: "plain_pair (k, t)" using Cons.prems(1) p by simp
  then have "printing (k @ ''='' @ t)" by (auto simp: plain_pair_def printing_def)
  then have tr: "trim_space (k @ ''='' @ t) = k @ ''='' @ t" "trim_space k = k" "trim_space t = t"
    using plain by (simp_all add: trim_space_printing plain_pair_def)
  have cut: "string_cut (CHR ''='') (k @ ''='' @ t) = Some (k, t)"
    using string_cut_append [of "CHR ''=''" k t] plain by (simp add: plain_pair_def)
  have "read_api_keys (map (\<lambda>(k, t). k @ ''='' @ t) ps) (keys(k \<mapsto> t)) = Inr (keys(k \<mapsto> t) ++ map_of ps)"
    using Cons.prems p by (intro Cons.IH) auto
  moreover have "keys(k \<mapsto> t) ++ map_of ps = keys ++ map_of (p # ps)"
  proof -
    have "map_of ps k = None" using Cons.prems(2) p by (simp add: map_of_eq_None_iff)
    then show ?thesis by (intro ext) (auto simp: map_add_def p split: option.splits)
  qed
  moreover have "read_api_keys (map (\<lambda>(k, t). k @ ''='' @ t) (p # ps)) keys =
      read_api_keys (map (\<lambda>(k, t). k @ ''='' @ t) ps) (keys(k \<mapsto> t))"
    using plain tr cut Cons.prems(3) p by (simp add: Let_def plain_pair_def)
  ultimately show ?case by (simp only:)
qed simp

text \<open>
  API keys are read as they are written: a comma-separated list of \<open>key=tenant\<close> pairs with distinct
  keys is read as exactly that mapping, and a key that is listed twice is refused.
\<close>

theorem api_keys_roundtrip:
  assumes "ps \<noteq> []" "\<forall>p \<in> set ps. plain_pair p"
  shows "(distinct (map fst ps) \<longrightarrow> parse_api_keys (write_api_keys ps) = Inr (map_of ps)) \<and>
    (\<forall>k t. distinct (map fst ps) \<and> k \<in> fst ` set ps \<and> plain_pair (k, t) \<longrightarrow> parse_api_keys (write_api_keys (ps @ [(k, t)])) = Inl (Duplicate_key k))"
proof -
  have ok: "parse_api_keys (write_api_keys ps) = Inr (map_of ps)" if "distinct (map fst ps)"
    using read_written [OF assms(2) that, of Map.empty] split_written [OF assms] by (simp add: parse_api_keys_def)
  have dup: "read_api_keys (map (\<lambda>(k, t). k @ ''='' @ t) qs @ map (\<lambda>(k, t). k @ ''='' @ t) [(k, t)]) keys = Inl (Duplicate_key k)"
    if "\<forall>p \<in> set qs. plain_pair p" "distinct (map fst qs)" "\<forall>p \<in> set qs. keys (fst p) = None" "plain_pair (k, t)"
      "k \<in> fst ` set qs \<or> keys k \<noteq> None" for qs keys k t
    using that
  proof (induction qs arbitrary: keys)
    case Nil
    have "printing (k @ ''='' @ t)" using Nil.prems(4) by (auto simp: plain_pair_def printing_def)
    then have "trim_space (k @ ''='' @ t) = k @ ''='' @ t" "trim_space k = k" "trim_space t = t"
      using Nil.prems(4) by (simp_all add: trim_space_printing plain_pair_def)
    moreover have "string_cut (CHR ''='') (k @ ''='' @ t) = Some (k, t)"
      using string_cut_append [of "CHR ''=''" k t] Nil.prems(4) by (simp add: plain_pair_def)
    ultimately show ?case using Nil.prems(4,5) by (simp add: Let_def plain_pair_def)
  next
    case (Cons p qs)
    obtain a b where p: "p = (a, b)" by fastforce
    have plain: "plain_pair (a, b)" using Cons.prems(1) p by simp
    then have "printing (a @ ''='' @ b)" by (auto simp: plain_pair_def printing_def)
    then have tr: "trim_space (a @ ''='' @ b) = a @ ''='' @ b" "trim_space a = a" "trim_space b = b"
      using plain by (simp_all add: trim_space_printing plain_pair_def)
    have cut: "string_cut (CHR ''='') (a @ ''='' @ b) = Some (a, b)"
      using string_cut_append [of "CHR ''=''" a b] plain by (simp add: plain_pair_def)
    have "read_api_keys (map (\<lambda>(k, t). k @ ''='' @ t) qs @ map (\<lambda>(k, t). k @ ''='' @ t) [(k, t)]) (keys(a \<mapsto> b)) = Inl (Duplicate_key k)"
      using Cons.prems p by (intro Cons.IH) auto
    then show ?case using plain tr cut Cons.prems(3) p by (simp add: Let_def plain_pair_def)
  qed
  have "parse_api_keys (write_api_keys (ps @ [(k, t)])) = Inl (Duplicate_key k)"
    if "distinct (map fst ps)" "k \<in> fst ` set ps" "plain_pair (k, t)" for k t
    using dup [OF assms(2) that(1) _ that(3), of Map.empty] that(2,3) split_written [of "ps @ [(k, t)]"] assms(2)
    by (auto simp: parse_api_keys_def)
  with ok show ?thesis by blast
qed

theorem api_keys_roundtrip_witness:
  "parse_api_keys (write_api_keys [(''a'', ''x''), (''b'', ''y'')]) = Inr [''b'' \<mapsto> ''y'', ''a'' \<mapsto> ''x'']"
  using api_keys_roundtrip [of "[(''a'', ''x''), (''b'', ''y'')]"] by (simp add: plain_pair_def printing_def fun_upd_twist)

end
