(* ===== verification/Limiter.thy ===== *)
theory Limiter
  imports Float64 "HOL-Library.Signed_Division"
begin

text \<open>
  The token-bucket limiter of \<open>internal/reliability/limiter.go\<close>. Every operation runs under the
  limiter's mutex, so it is one atomic step on the record \<open>limiter\<close>; the reading of the injected
  clock that \<open>Allow\<close> makes before it takes the lock is the argument \<open>now\<close>, so the readings of
  concurrent callers may arrive in any order. Tokens are \<open>float64\<close> values (theory \<open>Float64\<close>).

  The theory shows that the balance of every key stays between zero and the burst, how many
  requests a key can pass in a time window (rounding included), that a refund undoes an
  admission exactly, and that keys do not influence each other. The locale \<open>admission\<close> is the
  interface the HTTP layer uses.
\<close>

section \<open>State and operations\<close>

record token_bucket =
  tokens :: rat
  last_refill :: gotime

record limiter =
  rate :: rat
  burst :: rat
  buckets :: "string \<rightharpoonup> token_bucket"

text \<open>\<open>time.Duration.Seconds\<close>: whole seconds and the fraction are converted separately.\<close>

definition duration_seconds :: "duration \<Rightarrow> rat" where
  "duration_seconds d = fl (fl (of_int (d sdiv second)) + fl (fl (of_int (d smod second)) / 1000000000))"

definition new_token_bucket_limiter :: "rat \<Rightarrow> int \<Rightarrow> string + limiter" where
  "new_token_bucket_limiter r b =
     (if r \<le> 0 then Inl ''reliability: limiter rate must be positive''
      else if b \<le> 0 then Inl ''reliability: limiter burst must be positive''
      else Inr \<lparr>rate = r, burst = fl (of_int b), buckets = Map.empty\<rparr>)"

definition refill :: "limiter \<Rightarrow> gotime \<Rightarrow> token_bucket \<Rightarrow> token_bucket" where
  "refill l now b =
     (let elapsed = duration_seconds (time_sub now (last_refill b))
      in if 0 < elapsed
         then \<lparr>tokens = min (burst l) (fl (tokens b + fl (elapsed * rate l))), last_refill = now\<rparr>
         else b)"

definition allow :: "gotime \<Rightarrow> string \<Rightarrow> limiter \<Rightarrow> bool \<times> limiter" where
  "allow now key l =
     (case buckets l key of
        None \<Rightarrow> (True, l\<lparr>buckets := (buckets l)(key \<mapsto> \<lparr>tokens = fl (burst l - 1), last_refill = now\<rparr>)\<rparr>)
      | Some bucket \<Rightarrow>
          let b = refill l now bucket
          in if tokens b < 1 then (False, l\<lparr>buckets := (buckets l)(key \<mapsto> b)\<rparr>)
             else (True, l\<lparr>buckets := (buckets l)(key \<mapsto> b\<lparr>tokens := fl (tokens b - 1)\<rparr>)\<rparr>))"

definition refund :: "string \<Rightarrow> limiter \<Rightarrow> limiter" where
  "refund key l =
     (case buckets l key of
        None \<Rightarrow> l
      | Some b \<Rightarrow> l\<lparr>buckets := (buckets l)(key \<mapsto> b\<lparr>tokens := min (burst l) (fl (tokens b + 1))\<rparr>)\<rparr>)"

definition forget :: "string \<Rightarrow> limiter \<Rightarrow> limiter" where
  "forget key l = l\<lparr>buckets := (buckets l)(key := None)\<rparr>"

definition reset_limiter :: "limiter \<Rightarrow> limiter" where
  "reset_limiter l = l\<lparr>buckets := Map.empty\<rparr>"

section \<open>The balance stays within the burst\<close>

text \<open>
  The burst is at most \<open>2 ^ 53\<close>, the range in which \<open>float64\<close> holds every integer; the
  program uses 25, 30 and 50.
\<close>

definition bucket_ok :: "limiter \<Rightarrow> token_bucket \<Rightarrow> bool" where
  "bucket_ok l b \<longleftrightarrow> 0 \<le> tokens b \<and> tokens b \<le> burst l \<and> is_float64 (tokens b)"

definition limiter_ok :: "limiter \<Rightarrow> bool" where
  "limiter_ok l \<longleftrightarrow> 0 < rate l \<and> 1 \<le> burst l \<and> burst l \<le> 2 ^ 53 \<and> is_float64 (burst l) \<and>
     (\<forall>k b. buckets l k = Some b \<longrightarrow> bucket_ok l b)"

lemma limiter_okD [dest]:
  assumes "limiter_ok l"
  shows "0 < rate l" "1 \<le> burst l" "burst l \<le> 2 ^ 53" "is_float64 (burst l)"
    "buckets l k = Some b \<Longrightarrow> bucket_ok l b"
  using assms by (auto simp: limiter_ok_def)

lemma limiter_ok_update:
  "limiter_ok l \<Longrightarrow> bucket_ok l b \<Longrightarrow> limiter_ok (l\<lparr>buckets := (buckets l)(k \<mapsto> b)\<rparr>)"
  by (auto simp: limiter_ok_def bucket_ok_def)

lemma new_limiter_ok:
  assumes "new_token_bucket_limiter r b = Inr l" and "b \<le> 2 ^ 53"
  shows "limiter_ok l"
proof -
  from assms have "0 < r" "0 < b" and l: "l = \<lparr>rate = r, burst = fl (of_int b), buckets = Map.empty\<rparr>"
    by (auto simp: new_token_bucket_limiter_def split: if_splits)
  moreover have "is_float64 (of_int b)" using assms(2) \<open>0 < b\<close> by (intro is_float64_of_int) simp
  moreover have "(of_int b :: rat) \<le> of_int (2 ^ 53)" using assms(2) by (simp only: of_int_le_iff)
  ultimately show ?thesis by (auto simp: limiter_ok_def)
qed

lemma is_float64_min [intro]: "is_float64 x \<Longrightarrow> is_float64 y \<Longrightarrow> is_float64 (min x y)"
  by (simp add: min_def)

lemma bucket_ok_refill:
  assumes "limiter_ok l" and "bucket_ok l b"
  shows "bucket_ok l (refill l now b)"
proof -
  have "0 \<le> min (burst l) (fl (tokens b + fl (e * rate l)))" if "0 < e" for e
  proof -
    have "0 \<le> fl (e * rate l)" using that limiter_okD(1) [OF assms(1)] by (intro fl_nonneg) simp
    then have "0 \<le> fl (tokens b + fl (e * rate l))"
      using assms(2) by (intro fl_nonneg) (simp add: bucket_ok_def)
    then show ?thesis using limiter_okD(2) [OF assms(1)] by simp
  qed
  moreover have "is_float64 (min (burst l) (fl x))" for x
    using assms(1) by auto
  ultimately show ?thesis
    using assms(2) by (simp add: refill_def Let_def bucket_ok_def)
qed

lemma take_one_exact:
  assumes "limiter_ok l" and "bucket_ok l b" and "1 \<le> tokens b"
  shows "fl (tokens b - 1) = tokens b - 1" and "bucket_ok l (b\<lparr>tokens := fl (tokens b - 1)\<rparr>)"
proof -
  have "is_float64 (tokens b - 1)"
    using assms by (intro is_float64_minus_one) (auto simp: bucket_ok_def dest: limiter_okD(3))
  then show "fl (tokens b - 1) = tokens b - 1" and "bucket_ok l (b\<lparr>tokens := fl (tokens b - 1)\<rparr>)"
    using assms by (simp_all add: bucket_ok_def)
qed

lemma bucket_ok_full:
  "limiter_ok l \<Longrightarrow> bucket_ok l \<lparr>tokens = fl (burst l - 1), last_refill = now\<rparr>"
  using take_one_exact(2) [of l "\<lparr>tokens = burst l, last_refill = now\<rparr>"]
  by (auto simp: bucket_ok_def)

lemma limiter_ok_allow: "limiter_ok l \<Longrightarrow> limiter_ok (snd (allow now key l))"
  by (auto simp: allow_def Let_def not_less split: option.splits
      intro!: limiter_ok_update bucket_ok_full bucket_ok_refill take_one_exact(2))

lemma limiter_ok_refund:
  assumes "limiter_ok l"
  shows "limiter_ok (refund key l)"
proof (cases "buckets l key")
  case (Some b)
  with assms have ok: "bucket_ok l b" by auto
  then have "0 \<le> fl (tokens b + 1)" by (intro fl_nonneg) (simp add: bucket_ok_def)
  then have "bucket_ok l (b\<lparr>tokens := min (burst l) (fl (tokens b + 1))\<rparr>)"
    using assms by (auto simp: bucket_ok_def)
  with assms Some show ?thesis by (simp add: refund_def limiter_ok_update)
qed (use assms in \<open>simp add: refund_def\<close>)

lemma limiter_ok_forget: "limiter_ok l \<Longrightarrow> limiter_ok (forget key l)"
  by (auto simp: limiter_ok_def forget_def bucket_ok_def)

lemma limiter_ok_reset: "limiter_ok l \<Longrightarrow> limiter_ok (reset_limiter l)"
  by (auto simp: limiter_ok_def reset_limiter_def)

lemmas limiter_ok_ops = limiter_ok_allow limiter_ok_refund limiter_ok_forget limiter_ok_reset

lemma allow_config [simp]:
  "rate (snd (allow now key l)) = rate l" "burst (snd (allow now key l)) = burst l"
  by (auto simp: allow_def Let_def split: option.splits)

lemma refund_config [simp]: "rate (refund key l) = rate l" "burst (refund key l) = burst l"
  by (auto simp: refund_def split: option.splits)

section \<open>Budgets: what a caller can rely on\<close>

text \<open>The balance of a key at time \<open>t\<close>, the accrued refill included.\<close>

definition budget :: "limiter \<Rightarrow> gotime \<Rightarrow> string \<Rightarrow> rat" where
  "budget l t k = (case buckets l k of None \<Rightarrow> burst l | Some b \<Rightarrow> tokens (refill l t b))"

lemma second_pos [simp]: "0 < second"
  by (simp add: second_def)

lemma duration_seconds_0 [simp]: "duration_seconds 0 = 0"
  by (simp add: duration_seconds_def signed_divide_int_def signed_modulo_int_def)

lemma time_sub_self [simp]: "time_sub t t = 0"
  by (simp add: time_sub_def int64_min_def int64_max_def)

lemma refill_cases:
  obtains "refill l t b = b" "\<not> 0 < duration_seconds (time_sub t (last_refill b))"
  | "0 < duration_seconds (time_sub t (last_refill b))"
    "refill l t b = \<lparr>tokens = min (burst l) (fl (tokens b +
       fl (duration_seconds (time_sub t (last_refill b)) * rate l))), last_refill = t\<rparr>"
  by (auto simp: refill_def Let_def)

text \<open>Refilling twice at the same instant adds nothing the second time.\<close>

lemma refill_settled [simp]:
  "burst l' = burst l \<Longrightarrow> rate l' = rate l \<Longrightarrow>
   refill l' t (refill l t b\<lparr>tokens := x\<rparr>) = refill l t b\<lparr>tokens := x\<rparr>"
  by (rule refill_cases [of l t b]) (auto simp: refill_def)

lemma refill_settled' [simp]:
  "burst l' = burst l \<Longrightarrow> rate l' = rate l \<Longrightarrow> refill l' t (refill l t b) = refill l t b"
  by (rule refill_cases [of l t b]) (auto simp: refill_def)

lemma refill_fresh [simp]: "refill l t \<lparr>tokens = x, last_refill = t\<rparr> = \<lparr>tokens = x, last_refill = t\<rparr>"
  by (simp add: refill_def)

lemma allow_other [simp]: "k' \<noteq> k \<Longrightarrow> buckets (snd (allow t k l)) k' = buckets l k'"
  by (auto simp: allow_def Let_def split: option.splits)

lemma refund_other [simp]: "k' \<noteq> k \<Longrightarrow> buckets (refund k l) k' = buckets l k'"
  by (auto simp: refund_def split: option.splits)

lemma budget_other:
  "k' \<noteq> k \<Longrightarrow> budget (snd (allow t k l)) t' k' = budget l t' k'"
  "k' \<noteq> k \<Longrightarrow> budget (refund k l) t' k' = budget l t' k'"
  by (auto simp: budget_def refill_def Let_def split: option.splits)

lemma allow_iff_budget: "limiter_ok l \<Longrightarrow> fst (allow t k l) \<longleftrightarrow> 1 \<le> budget l t k"
  by (auto simp: allow_def budget_def Let_def split: option.splits)

lemma budget_refused:
  "\<not> fst (allow t k l) \<Longrightarrow> budget (snd (allow t k l)) t k' = budget l t k'"
  by (cases "k' = k")
     (auto simp: budget_other, auto simp: allow_def budget_def Let_def split: option.splits if_splits)

lemma budget_admitted:
  assumes "limiter_ok l" and "fst (allow t k l)"
  shows "budget (snd (allow t k l)) t k = budget l t k - 1"
proof (cases "buckets l k")
  case None
  then show ?thesis
    using take_one_exact(1) [OF assms(1), of "\<lparr>tokens = burst l, last_refill = t\<rparr>"] assms(1)
    by (auto simp: allow_def budget_def bucket_ok_def)
next
  case (Some b)
  with assms have "bucket_ok l (refill l t b)" "1 \<le> tokens (refill l t b)"
    by (auto simp: allow_def Let_def intro!: bucket_ok_refill split: if_splits)
  then show ?thesis
    using Some assms(1) by (simp add: allow_def budget_def Let_def take_one_exact(1))
qed

text \<open>Giving a token back right after it was taken restores every key's balance exactly.\<close>

lemma budget_refund:
  assumes ok: "limiter_ok l" and adm: "fst (allow t k l)"
  shows "budget (refund k (snd (allow t k l))) t k' = budget l t k'"
proof (cases "k' = k")
  case True
  show ?thesis
  proof (cases "buckets l k")
    case None
    then show ?thesis
      using take_one_exact(1) [OF ok, of "\<lparr>tokens = burst l, last_refill = t\<rparr>"]
        limiter_okD(2,4) [OF ok] True
      by (auto simp: allow_def refund_def budget_def bucket_ok_def)
  next
    case (Some b)
    with ok adm have b: "bucket_ok l (refill l t b)" "1 \<le> tokens (refill l t b)"
      by (auto simp: allow_def Let_def intro!: bucket_ok_refill split: if_splits)
    then show ?thesis
      using Some ok True
      by (auto simp: allow_def refund_def budget_def Let_def take_one_exact(1) bucket_ok_def)
  qed
next
  case False
  then show ?thesis by (simp add: budget_other)
qed

section \<open>The admission interface\<close>

text \<open>
  What a layer of the request path relies on: an admission takes one unit of a key's budget,
  a refusal takes nothing, and giving back undoes an admission for every key.
\<close>

locale admission =
  fixes take_one :: "gotime \<Rightarrow> 'k \<Rightarrow> 'l \<Rightarrow> bool \<times> 'l"
    and give_back :: "'k \<Rightarrow> 'l \<Rightarrow> 'l"
    and balance :: "'l \<Rightarrow> gotime \<Rightarrow> 'k \<Rightarrow> rat"
    and sound :: "'l \<Rightarrow> bool"
  assumes sound_take: "sound l \<Longrightarrow> sound (snd (take_one t k l))"
    and sound_give_back: "sound l \<Longrightarrow> sound (give_back k l)"
    and take_iff: "sound l \<Longrightarrow> fst (take_one t k l) \<longleftrightarrow> 1 \<le> balance l t k"
    and balance_refused: "sound l \<Longrightarrow> \<not> fst (take_one t k l) \<Longrightarrow>
          balance (snd (take_one t k l)) t k' = balance l t k'"
    and balance_taken: "sound l \<Longrightarrow> fst (take_one t k l) \<Longrightarrow>
          balance (snd (take_one t k l)) t k = balance l t k - 1"
    and balance_other: "k' \<noteq> k \<Longrightarrow> balance (snd (take_one t k l)) t' k' = balance l t' k'"
    and balance_undone: "sound l \<Longrightarrow> fst (take_one t k l) \<Longrightarrow>
          balance (give_back k (snd (take_one t k l))) t k' = balance l t k'"
begin

text \<open>A layer either charges the key one unit or leaves all budgets as they were.\<close>

lemma balance_take:
  "sound l \<Longrightarrow> balance (snd (take_one t k l)) t k' =
     balance l t k' - (if k' = k \<and> fst (take_one t k l) then 1 else 0)"
  by (cases "k' = k"; cases "fst (take_one t k l)")
     (auto simp: balance_other balance_refused balance_taken)

lemma refused_iff: "sound l \<Longrightarrow> \<not> fst (take_one t k l) \<longleftrightarrow> balance l t k < 1"
  by (simp add: take_iff not_le)

end

interpretation lim: admission allow refund budget limiter_ok
  by unfold_locales
     (simp_all add: limiter_ok_ops allow_iff_budget budget_refused budget_admitted budget_other
        budget_refund)

section \<open>The admission quota\<close>

text \<open>
  The cost of rounding is made explicit: \<open>refill_gain\<close> bounds the relative error of one refill,
  \<open>rounding_slack\<close> the absolute error that one operation can add. For the program's limiters
  one slack is below \<open>10 ^ (-14)\<close> tokens.
\<close>

definition refill_gain :: rat where "refill_gain = 1 + 8 * unit_roundoff"

definition rounding_slack :: "limiter \<Rightarrow> rat" where
  "rounding_slack l = unit_roundoff * burst l + 4 * underflow_unit * (rate l + 1)"

lemma unit_roundoff_bounds: "0 < unit_roundoff" "unit_roundoff \<le> 1 / 16"
  by (simp_all add: unit_roundoff_def)

lemma underflow_unit_pos: "0 < underflow_unit"
  by (simp add: underflow_unit_def)

lemma duration_seconds_upper:
  assumes "0 \<le> d" and "in_int64 d"
  shows "duration_seconds d \<le> (1 + 3 * unit_roundoff) * (of_int d / of_int second) + 3 * underflow_unit"
proof -
  let ?u = unit_roundoff and ?e = underflow_unit
  let ?s = "d div second" and ?n = "d mod second"
  have sd: "d sdiv second = ?s" "d smod second = ?n"
    using assms(1) by (cases "d = 0"; simp add: signed_divide_int_def signed_modulo_int_def second_def
        minus_div_mult_eq_mod [symmetric] mult.commute)+
  have n: "0 \<le> ?n" "?n < second" by (simp_all add: second_def)
  have "?s \<le> int64_max div second"
    using assms(2) by (intro zdiv_mono1) (simp_all add: in_int64_def)
  then have s: "0 \<le> ?s" "?s \<le> 2 ^ 53"
    using assms(1) by (simp_all add: second_def int64_max_def pos_imp_zdiv_nonneg_iff)
  have ex: "fl (of_int ?s) = of_int ?s" "fl (of_int ?n) = of_int ?n"
    using n s by (simp_all add: is_float64_of_int second_def)
  define r :: rat where "r = of_int ?n / 1000000000"
  have r0: "0 \<le> r" using n by (simp add: r_def)
  have "of_int d = (of_int (second * ?s + ?n) :: rat)" by simp
  then have total: "of_int d / of_int second = of_int ?s + r"
    by (simp only: of_int_add of_int_mult add_divide_distrib r_def) (simp add: second_def)
  have "duration_seconds d = fl (of_int ?s + fl r)"
    by (simp add: duration_seconds_def sd ex r_def)
  also have "\<dots> \<le> (1 + ?u) * (of_int ?s + fl r) + ?e"
    using fl_upper [of "of_int ?s + fl r"] s r0 fl_nonneg [of r] by (simp add: algebra_simps)
  also have "\<dots> \<le> (1 + ?u) * (of_int ?s + ((1 + ?u) * r + ?e)) + ?e"
    using fl_upper [OF r0] unit_roundoff_bounds
    by (intro add_right_mono mult_left_mono add_left_mono) (simp_all add: algebra_simps)
  also have "\<dots> \<le> (1 + 3 * ?u) * (of_int ?s + r) + 3 * ?e"
  proof -
    have "(1 + ?u) * of_int ?s \<le> (1 + 3 * ?u) * of_int ?s"
      using s unit_roundoff_bounds by (intro mult_right_mono) simp_all
    moreover have "(1 + ?u) * (1 + ?u) * r \<le> (1 + 3 * ?u) * r"
      using unit_roundoff_bounds by (intro mult_right_mono r0) (simp add: algebra_simps)
    moreover have "(1 + ?u) * ?e + ?e \<le> 3 * ?e"
      using unit_roundoff_bounds underflow_unit_pos by (simp add: algebra_simps)
    ultimately show ?thesis by (simp add: algebra_simps)
  qed
  finally show ?thesis by (simp add: total)
qed

lemma duration_seconds_nonpos: "d \<le> 0 \<Longrightarrow> duration_seconds d \<le> 0"
proof -
  assume "d \<le> 0"
  then have "d sdiv second = - (- d div second)" "d smod second = - (- d mod second)"
    by (cases "d = 0"; simp add: signed_divide_int_def signed_modulo_int_def second_def
        minus_mult_div_eq_mod [symmetric])+
  moreover have "0 \<le> - d div second" "0 \<le> - d mod second"
    using \<open>d \<le> 0\<close> by (simp_all add: second_def pos_imp_zdiv_nonneg_iff)
  ultimately have le: "(of_int (d sdiv second) :: rat) \<le> 0" "(of_int (d smod second) :: rat) \<le> 0"
    by (simp_all only: of_int_le_0_iff neg_le_0_iff_le)
  show ?thesis
    unfolding duration_seconds_def
    by (intro fl_le is_float64_0 add_nonpos_nonpos divide_nonpos_pos le) simp_all
qed

lemma rounding_algebra:
  assumes "0 \<le> y" "0 \<le> er" "0 \<le> e"
  shows "(1 + unit_roundoff) * ((1 + unit_roundoff) * ((1 + 3 * unit_roundoff) * y + 3 * er) + e) + e
      \<le> refill_gain * y + 4 * er + 4 * e"
proof -
  let ?u = unit_roundoff
  have "(1 + ?u) * (1 + ?u) * (1 + 3 * ?u) * y \<le> refill_gain * y"
    by (rule mult_right_mono [OF _ assms(1)]) (simp add: refill_gain_def unit_roundoff_def)
  moreover have "(1 + ?u) * (1 + ?u) * 3 * er \<le> 4 * er"
    by (rule mult_right_mono [OF _ assms(2)]) (simp add: unit_roundoff_def)
  moreover have "(2 + ?u) * e \<le> 4 * e"
    by (rule mult_right_mono [OF _ assms(3)]) (simp add: unit_roundoff_def)
  ultimately show ?thesis by (simp add: algebra_simps)
qed

lemma refill_upper:
  assumes ok: "limiter_ok l" "bucket_ok l b"
  shows "tokens (refill l t b) - tokens b \<le>
     refill_gain * (rate l * of_int (last_refill (refill l t b) - last_refill b) / of_int second) + rounding_slack l"
    (is "?lhs \<le> ?rhs")
proof (rule refill_cases [of l t b])
  assume "refill l t b = b"
  then show ?thesis
    using limiter_okD(1,2) [OF ok(1)] unit_roundoff_bounds underflow_unit_pos
    by (simp add: rounding_slack_def)
next
  let ?u = unit_roundoff and ?e = underflow_unit and ?d = "time_sub t (last_refill b)"
  let ?x = "duration_seconds ?d"
  assume pos: "0 < ?x" and
    r: "refill l t b = \<lparr>tokens = min (burst l) (fl (tokens b + fl (?x * rate l))), last_refill = t\<rparr>"
  have b: "0 \<le> tokens b" "tokens b \<le> burst l" using ok(2) by (simp_all add: bucket_ok_def)
  have rt: "0 < rate l" and bu: "1 \<le> burst l" using ok(1) by auto
  have d0: "0 \<le> ?d"
    using duration_seconds_nonpos [of ?d] pos by linarith
  define X where "X = (of_int (t - last_refill b) :: rat) / of_int second"
  have "?d \<le> t - last_refill b" using d0 by (auto simp: time_sub_def int64_min_def)
  then have dX: "(of_int ?d :: rat) / of_int second \<le> X"
    unfolding X_def by (intro divide_right_mono) (simp_all add: second_def)
  have X0: "0 \<le> X" using dX d0 by (meson divide_nonneg_pos of_int_0_le_iff of_int_0_less_iff order_trans second_pos)
  have "?x \<le> (1 + 3 * ?u) * X + 3 * ?e"
  proof -
    have "?x \<le> (1 + 3 * ?u) * (of_int ?d / of_int second) + 3 * ?e"
      using d0 by (intro duration_seconds_upper) (auto simp: time_sub_def in_int64_def int64_min_def int64_max_def)
    also have "\<dots> \<le> (1 + 3 * ?u) * X + 3 * ?e"
      using dX unit_roundoff_bounds by (intro add_right_mono mult_left_mono) simp_all
    finally show ?thesis .
  qed
  then have "?x * rate l \<le> ((1 + 3 * ?u) * X + 3 * ?e) * rate l"
    using rt by (intro mult_right_mono) simp_all
  then have xr: "?x * rate l \<le> (1 + 3 * ?u) * (rate l * X) + 3 * (?e * rate l)"
    by (simp add: algebra_simps)
  have Y0: "0 \<le> rate l * X" and er: "0 \<le> ?e * rate l"
    using rt X0 underflow_unit_pos by simp_all
  have "fl (?x * rate l) \<le> (1 + ?u) * (?x * rate l) + ?e"
    using fl_upper [of "?x * rate l"] pos rt by (simp add: algebra_simps)
  also have "\<dots> \<le> (1 + ?u) * ((1 + 3 * ?u) * (rate l * X) + 3 * (?e * rate l)) + ?e"
    using xr unit_roundoff_bounds by (intro add_right_mono mult_left_mono) simp_all
  finally have F: "fl (?x * rate l) \<le> \<dots>" .
  have "fl (tokens b + fl (?x * rate l)) \<le> tokens b + ?u * tokens b + (1 + ?u) * fl (?x * rate l) + ?e"
    using fl_upper [of "tokens b + fl (?x * rate l)"] b pos rt fl_nonneg [of "?x * rate l"]
    by (simp add: algebra_simps)
  moreover have "?u * tokens b \<le> ?u * burst l"
    using b unit_roundoff_bounds by (intro mult_left_mono) simp_all
  moreover have "(1 + ?u) * fl (?x * rate l) \<le>
      (1 + ?u) * ((1 + ?u) * ((1 + 3 * ?u) * (rate l * X) + 3 * (?e * rate l)) + ?e)"
    using F unit_roundoff_bounds by (intro mult_left_mono) simp_all
  moreover have "(1 + ?u) * ((1 + ?u) * ((1 + 3 * ?u) * (rate l * X) + 3 * (?e * rate l)) + ?e) + ?e
      \<le> refill_gain * (rate l * X) + 4 * (?e * rate l) + 4 * ?e"
    by (rule rounding_algebra) (use Y0 er underflow_unit_pos in simp_all)
  ultimately show ?thesis
    by (simp add: r rounding_slack_def X_def algebra_simps min_def)
qed

text \<open>
  A schedule of operations as the mutex orders them. \<open>net_admitted\<close> counts the admissions of a
  key minus the refunds that found its bucket: the requests that went on to the next layer.
\<close>

datatype limiter_op = Allow_op gotime string | Refund_op string | Forget_op string | Reset_op

fun limiter_step :: "limiter_op \<Rightarrow> limiter \<Rightarrow> limiter" where
  "limiter_step (Allow_op t k) l = snd (allow t k l)"
| "limiter_step (Refund_op k) l = refund k l"
| "limiter_step (Forget_op k) l = forget k l"
| "limiter_step Reset_op l = reset_limiter l"

fun limiter_run :: "limiter \<Rightarrow> limiter_op list \<Rightarrow> limiter" where
  "limiter_run l [] = l"
| "limiter_run l (x # xs) = limiter_run (limiter_step x l) xs"

fun net_admitted :: "string \<Rightarrow> limiter \<Rightarrow> limiter_op list \<Rightarrow> int" where
  "net_admitted k l [] = 0"
| "net_admitted k l (x # xs) =
     (case x of
        Allow_op t k' \<Rightarrow> if k' = k \<and> fst (allow t k l) then 1 else 0
      | Refund_op k' \<Rightarrow> if k' = k \<and> buckets l k \<noteq> None then - 1 else 0
      | _ \<Rightarrow> 0) + net_admitted k (limiter_step x l) xs"

text \<open>Clock readings of a schedule lie in the window, and nothing discards the key's bucket.\<close>

fun op_within :: "gotime \<Rightarrow> gotime \<Rightarrow> limiter_op \<Rightarrow> bool" where
  "op_within t0 t1 (Allow_op t k) \<longleftrightarrow> t0 \<le> t \<and> t \<le> t1"
| "op_within t0 t1 (Refund_op k) \<longleftrightarrow> True"
| "op_within t0 t1 (Forget_op k) \<longleftrightarrow> False"
| "op_within t0 t1 Reset_op \<longleftrightarrow> False"

lemma limiter_ok_step: "limiter_ok l \<Longrightarrow> limiter_ok (limiter_step x l)"
  by (cases x) (simp_all add: limiter_ok_ops)

lemma limiter_ok_run: "limiter_ok l \<Longrightarrow> limiter_ok (limiter_run l xs)"
  by (induction xs arbitrary: l) (auto intro: limiter_ok_step)

lemma rounding_slack_nonneg: "limiter_ok l \<Longrightarrow> 0 \<le> rounding_slack l"
  using limiter_okD(1,2) [of l] unit_roundoff_bounds underflow_unit_pos
  by (simp add: rounding_slack_def)

lemma within_step_config:
  "op_within t0 t1 x \<Longrightarrow> rate (limiter_step x l) = rate l \<and> burst (limiter_step x l) = burst l"
  by (cases x) simp_all

text \<open>
  One step on an existing bucket: the tokens it holds afterwards plus the requests it passed are
  at most the tokens before, plus what the elapsed time is worth, plus one slack.
\<close>

definition accrual :: "limiter \<Rightarrow> int \<Rightarrow> rat" where
  "accrual l d = refill_gain * (rate l * of_int d / of_int second)"

lemma accrual_add: "accrual l (d + e) = accrual l d + accrual l e"
  by (simp add: accrual_def algebra_simps add_divide_distrib)

lemma accrual_nonneg: "limiter_ok l \<Longrightarrow> 0 \<le> d \<Longrightarrow> 0 \<le> accrual l d"
  using limiter_okD(1) [of l] unit_roundoff_bounds
  by (simp add: accrual_def refill_gain_def second_def)

lemma last_refill_refill: "last_refill b \<le> t1 \<Longrightarrow> t \<le> t1 \<Longrightarrow> last_refill (refill l t b) \<le> t1"
  by (simp add: refill_def Let_def)

lemma step_conserves:
  assumes "limiter_ok l" and "buckets l k = Some b" and "op_within t0 t1 x" and "last_refill b \<le> t1"
  obtains b' where "buckets (limiter_step x l) k = Some b'" and "last_refill b' \<le> t1"
    and "tokens b' + of_int (net_admitted k l [x])
           \<le> tokens b + accrual l (last_refill b' - last_refill b) + rounding_slack l"
proof (cases x)
  case (Allow_op t k')
  show thesis
  proof (cases "k' = k")
    case True
    let ?b = "refill l t b"
    have le: "tokens ?b - tokens b \<le> accrual l (last_refill ?b - last_refill b) + rounding_slack l"
      using refill_upper [OF assms(1), of b t] assms(1,2) by (auto simp: accrual_def)
    have last: "last_refill ?b \<le> t1"
      using assms(3,4) Allow_op by (simp add: last_refill_refill)
    have ok: "bucket_ok l ?b" using assms(1,2) by (auto intro: bucket_ok_refill)
    show thesis
    proof (cases "tokens ?b < 1")
      case True
      then show thesis
        using le last assms(2) Allow_op \<open>k' = k\<close>
        by (intro that [of ?b]) (simp_all add: allow_def Let_def)
    next
      case False
      with ok assms(1) have "fl (tokens ?b - 1) = tokens ?b - 1"
        by (intro take_one_exact(1)) simp_all
      then show thesis
        using le last False assms(2) Allow_op \<open>k' = k\<close>
        by (intro that [of "?b\<lparr>tokens := fl (tokens ?b - 1)\<rparr>"]) (simp_all add: allow_def Let_def)
    qed
  next
    case False
    then show thesis
      using assms rounding_slack_nonneg [OF assms(1)] Allow_op
      by (intro that [of b]) (simp_all add: accrual_def)
  qed
next
  case (Refund_op k')
  show thesis
  proof (cases "k' = k")
    case True
    have b: "0 \<le> tokens b" "tokens b \<le> burst l" using assms(1,2) by (auto simp: bucket_ok_def)
    have "min (burst l) (fl (tokens b + 1)) \<le> tokens b + 1 + rounding_slack l"
    proof (cases "tokens b + 1 \<le> burst l")
      case True
      have "fl (tokens b + 1) \<le> tokens b + 1 + unit_roundoff * (tokens b + 1) + underflow_unit"
        using b by (intro fl_upper) simp
      moreover have "unit_roundoff * (tokens b + 1) \<le> unit_roundoff * burst l"
        using True unit_roundoff_bounds by (intro mult_left_mono) simp_all
      moreover have "0 \<le> underflow_unit * rate l"
        using limiter_okD(1) [OF assms(1)] underflow_unit_pos by simp
      ultimately show ?thesis
        using underflow_unit_pos by (simp add: rounding_slack_def algebra_simps)
    qed (use rounding_slack_nonneg [OF assms(1)] in simp)
    then show thesis
      using assms Refund_op True
      by (intro that [of "b\<lparr>tokens := min (burst l) (fl (tokens b + 1))\<rparr>"])
         (simp_all add: refund_def accrual_def)
  next
    case False
    then show thesis
      using assms rounding_slack_nonneg [OF assms(1)] Refund_op
      by (intro that [of b]) (simp_all add: accrual_def)
  qed
qed (use assms(3) in simp_all)

lemma quota_existing:
  assumes "limiter_ok l" and "buckets l k = Some b" and "last_refill b \<le> t1"
    and "\<forall>x \<in> set xs. op_within t0 t1 x"
  shows "of_int (net_admitted k l xs)
           \<le> tokens b + accrual l (t1 - last_refill b) + of_nat (length xs) * rounding_slack l"
  using assms
proof (induction xs arbitrary: l b)
  case Nil
  then have "0 \<le> tokens b" by (auto simp: bucket_ok_def)
  then show ?case using accrual_nonneg [OF Nil(1)] Nil(3) by simp
next
  case (Cons x xs)
  let ?l = "limiter_step x l"
  from Cons.prems have x: "op_within t0 t1 x" by simp
  obtain b' where b': "buckets ?l k = Some b'" "last_refill b' \<le> t1"
    and step: "tokens b' + of_int (net_admitted k l [x])
        \<le> tokens b + accrual l (last_refill b' - last_refill b) + rounding_slack l"
    using step_conserves [OF Cons.prems(1,2) x Cons.prems(3)] .
  have cfg: "accrual ?l d = accrual l d" "rounding_slack ?l = rounding_slack l" for d
    using within_step_config [OF x, of l] by (simp_all add: accrual_def rounding_slack_def)
  have "of_int (net_admitted k ?l xs)
      \<le> tokens b' + accrual l (t1 - last_refill b') + of_nat (length xs) * rounding_slack l"
    using Cons.IH [OF limiter_ok_step [OF Cons.prems(1)] b'] Cons.prems(4) by (simp add: cfg)
  moreover have "accrual l (t1 - last_refill b) =
      accrual l (t1 - last_refill b') + accrual l (last_refill b' - last_refill b)"
    by (simp flip: accrual_add)
  moreover have "net_admitted k l (x # xs) = net_admitted k l [x] + net_admitted k ?l xs"
    by simp
  ultimately show ?case
    using step by (simp add: algebra_simps)
qed

lemma quota_fresh:
  assumes "limiter_ok l" and "buckets l k = None" and "t0 \<le> t1"
    and "\<forall>x \<in> set xs. op_within t0 t1 x"
  shows "of_int (net_admitted k l xs)
           \<le> burst l + accrual l (t1 - t0) + of_nat (length xs) * rounding_slack l"
  using assms
proof (induction xs arbitrary: l)
  case Nil
  then show ?case using accrual_nonneg [OF Nil(1), of "t1 - t0"] limiter_okD(2) [OF Nil(1)] by simp
next
  case (Cons x xs)
  let ?l = "limiter_step x l"
  have x: "op_within t0 t1 x" and ok: "limiter_ok ?l" and slack: "0 \<le> rounding_slack l"
    using Cons.prems by (simp_all add: limiter_ok_step rounding_slack_nonneg)
  have cfg: "accrual ?l d = accrual l d" "rounding_slack ?l = rounding_slack l" "burst ?l = burst l" for d
    using within_step_config [OF x, of l] by (simp_all add: accrual_def rounding_slack_def)
  show ?case
  proof (cases "\<exists>t. x = Allow_op t k")
    case True
    then obtain t where t: "x = Allow_op t k" by blast
    let ?b = "\<lparr>tokens = fl (burst l - 1), last_refill = t\<rparr>"
    have "buckets ?l k = Some ?b" and adm: "fst (allow t k l)"
      using Cons.prems(2) t by (simp_all add: allow_def)
    moreover have tb: "t0 \<le> t" "t \<le> t1" using x t by simp_all
    ultimately have "of_int (net_admitted k ?l xs)
        \<le> fl (burst l - 1) + accrual l (t1 - t) + of_nat (length xs) * rounding_slack l"
      using quota_existing [OF ok, of k ?b t1 xs t0] Cons.prems(4) by (simp add: cfg)
    moreover have "fl (burst l - 1) = burst l - 1"
      using take_one_exact(1) [OF Cons.prems(1), of "\<lparr>tokens = burst l, last_refill = t\<rparr>"]
        limiter_okD(2,4) [OF Cons.prems(1)] by (simp add: bucket_ok_def)
    moreover have "accrual l (t1 - t0) = accrual l (t1 - t) + accrual l (t - t0)"
      by (simp flip: accrual_add)
    moreover have "0 \<le> accrual l (t - t0)"
      using accrual_nonneg [OF Cons.prems(1), of "t - t0"] tb by simp
    ultimately show ?thesis using adm t slack by (simp add: algebra_simps)
  next
    case False
    then have "buckets ?l k = None" and "net_admitted k l (x # xs) = net_admitted k ?l xs"
      using Cons.prems(2) x by (cases x; auto simp: refund_def split: option.splits)+
    then show ?thesis
      using Cons.IH [OF ok] Cons.prems(3,4) slack by (simp add: cfg algebra_simps)
  qed
qed

section \<open>Recovery after a refusal\<close>

lemma duration_seconds_ge_1: "second \<le> d \<Longrightarrow> 1 \<le> duration_seconds d"
proof -
  assume d: "second \<le> d"
  then have "d sdiv second = d div second" "d smod second = d mod second"
    by (simp_all add: signed_divide_int_def signed_modulo_int_def second_def
        minus_div_mult_eq_mod [symmetric] mult.commute)
  moreover have "1 \<le> d div second" "0 \<le> d mod second"
    using d zdiv_mono1 [OF d second_pos] by (simp_all add: second_def)
  ultimately have "(1 :: rat) \<le> fl (of_int (d sdiv second))"
    and "(0 :: rat) \<le> fl (fl (of_int (d smod second)) / 1000000000)"
    by (auto intro!: fl_ge_one fl_nonneg divide_nonneg_pos simp only: of_int_1_le_iff of_int_0_le_iff)
  then show ?thesis unfolding duration_seconds_def by (intro fl_ge_one) linarith
qed

lemma allow_after_second:
  assumes ok: "limiter_ok l" and "1 \<le> rate l" and b: "buckets l k = Some b"
    and t: "last_refill b + second \<le> t"
  shows "fst (allow t k l)"
proof -
  have "second \<le> time_sub t (last_refill b)"
    using t by (subst time_sub_ge_pos) (simp_all add: second_def int64_max_def)
  then have e: "1 \<le> duration_seconds (time_sub t (last_refill b))" (is "1 \<le> ?x")
    by (rule duration_seconds_ge_1)
  then have "1 \<le> fl (?x * rate l)"
    using assms(2) by (intro fl_ge_one) (metis mult_mono' mult_1 zero_le_one order_trans)
  then have "1 \<le> fl (tokens b + fl (?x * rate l))"
    using ok b by (intro fl_ge_one) (fastforce simp: bucket_ok_def)
  then have "1 \<le> tokens (refill l t b)"
    using e limiter_okD(2) [OF ok] by (simp add: refill_def)
  then show ?thesis using b by (simp add: allow_def Let_def)
qed

section \<open>Properties of the limiter\<close>

text \<open>
  C6. Quota. From any sound limiter in which a key has no bucket yet, however \<open>Allow\<close> and
  \<open>Refund\<close> calls for all keys are scheduled in a time window and whatever clock readings of the
  window they carry, the requests of the key that got through (admissions minus refunds) are at
  most the burst plus the rate times the length of the window, up to the stated rounding.
\<close>

theorem limiter_quota:
  assumes "limiter_ok l" and "buckets l k = None" and "t0 \<le> t1"
    and "\<forall>x \<in> set xs. op_within t0 t1 x"
  shows "of_int (net_admitted k l xs)
           \<le> burst l + refill_gain * (rate l * of_int (t1 - t0) / of_int second)
               + of_nat (length xs) * rounding_slack l"
  using quota_fresh [OF assms] by (simp add: accrual_def)

definition demo_limiter :: limiter where
  "demo_limiter = \<lparr>rate = 20, burst = 3, buckets = Map.empty\<rparr>"

lemma demo_limiter_ok: "limiter_ok demo_limiter"
  by (simp add: limiter_ok_def demo_limiter_def)

theorem limiter_quota_witness:
  "(of_int (net_admitted ''a'' demo_limiter [Allow_op 0 ''a'', Allow_op 1 ''b'', Refund_op ''a'', Allow_op 0 ''a'']) :: rat)
     \<le> 3 + refill_gain * (20 * of_int (second - 0) / of_int second) + of_nat 4 * rounding_slack demo_limiter"
  using limiter_quota [OF demo_limiter_ok, of "''a''" 0 second
      "[Allow_op 0 ''a'', Allow_op 1 ''b'', Refund_op ''a'', Allow_op 0 ''a'']"]
  by (simp add: demo_limiter_def second_def)

text \<open>
  Balance invariant. After any sequence of operations on a limiter built by
  \<open>NewTokenBucketLimiter\<close>, every bucket holds between zero and \<open>burst\<close> tokens.
\<close>

theorem limiter_balance_bounds:
  assumes "new_token_bucket_limiter r n = Inr l" and "n \<le> 2 ^ 53"
    and "buckets (limiter_run l xs) k = Some b"
  shows "0 \<le> tokens b \<and> tokens b \<le> burst (limiter_run l xs)"
  using limiter_ok_run [OF new_limiter_ok [OF assms(1,2)], of xs] assms(3)
  by (auto simp: bucket_ok_def)

theorem limiter_balance_bounds_witness:
  "let l = \<lparr>rate = 15, burst = 25, buckets = Map.empty\<rparr>; b = \<lparr>tokens = 24, last_refill = 7\<rparr>
   in buckets (limiter_run l [Allow_op 7 ''k'']) ''k'' = Some b \<and>
      0 \<le> tokens b \<and> tokens b \<le> burst (limiter_run l [Allow_op 7 ''k''])"
  using limiter_balance_bounds [of 15 25 "\<lparr>rate = 15, burst = 25, buckets = Map.empty\<rparr>"
      "[Allow_op 7 ''k'']" "''k''" "\<lparr>tokens = 24, last_refill = 7\<rparr>"]
  by (simp add: new_token_bucket_limiter_def allow_def)

text \<open>
  Refund. When a later layer rejects a request that this limiter had admitted, \<open>Refund\<close>
  restores the balance of every key to exactly what it was, rounding included.
\<close>

theorem limiter_refund_restores:
  assumes "limiter_ok l" and "fst (allow t k l)"
  shows "budget (refund k (snd (allow t k l))) t k' = budget l t k'"
  using assms by (rule lim.balance_undone)

theorem limiter_refund_restores_witness:
  "budget (refund ''a'' (snd (allow 5 ''a'' demo_limiter))) 5 ''a'' = budget demo_limiter 5 ''a''"
  by (rule limiter_refund_restores [OF demo_limiter_ok]) (simp add: allow_def demo_limiter_def)

text \<open>
  Recovery. A key that was refused is admitted again one second later when the limiter
  refills at least one token per second: the \<open>Retry-After: 1\<close> header of the HTTP layer is honest.
\<close>

theorem limiter_recovers:
  assumes "limiter_ok l" and "1 \<le> rate l"
    and "\<forall>b. buckets l k = Some b \<longrightarrow> last_refill b \<le> t"
    and "\<not> fst (allow t k l)" and "t + second \<le> t'"
  shows "fst (allow t' k (snd (allow t k l)))"
proof -
  from assms(4) obtain b where b: "buckets l k = Some b"
    and l': "buckets (snd (allow t k l)) k = Some (refill l t b)"
    by (auto simp: allow_def Let_def split: option.splits if_splits)
  have "last_refill (refill l t b) \<le> t"
    using assms(3) b by (simp add: last_refill_refill)
  with assms(5) show ?thesis
    using assms(2) by (intro allow_after_second [OF limiter_ok_allow [OF assms(1)] _ l']) simp_all
qed

theorem limiter_recovers_witness:
  "let l = demo_limiter\<lparr>buckets := [''a'' \<mapsto> \<lparr>tokens = 0, last_refill = 9\<rparr>]\<rparr>
   in \<not> fst (allow 9 ''a'' l) \<and> fst (allow (9 + second) ''a'' (snd (allow 9 ''a'' l)))"
proof -
  let ?l = "demo_limiter\<lparr>buckets := [''a'' \<mapsto> \<lparr>tokens = 0, last_refill = 9\<rparr>]\<rparr>"
  have "limiter_ok ?l" by (simp add: limiter_ok_def demo_limiter_def bucket_ok_def)
  moreover have "1 \<le> rate ?l" and ref: "\<not> fst (allow 9 ''a'' ?l)"
    by (simp_all add: demo_limiter_def allow_def)
  ultimately have "fst (allow (9 + second) ''a'' (snd (allow 9 ''a'' ?l)))"
    by (intro limiter_recovers) simp_all
  with ref show ?thesis by simp
qed

end
