(* ===== verification/Breaker.thy ===== *)
theory Breaker
  imports Lab_Prelude
begin

text \<open>
  The circuit breaker of \<open>internal/reliability/breaker.go\<close>. \<open>beforeRequest\<close>, \<open>afterRequest\<close>,
  \<open>State\<close> and \<open>Reset\<close> are critical sections of one mutex, so each is a function on the record
  \<open>breaker\<close>; the clock reading it makes is the argument \<open>now\<close>. Any number of requests run between
  their two critical sections at the same time: the step relation \<open>breaker_step\<close> keeps the
  tickets of the requests in flight and interleaves the sections freely. \<open>generation\<close> is a real
  \<open>uint64\<close>, so the facts about stale tickets speak of executions with fewer than \<open>2 ^ 64\<close> steps.
\<close>

named_theorems breaker_defs \<open>the definitions of the breaker's operations\<close>

section \<open>State and operations\<close>

datatype circuit_state = StateClosed | StateOpen | StateHalfOpen

fun circuit_state_string :: "circuit_state \<Rightarrow> string" where
  "circuit_state_string StateClosed = ''closed''"
| "circuit_state_string StateOpen = ''open''"
| "circuit_state_string StateHalfOpen = ''half-open''"

record breaker =
  failure_threshold :: int
  open_timeout :: duration
  circuit :: circuit_state
  consecutive_failures :: int
  opened_at :: gotime
  generation :: u64
  half_open_probe :: bool

record breaker_ticket =
  ticket_state :: circuit_state
  ticket_generation :: u64

definition new_circuit_breaker :: "int \<Rightarrow> duration \<Rightarrow> string + breaker" where
  "new_circuit_breaker threshold timeout =
     (if threshold \<le> 0 then Inl ''reliability: circuit breaker failure threshold must be positive''
      else if timeout \<le> 0 then Inl ''reliability: circuit breaker open timeout must be positive''
      else Inr \<lparr>failure_threshold = threshold, open_timeout = timeout, circuit = StateClosed,
                consecutive_failures = 0, opened_at = 0, generation = 0, half_open_probe = False\<rparr>)"

definition advance_state :: "gotime \<Rightarrow> breaker \<Rightarrow> breaker" where
  "advance_state now b =
     (if circuit b = StateOpen \<and> open_timeout b \<le> time_sub now (opened_at b)
      then b\<lparr>circuit := StateHalfOpen, half_open_probe := False, generation := generation b + 1\<rparr>
      else b)"

definition open_circuit :: "gotime \<Rightarrow> breaker \<Rightarrow> breaker" where
  "open_circuit now b =
     b\<lparr>circuit := StateOpen, opened_at := now, consecutive_failures := 0,
       half_open_probe := False, generation := generation b + 1\<rparr>"

definition before_request :: "gotime \<Rightarrow> breaker \<Rightarrow> breaker_ticket option \<times> breaker" where
  "before_request now b0 =
     (let b = advance_state now b0
      in if circuit b = StateOpen \<or> circuit b = StateHalfOpen \<and> half_open_probe b then (None, b)
         else (Some \<lparr>ticket_state = circuit b, ticket_generation = generation b\<rparr>,
               if circuit b = StateHalfOpen then b\<lparr>half_open_probe := True\<rparr> else b))"

definition after_request :: "gotime \<Rightarrow> breaker_ticket \<Rightarrow> bool \<Rightarrow> breaker \<Rightarrow> breaker" where
  "after_request now ticket success b =
     (if ticket_generation ticket \<noteq> generation b \<or> ticket_state ticket \<noteq> circuit b then b
      else if success then
        (let b' = b\<lparr>consecutive_failures := 0\<rparr>
         in if circuit b' = StateHalfOpen
            then b'\<lparr>circuit := StateClosed, half_open_probe := False, generation := generation b' + 1\<rparr>
            else b')
      else if circuit b = StateHalfOpen then open_circuit now b
      else (let b' = b\<lparr>consecutive_failures := wrap64 (consecutive_failures b + 1)\<rparr>
            in if failure_threshold b' \<le> consecutive_failures b' then open_circuit now b' else b'))"

definition breaker_state :: "gotime \<Rightarrow> breaker \<Rightarrow> circuit_state \<times> breaker" where
  "breaker_state now b = (let b' = advance_state now b in (circuit b', b'))"

definition reset_breaker :: "breaker \<Rightarrow> breaker" where
  "reset_breaker b =
     b\<lparr>circuit := StateClosed, consecutive_failures := 0, opened_at := 0,
       half_open_probe := False, generation := generation b + 1\<rparr>"

text \<open>
  \<open>Execute\<close>, for a caller that is alone: the operation runs on the environment \<open>'s\<close> between the
  two critical sections; \<open>clk\<close> reads the environment's clock, once in each section.
\<close>

definition execute ::
  "('s \<Rightarrow> gotime) \<Rightarrow> ('s \<Rightarrow> go_error option \<times> 's) \<Rightarrow> breaker \<Rightarrow> 's \<Rightarrow> go_error option \<times> breaker \<times> 's" where
  "execute clk operation b s =
     (case before_request (clk s) b of
        (None, b') \<Rightarrow> (Some ErrCircuitOpen, b', s)
      | (Some ticket, b') \<Rightarrow>
          (case operation s of (err, s') \<Rightarrow> (err, after_request (clk s') ticket (err = None) b', s')))"

lemmas [breaker_defs] = advance_state_def open_circuit_def before_request_def after_request_def
  breaker_state_def reset_breaker_def Let_def

section \<open>The state invariant\<close>

definition breaker_ok :: "breaker \<Rightarrow> bool" where
  "breaker_ok b \<longleftrightarrow>
     0 < failure_threshold b \<and> failure_threshold b \<le> int64_max \<and> 0 < open_timeout b \<and> open_timeout b \<le> int64_max \<and>
     0 \<le> consecutive_failures b \<and> consecutive_failures b < failure_threshold b \<and>
     (circuit b \<noteq> StateClosed \<longrightarrow> consecutive_failures b = 0) \<and>
     (half_open_probe b \<longrightarrow> circuit b = StateHalfOpen)"

lemma new_breaker_ok:
  "new_circuit_breaker th to = Inr b \<Longrightarrow> in_int64 th \<Longrightarrow> in_int64 to \<Longrightarrow> breaker_ok b"
  by (auto simp: new_circuit_breaker_def breaker_ok_def in_int64_def split: if_splits)

lemma breaker_ok_counter_wrap [simp]:
  "breaker_ok b \<Longrightarrow> wrap64 (consecutive_failures b + 1) = consecutive_failures b + 1"
  by (rule wrap64_id) (simp add: breaker_ok_def in_int64_def int64_min_def)

lemma breaker_ok_advance: "breaker_ok b \<Longrightarrow> breaker_ok (advance_state now b)"
  by (simp add: breaker_ok_def breaker_defs)

lemma breaker_ok_open: "breaker_ok b \<Longrightarrow> breaker_ok (open_circuit now b)"
  by (simp add: breaker_ok_def breaker_defs)

lemma breaker_ok_before: "breaker_ok b \<Longrightarrow> breaker_ok (snd (before_request now b))"
  using breaker_ok_advance [of b now] by (auto simp: before_request_def Let_def breaker_ok_def)

text \<open>A ticket is issued while the circuit is closed or half-open, never while it is open.\<close>

lemma breaker_ok_after:
  "breaker_ok b \<Longrightarrow> ticket_state t \<noteq> StateOpen \<Longrightarrow> breaker_ok (after_request now t ok b)"
  using breaker_ok_counter_wrap [of b]
  by (cases "circuit b") (auto simp: after_request_def open_circuit_def Let_def breaker_ok_def)

lemma breaker_ok_state: "breaker_ok b \<Longrightarrow> breaker_ok (snd (breaker_state now b))"
  by (simp add: breaker_state_def Let_def breaker_ok_advance)

lemma breaker_ok_reset: "breaker_ok b \<Longrightarrow> breaker_ok (reset_breaker b)"
  by (simp add: breaker_ok_def reset_breaker_def)

lemmas breaker_ok_ops =
  breaker_ok_advance breaker_ok_open breaker_ok_before breaker_ok_after breaker_ok_state breaker_ok_reset

section \<open>Requests in flight\<close>

text \<open>
  \<open>in_flight\<close> holds the ticket of every admitted request whose operation has not returned.
  A request is either admitted or refused by \<open>beforeRequest\<close>, and reports its outcome later, at
  any moment and in any order. Clock readings are arbitrary.
\<close>

record breaker_system =
  brk :: breaker
  in_flight :: "breaker_ticket list"

inductive breaker_step :: "breaker_system \<Rightarrow> breaker_system \<Rightarrow> bool" where
  admit: "before_request now (brk s) = (Some t, b) \<Longrightarrow>
     breaker_step s (s\<lparr>brk := b, in_flight := t # in_flight s\<rparr>)"
| refuse: "before_request now (brk s) = (None, b) \<Longrightarrow> breaker_step s (s\<lparr>brk := b\<rparr>)"
| report: "in_flight s = ts @ t # us \<Longrightarrow>
     breaker_step s (s\<lparr>brk := after_request now t ok (brk s), in_flight := ts @ us\<rparr>)"
| observe: "breaker_step s (s\<lparr>brk := snd (breaker_state now (brk s))\<rparr>)"

text \<open>
  States reached from a new breaker in \<open>n\<close> steps, \<open>r\<close> of which are calls of \<open>Reset\<close>. A reset leaves the
  requests in flight alone: an operation that has begun, a probe too, goes on.
\<close>

inductive breaker_reach :: "nat \<Rightarrow> nat \<Rightarrow> breaker_system \<Rightarrow> bool" where
  start: "new_circuit_breaker th to = Inr b \<Longrightarrow> in_int64 th \<Longrightarrow> in_int64 to \<Longrightarrow>
     breaker_reach 0 0 \<lparr>brk = b, in_flight = []\<rparr>"
| step: "breaker_reach n r s \<Longrightarrow> breaker_step s s' \<Longrightarrow> breaker_reach (Suc n) r s'"
| reset: "breaker_reach n r s \<Longrightarrow> breaker_reach (Suc n) (Suc r) (s\<lparr>brk := reset_breaker (brk s)\<rparr>)"

text \<open>The probes in flight, of any half-open period, and those of the present one.\<close>

definition half_open_tickets :: "breaker_system \<Rightarrow> breaker_ticket list" where
  "half_open_tickets s = filter (\<lambda>t. ticket_state t = StateHalfOpen) (in_flight s)"

definition probe_tickets :: "breaker_system \<Rightarrow> breaker_ticket list" where
  "probe_tickets s =
     filter (\<lambda>t. ticket_state t = StateHalfOpen \<and> ticket_generation t = generation (brk s)) (in_flight s)"

text \<open>
  What ties the tickets to the breaker: no ticket is from a later generation, a ticket of the
  current generation was issued in the current state, and the probe flag counts the probes.
\<close>

definition tickets_ok :: "nat \<Rightarrow> breaker_system \<Rightarrow> bool" where
  "tickets_ok n s \<longleftrightarrow>
     breaker_ok (brk s) \<and> unat (generation (brk s)) \<le> n \<and>
     (\<forall>t \<in> set (in_flight s). ticket_state t \<noteq> StateOpen \<and>
        unat (ticket_generation t) \<le> unat (generation (brk s)) \<and>
        (ticket_generation t = generation (brk s) \<longrightarrow> ticket_state t = circuit (brk s))) \<and>
     length (probe_tickets s) = (if half_open_probe (brk s) then 1 else 0)"

lemma tickets_ok_bump:
  assumes "tickets_ok n s" and "n < 2 ^ 64 - 1" and "breaker_ok b"
    and "generation b = generation (brk s) + 1" and "\<not> half_open_probe b"
    and "set ts \<subseteq> set (in_flight s)"
  shows "tickets_ok (Suc n) \<lparr>brk = b, in_flight = ts\<rparr>"
proof -
  have "unat (generation (brk s)) < 2 ^ 64 - 1"
    using assms(1,2) by (simp add: tickets_ok_def)
  then have gen: "unat (generation b) = Suc (unat (generation (brk s)))"
    using unat_u64_Suc [of "generation (brk s)"] by (simp add: assms(4) u64_not_max_iff)
  moreover have old: "\<forall>t \<in> set ts. ticket_state t \<noteq> StateOpen \<and>
      unat (ticket_generation t) < unat (generation b)"
    using assms(1,6) gen by (auto simp: tickets_ok_def le_imp_less_Suc)
  ultimately show ?thesis
    using assms(1,3,5) by (fastforce simp: tickets_ok_def probe_tickets_def filter_empty_conv)
qed

lemma tickets_ok_same:
  assumes "tickets_ok n s" and "breaker_ok b" and "generation b = generation (brk s)"
    and "circuit b = circuit (brk s)" and "half_open_probe b = half_open_probe (brk s)"
  shows "tickets_ok n (s\<lparr>brk := b\<rparr>)"
  using assms by (simp add: tickets_ok_def probe_tickets_def)

lemma tickets_ok_mono: "tickets_ok n s \<Longrightarrow> n \<le> m \<Longrightarrow> tickets_ok m s"
  by (auto simp: tickets_ok_def)

lemma tickets_ok_advance:
  assumes "tickets_ok n s" and "n < 2 ^ 64 - 1"
  shows "tickets_ok (Suc n) (s\<lparr>brk := advance_state now (brk s)\<rparr>)"
proof (cases "advance_state now (brk s) = brk s")
  case True
  then show ?thesis using tickets_ok_mono [OF assms(1), of "Suc n"] by simp
next
  case False
  have "breaker_ok (brk s)" using assms(1) by (simp add: tickets_ok_def)
  with False show ?thesis
    using tickets_ok_bump [OF assms, of "advance_state now (brk s)" "in_flight s"]
      breaker_ok_advance [of "brk s" now]
    by (auto simp: advance_state_def split: if_splits) (cases s; simp)+
qed

text \<open>A finished ticket can be dropped unless it was the pending probe.\<close>

lemma tickets_ok_drop:
  assumes "tickets_ok n s" and "in_flight s = ts @ t # us"
    and "ticket_generation t \<noteq> generation (brk s) \<or> ticket_state t \<noteq> StateHalfOpen"
  shows "tickets_ok n (s\<lparr>in_flight := ts @ us\<rparr>)"
  using assms by (auto simp: tickets_ok_def probe_tickets_def)

lemma tickets_ok_admit:
  assumes "tickets_ok n s" and "n < 2 ^ 64 - 1" and "before_request now (brk s) = (Some t, b)"
  shows "tickets_ok (Suc n) (s\<lparr>brk := b, in_flight := t # in_flight s\<rparr>)"
proof -
  have "tickets_ok (Suc n) (s\<lparr>brk := advance_state now (brk s)\<rparr>)"
    using assms(1,2) by (rule tickets_ok_advance)
  moreover have "breaker_ok b"
    using breaker_ok_before [of "brk s" now] assms by (simp add: tickets_ok_def)
  ultimately show ?thesis
    using assms(3) by (auto simp: before_request_def Let_def tickets_ok_def probe_tickets_def split: if_splits)
qed

text \<open>An outcome either starts a new generation or leaves the breaker's position alone.\<close>

lemma after_request_cases:
  assumes "ticket_generation t = generation b \<longrightarrow> ticket_state t = circuit b"
  obtains (bump) "generation (after_request now t ok b) = generation b + 1"
      "\<not> half_open_probe (after_request now t ok b)"
  | (same) "generation (after_request now t ok b) = generation b"
      "circuit (after_request now t ok b) = circuit b"
      "half_open_probe (after_request now t ok b) = half_open_probe b"
      "ticket_generation t \<noteq> generation b \<or> ticket_state t \<noteq> StateHalfOpen"
proof (cases "ticket_generation t = generation b")
  case True
  with assms have st: "ticket_state t = circuit b" by simp
  show thesis
  proof (cases "circuit b = StateHalfOpen")
    case True
    then show thesis
      using \<open>ticket_generation t = generation b\<close> st bump
      by (cases ok) (simp_all add: after_request_def open_circuit_def Let_def)
  next
    case False
    let ?c = "wrap64 (consecutive_failures b + 1)"
    show thesis
      using \<open>ticket_generation t = generation b\<close> st False bump same
      by (cases ok; cases "failure_threshold b \<le> ?c")
         (simp_all add: after_request_def open_circuit_def Let_def)
  qed
next
  case False
  then show thesis using same by (simp add: after_request_def)
qed

lemma tickets_ok_report:
  assumes inv: "tickets_ok n s" and n: "n < 2 ^ 64 - 1" and fl: "in_flight s = ts @ t # us"
  shows "tickets_ok (Suc n) (s\<lparr>brk := after_request now t ok (brk s), in_flight := ts @ us\<rparr>)"
proof -
  let ?b = "brk s" and ?b' = "after_request now t ok (brk s)"
  have t: "ticket_state t \<noteq> StateOpen" "ticket_generation t = generation ?b \<longrightarrow> ticket_state t = circuit ?b"
    and "breaker_ok ?b"
    using inv fl by (auto simp: tickets_ok_def)
  then have ok': "breaker_ok ?b'" by (simp add: breaker_ok_after)
  from t(2) show ?thesis
  proof (cases rule: after_request_cases [of t ?b now ok])
    case bump
    then have "tickets_ok (Suc n) \<lparr>brk = ?b', in_flight = ts @ us\<rparr>"
      using fl by (intro tickets_ok_bump [OF inv n ok']) auto
    then show ?thesis by (cases s) simp
  next
    case same
    then have "tickets_ok n (s\<lparr>in_flight := ts @ us\<rparr>)"
      using inv fl by (intro tickets_ok_drop [where t = t])
    then have "tickets_ok n ((s\<lparr>in_flight := ts @ us\<rparr>)\<lparr>brk := ?b'\<rparr>)"
      using same ok' by (intro tickets_ok_same) simp_all
    then show ?thesis by (cases s) (auto intro: tickets_ok_mono)
  qed
qed

lemma tickets_ok_step:
  assumes "breaker_step s s'" and "tickets_ok n s" and "n < 2 ^ 64 - 1"
  shows "tickets_ok (Suc n) s'"
  using assms(1)
proof cases
  case (admit now t b)
  then show ?thesis using tickets_ok_admit assms(2,3) by simp
next
  case (refuse now b)
  then have "b = advance_state now (brk s)"
    by (auto simp: before_request_def Let_def split: if_splits)
  with refuse show ?thesis using tickets_ok_advance [OF assms(2,3)] by simp
next
  case (report ts t us now ok)
  then show ?thesis using tickets_ok_report [OF assms(2,3)] by simp
next
  case (observe now)
  then show ?thesis using tickets_ok_advance [OF assms(2,3)] by (simp add: breaker_state_def Let_def)
qed

lemma tickets_ok_reset:
  assumes "tickets_ok n s" and "n < 2 ^ 64 - 1"
  shows "tickets_ok (Suc n) (s\<lparr>brk := reset_breaker (brk s)\<rparr>)"
proof -
  have "tickets_ok (Suc n) \<lparr>brk = reset_breaker (brk s), in_flight = in_flight s\<rparr>"
    using assms(1) by (intro tickets_ok_bump [OF assms])
      (auto simp: tickets_ok_def breaker_ok_reset, simp_all add: reset_breaker_def)
  then show ?thesis by (cases s) simp
qed

lemma tickets_ok_reach: "breaker_reach n r s \<Longrightarrow> n < 2 ^ 64 \<Longrightarrow> tickets_ok n s"
proof (induction rule: breaker_reach.induct)
  case (start th to b)
  then show ?case
    using new_breaker_ok [OF start(1-3)]
    by (auto simp: tickets_ok_def probe_tickets_def new_circuit_breaker_def split: if_splits)
next
  case (step n r s s')
  then show ?case using tickets_ok_step by simp
next
  case (reset n r s)
  then show ?case using tickets_ok_reset by simp
qed

text \<open>
  Only the present probe sets or clears the probe flag, except for a reset, which clears it and
  leaves the probe running: the probes of earlier periods are at most as many as the resets.
\<close>

lemma half_open_step:
  assumes step: "breaker_step s s'" and inv: "tickets_ok n s"
    and old: "length (half_open_tickets s) \<le> r + (if half_open_probe (brk s) then 1 else 0)"
  shows "length (half_open_tickets s') \<le> r + (if half_open_probe (brk s') then 1 else 0)"
  using step
proof cases
  case (admit now t b)
  have "half_open_probe (brk s) \<longrightarrow> circuit (brk s) = StateHalfOpen" using inv by (simp add: tickets_ok_def breaker_ok_def)
  then show ?thesis using admit old
    by (auto simp: before_request_def advance_state_def Let_def half_open_tickets_def split: if_splits)
next
  case (refuse now b)
  have "half_open_probe (brk s) \<longrightarrow> circuit (brk s) = StateHalfOpen" using inv by (simp add: tickets_ok_def breaker_ok_def)
  then show ?thesis using refuse old
    by (auto simp: before_request_def advance_state_def Let_def half_open_tickets_def split: if_splits)
next
  case (report ts t us now ok)
  have t: "ticket_generation t = generation (brk s) \<longrightarrow> ticket_state t = circuit (brk s)"
    and flag: "half_open_probe (brk s) \<longrightarrow> circuit (brk s) = StateHalfOpen"
    using inv report(2) by (auto simp: tickets_ok_def breaker_ok_def)
  have len: "length (half_open_tickets s) = length (half_open_tickets s') + (if ticket_state t = StateHalfOpen then 1 else 0)"
    using report by (simp add: half_open_tickets_def)
  show ?thesis
  proof (cases "ticket_generation t = generation (brk s) \<and> circuit (brk s) = StateHalfOpen")
    case True
    then show ?thesis using t len old by (auto split: if_splits)
  next
    case False
    then have "half_open_probe (brk s') = half_open_probe (brk s)"
      using report(1) flag by (auto simp: after_request_def open_circuit_def Let_def)
    then show ?thesis using len old by simp
  qed
next
  case (observe now)
  have "half_open_probe (brk s) \<longrightarrow> circuit (brk s) = StateHalfOpen" using inv by (simp add: tickets_ok_def breaker_ok_def)
  then show ?thesis using observe old
    by (auto simp: breaker_state_def advance_state_def Let_def half_open_tickets_def)
qed

lemma half_open_reach:
  "breaker_reach n r s \<Longrightarrow> n < 2 ^ 64 \<Longrightarrow> length (half_open_tickets s) \<le> r + (if half_open_probe (brk s) then 1 else 0)"
proof (induction rule: breaker_reach.induct)
  case (start th to b)
  then show ?case by (simp add: half_open_tickets_def)
next
  case (step n r s s')
  then show ?case using half_open_step [OF step(2) tickets_ok_reach [OF step(1)]] by simp
next
  case (reset n r s)
  then show ?case by (simp add: half_open_tickets_def reset_breaker_def split: if_splits)
qed

section \<open>Sequential use\<close>

text \<open>A caller alone: admission at \<open>t0\<close>, outcome at \<open>t1\<close>; a refused request changes nothing else.\<close>

definition breaker_call :: "gotime \<Rightarrow> gotime \<Rightarrow> bool \<Rightarrow> breaker \<Rightarrow> breaker" where
  "breaker_call t0 t1 ok b =
     (case before_request t0 b of
        (None, b') \<Rightarrow> b'
      | (Some t, b') \<Rightarrow> after_request t1 t ok b')"

fun breaker_calls :: "(gotime \<times> gotime \<times> bool) list \<Rightarrow> breaker \<Rightarrow> breaker" where
  "breaker_calls [] b = b"
| "breaker_calls ((t0, t1, ok) # xs) b = breaker_calls xs (breaker_call t0 t1 ok b)"

lemma execute_breaker:
  "fst (snd (execute clk operation b s)) =
     breaker_call (clk s) (clk (snd (operation s))) (fst (operation s) = None) b"
  by (auto simp: execute_def breaker_call_def split: prod.splits option.splits)

lemma before_closed [simp]:
  "circuit b = StateClosed \<Longrightarrow>
   before_request now b = (Some \<lparr>ticket_state = StateClosed, ticket_generation = generation b\<rparr>, b)"
  by (simp add: before_request_def advance_state_def)

lemma before_open_early:
  "circuit b = StateOpen \<Longrightarrow> \<not> open_timeout b \<le> time_sub now (opened_at b) \<Longrightarrow>
   before_request now b = (None, b)"
  by (simp add: before_request_def advance_state_def)

lemma before_open_due:
  "circuit b = StateOpen \<Longrightarrow> open_timeout b \<le> time_sub now (opened_at b) \<Longrightarrow>
   before_request now b =
     (Some \<lparr>ticket_state = StateHalfOpen, ticket_generation = generation b + 1\<rparr>,
      b\<lparr>circuit := StateHalfOpen, half_open_probe := True, generation := generation b + 1\<rparr>)"
  by (simp add: before_request_def advance_state_def)

lemma before_half_open_busy:
  "circuit b = StateHalfOpen \<Longrightarrow> half_open_probe b \<Longrightarrow> before_request now b = (None, b)"
  by (simp add: before_request_def advance_state_def)

lemmas before_request_cases = before_closed before_open_early before_open_due before_half_open_busy

lemma closed_failure:
  assumes "breaker_ok b" and "circuit b = StateClosed"
  shows "breaker_call t0 t1 False b =
     (if consecutive_failures b + 1 < failure_threshold b
      then b\<lparr>consecutive_failures := consecutive_failures b + 1\<rparr> else open_circuit t1 b)"
  using assms by (simp add: breaker_call_def after_request_def open_circuit_def)

lemma closed_success:
  "circuit b = StateClosed \<Longrightarrow> breaker_call t0 t1 True b = b\<lparr>consecutive_failures := 0\<rparr>"
  by (simp add: breaker_call_def after_request_def)

section \<open>Properties of the breaker\<close>

lemma probe_refuses:
  assumes "tickets_ok n s" and "probe_tickets s \<noteq> []"
  shows "half_open_probe (brk s)" "circuit (brk s) = StateHalfOpen" "before_request now (brk s) = (None, brk s)"
proof -
  show flag: "half_open_probe (brk s)" using assms unfolding tickets_ok_def by (metis length_0_conv)
  with assms(1) show half: "circuit (brk s) = StateHalfOpen" by (simp add: tickets_ok_def breaker_ok_def)
  from half flag show "before_request now (brk s) = (None, brk s)" by (rule before_half_open_busy)
qed

text \<open>
  C3. Single probe. However requests, outcomes and state readings interleave, at most one probe of the
  present half-open period is in flight, and while it is, every other request is refused without touching
  the dependency. A probe of an earlier period can still be running only after a \<open>Reset\<close>, which closes the circuit but does not
  stop it: with \<open>r\<close> resets so far there are at most \<open>r\<close> of them, so without a reset at most one probe
  is ever in flight.
\<close>

theorem breaker_single_probe:
  assumes "breaker_reach n r s" and "n < 2 ^ 64"
  shows "length (probe_tickets s) \<le> 1 \<and> length (half_open_tickets s) \<le> length (probe_tickets s) + r \<and>
    (probe_tickets s \<noteq> [] \<longrightarrow> before_request now (brk s) = (None, brk s))"
proof -
  have inv: "tickets_ok n s" using assms by (rule tickets_ok_reach)
  then have "length (probe_tickets s) \<le> 1" by (simp add: tickets_ok_def)
  moreover have "length (half_open_tickets s) \<le> length (probe_tickets s) + r"
    using half_open_reach [OF assms] inv by (simp add: tickets_ok_def)
  ultimately show ?thesis using probe_refuses [OF inv] by blast
qed

text \<open>A run to the half-open state: one failure opens the circuit, a probe follows ten units later.\<close>

definition demo_breaker :: breaker where
  "demo_breaker = \<lparr>failure_threshold = 1, open_timeout = 10, circuit = StateClosed,
     consecutive_failures = 0, opened_at = 0, generation = 0, half_open_probe = False\<rparr>"

definition demo_half_open :: breaker_system where
  "demo_half_open =
     \<lparr>brk = demo_breaker\<lparr>circuit := StateHalfOpen, opened_at := 7, generation := 2, half_open_probe := True\<rparr>,
      in_flight = [\<lparr>ticket_state = StateHalfOpen, ticket_generation = 2\<rparr>]\<rparr>"

lemma demo_breaker_ok: "breaker_ok demo_breaker"
  by (simp add: breaker_ok_def demo_breaker_def int64_max_def)

lemma demo_half_open_reach: "breaker_reach 3 0 demo_half_open"
proof -
  let ?t = "\<lparr>ticket_state = StateClosed, ticket_generation = 0\<rparr>"
  let ?s0 = "\<lparr>brk = demo_breaker, in_flight = []\<rparr>"
  let ?s1 = "\<lparr>brk = demo_breaker, in_flight = [?t]\<rparr>"
  let ?s2 = "\<lparr>brk = open_circuit 7 demo_breaker, in_flight = []\<rparr>"
  have "breaker_reach 0 0 ?s0"
    by (rule breaker_reach.start [of 1 10])
       (simp_all add: new_circuit_breaker_def demo_breaker_def in_int64_def int64_max_def int64_min_def)
  moreover have "breaker_step ?s0 ?s1"
    using breaker_step.admit [of 0 ?s0 ?t demo_breaker] by (simp add: demo_breaker_def)
  moreover have "breaker_step ?s1 ?s2"
    using breaker_step.report [of ?s1 "[]" ?t "[]" 7 False]
    by (simp add: after_request_def open_circuit_def demo_breaker_def wrap64_def)
  moreover have "breaker_step ?s2 demo_half_open"
    using breaker_step.admit [of 17 ?s2]
    by (simp add: before_request_def advance_state_def open_circuit_def demo_breaker_def
        demo_half_open_def time_sub_def int64_min_def int64_max_def)
  ultimately show ?thesis
    using breaker_reach.step by (metis numeral_3_eq_3 One_nat_def)
qed

theorem breaker_single_probe_witness:
  "length (probe_tickets demo_half_open) = 1 \<and> length (half_open_tickets demo_half_open) = 1 \<and>
   before_request 99 (brk demo_half_open) = (None, brk demo_half_open)"
  using breaker_single_probe [OF demo_half_open_reach, of 99]
  by (simp add: probe_tickets_def half_open_tickets_def demo_half_open_def)

text \<open>
  Fail fast. While the circuit is open and its timeout has not elapsed, \<open>Execute\<close> returns
  \<open>ErrCircuitOpen\<close> whatever the operation is, and neither the dependency's state nor the breaker
  changes.
\<close>

theorem breaker_fails_fast:
  assumes "circuit b = StateOpen" and "breaker_ok b" and "clk s < opened_at b + open_timeout b"
  shows "execute clk operation b s = (Some ErrCircuitOpen, b, s)"
proof -
  have "\<not> open_timeout b \<le> time_sub (clk s) (opened_at b)"
    using assms(2,3) by (simp add: breaker_ok_def)
  with assms(1) show ?thesis by (simp add: execute_def before_open_early)
qed

theorem breaker_fails_fast_witness:
  "execute id (\<lambda>s. (None, s + 1)) (open_circuit 7 demo_breaker) 16
     = (Some ErrCircuitOpen, open_circuit 7 demo_breaker, 16)"
  by (rule breaker_fails_fast)
     (simp_all add: demo_breaker_ok breaker_ok_open, simp_all add: open_circuit_def demo_breaker_def)

text \<open>
  Opening threshold. From a closed circuit, consecutive failures below the threshold are only
  counted; the failure that reaches the threshold opens the circuit at its own time stamp.
\<close>

theorem breaker_opens_at_threshold:
  assumes "breaker_ok b" and "circuit b = StateClosed" and "\<forall>(t0, t1, ok) \<in> set xs. \<not> ok"
    and "consecutive_failures b + int (length xs) + 1 = failure_threshold b"
  shows "breaker_calls xs b = b\<lparr>consecutive_failures := failure_threshold b - 1\<rparr> \<and>
    breaker_call t t' False (breaker_calls xs b) = open_circuit t' b"
  using assms
proof (induction xs arbitrary: b)
  case Nil
  then have b: "breaker_call t t' False b = open_circuit t' b"
    by (simp add: closed_failure)
  with Nil show ?case by (cases b) simp
next
  case (Cons x xs)
  obtain t0 t1 where x: "x = (t0, t1, False)" using Cons.prems(3) by (cases x) auto
  let ?b = "b\<lparr>consecutive_failures := consecutive_failures b + 1\<rparr>"
  have step: "breaker_call t0 t1 False b = ?b"
    using Cons.prems by (simp add: closed_failure)
  have "breaker_ok ?b" using Cons.prems by (simp add: breaker_ok_def)
  then have IH: "breaker_calls xs ?b = ?b\<lparr>consecutive_failures := failure_threshold ?b - 1\<rparr> \<and>
      breaker_call t t' False (breaker_calls xs ?b) = open_circuit t' ?b"
    using Cons.prems by (intro Cons.IH) simp_all
  have "open_circuit t' ?b = open_circuit t' b" by (simp add: open_circuit_def)
  then have "breaker_call t t' False (breaker_calls xs ?b) = open_circuit t' b"
    using conjunct2 [OF IH] by (rule trans [rotated])
  moreover have "breaker_calls xs ?b = b\<lparr>consecutive_failures := failure_threshold b - 1\<rparr>"
    using conjunct1 [OF IH] by simp
  ultimately show ?case by (simp only: x step breaker_calls.simps simp_thms)
qed

theorem breaker_opens_at_threshold_witness:
  "breaker_call 5 6 False (breaker_calls [(1, 2, False), (3, 4, False)] (demo_breaker\<lparr>failure_threshold := 3\<rparr>))
     = open_circuit 6 (demo_breaker\<lparr>failure_threshold := 3\<rparr>)"
proof -
  have "breaker_ok (demo_breaker\<lparr>failure_threshold := 3\<rparr>)"
    by (simp add: breaker_ok_def demo_breaker_def int64_max_def)
  then show ?thesis
    by (rule breaker_opens_at_threshold [THEN conjunct2]) (simp_all add: demo_breaker_def)
qed

text \<open>
  Recovery. Once the timeout of an open circuit has elapsed, the next request is admitted as
  the probe; its success closes the circuit, its failure opens it again for a full timeout.
\<close>

theorem breaker_recovers:
  assumes "breaker_ok b" and "circuit b = StateOpen" and "opened_at b + open_timeout b \<le> t0"
  shows "breaker_call t0 t1 ok b =
     (if ok then b\<lparr>circuit := StateClosed, consecutive_failures := 0, half_open_probe := False,
                   generation := generation b + 2\<rparr>
      else b\<lparr>opened_at := t1, consecutive_failures := 0, half_open_probe := False,
             generation := generation b + 2\<rparr>)"
proof -
  have "open_timeout b \<le> time_sub t0 (opened_at b)"
    using assms(1,3) by (simp add: breaker_ok_def)
  then show ?thesis
    using assms(2) by (simp add: breaker_call_def before_open_due after_request_def open_circuit_def add.assoc)
qed

theorem breaker_recovers_witness:
  "circuit (breaker_call 17 18 True (open_circuit 7 demo_breaker)) = StateClosed \<and>
   circuit (breaker_call 17 18 False (open_circuit 7 demo_breaker)) = StateOpen"
  using breaker_recovers [OF breaker_ok_open [OF demo_breaker_ok], of 7 17 18]
  by (simp add: open_circuit_def demo_breaker_def)

text \<open>
  No stale outcome. After \<open>Reset\<close>, the outcome of every request that was in flight is ignored,
  so a late failure cannot reopen the circuit nor a late success hide new failures.
\<close>

theorem breaker_reset_ignores_stale:
  assumes "breaker_reach n r s" and "n < 2 ^ 64 - 1" and "t \<in> set (in_flight s)"
  shows "after_request now t ok (reset_breaker (brk s)) = reset_breaker (brk s)"
proof -
  have "tickets_ok n s" using assms(1,2) by (intro tickets_ok_reach) simp_all
  with assms(2,3) have "unat (generation (brk s)) < 2 ^ 64 - 1"
    and le: "unat (ticket_generation t) \<le> unat (generation (brk s))"
    by (auto simp: tickets_ok_def)
  then have "unat (generation (brk s) + 1) = Suc (unat (generation (brk s)))"
    by (intro unat_u64_Suc) (simp add: u64_not_max_iff)
  with le have "ticket_generation t \<noteq> generation (brk s) + 1" by auto
  then show ?thesis by (simp add: after_request_def reset_breaker_def)
qed

theorem breaker_reset_ignores_stale_witness:
  "after_request 30 \<lparr>ticket_state = StateHalfOpen, ticket_generation = 2\<rparr> False (reset_breaker (brk demo_half_open))
     = reset_breaker (brk demo_half_open)"
  by (rule breaker_reset_ignores_stale [OF demo_half_open_reach]) (simp_all add: demo_half_open_def)

text \<open>
  What the breaker and its callers can do while the outcome of the request \<open>p\<close> stays out: admissions, refusals and
  readings of the state, and the outcomes of all other requests.
\<close>

inductive lost_probe :: "breaker_ticket \<Rightarrow> breaker_system \<Rightarrow> breaker_system \<Rightarrow> bool" for p where
  stay: "lost_probe p s s"
| onward: "lost_probe p s s' \<Longrightarrow> breaker_step s' s'' \<Longrightarrow> p \<in> set (in_flight s'') \<Longrightarrow> lost_probe p s s''"

lemma lost_probe_step:
  assumes inv: "tickets_ok n s" and p: "p \<in> set (probe_tickets s)" and step: "breaker_step s s'" and still: "p \<in> set (in_flight s')"
  shows "tickets_ok n s'" "p \<in> set (probe_tickets s')" "brk s' = brk s"
proof -
  have some: "probe_tickets s \<noteq> []" using p by auto
  note R = probe_refuses [OF inv some]
  have "tickets_ok n s' \<and> brk s' = brk s"
    using step
  proof cases
    case (admit now t b)
    then show ?thesis using R(3) [of now] by simp
  next
    case (refuse now b)
    then show ?thesis using R(3) [of now] inv by (cases s) simp
  next
    case (report ts t us now ok)
    have "ticket_generation t \<noteq> generation (brk s) \<or> ticket_state t \<noteq> StateHalfOpen"
    proof (rule ccontr)
      assume "\<not> ?thesis"
      then have "length (probe_tickets s) = Suc (length (filter (\<lambda>t. ticket_state t = StateHalfOpen \<and>
          ticket_generation t = generation (brk s)) (ts @ us)))" by (simp add: probe_tickets_def report(2))
      moreover have "p \<in> set (filter (\<lambda>t. ticket_state t = StateHalfOpen \<and> ticket_generation t = generation (brk s)) (ts @ us))"
        using p still report(1) by (simp add: probe_tickets_def)
      then have "0 < length (filter (\<lambda>t. ticket_state t = StateHalfOpen \<and> ticket_generation t = generation (brk s)) (ts @ us))"
        by (rule length_pos_if_in_set)
      ultimately show False using inv by (simp add: tickets_ok_def split: if_splits)
    qed
    then have "after_request now t ok (brk s) = brk s" "tickets_ok n (s\<lparr>in_flight := ts @ us\<rparr>)"
      using R(2) tickets_ok_drop [OF inv report(2)] by (auto simp: after_request_def)
    then show ?thesis using report(1) by (cases s) simp
  next
    case (observe now)
    then show ?thesis using R(2) inv by (cases s) (simp add: breaker_state_def advance_state_def)
  qed
  then show "tickets_ok n s'" "brk s' = brk s" by simp_all
  then show "p \<in> set (probe_tickets s')" using p still by (simp add: probe_tickets_def)
qed

text \<open>
  C11. A lost probe blocks for good. \<open>Execute\<close> reports an outcome only when the operation returns.
  If the probe's operation does not return (a panic that the HTTP server recovers), then as long as nobody calls
  \<open>Reset\<close> the circuit stays half-open and refuses every request at every later time, whatever the other
  requests in flight report meanwhile, success or failure, and however often the state is read.
\<close>

theorem breaker_lost_probe_blocks:
  assumes "breaker_reach n r s" and "n < 2 ^ 64" and "p \<in> set (probe_tickets s)" and "lost_probe p s s'"
  shows "brk s' = brk s \<and> circuit (brk s') = StateHalfOpen \<and> before_request now (brk s') = (None, brk s')"
proof -
  have "tickets_ok n s" using assms(1,2) by (rule tickets_ok_reach)
  with assms(4,3) have "tickets_ok n s' \<and> p \<in> set (probe_tickets s') \<and> brk s' = brk s"
  proof (induction rule: lost_probe.induct)
    case (onward s s' s'')
    then show ?case using lost_probe_step [of n s' p s''] by simp
  qed simp
  moreover from this have "probe_tickets s' \<noteq> []" by auto
  ultimately show ?thesis using probe_refuses by blast
qed

text \<open>Two requests at a closed circuit: one fails and opens it, the probe follows while the other still runs.\<close>

definition demo_straggler :: breaker_system where
  "demo_straggler = demo_half_open\<lparr>in_flight :=
     [\<lparr>ticket_state = StateHalfOpen, ticket_generation = 2\<rparr>, \<lparr>ticket_state = StateClosed, ticket_generation = 0\<rparr>]\<rparr>"

lemma demo_straggler_reach: "breaker_reach 4 0 demo_straggler"
proof -
  let ?t = "\<lparr>ticket_state = StateClosed, ticket_generation = 0\<rparr>"
  let ?s0 = "\<lparr>brk = demo_breaker, in_flight = []\<rparr>"
  let ?s1 = "\<lparr>brk = demo_breaker, in_flight = [?t]\<rparr>"
  let ?s2 = "\<lparr>brk = demo_breaker, in_flight = [?t, ?t]\<rparr>"
  let ?s3 = "\<lparr>brk = open_circuit 7 demo_breaker, in_flight = [?t]\<rparr>"
  have "breaker_reach 0 0 ?s0"
    by (rule breaker_reach.start [of 1 10])
       (simp_all add: new_circuit_breaker_def demo_breaker_def in_int64_def int64_max_def int64_min_def)
  moreover have "breaker_step ?s0 ?s1" "breaker_step ?s1 ?s2"
    using breaker_step.admit [of 0 ?s0 ?t demo_breaker] breaker_step.admit [of 0 ?s1 ?t demo_breaker]
    by (simp_all add: demo_breaker_def)
  moreover have "breaker_step ?s2 ?s3"
    using breaker_step.report [of ?s2 "[]" ?t "[?t]" 7 False]
    by (simp add: after_request_def open_circuit_def demo_breaker_def wrap64_def)
  moreover have "breaker_step ?s3 demo_straggler"
    using breaker_step.admit [of 17 ?s3]
    by (simp add: before_request_def advance_state_def open_circuit_def demo_breaker_def
        demo_straggler_def demo_half_open_def time_sub_def int64_min_def int64_max_def)
  ultimately have "breaker_reach (Suc (Suc (Suc (Suc 0)))) 0 demo_straggler"
    by (meson breaker_reach.step)
  then show ?thesis by (simp add: eval_nat_numeral)
qed

theorem breaker_lost_probe_blocks_witness:
  "breaker_step demo_straggler demo_half_open \<and> brk demo_half_open = brk demo_straggler \<and>
   before_request (10 ^ 30) (brk demo_half_open) = (None, brk demo_half_open)"
proof -
  let ?p = "\<lparr>ticket_state = StateHalfOpen, ticket_generation = 2\<rparr>"
  have step: "breaker_step demo_straggler demo_half_open"
    using breaker_step.report [of demo_straggler "[?p]" "\<lparr>ticket_state = StateClosed, ticket_generation = 0\<rparr>" "[]" 20 True]
    by (simp add: demo_straggler_def demo_half_open_def after_request_def)
  then have "lost_probe ?p demo_straggler demo_half_open"
    by (intro lost_probe.onward [OF lost_probe.stay]) (simp_all add: demo_half_open_def)
  from breaker_lost_probe_blocks [OF demo_straggler_reach _ _ this, of "10 ^ 30"] step
  show ?thesis by (simp add: probe_tickets_def demo_straggler_def demo_half_open_def)
qed

end
