(* ===== verification/Retry.thy ===== *)
theory Retry
  imports Float64 Go_Context "HOL-Library.Signed_Division"
begin

text \<open>
  Bounded retry with exponential backoff, \<open>internal/reliability/retry.go\<close>. The loop runs over an
  environment \<open>'s\<close> (clock, dependency, random source); what Go's runtime supplies for it is the
  record \<open>go_runtime\<close>: the state of the context, \<open>rand.Float64\<close>, the wait of \<open>sleepContext\<close>, and
  the value that a conversion from \<open>float64\<close> to \<open>int64\<close> gives out of range, which Go leaves to the
  implementation. The optional fields of the policy are \<open>None\<close> where the Go field is \<open>nil\<close>.

  The lemmas bound every delay, show that the doubling never overflows, bound the number of
  attempts, and identify the result with a reference that only looks at the outcomes.
\<close>

section \<open>The policy\<close>

record 's retry_policy =
  attempts :: int
  base_delay :: duration
  max_delay :: duration
  jitter :: rat
  retryable :: "(go_error \<Rightarrow> bool) option"
  rand_float :: "('s \<Rightarrow> rat \<times> 's) option"
  sleep :: "('s \<Rightarrow> duration \<Rightarrow> go_error option \<times> 's) option"

record 's go_runtime =
  rt_ctx_err :: "'s \<Rightarrow> go_error option"
  rt_rand :: "'s \<Rightarrow> rat \<times> 's"
  rt_sleep :: "'s \<Rightarrow> duration \<Rightarrow> go_error option \<times> 's"
  rt_out_of_range :: "rat \<Rightarrow> int"

definition validate_retry_policy :: "('s, 'x) retry_policy_scheme \<Rightarrow> go_error option" where
  "validate_retry_policy p =
     (if attempts p \<le> 0 \<or> base_delay p < 0 \<or> max_delay p < base_delay p \<or> jitter p < 0 \<or> 1 < jitter p
      then Some ErrInvalidRetryPolicy else None)"

section \<open>Delays\<close>

text \<open>The doubling loop of \<open>retryDelay\<close>; \<open>wrap64\<close> is the \<open>int64\<close> multiplication.\<close>

fun backoff :: "duration \<Rightarrow> nat \<Rightarrow> duration \<Rightarrow> duration" where
  "backoff mx 0 delay = delay"
| "backoff mx (Suc n) delay = (if mx sdiv 2 \<le> delay then mx else backoff mx n (wrap64 (delay * 2)))"

text \<open>Go's conversion of a \<open>float64\<close> to \<open>int64\<close> discards the fraction.\<close>

definition float_to_int64 :: "(rat \<Rightarrow> int) \<Rightarrow> rat \<Rightarrow> int" where
  "float_to_int64 oor x =
     (let n = (if 0 \<le> x then \<lfloor>x\<rfloor> else \<lceil>x\<rceil>) in if in_int64 n then n else oor x)"

definition jitter_factor :: "rat \<Rightarrow> rat \<Rightarrow> rat" where
  "jitter_factor j r = fl (1 + fl (j * fl (fl (2 * r) - 1)))"

definition retry_delay ::
  "(rat \<Rightarrow> int) \<Rightarrow> 's retry_policy \<Rightarrow> ('s \<Rightarrow> rat \<times> 's) \<Rightarrow> nat \<Rightarrow> 's \<Rightarrow> duration \<times> 's" where
  "retry_delay oor p rnd retry s =
     (let delay = backoff (max_delay p) retry (base_delay p)
      in if 0 < jitter p \<and> 0 < delay
         then (case rnd s of (r, s') \<Rightarrow>
            (min (float_to_int64 oor (fl (fl (of_int delay) * jitter_factor (jitter p) r))) (max_delay p), s'))
         else (min delay (max_delay p), s))"

section \<open>The loop\<close>

text \<open>
  The result is an error, or the value; \<open>Inr None\<close> is the zero value that the statement after
  the loop would return with a nil error.
\<close>

function retry_loop ::
  "'s go_runtime \<Rightarrow> 's retry_policy \<Rightarrow> (go_error \<Rightarrow> bool) \<Rightarrow> ('s \<Rightarrow> rat \<times> 's) \<Rightarrow>
   ('s \<Rightarrow> duration \<Rightarrow> go_error option \<times> 's) \<Rightarrow> ('s \<Rightarrow> (go_error + 'v) \<times> 's) \<Rightarrow> int \<Rightarrow> 's \<Rightarrow>
   (go_error + 'v option) \<times> 's" where
  "retry_loop rt p retry_ok rnd slp operation attempt s =
     (if attempt < attempts p then
        case rt_ctx_err rt s of
          Some e \<Rightarrow> (Inl e, s)
        | None \<Rightarrow>
            (case operation s of
               (Inr v, s1) \<Rightarrow> (Inr (Some v), s1)
             | (Inl e, s1) \<Rightarrow>
                 if attempt = attempts p - 1 \<or> \<not> retry_ok e then (Inl e, s1)
                 else case retry_delay (rt_out_of_range rt) p rnd (nat attempt) s1 of
                   (delay, s2) \<Rightarrow>
                     (case slp s2 delay of
                        (Some e', s3) \<Rightarrow> (Inl e', s3)
                      | (None, s3) \<Rightarrow> retry_loop rt p retry_ok rnd slp operation (attempt + 1) s3))
      else (Inr None, s))"
  by pat_completeness auto
termination
  by (relation "measure (\<lambda>(rt, p, ro, rnd, slp, op, attempt, s). nat (attempts p - attempt))") auto

declare retry_loop.simps [simp del]

definition retry_value ::
  "'s go_runtime \<Rightarrow> 's retry_policy \<Rightarrow> ('s \<Rightarrow> (go_error + 'v) \<times> 's) \<Rightarrow> 's \<Rightarrow> (go_error + 'v option) \<times> 's" where
  "retry_value rt p operation s =
     (case validate_retry_policy p of
        Some e \<Rightarrow> (Inl e, s)
      | None \<Rightarrow>
          retry_loop rt p (case retryable p of None \<Rightarrow> \<lambda>_. True | Some f \<Rightarrow> f)
            (case rand_float p of None \<Rightarrow> rt_rand rt | Some f \<Rightarrow> f)
            (case sleep p of None \<Rightarrow> rt_sleep rt | Some f \<Rightarrow> f) operation 0 s)"

definition retry :: "'s go_runtime \<Rightarrow> 's retry_policy \<Rightarrow> ('s \<Rightarrow> go_error option \<times> 's) \<Rightarrow> 's \<Rightarrow> go_error option \<times> 's" where
  "retry rt p operation s =
     (case retry_value rt p (\<lambda>s. case operation s of (Some e, s') \<Rightarrow> (Inl e, s') | (None, s') \<Rightarrow> (Inr (), s')) s of
        (Inl e, s') \<Rightarrow> (Some e, s')
      | (Inr _, s') \<Rightarrow> (None, s'))"

section \<open>Delays stay within the policy\<close>

lemma backoff_bounds:
  "0 \<le> delay \<Longrightarrow> delay \<le> mx \<Longrightarrow> in_int64 mx \<Longrightarrow> delay \<le> backoff mx n delay \<and> backoff mx n delay \<le> mx"
proof (induction n arbitrary: delay)
  case (Suc n)
  have "0 \<le> mx" using Suc.prems by simp
  then have half: "mx sdiv 2 = mx div 2"
    by (cases "mx = 0") (simp_all add: signed_divide_int_def)
  show ?case
  proof (cases "mx div 2 \<le> delay")
    case False
    then have "delay * 2 \<le> mx" by simp
    with Suc.prems have "wrap64 (delay * 2) = delay * 2"
      by (intro wrap64_id [OF in_int64_between [where y = mx]]) simp_all
    then have "backoff mx (Suc n) delay = backoff mx n (delay * 2)"
      using False by (simp add: half)
    moreover have "delay * 2 \<le> backoff mx n (delay * 2) \<and> backoff mx n (delay * 2) \<le> mx"
      using Suc.prems \<open>delay * 2 \<le> mx\<close> by (intro Suc.IH) simp_all
    ultimately show ?thesis using Suc.prems(1) by simp
  qed (use Suc.prems half in simp)
qed simp

text \<open>With an even cap the loop computes \<open>min mx (delay * 2 ^ n)\<close>, without ever overflowing.\<close>

lemma backoff_exact:
  "0 \<le> delay \<Longrightarrow> delay \<le> mx \<Longrightarrow> in_int64 mx \<Longrightarrow> even mx \<Longrightarrow> backoff mx n delay = min mx (delay * 2 ^ n)"
proof (induction n arbitrary: delay)
  case (Suc n)
  have "0 \<le> mx" using Suc.prems by simp
  then have half: "mx sdiv 2 = mx div 2"
    by (cases "mx = 0") (simp_all add: signed_divide_int_def)
  show ?case
  proof (cases "mx div 2 \<le> delay")
    case True
    then have "mx \<le> delay * 2" using Suc.prems(4) by presburger
    also have "\<dots> \<le> delay * 2 * 2 ^ n"
      using Suc.prems(1) mult_left_mono [of 1 "2 ^ n" "delay * 2"] by simp
    finally show ?thesis using True by (simp add: half min_def)
  next
    case False
    then have "delay * 2 \<le> mx" by simp
    with Suc.prems have "wrap64 (delay * 2) = delay * 2"
      by (intro wrap64_id [OF in_int64_between [where y = mx]]) simp_all
    then have "backoff mx (Suc n) delay = backoff mx n (delay * 2)"
      using False by (simp add: half)
    also have "\<dots> = min mx (delay * 2 * 2 ^ n)"
      using Suc.prems \<open>delay * 2 \<le> mx\<close> by (intro Suc.IH) simp_all
    finally show ?thesis by simp
  qed
qed simp

lemma jitter_factor_bounds:
  assumes "0 \<le> j" "j \<le> 1" "0 \<le> r" "r \<le> 1"
  shows "0 \<le> jitter_factor j r" and "jitter_factor j r \<le> 2"
proof -
  let ?x = "fl (fl (2 * r) - 1)"
  have "0 \<le> fl (2 * r)" "fl (2 * r) \<le> 2"
    using assms by (simp_all add: fl_nonneg fl_le)
  then have x: "- 1 \<le> ?x" "?x \<le> 1" by (simp_all add: fl_le fl_ge)
  have "j * (- 1) \<le> j * ?x" "j * ?x \<le> j * 1"
    using assms x by (intro mult_left_mono; simp)+
  then have "- 1 \<le> j * ?x" "j * ?x \<le> 1" using assms by linarith+
  then have "- 1 \<le> fl (j * ?x)" "fl (j * ?x) \<le> 1" by (simp_all add: fl_le fl_ge)
  then show "0 \<le> jitter_factor j r" and "jitter_factor j r \<le> 2"
    by (simp_all add: jitter_factor_def fl_nonneg fl_le)
qed

lemma is_float64_power: "n \<le> 1000 \<Longrightarrow> is_float64 (2 ^ n)"
  unfolding is_float64_def by (rule exI [of _ 1], rule exI [of _ "int n"]) simp

lemma float_to_int64_range:
  "0 \<le> x \<Longrightarrow> x \<le> 2 ^ 62 \<Longrightarrow> 0 \<le> float_to_int64 oor x"
proof -
  assume "0 \<le> x" "x \<le> 2 ^ 62"
  then have "\<lfloor>x\<rfloor> \<le> 2 ^ 62" by (metis floor_mono floor_of_int of_int_numeral of_int_power)
  with \<open>0 \<le> x\<close> show ?thesis
    by (simp add: float_to_int64_def Let_def in_int64_def int64_min_def int64_max_def)
qed

lemma retry_delay_bounds:
  assumes "validate_retry_policy p = None" and "max_delay p \<le> 2 ^ 61"
    and "0 \<le> fst (rnd s) \<and> fst (rnd s) \<le> 1"
  shows "0 \<le> fst (retry_delay oor p rnd n s)" and "fst (retry_delay oor p rnd n s) \<le> max_delay p"
proof -
  have p: "0 \<le> base_delay p" "base_delay p \<le> max_delay p" "0 \<le> jitter p" "jitter p \<le> 1"
    using assms(1) by (auto simp: validate_retry_policy_def split: if_splits)
  have "in_int64 (max_delay p)"
    using p assms(2) by (simp add: in_int64_def int64_min_def int64_max_def)
  with p have d: "0 \<le> backoff (max_delay p) n (base_delay p)" "backoff (max_delay p) n (base_delay p) \<le> max_delay p"
    using backoff_bounds [of "base_delay p" "max_delay p" n] by auto
  let ?d = "backoff (max_delay p) n (base_delay p)"
  have jit: "0 \<le> float_to_int64 oor (fl (fl (of_int ?d) * jitter_factor (jitter p) r))"
    if "0 \<le> r" "r \<le> 1" for r
  proof (rule float_to_int64_range)
    have f: "0 \<le> jitter_factor (jitter p) r" "jitter_factor (jitter p) r \<le> 2"
      using jitter_factor_bounds p(3,4) that by simp_all
    have "(of_int ?d :: rat) \<le> of_int (2 ^ 61)" using d assms(2) by (simp only: of_int_le_iff)
    then have fd: "0 \<le> fl (of_int ?d)" "fl (of_int ?d) \<le> 2 ^ 61"
      using d is_float64_power [of 61] by (simp_all add: fl_nonneg fl_le)
    then have "fl (of_int ?d) * jitter_factor (jitter p) r \<le> 2 ^ 61 * 2"
      using f by (intro mult_mono) simp_all
    then show "fl (fl (of_int ?d) * jitter_factor (jitter p) r) \<le> 2 ^ 62"
      using is_float64_power [of 62] by (intro fl_le) simp_all
    show "0 \<le> fl (fl (of_int ?d) * jitter_factor (jitter p) r)"
      using fd f by (intro fl_nonneg) simp
  qed
  show "0 \<le> fst (retry_delay oor p rnd n s)" and "fst (retry_delay oor p rnd n s) \<le> max_delay p"
    using d jit [of "fst (rnd s)"] assms(3) p
    by (auto simp: retry_delay_def Let_def split: prod.splits)
qed

lemma retry_delay_state: "snd (retry_delay oor p rnd n s) \<in> {s, snd (rnd s)}"
  by (auto simp: retry_delay_def Let_def split: prod.splits)

section \<open>Facts about the loop\<close>

lemma validate_attempts: "validate_retry_policy p = None \<Longrightarrow> 0 < attempts p"
  by (simp add: validate_retry_policy_def split: if_splits)

text \<open>
  One unfolding of the loop while attempts remain, in the form the inductions below use: any
  property of results that each branch establishes holds for the whole loop.
\<close>

lemma retry_loop_invariant:
  assumes "attempt < attempts p" and "I attempt s"
    and dead: "\<And>a s e. I a s \<Longrightarrow> a < attempts p \<Longrightarrow> rt_ctx_err rt s = Some e \<Longrightarrow> Q (Inl e, s)"
    and returned: "\<And>a s v s1. I a s \<Longrightarrow> a < attempts p \<Longrightarrow> rt_ctx_err rt s = None \<Longrightarrow>
        operation s = (Inr v, s1) \<Longrightarrow> Q (Inr (Some v), s1)"
    and stop: "\<And>a s e s1. I a s \<Longrightarrow> a < attempts p \<Longrightarrow> rt_ctx_err rt s = None \<Longrightarrow>
        operation s = (Inl e, s1) \<Longrightarrow> a = attempts p - 1 \<or> \<not> retry_ok e \<Longrightarrow> Q (Inl e, s1)"
    and broken: "\<And>a s e s1 d s2 e' s3. I a s \<Longrightarrow> a < attempts p - 1 \<Longrightarrow> rt_ctx_err rt s = None \<Longrightarrow>
        operation s = (Inl e, s1) \<Longrightarrow> retry_ok e \<Longrightarrow>
        retry_delay (rt_out_of_range rt) p rnd (nat a) s1 = (d, s2) \<Longrightarrow>
        slp s2 d = (Some e', s3) \<Longrightarrow> Q (Inl e', s3)"
    and again: "\<And>a s e s1 d s2 s3. I a s \<Longrightarrow> a < attempts p - 1 \<Longrightarrow> rt_ctx_err rt s = None \<Longrightarrow>
        operation s = (Inl e, s1) \<Longrightarrow> retry_ok e \<Longrightarrow>
        retry_delay (rt_out_of_range rt) p rnd (nat a) s1 = (d, s2) \<Longrightarrow>
        slp s2 d = (None, s3) \<Longrightarrow> I (a + 1) s3"
  shows "Q (retry_loop rt p retry_ok rnd slp operation attempt s)"
  using assms(1,2)
proof (induction "nat (attempts p - attempt)" arbitrary: attempt s rule: less_induct)
  case less
  show ?case
  proof (cases "rt_ctx_err rt s")
    case (Some e)
    with less.prems dead show ?thesis by (simp add: retry_loop.simps [of rt p _ _ _ _ attempt s])
  next
    case alive: None
    obtain x s1 where op: "operation s = (x, s1)" by fastforce
    show ?thesis
    proof (cases x)
      case (Inr v)
      with less.prems alive op returned show ?thesis by (simp add: retry_loop.simps [of rt p _ _ _ _ attempt s])
    next
      case (Inl e)
      show ?thesis
      proof (cases "attempt = attempts p - 1 \<or> \<not> retry_ok e")
        case True
        with less.prems alive op Inl stop show ?thesis by (auto simp: retry_loop.simps [of rt p _ _ _ _ attempt s])
      next
        case False
        then have more: "attempt < attempts p - 1" "retry_ok e" using less.prems by auto
        obtain d s2 where d: "retry_delay (rt_out_of_range rt) p rnd (nat attempt) s1 = (d, s2)" by fastforce
        obtain y s3 where y: "slp s2 d = (y, s3)" by fastforce
        show ?thesis
        proof (cases y)
          case (Some e')
          with less.prems alive op Inl more d y broken [OF less.prems(2)] show ?thesis
            by (simp add: retry_loop.simps [of rt p _ _ _ _ attempt s])
        next
          case None
          have "I (attempt + 1) s3"
            using again [OF less.prems(2) more(1) alive _ more(2) d] op Inl y None by simp
          then have "Q (retry_loop rt p retry_ok rnd slp operation (attempt + 1) s3)"
            using more by (intro less.hyps) simp_all
          with less.prems alive op Inl more d y None show ?thesis
            by (simp add: retry_loop.simps [of rt p _ _ _ _ attempt s])
        qed
      qed
    qed
  qed
qed

text \<open>The optional fields of the policy, with the defaults of \<open>RetryValue\<close> filled in.\<close>

abbreviation policy_retryable :: "'s retry_policy \<Rightarrow> go_error \<Rightarrow> bool" where
  "policy_retryable p \<equiv> (case retryable p of None \<Rightarrow> \<lambda>_. True | Some f \<Rightarrow> f)"

abbreviation policy_rand :: "'s go_runtime \<Rightarrow> 's retry_policy \<Rightarrow> 's \<Rightarrow> rat \<times> 's" where
  "policy_rand rt p \<equiv> (case rand_float p of None \<Rightarrow> rt_rand rt | Some f \<Rightarrow> f)"

abbreviation policy_sleep :: "'s go_runtime \<Rightarrow> 's retry_policy \<Rightarrow> 's \<Rightarrow> duration \<Rightarrow> go_error option \<times> 's" where
  "policy_sleep rt p \<equiv> (case sleep p of None \<Rightarrow> rt_sleep rt | Some f \<Rightarrow> f)"

lemma retry_value_valid:
  "validate_retry_policy p = None \<Longrightarrow> retry_value rt p operation s =
     retry_loop rt p (policy_retryable p) (policy_rand rt p) (policy_sleep rt p) operation 0 s"
  by (simp add: retry_value_def)

lemma retry_value_induct:
  assumes "validate_retry_policy p = None" and "I 0 s"
    and "\<And>a s e. I a s \<Longrightarrow> rt_ctx_err rt s = Some e \<Longrightarrow> Q (Inl e, s)"
    and "\<And>a s v s1. I a s \<Longrightarrow> a < attempts p \<Longrightarrow> operation s = (Inr v, s1) \<Longrightarrow> Q (Inr (Some v), s1)"
    and "\<And>a s e s1. I a s \<Longrightarrow> a < attempts p \<Longrightarrow> operation s = (Inl e, s1) \<Longrightarrow> Q (Inl e, s1)"
    and "\<And>a s e s1 d s2 e' s3. I a s \<Longrightarrow> a < attempts p - 1 \<Longrightarrow> operation s = (Inl e, s1) \<Longrightarrow>
        retry_delay (rt_out_of_range rt) p (policy_rand rt p) (nat a) s1 = (d, s2) \<Longrightarrow>
        policy_sleep rt p s2 d = (Some e', s3) \<Longrightarrow> Q (Inl e', s3)"
    and "\<And>a s e s1 d s2 s3. I a s \<Longrightarrow> a < attempts p - 1 \<Longrightarrow> operation s = (Inl e, s1) \<Longrightarrow>
        retry_delay (rt_out_of_range rt) p (policy_rand rt p) (nat a) s1 = (d, s2) \<Longrightarrow>
        policy_sleep rt p s2 d = (None, s3) \<Longrightarrow> I (a + 1) s3"
  shows "Q (retry_value rt p operation s)"
  unfolding retry_value_valid [OF assms(1)]
proof (rule retry_loop_invariant [where I = I], goal_cases)
  case 1
  show ?case using assms(1) by (rule validate_attempts)
next
  case 2
  show ?case by (rule assms(2))
next
  case (3 a s e)
  show ?case by (rule assms(3) [OF 3(1,3)])
next
  case (4 a s v s1)
  show ?case by (rule assms(4) [OF 4(1,2,4)])
next
  case (5 a s e s1)
  show ?case by (rule assms(5) [OF 5(1,2,4)])
next
  case (6 a s e s1 d s2 e' s3)
  show ?case by (rule assms(6) [OF 6(1,2,4,6,7)])
next
  case (7 a s e s1 d s2 s3)
  show ?case by (rule assms(7) [OF 7(1,2,4,6,7)])
qed

section \<open>Properties of retry\<close>

text \<open>
  Attempt budget. Whatever the dependency, the context, the random source and the sleeps do,
  the operation runs at most \<open>Attempts\<close> times. Stated for any counter \<open>calls\<close> in the environment
  that each run of the operation increases by one and that jitter and sleep leave alone.
\<close>

theorem retry_attempt_budget:
  fixes calls :: "'s \<Rightarrow> nat"
  assumes "\<And>s. calls (snd (operation s)) = Suc (calls s)"
    and "\<And>s. calls (snd (policy_rand rt p s)) = calls s"
    and "\<And>s d. calls (snd (policy_sleep rt p s d)) = calls s"
  shows "calls (snd (retry_value rt p operation s)) \<le> calls s + nat (attempts p)"
proof (cases "validate_retry_policy p")
  case None
  have delay: "retry_delay (rt_out_of_range rt) p (policy_rand rt p) n s1 = (d, s2) \<Longrightarrow> calls s2 = calls s1"
    for n s1 d s2
    using retry_delay_state [of "rt_out_of_range rt" p "policy_rand rt p" n s1] assms(2) [of s1] by auto
  have op: "operation s1 = (x, s2) \<Longrightarrow> calls s2 = Suc (calls s1)" for s1 x s2
    using assms(1) [of s1] by simp
  have slp: "policy_sleep rt p s1 d = (x, s2) \<Longrightarrow> calls s2 = calls s1" for s1 d x s2
    using assms(3) [of s1 d] by simp
  show ?thesis
  proof (rule retry_value_induct [OF None, where I =
        "\<lambda>a s'. 0 \<le> a \<and> a \<le> attempts p \<and> calls s' \<le> calls s + nat a"])
    show "0 \<le> (0 :: int) \<and> 0 \<le> attempts p \<and> calls s \<le> calls s + nat 0"
      using validate_attempts [OF None] by simp
  qed (auto dest!: delay op slp)
next
  case (Some e)
  then show ?thesis by (simp add: retry_value_def)
qed

text \<open>A dependency that always fails and counts its calls.\<close>

definition demo_policy :: "nat retry_policy" where
  "demo_policy = \<lparr>attempts = 3, base_delay = 10, max_delay = 40, jitter = 0,
     retryable = None, rand_float = None, sleep = None\<rparr>"

definition demo_runtime :: "'s go_runtime" where
  "demo_runtime = \<lparr>rt_ctx_err = (\<lambda>_. None), rt_rand = (\<lambda>s. (1 / 2, s)),
     rt_sleep = (\<lambda>s _. (None, s)), rt_out_of_range = (\<lambda>_. int64_min)\<rparr>"

theorem retry_attempt_budget_witness:
  "snd (retry_value demo_runtime demo_policy (\<lambda>n. (Inl ErrUnavailable :: go_error + unit, Suc n)) 7) \<le> 7 + 3"
  using retry_attempt_budget [of id "\<lambda>n. (Inl ErrUnavailable :: go_error + unit, Suc n)" demo_runtime demo_policy 7]
  by (simp add: demo_runtime_def demo_policy_def)

text \<open>
  No invented result. With a valid policy the loop never falls through to its final
  \<open>return zero, nil\<close>: every success is a value that the operation returned.
\<close>

theorem retry_success_is_real:
  assumes "validate_retry_policy p = None" and "fst (retry_value rt p operation s) = Inr x"
  shows "\<exists>v s'. x = Some v \<and> fst (operation s') = Inr v"
proof -
  have "\<forall>x. fst (retry_value rt p operation s) = Inr x \<longrightarrow> (\<exists>v s'. x = Some v \<and> fst (operation s') = Inr v)"
    by (rule retry_value_induct [OF assms(1), where I = "\<lambda>_ _. True"]) (auto, metis fst_conv)
  with assms(2) show ?thesis by blast
qed

theorem retry_success_is_real_witness:
  "\<exists>v s'. fst (retry_value demo_runtime demo_policy (\<lambda>n. (Inr ''ok'', Suc n)) 0) = Inr (Some v) \<and>
     fst ((\<lambda>n. (Inr ''ok'' :: go_error + string, Suc n)) s') = Inr v"
proof -
  have v: "validate_retry_policy demo_policy = None"
    by (simp add: validate_retry_policy_def demo_policy_def)
  have "fst (retry_value demo_runtime demo_policy (\<lambda>n. (Inr ''ok'' :: go_error + string, Suc n)) 0) = Inr (Some ''ok'')"
    by (simp add: retry_value_valid [OF v] retry_loop.simps, simp add: demo_policy_def demo_runtime_def)
  with retry_success_is_real [OF v this] show ?thesis by auto
qed

text \<open>
  Bounded backoff. With a valid policy whose \<open>MaxDelay\<close> is below \<open>2 ^ 61\<close> nanoseconds (73
  years), every delay, jitter included, lies between zero and \<open>MaxDelay\<close>, however late the retry.
\<close>

theorem retry_delay_within_policy:
  assumes "validate_retry_policy p = None" and "max_delay p \<le> 2 ^ 61"
    and "0 \<le> fst (rnd s) \<and> fst (rnd s) \<le> 1"
  shows "0 \<le> fst (retry_delay oor p rnd n s) \<and> fst (retry_delay oor p rnd n s) \<le> max_delay p"
  using retry_delay_bounds [where p = p and rnd = rnd and s = s and oor = oor and n = n] assms by blast

theorem retry_delay_within_policy_witness:
  "fst (retry_delay (\<lambda>_. int64_min) (demo_policy\<lparr>jitter := 1\<rparr>) (\<lambda>s. (1, s)) 1 0) \<le> 40"
  using retry_delay_within_policy [where p = "demo_policy\<lparr>jitter := 1\<rparr>" and rnd = "\<lambda>s. (1, s)"
      and oor = "\<lambda>_. int64_min" and n = 1 and s = 0]
  by (simp add: demo_policy_def validate_retry_policy_def)

text \<open>
  Exponential schedule. Without jitter and with an even cap, retry \<open>n\<close> waits exactly
  \<open>min MaxDelay (BaseDelay * 2 ^ n)\<close>; the \<open>int64\<close> doubling never overflows.
\<close>

theorem retry_delay_exponential:
  assumes "validate_retry_policy p = None" and "in_int64 (max_delay p)" and "even (max_delay p)"
    and "jitter p = 0"
  shows "retry_delay oor p rnd n s = (min (max_delay p) (base_delay p * 2 ^ n), s)"
proof -
  have "0 \<le> base_delay p" "base_delay p \<le> max_delay p"
    using assms(1) by (auto simp: validate_retry_policy_def split: if_splits)
  then show ?thesis using assms backoff_exact by (simp add: retry_delay_def)
qed

theorem retry_delay_exponential_witness:
  "map (\<lambda>n. fst (retry_delay (\<lambda>_. 0) demo_policy (\<lambda>s. (0, s)) n 0)) [0, 1, 2, 3] = [10, 20, 40, 40]"
proof -
  have "retry_delay (\<lambda>_. 0) demo_policy (\<lambda>s. (0, s)) n 0 = (min 40 (10 * 2 ^ n), 0)" for n
    using retry_delay_exponential [of demo_policy]
    by (simp add: demo_policy_def validate_retry_policy_def in_int64_def int64_max_def int64_min_def)
  then show ?thesis by simp
qed

text \<open>
  The reference: only the outcomes of the attempts count. Of at most \<open>n\<close> outcomes, the first
  that is a success or an error that must not be retried, or else the last.
\<close>

fun reference_outcome :: "(go_error \<Rightarrow> bool) \<Rightarrow> nat \<Rightarrow> (go_error + 'v) list \<Rightarrow> (go_error + 'v) option" where
  "reference_outcome retry_ok n [] = None"
| "reference_outcome retry_ok n (x # xs) =
     (case x of
        Inr v \<Rightarrow> Some x
      | Inl e \<Rightarrow> if n \<le> 1 \<or> \<not> retry_ok e then Some x else reference_outcome retry_ok (n - 1) xs)"

fun lift_value :: "go_error + 'v \<Rightarrow> go_error + 'v option" where
  "lift_value (Inl e) = Inl e"
| "lift_value (Inr v) = Inr (Some v)"

lemma retry_loop_reference:
  assumes "\<And>s. rt_ctx_err rt s = None"
    and op: "\<And>s x xs. script s = x # xs \<Longrightarrow> \<exists>s'. operation s = (x, s') \<and> script s' = xs"
    and "\<And>s. script (snd (rnd s)) = script s"
    and "\<And>s d. fst (slp s d) = None \<and> script (snd (slp s d)) = script s"
    and "0 \<le> attempt" and "attempt < attempts p" and "nat (attempts p - attempt) \<le> length (script s)"
  shows "Some (fst (retry_loop rt p retry_ok rnd slp operation attempt s)) =
    map_option lift_value (reference_outcome retry_ok (nat (attempts p - attempt)) (script s))"
  using assms(5-)
proof (induction "nat (attempts p - attempt)" arbitrary: attempt s rule: less_induct)
  case less
  then obtain x xs where xs: "script s = x # xs" by (cases "script s") auto
  obtain s1 where s1: "operation s = (x, s1)" "script s1 = xs" using op [OF xs] by blast
  note unfold = retry_loop.simps [of rt p retry_ok rnd slp operation attempt s]
  show ?case
  proof (cases "\<exists>e. x = Inl e \<and> attempt \<noteq> attempts p - 1 \<and> retry_ok e")
    case False
    then show ?thesis
      using less.prems s1 xs by (cases x) (auto simp: unfold assms(1))
  next
    case True
    then obtain e where e: "x = Inl e" "attempt \<noteq> attempts p - 1" "retry_ok e" by blast
    obtain d s2 where d: "retry_delay (rt_out_of_range rt) p rnd (nat attempt) s1 = (d, s2)" by fastforce
    have s2: "script s2 = xs"
      using retry_delay_state [of "rt_out_of_range rt" p rnd "nat attempt" s1] assms(3) [of s1] s1 d by auto
    obtain s3 where s3: "slp s2 d = (None, s3)" "script s3 = xs"
      using assms(4) [of s2 d] s2 by (metis prod.collapse)
    have "Some (fst (retry_loop rt p retry_ok rnd slp operation (attempt + 1) s3)) =
        map_option lift_value (reference_outcome retry_ok (nat (attempts p - (attempt + 1))) (script s3))"
      using less.prems e xs s3 by (intro less.hyps) auto
    moreover have "nat (attempts p - (attempt + 1)) = nat (attempts p - attempt) - 1"
      and "\<not> nat (attempts p - attempt) \<le> 1"
      using less.prems e by auto
    ultimately show ?thesis
      using less.prems e xs s1 d s3 by (simp add: unfold assms(1))
  qed
qed

text \<open>
  C9. Reference. While the context lives and sleeps are not interrupted, \<open>RetryValue\<close> returns what
  the reference selects from the outcomes of the attempts, for every delay and random source.
\<close>

theorem retry_refines_reference:
  assumes "validate_retry_policy p = None" and "\<And>s. rt_ctx_err rt s = None"
    and "\<And>s x xs. script s = x # xs \<Longrightarrow> \<exists>s'. operation s = (x, s') \<and> script s' = xs"
    and "\<And>s. script (snd (policy_rand rt p s)) = script s"
    and "\<And>s d. fst (policy_sleep rt p s d) = None \<and> script (snd (policy_sleep rt p s d)) = script s"
    and "nat (attempts p) \<le> length (script s)"
  shows "Some (fst (retry_value rt p operation s)) =
    map_option lift_value (reference_outcome (policy_retryable p) (nat (attempts p)) (script s))"
  unfolding retry_value_valid [OF assms(1)]
  using retry_loop_reference [where rt = rt and p = p and script = script and operation = operation
      and rnd = "policy_rand rt p" and slp = "policy_sleep rt p" and attempt = 0 and s = s, OF assms(2-5)]
    validate_attempts [OF assms(1)] assms(6)
  by simp

definition demo_script :: "(go_error + nat) list" where
  "demo_script = [Inl ErrUnavailable, Inl ErrUnavailable, Inr 5, Inr 6]"

definition demo_script_policy :: "(go_error + nat) list retry_policy" where
  "demo_script_policy = \<lparr>attempts = 3, base_delay = 10, max_delay = 40, jitter = 0,
     retryable = Some (\<lambda>e. e \<noteq> CtxCanceled), rand_float = None, sleep = None\<rparr>"

definition play_script :: "(go_error + nat) list \<Rightarrow> (go_error + nat) \<times> (go_error + nat) list" where
  "play_script s = (case s of [] \<Rightarrow> (Inl ErrUnavailable, []) | x # xs \<Rightarrow> (x, xs))"

theorem retry_refines_reference_witness:
  "fst (retry_value demo_runtime demo_script_policy play_script demo_script) = Inr (Some 5)"
proof -
  have "Some (fst (retry_value demo_runtime demo_script_policy play_script demo_script)) =
    map_option lift_value
      (reference_outcome (policy_retryable demo_script_policy) (nat (attempts demo_script_policy)) (id demo_script))"
    by (rule retry_refines_reference)
       (simp_all add: demo_script_policy_def demo_runtime_def validate_retry_policy_def play_script_def demo_script_def)
  then show ?thesis by (simp add: demo_script_policy_def demo_script_def)
qed

end
