(* ===== verification/Idempotency.thy ===== *)
theory Idempotency
  imports Lab_Prelude
begin

text \<open>
  The idempotency registry of \<open>internal/reliability/idempotency.go\<close>. Entries are objects that
  goroutines share through pointers: a caller that waits keeps its pointer after the map has
  forgotten the entry. The model has an explicit store (\<open>heap\<close>, addressed by \<open>nat\<close>) and a map
  from scopes to addresses. \<open>DoWithFingerprint\<close> is its two critical sections, \<open>do_enter\<close> and
  \<open>do_finish\<close>, with the operation between them; \<open>wait_result\<close> is the wait on the \<open>ready\<close> channel.
  The clock reading of \<open>do_enter\<close> is taken before the lock, so readings of concurrent callers
  may reach the registry out of order.

  The step relation \<open>idem_step\<close> interleaves any number of callers. The theory shows that an
  operation never runs twice at the same time for one scope, that a success is replayed until
  its TTL has passed, and that whoever waits gets the result of the operation it waited for.
\<close>

section \<open>State and operations\<close>

type_synonym scope = "string \<times> string"

text \<open>
  \<open>outcome\<close> is \<open>None\<close> until the \<open>ready\<close> channel is closed; closing it and storing value and error
  happen in one critical section. \<open>expires_at = 0\<close> is Go's zero time.
\<close>

record 'v idem_entry =
  outcome :: "(go_error + 'v) option"
  fingerprint :: string
  expires_at :: gotime

record 'v registry =
  ttl :: duration
  entries :: "(scope \<times> nat) list"
  heap :: "nat \<rightharpoonup> 'v idem_entry"
  next_entry :: nat
  next_purge :: gotime

datatype decision = Conflict | Wait nat | Lead nat

definition new_registry :: "gotime \<Rightarrow> duration \<Rightarrow> string + 'v registry" where
  "new_registry now d =
     (if d \<le> 0 then Inl ''reliability: idempotency TTL must be positive''
      else Inr \<lparr>ttl = d, entries = [], heap = Map.empty, next_entry = 0,
                next_purge = time_add now (min d minute)\<rparr>)"

definition entry_expired :: "gotime \<Rightarrow> 'v idem_entry \<Rightarrow> bool" where
  "entry_expired now e \<longleftrightarrow> \<not> time_is_zero (expires_at e) \<and> \<not> now < expires_at e"

definition expired_at :: "'v registry \<Rightarrow> gotime \<Rightarrow> scope \<times> nat \<Rightarrow> bool" where
  "expired_at r now sp \<longleftrightarrow> (case heap r (snd sp) of None \<Rightarrow> False | Some e \<Rightarrow> entry_expired now e)"

definition purge_expired_locked :: "gotime \<Rightarrow> bool \<Rightarrow> 'v registry \<Rightarrow> nat \<times> 'v registry" where
  "purge_expired_locked now force r =
     (if \<not> force \<and> now < next_purge r then (0, r)
      else (length (filter (expired_at r now) (entries r)),
            r\<lparr>entries := filter (\<lambda>sp. \<not> expired_at r now sp) (entries r),
              next_purge := time_add now (min (ttl r) minute)\<rparr>))"

definition purge_expired :: "gotime \<Rightarrow> 'v registry \<Rightarrow> nat \<times> 'v registry" where
  "purge_expired now r = purge_expired_locked now True r"

definition new_entry :: "scope \<Rightarrow> string \<Rightarrow> 'v registry \<Rightarrow> 'v registry" where
  "new_entry sc fp r =
     r\<lparr>heap := (heap r)(next_entry r \<mapsto> \<lparr>outcome = None, fingerprint = fp, expires_at = 0\<rparr>),
       entries := AList.update sc (next_entry r) (entries r), next_entry := Suc (next_entry r)\<rparr>"

definition do_enter :: "gotime \<Rightarrow> scope \<Rightarrow> string \<Rightarrow> 'v registry \<Rightarrow> decision \<times> 'v registry" where
  "do_enter now sc fp r0 =
     (let r = snd (purge_expired_locked now False r0)
      in case map_of (entries r) sc of
           Some p \<Rightarrow>
             (case heap r p of
                Some e \<Rightarrow>
                  if time_is_zero (expires_at e) \<or> now < expires_at e
                  then (if fingerprint e \<noteq> fp then (Conflict, r) else (Wait p, r))
                  else (Lead (next_entry r), new_entry sc fp (r\<lparr>entries := AList.delete sc (entries r)\<rparr>))
              | None \<Rightarrow> (Lead (next_entry r), new_entry sc fp r))
         | None \<Rightarrow> (Lead (next_entry r), new_entry sc fp r))"

definition do_finish :: "gotime \<Rightarrow> scope \<Rightarrow> nat \<Rightarrow> go_error + 'v \<Rightarrow> 'v registry \<Rightarrow> 'v registry" where
  "do_finish now sc p res r =
     (case heap r p of
        None \<Rightarrow> r
      | Some e \<Rightarrow>
          (case res of
             Inr v \<Rightarrow> r\<lparr>heap := (heap r)(p \<mapsto> e\<lparr>outcome := Some res, expires_at := time_add now (ttl r)\<rparr>)\<rparr>
           | Inl err \<Rightarrow> r\<lparr>heap := (heap r)(p \<mapsto> e\<lparr>outcome := Some res\<rparr>), entries := AList.delete sc (entries r)\<rparr>))"

text \<open>What a waiter sees: the result if the channel is closed; otherwise it keeps waiting.\<close>

definition wait_result :: "'v registry \<Rightarrow> nat \<Rightarrow> (go_error + 'v) option" where
  "wait_result r p = (case heap r p of None \<Rightarrow> None | Some e \<Rightarrow> outcome e)"

text \<open>
  \<open>DoWithFingerprint\<close> for a caller that is alone: result, replay flag, registry and environment.
  \<open>None\<close> stands for waiting on an entry that nobody completes with a context that never ends;
  \<open>ctx_end s\<close> is the error the context ends with, if it ever does.
\<close>

definition do_with_fingerprint ::
  "('s \<Rightarrow> gotime) \<Rightarrow> ('s \<Rightarrow> (go_error \<times> 's) option) \<Rightarrow> scope \<Rightarrow> string \<Rightarrow> ('s \<Rightarrow> (go_error + 'v) \<times> 's) \<Rightarrow>
   'v registry \<Rightarrow> 's \<Rightarrow> ((go_error + 'v) \<times> bool \<times> 'v registry \<times> 's) option" where
  "do_with_fingerprint clk ctx_end sc fp operation r s =
     (case do_enter (clk s) sc fp r of
        (Conflict, r') \<Rightarrow> Some (Inl ErrIdempotencyConflict, False, r', s)
      | (Wait p, r') \<Rightarrow>
          (case wait_result r' p of
             Some res \<Rightarrow> Some (res, True, r', s)
           | None \<Rightarrow> (case ctx_end s of None \<Rightarrow> None | Some (e, s') \<Rightarrow> Some (Inl e, True, r', s')))
      | (Lead p, r') \<Rightarrow>
          (case operation s of
             (res, s') \<Rightarrow> Some (res, False, do_finish (clk s') sc p res r', s')))"

text \<open>The entry points without a fingerprint: \<open>DoWithStatus\<close> binds the key to the empty one.\<close>

definition do_with_status ::
  "('s \<Rightarrow> gotime) \<Rightarrow> ('s \<Rightarrow> (go_error \<times> 's) option) \<Rightarrow> scope \<Rightarrow> ('s \<Rightarrow> (go_error + 'v) \<times> 's) \<Rightarrow>
   'v registry \<Rightarrow> 's \<Rightarrow> ((go_error + 'v) \<times> bool \<times> 'v registry \<times> 's) option" where
  "do_with_status clk ctx_end sc operation r s = do_with_fingerprint clk ctx_end sc [] operation r s"

definition do_once ::
  "('s \<Rightarrow> gotime) \<Rightarrow> ('s \<Rightarrow> (go_error \<times> 's) option) \<Rightarrow> scope \<Rightarrow> ('s \<Rightarrow> (go_error + 'v) \<times> 's) \<Rightarrow>
   'v registry \<Rightarrow> 's \<Rightarrow> ((go_error + 'v) \<times> 'v registry \<times> 's) option" where
  "do_once clk ctx_end sc operation r s =
     map_option (\<lambda>(res, replayed, r', s'). (res, r', s')) (do_with_status clk ctx_end sc operation r s)"

section \<open>Well-formed registries\<close>

text \<open>
  Every mapped address holds an entry, no address serves two scopes, an entry without a result
  has no expiry, and a mapped entry with a result holds a success with a positive expiry.
\<close>

definition registry_ok :: "'v registry \<Rightarrow> bool" where
  "registry_ok r \<longleftrightarrow> 0 < ttl r \<and> distinct_keys (entries r) \<and> distinct (map snd (entries r)) \<and>
     (\<forall>p. p \<in> dom (heap r) \<longleftrightarrow> p < next_entry r) \<and>
     (\<forall>(sc, p) \<in> set (entries r). \<exists>e. heap r p = Some e \<and>
        (case outcome e of None \<Rightarrow> expires_at e = 0 | Some res \<Rightarrow> \<not> isl res \<and> 0 < expires_at e))"

lemma registry_okD:
  assumes "registry_ok r"
  shows "0 < ttl r" "distinct_keys (entries r)" "distinct (map snd (entries r))"
    "p \<in> dom (heap r) \<longleftrightarrow> p < next_entry r"
  using assms by (auto simp: registry_ok_def)

lemma registry_ok_entry:
  assumes "registry_ok r" and "map_of (entries r) sc = Some p"
  obtains e where "heap r p = Some e" "p < next_entry r"
    "case outcome e of None \<Rightarrow> expires_at e = 0 | Some res \<Rightarrow> \<not> isl res \<and> 0 < expires_at e"
proof -
  from assms(2) have "(sc, p) \<in> set (entries r)" by (rule map_of_SomeD)
  with assms(1) obtain e where e: "heap r p = Some e"
    "case outcome e of None \<Rightarrow> expires_at e = 0 | Some res \<Rightarrow> \<not> isl res \<and> 0 < expires_at e"
    by (fastforce simp: registry_ok_def)
  moreover from e(1) have "p < next_entry r"
    using registry_okD(4) [OF assms(1), of p] by auto
  ultimately show thesis using that by blast
qed

lemma new_registry_ok: "new_registry now d = Inr r \<Longrightarrow> registry_ok r"
  by (auto simp: new_registry_def registry_ok_def split: if_splits)

lemma distinct_map_filter': "distinct (map f xs) \<Longrightarrow> distinct (map f (filter P xs))"
  by (rule distinct_map_filter)

lemma registry_ok_purge: "registry_ok r \<Longrightarrow> registry_ok (snd (purge_expired_locked now f r))"
  by (auto simp: purge_expired_locked_def registry_ok_def distinct_map_filter')

lemma registry_ok_delete: "registry_ok r \<Longrightarrow> registry_ok (r\<lparr>entries := AList.delete sc (entries r)\<rparr>)"
  by (auto simp: registry_ok_def AList.delete_eq distinct_map_filter' distinct_keys_def)

lemma set_update_subset: "set (AList.update k v al) \<subseteq> insert (k, v) (set al)"
  by (induction al) auto

lemma map_snd_update_distinct:
  "distinct (map snd al) \<Longrightarrow> v \<notin> set (map snd al) \<Longrightarrow> distinct (map snd (AList.update k v al))"
proof (induction al)
  case (Cons x al)
  then show ?case using set_update_subset [of k v al] by (cases x) (auto 4 4)
qed simp

lemma registry_ok_new_entry:
  assumes "registry_ok r"
  shows "registry_ok (new_entry sc fp r)"
proof -
  have fresh: "next_entry r \<notin> set (map snd (entries r))"
    using assms registry_okD(4) [OF assms, of "next_entry r"] by (fastforce simp: registry_ok_def)
  have "\<exists>e. heap (new_entry sc fp r) p = Some e \<and>
        (case outcome e of None \<Rightarrow> expires_at e = 0 | Some res \<Rightarrow> \<not> isl res \<and> 0 < expires_at e)"
    if "(sc', p) \<in> set (entries (new_entry sc fp r))" for sc' p
  proof (cases "p = next_entry r")
    case False
    with that have "(sc', p) \<in> set (entries r)"
      using set_update_subset [of sc "next_entry r" "entries r"] by (auto simp: new_entry_def)
    with assms False show ?thesis by (fastforce simp: registry_ok_def new_entry_def)
  qed (simp add: new_entry_def)
  moreover have "distinct (map snd (entries (new_entry sc fp r)))"
    using registry_okD(3) [OF assms] fresh by (simp add: new_entry_def map_snd_update_distinct)
  moreover have "p \<in> dom (heap (new_entry sc fp r)) \<longleftrightarrow> p < next_entry (new_entry sc fp r)" for p
    using registry_okD(4) [OF assms, of p] by (auto simp: new_entry_def)
  ultimately show ?thesis
    using registry_okD(1,2) [OF assms] by (fastforce simp: registry_ok_def new_entry_def)
qed

lemma registry_ok_enter: "registry_ok r \<Longrightarrow> registry_ok (snd (do_enter now sc fp r))"
  by (auto simp: do_enter_def Let_def split: option.splits
      intro!: registry_ok_new_entry registry_ok_delete registry_ok_purge)

lemma distinct_snd_unique:
  "distinct (map snd al) \<Longrightarrow> (a, p) \<in> set al \<Longrightarrow> (b, p) \<in> set al \<Longrightarrow> a = b"
  using inj_onD [of snd "set al" "(a, p)" "(b, p)"] by (simp add: distinct_map)

lemma registry_ok_unmapped_update:
  assumes "registry_ok r" and "heap r p = Some e0" and "p \<notin> snd ` set (entries r)"
  shows "registry_ok (r\<lparr>heap := (heap r)(p \<mapsto> e)\<rparr>)"
proof -
  have "q \<noteq> p" if "(sc, q) \<in> set (entries r)" for sc q
    using that assms(3) by force
  with assms(1,2) show ?thesis
    unfolding registry_ok_def by (auto simp: domIff split: if_splits)
qed

lemma registry_ok_finish:
  assumes ok: "registry_ok r" and sc: "map_of (entries r) sc = Some p" and now: "0 \<le> now"
  shows "registry_ok (do_finish now sc p res r)"
proof -
  obtain e where e: "heap r p = Some e" "p < next_entry r" using registry_ok_entry [OF ok sc] by blast
  show ?thesis
  proof (cases res)
    case (Inr v)
    then show ?thesis
      using ok e now by (fastforce simp: do_finish_def registry_ok_def go_time_simps)
  next
    case (Inl err)
    have "p \<notin> snd ` set (AList.delete sc (entries r))"
    proof
      assume "p \<in> snd ` set (AList.delete sc (entries r))"
      then obtain sc' where sc': "(sc', p) \<in> set (entries r)" "sc' \<noteq> sc"
        by (auto simp: AList.delete_eq)
      then show False
        using map_of_SomeD [OF sc] registry_okD(3) [OF ok] distinct_snd_unique by metis
    qed
    moreover have "registry_ok (r\<lparr>entries := AList.delete sc (entries r)\<rparr>)"
      using ok by (rule registry_ok_delete)
    ultimately have "registry_ok (r\<lparr>entries := AList.delete sc (entries r),
        heap := (heap r)(p \<mapsto> e\<lparr>outcome := Some res\<rparr>)\<rparr>)"
      using e registry_ok_unmapped_update [of "r\<lparr>entries := AList.delete sc (entries r)\<rparr>" p e]
      by simp
    then show ?thesis using Inl e by (cases r) (simp add: do_finish_def)
  qed
qed

section \<open>What a scope looks like at a time\<close>

text \<open>
  The abstract state of one scope: nothing, an operation in flight, or a cached success. This is
  the contract of the registry; addresses tell which run of the operation it is.
\<close>

datatype 'v slot = Vacant | Running nat string | Done nat string 'v

definition slot_view :: "'v registry \<Rightarrow> gotime \<Rightarrow> scope \<Rightarrow> 'v slot" where
  "slot_view r now sc =
     (case map_of (entries r) sc of
        None \<Rightarrow> Vacant
      | Some p \<Rightarrow>
          (case heap r p of
             None \<Rightarrow> Vacant
           | Some e \<Rightarrow>
               if entry_expired now e then Vacant
               else (case outcome e of
                       None \<Rightarrow> Running p (fingerprint e)
                     | Some (Inr v) \<Rightarrow> Done p (fingerprint e) v
                     | Some (Inl _) \<Rightarrow> Vacant)))"

fun slot_decision :: "nat \<Rightarrow> string \<Rightarrow> 'v slot \<Rightarrow> decision" where
  "slot_decision fresh fp Vacant = Lead fresh"
| "slot_decision fresh fp (Running p f) = (if f \<noteq> fp then Conflict else Wait p)"
| "slot_decision fresh fp (Done p f v) = (if f \<noteq> fp then Conflict else Wait p)"

lemma slot_view_purge:
  assumes "registry_ok r" and "now \<le> now'"
  shows "slot_view (snd (purge_expired_locked now f r)) now' sc = slot_view r now' sc"
proof -
  let ?r = "snd (purge_expired_locked now f r)"
  have heap: "heap ?r = heap r" by (simp add: purge_expired_locked_def)
  have "map_of (entries ?r) sc = map_of (entries r) sc \<or>
        map_of (entries ?r) sc = None \<and>
        (\<exists>p e. map_of (entries r) sc = Some p \<and> heap r p = Some e \<and> entry_expired now e)"
    using registry_okD(2) [OF assms(1)]
    by (auto simp: purge_expired_locked_def map_of_filter_entry expired_at_def split: option.splits)
  then show ?thesis
  proof
    assume "map_of (entries ?r) sc = map_of (entries r) sc"
    then show ?thesis by (simp add: slot_view_def heap cong: option.case_cong)
  next
    assume "map_of (entries ?r) sc = None \<and>
        (\<exists>p e. map_of (entries r) sc = Some p \<and> heap r p = Some e \<and> entry_expired now e)"
    moreover have "entry_expired now e \<Longrightarrow> entry_expired now' e" for e :: "'a idem_entry"
      using assms(2) by (simp add: entry_expired_def)
    ultimately show ?thesis by (auto simp: slot_view_def)
  qed
qed

lemma entry_expired_iff:
  "entry_expired now e \<longleftrightarrow> \<not> (time_is_zero (expires_at e) \<or> now < expires_at e)"
  by (simp add: entry_expired_def)

lemma slot_view_new_entry:
  "slot_view (new_entry sc fp r) now sc' =
     (if sc' = sc then Running (next_entry r) fp
      else if map_of (entries r) sc' = Some (next_entry r) then slot_view (new_entry sc fp r) now sc'
      else slot_view r now sc')"
  by (auto simp: slot_view_def new_entry_def update_Some_unfold update_conv' entry_expired_def
      time_is_zero_def split: option.splits)

lemma slot_view_delete:
  "slot_view (r\<lparr>entries := AList.delete sc (entries r)\<rparr>) now sc' =
     (if sc' = sc then Vacant else slot_view r now sc')"
  by (simp add: slot_view_def delete_conv' cong: option.case_cong)

text \<open>\<open>do_enter\<close> decides by the view of the scope, and only a leader changes the view.\<close>

lemma enter_decision:
  assumes "registry_ok r"
  shows "fst (do_enter now sc fp r) = slot_decision (next_entry r) fp (slot_view r now sc)"
proof -
  let ?r = "snd (purge_expired_locked now False r)"
  have ok: "registry_ok ?r" using assms by (rule registry_ok_purge)
  have "slot_view ?r now sc = slot_view r now sc" using assms by (intro slot_view_purge) simp_all
  moreover have nxt: "next_entry ?r = next_entry r" by (simp add: purge_expired_locked_def)
  moreover have "fst (do_enter now sc fp r) = slot_decision (next_entry ?r) fp (slot_view ?r now sc)"
  proof (cases "map_of (entries ?r) sc")
    case None
    then show ?thesis by (simp add: do_enter_def Let_def slot_view_def)
  next
    case (Some p)
    then obtain e where e: "heap ?r p = Some e"
      "case outcome e of None \<Rightarrow> expires_at e = 0 | Some res \<Rightarrow> \<not> isl res \<and> 0 < expires_at e"
      using registry_ok_entry [OF ok] by blast
    with Some show ?thesis
      by (auto simp: do_enter_def Let_def slot_view_def entry_expired_iff isl_def
          split: option.splits sum.splits)
  qed
  ultimately show ?thesis by simp
qed

lemma fresh_not_mapped: "registry_ok r \<Longrightarrow> map_of (entries r) sc \<noteq> Some (next_entry r)"
  using registry_ok_entry by blast

lemma enter_view:
  assumes "registry_ok r" and "now \<le> now'"
  shows "slot_view (snd (do_enter now sc fp r)) now' sc' =
    (if sc' = sc \<and> fst (do_enter now sc fp r) = Lead (next_entry r) then Running (next_entry r) fp
     else slot_view r now' sc')"
proof -
  let ?r = "snd (purge_expired_locked now False r)"
  let ?d = "?r\<lparr>entries := AList.delete sc (entries ?r)\<rparr>"
  have ok: "registry_ok ?r" "registry_ok ?d"
    using assms(1) by (simp_all add: registry_ok_purge registry_ok_delete)
  have purge: "slot_view ?r now' sc' = slot_view r now' sc'" for sc'
    using assms by (intro slot_view_purge)
  have nxt: "next_entry ?r = next_entry r" by (simp add: purge_expired_locked_def)
  have "do_enter now sc fp r \<in>
      {(Lead (next_entry r), new_entry sc fp ?r), (Lead (next_entry r), new_entry sc fp ?d)} \<or>
    (\<exists>p. do_enter now sc fp r \<in> {(Conflict, ?r), (Wait p, ?r)})"
    by (auto simp: do_enter_def Let_def nxt split: option.splits)
  then show ?thesis
    using fresh_not_mapped [OF ok(1), of sc'] fresh_not_mapped [OF ok(2), of sc']
    by (auto simp: slot_view_new_entry slot_view_delete purge nxt)
qed

lemma enter_next_entry:
  "next_entry (snd (do_enter now sc fp r)) =
     (if fst (do_enter now sc fp r) = Lead (next_entry r) then Suc (next_entry r) else next_entry r)"
  by (auto simp: do_enter_def Let_def purge_expired_locked_def new_entry_def split: option.splits)

lemma enter_ttl [simp]: "ttl (snd (do_enter now sc fp r)) = ttl r"
  by (auto simp: do_enter_def Let_def purge_expired_locked_def new_entry_def split: option.splits)

lemma finish_config [simp]:
  "ttl (do_finish now sc p res r) = ttl r" "next_entry (do_finish now sc p res r) = next_entry r"
  by (auto simp: do_finish_def split: option.splits sum.splits)

lemma slot_view_mapped:
  assumes "slot_view r now sc \<noteq> Vacant"
  obtains p e where "map_of (entries r) sc = Some p" "heap r p = Some e"
  using assms by (auto simp: slot_view_def split: option.splits)

lemma slot_view_Running:
  "slot_view r now sc = Running p f \<Longrightarrow>
     map_of (entries r) sc = Some p \<and> (\<exists>e. heap r p = Some e \<and> outcome e = None \<and> fingerprint e = f)"
  by (auto simp: slot_view_def split: option.splits if_splits sum.splits)

lemma slot_view_Done:
  "slot_view r now sc = Done p f v \<Longrightarrow>
     map_of (entries r) sc = Some p \<and>
     (\<exists>e. heap r p = Some e \<and> outcome e = Some (Inr v) \<and> fingerprint e = f \<and> \<not> entry_expired now e)"
  by (auto simp: slot_view_def split: option.splits if_splits sum.splits)

lemma other_scope_address:
  assumes "registry_ok r" and "map_of (entries r) sc = Some p" and "sc' \<noteq> sc"
  shows "map_of (entries r) sc' \<noteq> Some p"
proof
  assume "map_of (entries r) sc' = Some p"
  then have "(sc', p) \<in> set (entries r)" "(sc, p) \<in> set (entries r)"
    using assms(2) by (simp_all add: map_of_SomeD)
  with registry_okD(3) [OF assms(1)] assms(3) show False
    using distinct_snd_unique by metis
qed

lemma finish_view:
  assumes ok: "registry_ok r" and run: "slot_view r t sc = Running p f" and now: "0 \<le> now"
  shows "slot_view (do_finish now sc p res r) now' sc' =
    (if sc' \<noteq> sc then slot_view r now' sc'
     else (case res of
             Inl e \<Rightarrow> Vacant
           | Inr v \<Rightarrow> if now' < now + ttl r then Done p f v else Vacant))"
proof -
  from slot_view_Running [OF run] obtain e where
    e: "map_of (entries r) sc = Some p" "heap r p = Some e" "fingerprint e = f" by blast
  have pos: "now + ttl r \<noteq> 0" using now registry_okD(1) [OF ok] by simp
  show ?thesis
  proof (cases "sc' = sc")
    case True
    then show ?thesis
      using e pos
      by (cases res) (auto simp: slot_view_def do_finish_def delete_conv' entry_expired_def go_time_simps)
  next
    case False
    then have "map_of (entries r) sc' \<noteq> Some p"
      using other_scope_address [OF ok e(1)] by simp
    with False e show ?thesis
      by (cases res; cases "map_of (entries r) sc'")
        (auto simp: slot_view_def do_finish_def delete_conv' cong: option.case_cong)
  qed
qed

section \<open>The interface of the registry\<close>

text \<open>
  What the service relies on: the decision depends only on the scope's slot, a leader's scope is
  running until the leader finishes, success is kept for the TTL, failure frees the scope, and no
  call touches another scope.
\<close>

locale once_registry =
  fixes enter :: "gotime \<Rightarrow> 'k \<Rightarrow> string \<Rightarrow> 'r \<Rightarrow> decision \<times> 'r"
    and finish :: "gotime \<Rightarrow> 'k \<Rightarrow> nat \<Rightarrow> go_error + 'v \<Rightarrow> 'r \<Rightarrow> 'r"
    and slot :: "'r \<Rightarrow> gotime \<Rightarrow> 'k \<Rightarrow> 'v slot"
    and retention :: "'r \<Rightarrow> duration"
    and fresh :: "'r \<Rightarrow> nat"
    and sound :: "'r \<Rightarrow> bool"
  assumes sound_enter: "sound r \<Longrightarrow> sound (snd (enter t k f r))"
    and sound_finish: "sound r \<Longrightarrow> slot r t k = Running p f \<Longrightarrow> 0 \<le> t' \<Longrightarrow> sound (finish t' k p res r)"
    and enter_decides: "sound r \<Longrightarrow> fst (enter t k f r) = slot_decision (fresh r) f (slot r t k)"
    and enter_slot: "sound r \<Longrightarrow> t \<le> t' \<Longrightarrow> slot (snd (enter t k f r)) t' k' =
          (if k' = k \<and> fst (enter t k f r) = Lead (fresh r) then Running (fresh r) f else slot r t' k')"
    and finish_slot: "sound r \<Longrightarrow> slot r t k = Running p f \<Longrightarrow> 0 \<le> t' \<Longrightarrow>
          slot (finish t' k p res r) t'' k' =
            (if k' \<noteq> k then slot r t'' k'
             else (case res of Inl e \<Rightarrow> Vacant | Inr v \<Rightarrow> if t'' < t' + retention r then Done p f v else Vacant))"
    and retention_enter: "retention (snd (enter t k f r)) = retention r"
    and retention_pos: "sound r \<Longrightarrow> 0 < retention r"
    and retention_finish: "retention (finish t k p res r) = retention r"
begin

text \<open>A leader that succeeds: its scope answers with the value until the retention has passed.\<close>

lemma lead_then_replay:
  assumes "sound r" and "slot r t k = Vacant" and "0 \<le> t'" and "t'' < t' + retention r"
    and "r1 = snd (enter t k f r)" and "r2 = finish t' k (fresh r) (Inr v) r1"
  shows "slot r2 t'' k = Done (fresh r) f v"
    and "fst (enter t'' k g r2) = (if f \<noteq> g then Conflict else Wait (fresh r))"
proof -
  have lead: "fst (enter t k f r) = Lead (fresh r)" using assms(1,2) by (simp add: enter_decides)
  have r1: "sound r1" "slot r1 t k = Running (fresh r) f" "retention r1 = retention r"
    using assms(1,5) lead by (simp_all add: sound_enter enter_slot retention_enter)
  then show cached: "slot r2 t'' k = Done (fresh r) f v"
    using assms(3,4,6) by (simp add: finish_slot)
  have "sound r2" using r1 assms(3,6) by (simp add: sound_finish)
  then show "fst (enter t'' k g r2) = (if f \<noteq> g then Conflict else Wait (fresh r))"
    by (simp add: enter_decides cached)
qed

text \<open>A leader that fails frees its scope: the next caller leads, whatever its fingerprint.\<close>

lemma failure_frees:
  assumes "sound r" and "slot r t k = Vacant" and "0 \<le> t'"
    and "r1 = snd (enter t k f r)" and "r2 = finish t' k (fresh r) (Inl e) r1"
  shows "fst (enter t'' k g r2) = Lead (fresh r2)"
proof -
  have lead: "fst (enter t k f r) = Lead (fresh r)" using assms(1,2) by (simp add: enter_decides)
  then have r1: "sound r1" "slot r1 t k = Running (fresh r) f"
    using assms(1,4) by (simp_all add: sound_enter enter_slot)
  then have "slot r2 t'' k = Vacant" "sound r2"
    using assms(3,5) by (simp_all add: finish_slot sound_finish)
  then show ?thesis by (simp add: enter_decides)
qed

text \<open>A second caller for a scope in flight never leads.\<close>

lemma running_coalesces:
  assumes "sound r" and "slot r t k = Running p f"
  shows "fst (enter t k g r) = (if f \<noteq> g then Conflict else Wait p)"
  using assms by (simp add: enter_decides)

end

interpretation ireg: once_registry do_enter do_finish slot_view ttl next_entry registry_ok
proof
  show "registry_ok (do_finish t' k p res r)"
    if "registry_ok r" "slot_view r t k = Running p f" "0 \<le> t'" for r :: "'b registry" and t k p f t' res
    using that slot_view_Running [OF that(2)] by (intro registry_ok_finish) simp_all
qed (simp_all add: registry_ok_enter enter_decision enter_view finish_view registry_okD(1))

section \<open>What each operation does to the map and the store\<close>

definition expired_mapping :: "gotime \<Rightarrow> 'v registry \<Rightarrow> scope \<Rightarrow> bool" where
  "expired_mapping now r sc \<longleftrightarrow>
     (\<exists>p e. map_of (entries r) sc = Some p \<and> heap r p = Some e \<and> entry_expired now e)"

lemma purge_map_of:
  assumes "registry_ok r"
  shows "map_of (entries (snd (purge_expired_locked now f r))) sc = map_of (entries r) sc \<or>
    map_of (entries (snd (purge_expired_locked now f r))) sc = None \<and> expired_mapping now r sc"
  using registry_okD(2) [OF assms]
  by (auto simp: purge_expired_locked_def map_of_filter_entry expired_at_def expired_mapping_def
      split: option.splits)

lemma purge_heap [simp]:
  "heap (snd (purge_expired_locked now f r)) = heap r"
  "next_entry (snd (purge_expired_locked now f r)) = next_entry r"
  "ttl (snd (purge_expired_locked now f r)) = ttl r"
  by (simp_all add: purge_expired_locked_def)

lemma enter_lead_shape:
  assumes "registry_ok r" and "do_enter now sc fp r = (Lead p, r')"
  shows "p = next_entry r"
    and "heap r' = (heap r)(p \<mapsto> \<lparr>outcome = None, fingerprint = fp, expires_at = 0\<rparr>)"
    and "map_of (entries r') sc = Some p"
    and "map_of (entries r) sc = None \<or> expired_mapping now r sc"
    and "sc' \<noteq> sc \<Longrightarrow> map_of (entries r') sc' = map_of (entries r) sc' \<or>
      map_of (entries r') sc' = None \<and> expired_mapping now r sc'"
proof -
  let ?r = "snd (purge_expired_locked now False r)"
  have ok: "registry_ok ?r" using assms(1) by (rule registry_ok_purge)
  from assms(2) have shape: "p = next_entry r \<and>
      (r' = new_entry sc fp ?r \<or> r' = new_entry sc fp (?r\<lparr>entries := AList.delete sc (entries ?r)\<rparr>))"
    by (auto simp: do_enter_def Let_def split: option.splits if_splits)
  then show "p = next_entry r"
    and "heap r' = (heap r)(p \<mapsto> \<lparr>outcome = None, fingerprint = fp, expires_at = 0\<rparr>)"
    and "map_of (entries r') sc = Some p"
    by (auto simp: new_entry_def update_conv')
  have "slot_view r now sc = Vacant"
    using assms enter_decision [OF assms(1), of now sc fp]
    by (cases "slot_view r now sc") (auto split: if_splits)
  then show "map_of (entries r) sc = None \<or> expired_mapping now r sc"
    using registry_ok_entry [OF assms(1), of sc]
    by (fastforce simp: slot_view_def expired_mapping_def split: option.splits if_splits sum.splits)
  show "map_of (entries r') sc' = map_of (entries r) sc' \<or>
      map_of (entries r') sc' = None \<and> expired_mapping now r sc'" if "sc' \<noteq> sc"
    using that shape purge_map_of [OF assms(1), of now False sc']
    by (auto simp: new_entry_def update_conv' delete_conv')
qed

lemma enter_other_shape:
  assumes "do_enter now sc fp r = (d, r')" and "\<And>p. d \<noteq> Lead p"
  shows "r' = snd (purge_expired_locked now False r)"
  using assms by (auto simp: do_enter_def Let_def split: option.splits if_splits)

lemma enter_wait_shape:
  assumes "do_enter now sc fp r = (Wait p, r')"
  shows "map_of (entries r') sc = Some p"
    and "\<exists>e. heap r' p = Some e \<and> fingerprint e = fp \<and> \<not> entry_expired now e"
  using assms by (auto simp: do_enter_def Let_def entry_expired_iff split: option.splits if_splits)

section \<open>Concurrent callers\<close>

text \<open>
  \<open>leaders\<close> are the callers between their two critical sections, \<open>waiters\<close> those blocked on an
  entry; \<open>seen_clock\<close> is the largest clock reading so far. \<open>finished\<close> and \<open>replayed\<close> record
  completed runs and the results handed to waiters.
\<close>

record 'v idem_system =
  reg :: "'v registry"
  leaders :: "(nat \<times> scope \<times> string) list"
  waiters :: "(nat \<times> scope \<times> string) list"
  seen_clock :: gotime
  finished :: "(scope \<times> nat \<times> string \<times> (go_error + 'v) \<times> gotime) list"
  replayed :: "(scope \<times> nat \<times> string \<times> (go_error + 'v)) list"

inductive idem_step :: "'v idem_system \<Rightarrow> 'v idem_system \<Rightarrow> bool" where
  lead: "0 \<le> now \<Longrightarrow> do_enter now sc fp (reg s) = (Lead p, r) \<Longrightarrow>
    idem_step s (s\<lparr>reg := r, leaders := (p, sc, fp) # leaders s, seen_clock := max now (seen_clock s)\<rparr>)"
| wait: "0 \<le> now \<Longrightarrow> do_enter now sc fp (reg s) = (Wait p, r) \<Longrightarrow>
    idem_step s (s\<lparr>reg := r, waiters := (p, sc, fp) # waiters s, seen_clock := max now (seen_clock s)\<rparr>)"
| conflict: "0 \<le> now \<Longrightarrow> do_enter now sc fp (reg s) = (Conflict, r) \<Longrightarrow>
    idem_step s (s\<lparr>reg := r, seen_clock := max now (seen_clock s)\<rparr>)"
| finish: "0 \<le> now \<Longrightarrow> leaders s = xs @ (p, sc, fp) # ys \<Longrightarrow>
    idem_step s (s\<lparr>reg := do_finish now sc p res (reg s), leaders := xs @ ys,
      seen_clock := max now (seen_clock s), finished := (sc, p, fp, res, now) # finished s\<rparr>)"
| wake: "waiters s = xs @ (p, sc, fp) # ys \<Longrightarrow> wait_result (reg s) p = Some res \<Longrightarrow>
    idem_step s (s\<lparr>waiters := xs @ ys, replayed := (sc, p, fp, res) # replayed s\<rparr>)"
| abandon: "waiters s = xs @ (p, sc, fp) # ys \<Longrightarrow> idem_step s (s\<lparr>waiters := xs @ ys\<rparr>)"
| purge: "0 \<le> now \<Longrightarrow>
    idem_step s (s\<lparr>reg := snd (purge_expired now (reg s)), seen_clock := max now (seen_clock s)\<rparr>)"

inductive idem_reach :: "'v idem_system \<Rightarrow> bool" where
  start: "new_registry now d = Inr r \<Longrightarrow> 0 \<le> now \<Longrightarrow>
    idem_reach \<lparr>reg = r, leaders = [], waiters = [], seen_clock = now, finished = [], replayed = []\<rparr>"
| step: "idem_reach s \<Longrightarrow> idem_step s s' \<Longrightarrow> idem_reach s'"

text \<open>
  The invariant: a leader owns the entry its scope is mapped to; every mapped entry without a
  result has a leader; a waiter's entry belongs to a leader or a finished run with the waiter's
  scope and fingerprint; a finished run's result stays in its entry, and a success stays mapped
  until some caller has read a clock past its expiry.
\<close>

definition leaders_ok :: "'v idem_system \<Rightarrow> bool" where
  "leaders_ok s \<longleftrightarrow> distinct (map fst (leaders s)) \<and>
     (\<forall>(p, sc, fp) \<in> set (leaders s). map_of (entries (reg s)) sc = Some p \<and>
        heap (reg s) p = Some \<lparr>outcome = None, fingerprint = fp, expires_at = 0\<rparr>)"

definition waiters_ok :: "'v idem_system \<Rightarrow> bool" where
  "waiters_ok s \<longleftrightarrow> (\<forall>(p, sc, fp) \<in> set (waiters s).
     (p, sc, fp) \<in> set (leaders s) \<or> (\<exists>res t. (sc, p, fp, res, t) \<in> set (finished s)))"

definition pending_ok :: "'v idem_system \<Rightarrow> bool" where
  "pending_ok s \<longleftrightarrow> (\<forall>sc p e. map_of (entries (reg s)) sc = Some p \<longrightarrow> heap (reg s) p = Some e \<longrightarrow>
     (p, sc, fingerprint e) \<in> set (leaders s) \<or>
     (\<exists>res t. (sc, p, fingerprint e, res, t) \<in> set (finished s)))"

definition finished_ok :: "'v idem_system \<Rightarrow> bool" where
  "finished_ok s \<longleftrightarrow> (\<forall>(sc, p, fp, res, t) \<in> set (finished s).
     \<exists>e. heap (reg s) p = Some e \<and> outcome e = Some res \<and> fingerprint e = fp \<and>
       (isl res \<or> expires_at e = t + ttl (reg s) \<and>
          (map_of (entries (reg s)) sc = Some p \<or> t + ttl (reg s) \<le> seen_clock s)))"

definition replayed_ok :: "'v idem_system \<Rightarrow> bool" where
  "replayed_ok s \<longleftrightarrow> (\<forall>(sc, p, fp, res) \<in> set (replayed s). \<exists>t. (sc, p, fp, res, t) \<in> set (finished s))"

definition idem_inv :: "'v idem_system \<Rightarrow> bool" where
  "idem_inv s \<longleftrightarrow> registry_ok (reg s) \<and> leaders_ok s \<and> waiters_ok s \<and> pending_ok s \<and>
     finished_ok s \<and> replayed_ok s"

lemmas idem_inv_defs = idem_inv_def leaders_ok_def waiters_ok_def pending_ok_def finished_ok_def replayed_ok_def

lemma leader_mapped:
  assumes "leaders_ok s" and "(p, sc, fp) \<in> set (leaders s)"
  shows "map_of (entries (reg s)) sc = Some p"
    and "heap (reg s) p = Some \<lparr>outcome = None, fingerprint = fp, expires_at = 0\<rparr>"
    and "\<not> expired_mapping now (reg s) sc"
  using assms by (auto simp: leaders_ok_def expired_mapping_def entry_expired_def time_is_zero_def)

text \<open>The parts that do not look at the waiters or at what was replayed.\<close>

lemma idem_frame:
  assumes "idem_inv s" and "reg s' = reg s" "leaders s' = leaders s" "finished s' = finished s"
    "seen_clock s' = seen_clock s" and "waiters_ok s'" "replayed_ok s'"
  shows "idem_inv s'"
  using assms by (simp add: idem_inv_def leaders_ok_def pending_ok_def finished_ok_def)

lemma leader_unique: "leaders_ok s \<Longrightarrow> (p, x) \<in> set (leaders s) \<Longrightarrow> (p, y) \<in> set (leaders s) \<Longrightarrow> x = y"
  by (rule eq_key_imp_eq_value [of "leaders s" p]) (simp_all add: leaders_ok_def)

lemma pendingD:
  "pending_ok s \<Longrightarrow> map_of (entries (reg s)) sc = Some p \<Longrightarrow> heap (reg s) p = Some e \<Longrightarrow>
     (p, sc, fingerprint e) \<in> set (leaders s) \<or>
     (\<exists>res t. (sc, p, fingerprint e, res, t) \<in> set (finished s))"
  unfolding pending_ok_def by blast

lemma finishedE:
  assumes "finished_ok s" and "(sc, p, fp, res, t) \<in> set (finished s)"
  obtains e where "heap (reg s) p = Some e" "outcome e = Some res" "fingerprint e = fp"
    "isl res \<or> expires_at e = t + ttl (reg s) \<and>
       (map_of (entries (reg s)) sc = Some p \<or> t + ttl (reg s) \<le> seen_clock s)"
  using assms unfolding finished_ok_def by fast

text \<open>Forgetting expired entries keeps the invariant; the clock reading is remembered.\<close>

lemma idem_inv_forget:
  assumes inv: "idem_inv s" and ok: "registry_ok r" and heap: "heap r = heap (reg s)" and ttl: "ttl r = ttl (reg s)"
    and keeps: "\<And>sc. map_of (entries r) sc = map_of (entries (reg s)) sc \<or>
      map_of (entries r) sc = None \<and> expired_mapping now (reg s) sc"
  shows "idem_inv (s\<lparr>reg := r, seen_clock := max now (seen_clock s)\<rparr>)" (is "idem_inv ?s")
proof -
  have "leaders_ok ?s"
  proof -
    have "map_of (entries r) sc = Some p" if "(p, sc, fp) \<in> set (leaders s)" for p sc fp
      using inv that keeps [of sc] leader_mapped(1,3) [of s p sc fp] unfolding idem_inv_def by metis
    then show ?thesis using inv by (fastforce simp: idem_inv_def leaders_ok_def heap)
  qed
  moreover have "pending_ok ?s"
    using inv keeps unfolding idem_inv_def pending_ok_def heap by (simp add: heap) (metis option.distinct(1))
  moreover have "finished_ok ?s"
  proof -
    have "\<exists>e. heap r p = Some e \<and> outcome e = Some res \<and> fingerprint e = fp \<and>
       (isl res \<or> expires_at e = t + ttl r \<and>
          (map_of (entries r) sc = Some p \<or> t + ttl r \<le> max now (seen_clock s)))"
      if "(sc, p, fp, res, t) \<in> set (finished s)" for sc p fp res t
    proof -
      from inv that obtain e where e: "heap (reg s) p = Some e" "outcome e = Some res" "fingerprint e = fp"
        "isl res \<or> expires_at e = t + ttl (reg s) \<and>
          (map_of (entries (reg s)) sc = Some p \<or> t + ttl (reg s) \<le> seen_clock s)"
        unfolding idem_inv_def by (blast elim: finishedE)
      have "t + ttl r \<le> now" if "map_of (entries (reg s)) sc = Some p" "expired_mapping now (reg s) sc"
          "expires_at e = t + ttl (reg s)"
        using that e(1) by (auto simp: expired_mapping_def entry_expired_def ttl)
      then show ?thesis using e keeps [of sc] by (auto simp: heap ttl)
    qed
    then show ?thesis by (fastforce simp: finished_ok_def)
  qed
  ultimately show ?thesis
    using inv ok by (simp add: idem_inv_def waiters_ok_def replayed_ok_def)
qed

lemma idem_inv_purge:
  assumes "idem_inv s"
  shows "idem_inv (s\<lparr>reg := snd (purge_expired_locked now f (reg s)), seen_clock := max now (seen_clock s)\<rparr>)"
proof -
  have "registry_ok (reg s)" using assms by (simp add: idem_inv_def)
  then show ?thesis
    using assms purge_map_of [of "reg s" now f] by (intro idem_inv_forget) (simp_all add: registry_ok_purge)
qed

lemma idem_inv_wait:
  assumes inv: "idem_inv s" and enter: "do_enter now sc fp (reg s) = (Wait p, r)"
  shows "idem_inv (s\<lparr>reg := r, waiters := (p, sc, fp) # waiters s, seen_clock := max now (seen_clock s)\<rparr>)"
proof -
  have r: "r = snd (purge_expired_locked now False (reg s))"
    using enter by (rule enter_other_shape) simp
  let ?s = "s\<lparr>reg := r, seen_clock := max now (seen_clock s)\<rparr>"
  have inv': "idem_inv ?s" using idem_inv_purge [OF inv] by (simp add: r)
  have "(p, sc, fp) \<in> set (leaders s) \<or> (\<exists>res t. (sc, p, fp, res, t) \<in> set (finished s))"
    using enter_wait_shape [OF enter] pendingD [of ?s sc p] inv' by (auto simp: idem_inv_def)
  then show ?thesis using inv'
    by - (rule idem_frame [OF inv'], auto simp: idem_inv_def waiters_ok_def replayed_ok_def)
qed

lemma idem_inv_lead:
  assumes inv: "idem_inv s" and enter: "do_enter now sc fp (reg s) = (Lead p, r)"
  shows "idem_inv (s\<lparr>reg := r, leaders := (p, sc, fp) # leaders s, seen_clock := max now (seen_clock s)\<rparr>)"
    (is "idem_inv ?s")
proof -
  have ok: "registry_ok (reg s)" and lead: "leaders_ok s" using inv by (simp_all add: idem_inv_def)
  note sh = enter_lead_shape [OF ok enter]
  have fresh: "heap (reg s) p = None" using registry_okD(4) [OF ok, of p] sh(1) by auto
  have old: "heap r q = heap (reg s) q" if "heap (reg s) q \<noteq> None" for q
    using that fresh sh(2) by auto
  have ttl: "ttl r = ttl (reg s)" using enter_ttl [of now sc fp "reg s"] enter by simp
  have ok': "registry_ok r" using registry_ok_enter [OF ok, of now sc fp] enter by simp
  have notp: "q \<noteq> p" if "map_of (entries (reg s)) sc' = Some q" for sc' q
  proof -
    from registry_ok_entry [OF ok that] obtain e where "heap (reg s) q = Some e" .
    then show ?thesis using fresh by auto
  qed
  have other: "map_of (entries r) sc' = Some q"
    if "(q, sc', fq) \<in> set (leaders s)" for q sc' fq
  proof -
    note m = leader_mapped [OF lead that]
    have "sc' \<noteq> sc" using sh(4) m by auto
    then show ?thesis using sh(5) [of sc'] m by auto
  qed
  have "leaders_ok ?s"
    unfolding leaders_ok_def
  proof (intro conjI ballI)
    have "p \<notin> fst ` set (leaders s)" using leader_mapped(2) [OF lead] fresh by force
    then show "distinct (map fst (leaders ?s))" using lead by (simp add: leaders_ok_def)
    fix x assume "x \<in> set (leaders ?s)"
    then show "case x of (p, sc, fp) \<Rightarrow> map_of (entries (reg ?s)) sc = Some p \<and>
        heap (reg ?s) p = Some \<lparr>outcome = None, fingerprint = fp, expires_at = 0\<rparr>"
      using sh(2,3) other leader_mapped(2) [OF lead] old by (fastforce split: prod.splits)
  qed
  moreover have "pending_ok ?s"
    unfolding pending_ok_def
  proof (intro allI impI)
    fix sc' q e
    assume m: "map_of (entries (reg ?s)) sc' = Some q" and h: "heap (reg ?s) q = Some e"
    show "(q, sc', fingerprint e) \<in> set (leaders ?s) \<or> (\<exists>res t. (sc', q, fingerprint e, res, t) \<in> set (finished ?s))"
    proof (cases "sc' = sc")
      case True
      then show ?thesis using m h sh(2,3) by auto
    next
      case False
      then have m': "map_of (entries (reg s)) sc' = Some q" using m sh(5) [of sc'] by auto
      then have "heap (reg s) q = Some e" using h sh(2) notp [OF m'] by simp
      moreover from inv have "pending_ok s" by (simp add: idem_inv_def)
      ultimately have "(q, sc', fingerprint e) \<in> set (leaders s) \<or> (\<exists>res t. (sc', q, fingerprint e, res, t) \<in> set (finished s))"
        using m' pendingD by blast
      then show ?thesis by auto
    qed
  qed
  moreover have "finished_ok ?s"
  proof -
    have "\<exists>e. heap r q = Some e \<and> outcome e = Some res \<and> fingerprint e = fq \<and>
       (isl res \<or> expires_at e = t + ttl r \<and>
          (map_of (entries r) sc' = Some q \<or> t + ttl r \<le> max now (seen_clock s)))"
      if "(sc', q, fq, res, t) \<in> set (finished s)" for sc' q fq res t
    proof -
      from inv that obtain e where e: "heap (reg s) q = Some e" "outcome e = Some res" "fingerprint e = fq"
        "isl res \<or> expires_at e = t + ttl (reg s) \<and>
          (map_of (entries (reg s)) sc' = Some q \<or> t + ttl (reg s) \<le> seen_clock s)"
        unfolding idem_inv_def by (blast elim: finishedE)
      have exp: "t + ttl r \<le> now" if "map_of (entries (reg s)) sc' = Some q" "expired_mapping now (reg s) sc'"
          "expires_at e = t + ttl (reg s)"
        using that e(1) by (auto simp: expired_mapping_def entry_expired_def ttl)
      show ?thesis
        using e exp sh(4) sh(5) [of sc'] old [of q] by (cases "sc' = sc") (auto simp: ttl)
    qed
    then show ?thesis by (fastforce simp: finished_ok_def)
  qed
  ultimately show ?thesis
    using inv ok' by (auto simp: idem_inv_def waiters_ok_def replayed_ok_def)
qed

lemma finish_shape:
  assumes "heap r p = Some e"
  shows "heap (do_finish now sc p res r) = (heap r)(p \<mapsto>
      e\<lparr>outcome := Some res, expires_at := (if isl res then expires_at e else now + ttl r)\<rparr>)"
    and "map_of (entries (do_finish now sc p res r)) =
      (if isl res then (map_of (entries r))(sc := None) else map_of (entries r))"
  using assms by (cases res; simp add: do_finish_def time_add_def delete_conv')+

lemma idem_inv_finish:
  assumes inv: "idem_inv s" and now: "0 \<le> now" and split: "leaders s = xs @ (p, sc, fp) # ys"
  shows "idem_inv (s\<lparr>reg := do_finish now sc p res (reg s), leaders := xs @ ys,
      seen_clock := max now (seen_clock s), finished := (sc, p, fp, res, now) # finished s\<rparr>)"
    (is "idem_inv ?s")
proof -
  have ok: "registry_ok (reg s)" and lead: "leaders_ok s" and pend: "pending_ok s"
    using inv by (simp_all add: idem_inv_def)
  have mem: "(p, sc, fp) \<in> set (leaders s)" by (simp add: split)
  note m = leader_mapped [OF lead mem]
  note sh = finish_shape [OF m(2), of now sc res]
  have rest: "q \<noteq> p \<and> sc' \<noteq> sc" if "(q, sc', fq) \<in> set (xs @ ys)" for q sc' fq
  proof -
    have "q \<in> fst ` set (xs @ ys)" using that by (rule image_eqI [rotated]) simp
    moreover have "distinct (map fst (leaders s))" using lead by (simp add: leaders_ok_def)
    then have "p \<notin> fst ` set (xs @ ys)" unfolding split by auto
    ultimately have "q \<noteq> p" by blast
    moreover have "(q, sc', fq) \<in> set (leaders s)" using that split by auto
    ultimately show ?thesis using leader_mapped(1) [OF lead] m(1) by fastforce
  qed
  have same_scope: "sc' = sc" if "map_of (entries (reg s)) sc' = Some p" for sc'
    using other_scope_address [OF ok m(1)] that by blast
  have "registry_ok (reg ?s)" using registry_ok_finish [OF ok m(1) now] by simp
  moreover have "leaders_ok ?s"
    unfolding leaders_ok_def
  proof (intro conjI ballI)
    show "distinct (map fst (leaders ?s))" using lead by (simp add: leaders_ok_def split)
    fix x assume x: "x \<in> set (leaders ?s)"
    obtain q sc' fq where q: "x = (q, sc', fq)" by (cases x) auto
    then have "(q, sc', fq) \<in> set (leaders s)" using x split by auto
    from leader_mapped [OF lead this] show "case x of (p, sc, fp) \<Rightarrow> map_of (entries (reg ?s)) sc = Some p \<and>
        heap (reg ?s) p = Some \<lparr>outcome = None, fingerprint = fp, expires_at = 0\<rparr>"
      using rest [of q sc' fq] x by (simp add: q sh)
  qed
  moreover have "waiters_ok ?s"
    unfolding waiters_ok_def
  proof
    fix x assume "x \<in> set (waiters ?s)"
    moreover obtain q sc' fq where q: "x = (q, sc', fq)" by (cases x) auto
    ultimately have "(q, sc', fq) \<in> set (leaders s) \<or> (\<exists>res t. (sc', q, fq, res, t) \<in> set (finished s))"
      using inv by (fastforce simp: idem_inv_def waiters_ok_def)
    then show "case x of (p, sc, fp) \<Rightarrow>
        (p, sc, fp) \<in> set (leaders ?s) \<or> (\<exists>res t. (sc, p, fp, res, t) \<in> set (finished ?s))"
      by (auto simp: q split)
  qed
  moreover have "pending_ok ?s"
    unfolding pending_ok_def
  proof (intro allI impI)
    fix sc' q e assume a: "map_of (entries (reg ?s)) sc' = Some q" "heap (reg ?s) q = Some e"
    then have a': "map_of (entries (reg s)) sc' = Some q" by (auto simp: sh split: if_splits)
    show "(q, sc', fingerprint e) \<in> set (leaders ?s) \<or> (\<exists>res t. (sc', q, fingerprint e, res, t) \<in> set (finished ?s))"
    proof (cases "q = p")
      case True
      then have "sc' = sc" using a' same_scope [of sc'] by simp
      moreover have "fingerprint e = fp" using True a(2) by (auto simp: sh)
      ultimately have "(sc', q, fingerprint e, res, now) \<in> set (finished ?s)" using True by simp
      then show ?thesis by blast
    next
      case False
      then have "(q, sc', fingerprint e) \<in> set (leaders s) \<or> (\<exists>res t. (sc', q, fingerprint e, res, t) \<in> set (finished s))"
        using pendingD [OF pend a'] a by (simp add: sh)
      then show ?thesis using False by (auto simp: split)
    qed
  qed
  moreover have "finished_ok ?s"
    unfolding finished_ok_def
  proof
    fix x assume x: "x \<in> set (finished ?s)"
    obtain sc' q fq rq t where q: "x = (sc', q, fq, rq, t)" by (cases x) auto
    show "case x of (sc, p, fp, res, t) \<Rightarrow> \<exists>e. heap (reg ?s) p = Some e \<and> outcome e = Some res \<and>
        fingerprint e = fp \<and> (isl res \<or> expires_at e = t + ttl (reg ?s) \<and>
          (map_of (entries (reg ?s)) sc = Some p \<or> t + ttl (reg ?s) \<le> seen_clock ?s))"
    proof (cases "(sc', q, fq, rq, t) \<in> set (finished s)")
      case True
      from inv have "finished_ok s" by (simp add: idem_inv_def)
      from finishedE [OF this True] obtain e where e: "heap (reg s) q = Some e" "outcome e = Some rq"
        "fingerprint e = fq" "isl rq \<or> expires_at e = t + ttl (reg s) \<and>
          (map_of (entries (reg s)) sc' = Some q \<or> t + ttl (reg s) \<le> seen_clock s)" .
      then have "q \<noteq> p" using m(2) by auto
      with e m(1) show ?thesis by (auto simp: q sh)
    next
      case False
      then show ?thesis using x m(1) by (auto simp: q sh)
    qed
  qed
  moreover have "replayed_ok ?s"
    using inv unfolding idem_inv_def replayed_ok_def by fastforce
  ultimately show ?thesis by (simp add: idem_inv_def)
qed

lemma idem_inv_wake:
  assumes inv: "idem_inv s" and w: "waiters s = xs @ (p, sc, fp) # ys" and res: "wait_result (reg s) p = Some res"
  shows "idem_inv (s\<lparr>waiters := xs @ ys, replayed := (sc, p, fp, res) # replayed s\<rparr>)"
proof -
  obtain e where e: "heap (reg s) p = Some e" "outcome e = Some res"
    using res by (auto simp: wait_result_def split: option.splits)
  have lead: "leaders_ok s" and fin: "finished_ok s" using inv by (simp_all add: idem_inv_def)
  have "(p, sc, fp) \<notin> set (leaders s)" using leader_mapped(2) [OF lead] e by fastforce
  then obtain res' t where f: "(sc, p, fp, res', t) \<in> set (finished s)"
    using inv w unfolding idem_inv_def waiters_ok_def by fastforce
  with fin e have "res' = res" by (auto elim: finishedE)
  with f have "\<exists>t. (sc, p, fp, res, t) \<in> set (finished s)" by blast
  then show ?thesis using inv w
    by - (rule idem_frame [OF inv], auto simp: idem_inv_def waiters_ok_def replayed_ok_def)
qed

lemma idem_inv_step: "idem_step s s' \<Longrightarrow> idem_inv s \<Longrightarrow> idem_inv s'"
proof (induction rule: idem_step.induct)
  case (lead now sc fp s p r)
  then show ?case by (simp add: idem_inv_lead)
next
  case (wait now sc fp s p r)
  then show ?case by (simp add: idem_inv_wait)
next
  case (conflict now sc fp s r)
  then have "r = snd (purge_expired_locked now False (reg s))" by (auto intro: enter_other_shape)
  then show ?case using idem_inv_purge conflict by simp
next
  case (finish now s xs p sc fp ys res)
  then show ?case by (simp add: idem_inv_finish)
next
  case (wake s xs p sc fp ys res)
  then show ?case by (simp add: idem_inv_wake)
next
  case (abandon s xs p sc fp ys)
  then show ?case
    by - (rule idem_frame [of s], auto simp: idem_inv_def waiters_ok_def replayed_ok_def)
next
  case (purge now s)
  then show ?case by (simp add: purge_expired_def idem_inv_purge)
qed

lemma idem_inv_reach: "idem_reach s \<Longrightarrow> idem_inv s"
proof (induction rule: idem_reach.induct)
  case (start now d r)
  then show ?case
    using new_registry_ok [OF start(1)]
    by (auto simp: idem_inv_defs new_registry_def split: if_splits)
next
  case (step s s')
  then show ?case by (blast intro: idem_inv_step)
qed

section \<open>Properties of the concurrent registry\<close>

text \<open>
  C4. At most one caller per scope is inside the operation at any time: in every state that any
  interleaving of callers, waiters, finishes and purges can reach, the scopes of the running
  operations are pairwise different, so no operation runs twice at once for one key.
\<close>

lemma idem_single_flight:
  assumes "idem_reach s"
  shows "distinct (map (\<lambda>(p, sc, fp). sc) (leaders s))"
proof -
  have lead: "leaders_ok s" using idem_inv_reach [OF assms] by (simp add: idem_inv_def)
  have "inj_on (\<lambda>(p, sc, fp). sc) (set (leaders s))"
  proof (rule inj_onI)
    fix x y assume x: "x \<in> set (leaders s)" and y: "y \<in> set (leaders s)"
      and eq: "(case x of (p, sc, fp) \<Rightarrow> sc) = (case y of (p, sc, fp) \<Rightarrow> sc)"
    obtain p sc fp q fq where xy: "x = (p, sc, fp)" "y = (q, sc, fq)"
      using eq by (cases x; cases y) auto
    then have "map_of (entries (reg s)) sc = Some p" "map_of (entries (reg s)) sc = Some q"
      using leader_mapped(1) [OF lead, of p sc fp] leader_mapped(1) [OF lead, of q sc fq] x y by simp_all
    then have "p = q" by simp
    with xy x y show "x = y" using leader_unique [OF lead] by blast
  qed
  moreover have "distinct (leaders s)" using lead by (simp add: leaders_ok_def distinct_map)
  ultimately show ?thesis by (simp add: distinct_map)
qed

text \<open>
  C7. A caller that waited on another caller's operation gets that operation's own result: what
  is replayed was produced by exactly one finished run, with the same scope and the same
  fingerprint as the waiter's.
\<close>

lemma idem_waiters_get_their_run:
  assumes "idem_reach s" and "(sc, p, fp, res) \<in> set (replayed s)"
  shows "\<exists>t. (sc, p, fp, res, t) \<in> set (finished s) \<and>
    {(fp', res'). \<exists>t'. (sc, p, fp', res', t') \<in> set (finished s)} = {(fp, res)}"
proof -
  have inv: "finished_ok s" "replayed_ok s"
    using idem_inv_reach [OF assms(1)] by (simp_all add: idem_inv_def)
  then obtain t where t: "(sc, p, fp, res, t) \<in> set (finished s)"
    using assms(2) unfolding replayed_ok_def by fast
  obtain e where e: "heap (reg s) p = Some e" "outcome e = Some res" "fingerprint e = fp"
    using finishedE [OF inv(1) t] by blast
  have "fp' = fp \<and> res' = res" if "(sc, p, fp', res', t') \<in> set (finished s)" for fp' res' t'
    using finishedE [OF inv(1) that] e by force
  with t show ?thesis by blast
qed

text \<open>
  A success is kept for the whole TTL: once an operation for a scope has finished with value
  \<open>v\<close> at time \<open>t\<close>, and while no caller has read a clock at or past \<open>t + ttl\<close>, every further call
  for the scope is answered from the registry, with that very value for the same fingerprint and
  with the conflict error for another one, whatever the other callers did in between.
\<close>

lemma idem_success_kept:
  assumes "idem_reach s" and "(sc, p, fp, Inr v, t) \<in> set (finished s)"
    and "seen_clock s < t + ttl (reg s)" and "now < t + ttl (reg s)"
  shows "fst (do_enter now sc fq (reg s)) = (if fp \<noteq> fq then Conflict else Wait p) \<and>
    wait_result (snd (do_enter now sc fq (reg s))) p = Some (Inr v)"
proof -
  have ok: "registry_ok (reg s)" and fin: "finished_ok s"
    using idem_inv_reach [OF assms(1)] by (simp_all add: idem_inv_def)
  obtain e where e: "heap (reg s) p = Some e" "outcome e = Some (Inr v)" "fingerprint e = fp"
    "expires_at e = t + ttl (reg s)" "map_of (entries (reg s)) sc = Some p"
    using finishedE [OF fin assms(2)] assms(3) by (metis isl_def sum.distinct(1) not_le)
  then have "slot_view (reg s) now sc = Done p fp v"
    using assms(4) by (simp add: slot_view_def entry_expired_def)
  then have d: "fst (do_enter now sc fq (reg s)) = (if fp \<noteq> fq then Conflict else Wait p)"
    by (simp add: enter_decision [OF ok])
  then have "snd (do_enter now sc fq (reg s)) = snd (purge_expired_locked now False (reg s))"
    by (intro enter_other_shape) (auto simp: prod_eq_iff split: if_splits)
  with d e show ?thesis by (simp add: wait_result_def)
qed

section \<open>Properties of a single caller\<close>

lemma fst_snd_case: "(case x of (a, b) \<Rightarrow> f a b) = f (fst x) (snd x)"
  by (simp add: case_prod_beta)

lemma do_with_lead:
  assumes "fst (do_enter (clk s) sc fp r) = Lead p" and "operation s = (res, s')"
  shows "do_with_fingerprint clk ctx_end sc fp operation r s =
    Some (res, False, do_finish (clk s') sc p res (snd (do_enter (clk s) sc fp r)), s')"
  using assms by (simp add: do_with_fingerprint_def fst_snd_case)

lemma do_with_replay:
  assumes "slot_view r (clk s) sc = Done p fp v" and "registry_ok r"
  shows "do_with_fingerprint clk ctx_end sc fq operation r s =
    Some (if fp \<noteq> fq then (Inl ErrIdempotencyConflict, False, snd (do_enter (clk s) sc fq r), s)
      else (Inr v, True, snd (do_enter (clk s) sc fq r), s))"
proof -
  have d: "fst (do_enter (clk s) sc fq r) = (if fp \<noteq> fq then Conflict else Wait p)"
    using assms by (simp add: enter_decision)
  then have "snd (do_enter (clk s) sc fq r) = snd (purge_expired_locked (clk s) False r)"
    by (intro enter_other_shape) (auto simp: prod_eq_iff split: if_splits)
  then have "wait_result (snd (do_enter (clk s) sc fq r)) p = Some (Inr v)"
    using slot_view_Done [OF assms(1)] by (auto simp: wait_result_def)
  with d show ?thesis by (simp add: do_with_fingerprint_def fst_snd_case)
qed

text \<open>
  Two calls for one key. The first runs the operation, because nothing is cached. If it
  succeeded, the second call within the TTL does not run the operation: it returns the first
  value marked as replayed (or the conflict error for another fingerprint) and leaves the
  environment alone. If it failed, the second call runs its own operation and returns its result.
\<close>

lemma idem_second_call:
  assumes "registry_ok r" and "slot_view r (clk s) sc = Vacant"
    and "operation s = (res, s')" and "0 \<le> clk s'" and "clk u < clk s' + ttl r"
    and "operation' u = (res', u')"
  shows "\<exists>r1 r2. do_with_fingerprint clk ctx_end sc fp operation r s = Some (res, False, r1, s') \<and>
    do_with_fingerprint clk ctx_end sc fq operation' r1 u =
      Some (case res of
          Inr v \<Rightarrow> if fp \<noteq> fq then (Inl ErrIdempotencyConflict, False, r2, u) else (Inr v, True, r2, u)
        | Inl e \<Rightarrow> (res', False, r2, u'))"
proof -
  let ?r0 = "snd (do_enter (clk s) sc fp r)"
  let ?r1 = "do_finish (clk s') sc (next_entry r) res ?r0"
  have lead: "fst (do_enter (clk s) sc fp r) = Lead (next_entry r)"
    using assms(1,2) by (simp add: enter_decision)
  have first: "do_with_fingerprint clk ctx_end sc fp operation r s = Some (res, False, ?r1, s')"
    using lead assms(3) by (rule do_with_lead)
  have "slot_view ?r0 (clk s) sc = Running (next_entry r) fp"
    using assms(1) lead by (simp add: enter_view)
  then have ok: "registry_ok ?r1"
    using assms(1,4) slot_view_Running registry_ok_finish registry_ok_enter by metis
  show ?thesis
  proof (cases res)
    case (Inl e)
    have "fst (do_enter (clk u) sc fq ?r1) = Lead (next_entry ?r1)"
      by (rule ireg.failure_frees [OF assms(1,2,4) refl]) (simp add: Inl)
    from do_with_lead [of clk u sc fq ?r1, OF this, of operation', OF assms(6)] first Inl
    show ?thesis by auto
  next
    case (Inr v)
    have "slot_view ?r1 (clk u) sc = Done (next_entry r) fp v"
      by (rule ireg.lead_then_replay(1) [OF assms(1,2,4,5) refl]) (simp add: Inr)
    from do_with_replay [of ?r1 clk u, OF this ok] first Inr show ?thesis by auto
  qed
qed

text \<open>
  Purging removes exactly the entries whose time has passed: a scope loses its entry if and
  only if its cached result had expired, an operation in flight is never forgotten, and the
  number reported is the number of entries removed.
\<close>

lemma idem_purge_exact:
  assumes "registry_ok r"
  shows "map_of (entries (snd (purge_expired now r))) sc =
      (if slot_view r now sc = Vacant then None else map_of (entries r) sc) \<and>
    fst (purge_expired now r) + length (entries (snd (purge_expired now r))) = length (entries r)"
proof -
  have "slot_view r now sc = Vacant \<longleftrightarrow> map_of (entries r) sc = None \<or>
      (\<exists>p. map_of (entries r) sc = Some p \<and> expired_at r now (sc, p))"
  proof (cases "map_of (entries r) sc")
    case (Some p)
    from registry_ok_entry [OF assms Some] obtain e where "heap r p = Some e"
      "case outcome e of None \<Rightarrow> expires_at e = 0 | Some res \<Rightarrow> \<not> isl res \<and> 0 < expires_at e" .
    with Some show ?thesis
      by (auto simp: slot_view_def expired_at_def entry_expired_def time_is_zero_def isl_def
          split: option.splits sum.splits)
  qed (simp add: slot_view_def)
  then show ?thesis
    using registry_okD(2) [OF assms] sum_length_filter_compl [of "expired_at r now" "entries r"]
    by (auto simp: purge_expired_def purge_expired_locked_def map_of_filter_entry split: option.splits)
qed

section \<open>A concrete run\<close>

text \<open>
  One run of three callers on a registry with TTL 10: the first leads at time 1, the second waits
  at time 2, the operation succeeds with 7 at time 3, the waiter wakes, and a third caller leads
  for another scope at time 4.
\<close>

lemma idem_demo_registry:
  "new_registry 1 10 = Inr \<lparr>ttl = 10, entries = [], heap = Map.empty, next_entry = 0, next_purge = 11\<rparr>"
  by (simp add: new_registry_def go_time_simps go_duration_defs)

lemma idem_demo:
  obtains s :: "nat idem_system" where "idem_reach s"
    "((''t'', ''k''), 0, ''f'', Inr 7) \<in> set (replayed s)"
    "((''t'', ''k''), 0, ''f'', Inr 7, 3) \<in> set (finished s)"
    "seen_clock s = 4" "ttl (reg s) = 10" "leaders s = [(1, (''t'', ''j''), ''g'')]"
proof -
  let ?sc = "(''t'', ''k'')"
  obtain r0 :: "nat registry" where r0: "new_registry 1 10 = Inr r0" "ttl r0 = 10" "next_purge r0 = 11"
      "entries r0 = []" "next_entry r0 = 0"
    by (simp add: idem_demo_registry)
  obtain r1 where e1: "do_enter 1 ?sc ''f'' r0 = (Lead 0, r1)" and r1: "ttl r1 = 10" "next_purge r1 = 11"
      "entries r1 = [(?sc, 0)]" "next_entry r1 = 1"
      "heap r1 0 = Some \<lparr>outcome = None, fingerprint = ''f'', expires_at = 0\<rparr>"
    using r0 by (simp add: do_enter_def Let_def purge_expired_locked_def new_entry_def)
  have e2: "do_enter 2 ?sc ''f'' r1 = (Wait 0, r1)"
    using r1 by (simp add: do_enter_def Let_def purge_expired_locked_def time_is_zero_def)
  obtain r3 where f3: "do_finish 3 ?sc 0 (Inr 7) r1 = r3" and r3: "ttl r3 = 10" "next_purge r3 = 11"
      "entries r3 = [(?sc, 0)]" "next_entry r3 = 1" "wait_result r3 0 = Some (Inr 7)"
    using r1 by (simp add: do_finish_def wait_result_def)
  obtain r4 where e4: "do_enter 4 (''t'', ''j'') ''g'' r3 = (Lead 1, r4)" and r4: "ttl r4 = 10"
    using r3 by (simp add: do_enter_def Let_def purge_expired_locked_def new_entry_def)
  note s0 = idem_reach.start [OF r0(1)]
  note s1 = idem_reach.step [OF s0 idem_step.lead [where now = 1 and sc = ?sc and fp = "''f''" and p = 0 and r = r1]]
  note s2 = idem_reach.step [OF s1 idem_step.wait [where now = 2 and sc = ?sc and fp = "''f''" and p = 0 and r = r1]]
  note s3 = idem_reach.step [OF s2 idem_step.finish
      [where now = 3 and sc = ?sc and fp = "''f''" and p = 0 and xs = "[]" and ys = "[]" and res = "Inr 7"]]
  note s4 = idem_reach.step [OF s3 idem_step.wake
      [where sc = ?sc and fp = "''f''" and p = 0 and xs = "[]" and ys = "[]" and res = "Inr 7"]]
  note s5 = idem_reach.step [OF s4 idem_step.lead
      [where now = 4 and sc = "(''t'', ''j'')" and fp = "''g''" and p = 1 and r = r4]]
  show thesis by (rule that, rule s5) (simp_all add: e1 e2 f3 e4 r3 r4)
qed

lemma idem_single_flight_witness:
  "\<exists>s :: nat idem_system. idem_reach s \<and> leaders s \<noteq> [] \<and> distinct (map (\<lambda>(p, sc, fp). sc) (leaders s))"
proof -
  obtain s :: "nat idem_system" where "idem_reach s" "leaders s = [(1, (''t'', ''j''), ''g'')]"
    by (rule idem_demo, rule that)
  then show ?thesis using idem_single_flight [of s] by (intro exI [of _ s]) simp
qed

lemma idem_waiters_get_their_run_witness:
  "\<exists>s :: nat idem_system. ((''t'', ''k''), 0, ''f'', Inr 7) \<in> set (replayed s) \<and>
     (\<exists>t. ((''t'', ''k''), 0, ''f'', Inr 7, t) \<in> set (finished s))"
proof -
  obtain s :: "nat idem_system" where "idem_reach s" "((''t'', ''k''), 0, ''f'', Inr 7) \<in> set (replayed s)"
    by (rule idem_demo, rule that)
  with idem_waiters_get_their_run [OF this] show ?thesis by blast
qed

lemma idem_success_kept_witness:
  "\<exists>s :: nat idem_system.
     fst (do_enter 12 (''t'', ''k'') ''f'' (reg s)) = Wait 0 \<and>
     wait_result (snd (do_enter 12 (''t'', ''k'') ''f'' (reg s))) 0 = Some (Inr 7) \<and>
     fst (do_enter 12 (''t'', ''k'') ''x'' (reg s)) = Conflict"
proof -
  obtain s :: "nat idem_system" where s: "idem_reach s"
    "((''t'', ''k''), 0, ''f'', Inr 7, 3) \<in> set (finished s)" "seen_clock s = 4" "ttl (reg s) = 10"
    by (rule idem_demo, rule that)
  then show ?thesis
    using idem_success_kept [OF s(1,2), of 12 "''f''"] idem_success_kept [OF s(1,2), of 12 "''x''"]
    by auto
qed

lemma idem_second_call_witness:
  "\<exists>r r1 r2. new_registry 1 10 = Inr r \<and>
     do_with_fingerprint id (\<lambda>_. None) (''t'', ''k'') ''f'' (\<lambda>s. (Inr (7 :: nat), s + 1)) r 2 =
       Some (Inr 7, False, r1, 3) \<and>
     do_with_fingerprint id (\<lambda>_. None) (''t'', ''k'') ''f'' (\<lambda>s. (Inr 8, s + 1)) r1 12 =
       Some (Inr 7, True, r2, 12)"
proof -
  let ?r = "\<lparr>ttl = 10, entries = [], heap = Map.empty, next_entry = 0, next_purge = 11\<rparr> :: nat registry"
  have "registry_ok ?r" using new_registry_ok [OF idem_demo_registry] .
  moreover have "slot_view ?r (id 2) (''t'', ''k'') = Vacant" by (simp add: slot_view_def)
  ultimately show ?thesis
    using idem_second_call [of ?r id 2 "(''t'', ''k'')" "\<lambda>s. (Inr 7, s + 1)" "Inr 7" 3 12
        "\<lambda>s. (Inr 8, s + 1)" "Inr 8" 13 "\<lambda>_. None" "''f''" "''f''"] idem_demo_registry
    by - (rule exI [of _ ?r], simp)
qed

lemma idem_purge_exact_witness:
  "entries (snd (purge_expired 5 \<lparr>ttl = 10, entries = [((''t'', ''k''), 0)],
     heap = [0 \<mapsto> \<lparr>outcome = Some (Inr (7 :: nat)), fingerprint = ''f'', expires_at = 5\<rparr>],
     next_entry = 1, next_purge = 11\<rparr>)) = []"
proof -
  let ?r = "\<lparr>ttl = 10, entries = [((''t'', ''k''), 0)],
     heap = [0 \<mapsto> \<lparr>outcome = Some (Inr (7 :: nat)), fingerprint = ''f'', expires_at = 5\<rparr>],
     next_entry = 1, next_purge = 11\<rparr>"
  have "registry_ok ?r" by (auto simp: registry_ok_def distinct_keys_def)
  then have none: "map_of (entries (snd (purge_expired 5 ?r))) sc = None" for sc
    using idem_purge_exact [of ?r 5 sc]
    by (cases "sc = (''t'', ''k'')") (auto simp: slot_view_def entry_expired_def time_is_zero_def)
  have "map_of (entries (snd (purge_expired 5 ?r))) = Map.empty" by (rule ext) (rule none)
  then show ?thesis by (simp only: map_of_eq_empty_iff)
qed

end
