(* ===== verification/Upstream.thy ===== *)
theory Upstream
  imports Go_Context
begin

text \<open>
  The synthetic inventory dependency, \<open>internal/upstream/simulator.go\<close>. A mode is a string, as in
  the code; \<open>set_mode\<close> admits the four constants only. \<open>reserve\<close> counts the call, waits for the
  delay of the mode under the caller's context, and fails in the unavailable mode and, in the flaky
  mode, unless the number of the call is a multiple of three. The first argument is the choice of
  \<open>select\<close> when timer and context are ready at the same instant.
\<close>

section \<open>State and operations\<close>

definition mode_healthy :: string where "mode_healthy = ''healthy''"
definition mode_slow :: string where "mode_slow = ''slow''"
definition mode_flaky :: string where "mode_flaky = ''flaky''"
definition mode_unavailable :: string where "mode_unavailable = ''unavailable''"

lemmas mode_defs = mode_healthy_def mode_slow_def mode_flaky_def mode_unavailable_def

record simulator =
  sim_mode :: string
  sim_calls :: u64

definition new_simulator :: simulator where
  "new_simulator = \<lparr>sim_mode = mode_healthy, sim_calls = 0\<rparr>"

definition set_mode :: "string \<Rightarrow> simulator \<Rightarrow> go_error option \<times> simulator" where
  "set_mode m s =
     (if m = mode_healthy \<or> m = mode_slow \<or> m = mode_flaky \<or> m = mode_unavailable
      then (None, s\<lparr>sim_mode := m\<rparr>) else (Some (InvalidMode m), s))"

definition reserve_delay :: "string \<Rightarrow> duration" where
  "reserve_delay m =
     (if m = mode_slow then 650 * millisecond else if m = mode_unavailable then 15 * millisecond
      else if m = mode_flaky then 45 * millisecond else 35 * millisecond)"

definition reserve ::
  "bool \<Rightarrow> ctx \<Rightarrow> gotime \<Rightarrow> string \<Rightarrow> int \<Rightarrow> simulator \<Rightarrow> (go_error option \<times> gotime) \<times> simulator" where
  "reserve tie c now event_id quantity s0 =
     (let s = s0\<lparr>sim_calls := sim_calls s0 + 1\<rparr>;
          call = sim_calls s;
          mode = sim_mode s
      in (case select_timer tie c now (reserve_delay mode) of
            (Some e, t) \<Rightarrow> ((Some e, t), s)
          | (None, t) \<Rightarrow>
              ((if mode = mode_unavailable \<or> mode = mode_flaky \<and> call mod 3 \<noteq> 0
                then Some ErrUnavailable else None, t), s)))"

definition reset_simulator :: "simulator \<Rightarrow> simulator" where
  "reset_simulator s = s\<lparr>sim_mode := mode_healthy, sim_calls := 0\<rparr>"

section \<open>Behaviour per mode\<close>

lemma mode_distinct [simp]:
  "mode_healthy \<noteq> mode_slow" "mode_healthy \<noteq> mode_flaky" "mode_healthy \<noteq> mode_unavailable"
  "mode_slow \<noteq> mode_healthy" "mode_slow \<noteq> mode_flaky" "mode_slow \<noteq> mode_unavailable"
  "mode_flaky \<noteq> mode_healthy" "mode_flaky \<noteq> mode_slow" "mode_flaky \<noteq> mode_unavailable"
  "mode_unavailable \<noteq> mode_healthy" "mode_unavailable \<noteq> mode_slow" "mode_unavailable \<noteq> mode_flaky"
  by (simp_all add: mode_defs)

lemma reserve_sim [simp]: "snd (reserve tie c now e q s) = s\<lparr>sim_calls := sim_calls s + 1\<rparr>"
  by (simp add: reserve_def Let_def split: prod.splits option.splits)

lemma reserve_delay_bounds: "0 < reserve_delay m" "reserve_delay m \<le> 650 * millisecond"
  by (simp_all add: reserve_delay_def millisecond_def)

lemma reserve_time:
  "now \<le> snd (fst (reserve tie c now e q s))"
  "snd (fst (reserve tie c now e q s)) \<le> now + reserve_delay (sim_mode s)"
  using select_timer_time [where p = tie and c = c and now = now and d = "reserve_delay (sim_mode s)"]
    reserve_delay_bounds(1) [of "sim_mode s"]
  by (auto simp: reserve_def Let_def split: prod.splits option.splits)

lemma reserve_time_capped:
  "0 \<le> tmo \<Longrightarrow> snd (fst (reserve tie (with_timeout c now tmo) now e q s)) \<le> now + tmo"
  using select_timer_capped [of tmo tie c now "reserve_delay (sim_mode s)"]
  by (auto simp: reserve_def Let_def split: prod.splits option.splits)

text \<open>The unavailable dependency never answers with success, and a slow one not within a quarter second.\<close>

lemma reserve_unavailable:
  "sim_mode s = mode_unavailable \<Longrightarrow> fst (fst (reserve tie c now e q s)) \<noteq> None"
  by (simp add: reserve_def Let_def split: prod.splits option.splits)

lemma reserve_slow_timeout:
  assumes "sim_mode s = mode_slow"
  shows "fst (fst (reserve tie (with_timeout c now (250 * millisecond)) now e q s)) \<noteq> None"
  using select_timer_timeout(1) [of "250 * millisecond" "reserve_delay mode_slow" tie c now] assms
  by (auto simp: reserve_def Let_def reserve_delay_def millisecond_def split: prod.splits option.splits)

text \<open>Outside the slow mode a caller that nobody cancels gets the answer of the mode after its delay.\<close>

lemma reserve_undisturbed:
  assumes "sim_mode s \<noteq> mode_slow" and "done_at c = None"
  shows "fst (reserve tie (with_timeout c now (250 * millisecond)) now e q s) =
    (if sim_mode s = mode_unavailable \<or> sim_mode s = mode_flaky \<and> (sim_calls s + 1) mod 3 \<noteq> 0
     then Some ErrUnavailable else None, now + reserve_delay (sim_mode s))"
proof -
  have d: "0 \<le> reserve_delay (sim_mode s)" "reserve_delay (sim_mode s) < 250 * millisecond"
    using assms(1) by (simp_all add: reserve_delay_def millisecond_def)
  have "select_timer tie (with_timeout c now (250 * millisecond)) now (reserve_delay (sim_mode s)) =
      (None, now + reserve_delay (sim_mode s))"
    using assms(2) d by (rule select_timer_within_timeout)
  then show ?thesis by (simp add: reserve_def Let_def)
qed

text \<open>Of three call numbers in a row that do not wrap, one is a multiple of three.\<close>

lemma three_calls:
  fixes n :: u64
  assumes "unat n + 3 < 2 ^ 64"
  shows "(n + 1) mod 3 = 0 \<or> (n + 2) mod 3 = 0 \<or> (n + 3) mod 3 = 0"
proof -
  have k: "unat (n + of_nat k) = unat n + k" if "k \<le> 3" for k
    using assms that by (simp add: unat_word_ariths unat_of_nat)
  have "(n + of_nat k) mod 3 = 0 \<longleftrightarrow> (unat n + k) mod 3 = 0" if "k \<le> 3" for k
    using k [OF that] by (simp add: word_unat_eq_iff unat_mod_distrib)
  from this [of 1] this [of 2] this [of 3] show ?thesis by simp presburger
qed

end
