(* ===== verification/App_Service.thy ===== *)
theory App_Service
  imports Limiter Breaker Retry Idempotency Event_Store Upstream Go_Strings
begin

text \<open>
  The order service of \<open>internal/app/service.go\<close>: \<open>CreateOrder\<close> composed of the idempotency
  registry, the circuit breaker, the retry loop, the simulated dependency and the store, exactly
  as the code nests them, and the other operations of \<open>Service\<close>.

  A \<open>world\<close> is the service with what Go's runtime supplies: the clock, the choices of \<open>select\<close>,
  \<open>rand.Float64\<close>, the bytes of \<open>crypto/rand\<close> and out-of-range float conversions. Time passes only
  where the code waits (the dependency's delay, the backoff); computing takes no time. The requests
  run one after another; the concurrent behaviour of the registry, the breaker and the store is in
  their own theories. Prometheus counters are counts of increments per label.
\<close>

section \<open>State\<close>

record sample =
  sm_at :: gotime
  sm_requests :: int
  sm_errors :: int
  sm_latency_ms :: int

record metrics =
  order_requests :: "string \<Rightarrow> nat"
  dependency_calls :: "string \<times> string \<Rightarrow> nat"
  suppressed_count :: nat
  rate_limited_count :: nat
  circuit_gauge :: int

record service =
  svc_store :: memory
  svc_dependency :: simulator
  svc_breaker :: breaker
  svc_idempotency :: "order registry"
  svc_metrics :: metrics
  svc_started :: gotime
  orders_total :: u64
  orders_succeeded :: u64
  orders_failed :: u64
  duplicates_suppressed :: u64
  rate_limited :: u64
  samples :: "sample list"

record world =
  clock :: gotime
  ties :: "nat \<Rightarrow> bool"
  tie_pos :: nat
  rands :: "nat \<Rightarrow> rat"
  rand_pos :: nat
  id_bytes :: "nat \<Rightarrow> 8 word list option"
  id_pos :: nat
  out_of_range :: "rat \<Rightarrow> int"
  svc :: service

record create_result =
  cr_order :: order
  cr_replayed :: bool

definition no_metrics :: metrics where
  "no_metrics = \<lparr>order_requests = (\<lambda>_. 0), dependency_calls = (\<lambda>_. 0), suppressed_count = 0,
     rate_limited_count = 0, circuit_gauge = 0\<rparr>"

text \<open>The configuration of \<open>NewService\<close>; the constructors it calls reject none of it.\<close>

definition service_breaker :: breaker where
  "service_breaker = (case new_circuit_breaker 3 (4 * second) of Inr b \<Rightarrow> b)"

definition service_registry :: "gotime \<Rightarrow> order registry" where
  "service_registry t = (case new_registry t (30 * minute) of Inr r \<Rightarrow> r)"

definition service_policy :: "world retry_policy" where
  "service_policy = \<lparr>attempts = 3, base_delay = 35 * millisecond, max_delay = 140 * millisecond,
     jitter = fl (15 / 100), retryable = Some (\<lambda>e. \<not> errors_is e CtxCanceled),
     rand_float = None, sleep = None\<rparr>"

definition new_service :: "memory \<Rightarrow> simulator \<Rightarrow> gotime \<Rightarrow> service" where
  "new_service m d t = \<lparr>svc_store = m, svc_dependency = d, svc_breaker = service_breaker,
     svc_idempotency = service_registry t, svc_metrics = no_metrics, svc_started = t,
     orders_total = 0, orders_succeeded = 0, orders_failed = 0, duplicates_suppressed = 0,
     rate_limited = 0, samples = []\<rparr>"

section \<open>The dependency call\<close>

definition count_dependency :: "string \<Rightarrow> string \<Rightarrow> metrics \<Rightarrow> metrics" where
  "count_dependency result mode mx =
     mx\<lparr>dependency_calls := (dependency_calls mx)((result, mode) := Suc (dependency_calls mx (result, mode)))\<rparr>"

definition reserve_attempt :: "ctx \<Rightarrow> create_order_input \<Rightarrow> world \<Rightarrow> go_error option \<times> world" where
  "reserve_attempt c inp w =
     (let attempt_ctx = with_timeout c (clock w) (250 * millisecond);
          mode = sim_mode (svc_dependency (svc w))
      in case reserve (ties w (tie_pos w)) attempt_ctx (clock w) (in_event_id inp) (in_quantity inp)
                (svc_dependency (svc w)) of
           ((err, t), d) \<Rightarrow>
             (err, w\<lparr>clock := t, tie_pos := Suc (tie_pos w),
                svc := (svc w)\<lparr>svc_dependency := d, svc_metrics := count_dependency
                  (if err \<noteq> None then ''failure'' else ''success'') mode (svc_metrics (svc w))\<rparr>\<rparr>))"

definition sleep_context :: "ctx \<Rightarrow> world \<Rightarrow> duration \<Rightarrow> go_error option \<times> world" where
  "sleep_context c w d =
     (case select_timer (ties w (tie_pos w)) c (clock w) d of
        (err, t) \<Rightarrow> (err, w\<lparr>clock := t, tie_pos := Suc (tie_pos w)\<rparr>))"

definition service_runtime :: "ctx \<Rightarrow> world \<Rightarrow> world go_runtime" where
  "service_runtime c w0 = \<lparr>rt_ctx_err = (\<lambda>w. ctx_err c (clock w)),
     rt_rand = (\<lambda>w. (rands w (rand_pos w), w\<lparr>rand_pos := Suc (rand_pos w)\<rparr>)),
     rt_sleep = sleep_context c, rt_out_of_range = out_of_range w0\<rparr>"

definition reserve_with_retry :: "ctx \<Rightarrow> create_order_input \<Rightarrow> world \<Rightarrow> go_error option \<times> world" where
  "reserve_with_retry c inp w = retry (service_runtime c w) service_policy (reserve_attempt c inp) w"

definition guarded_reserve :: "ctx \<Rightarrow> create_order_input \<Rightarrow> world \<Rightarrow> go_error option \<times> world" where
  "guarded_reserve c inp w =
     (case execute clock (reserve_with_retry c inp) (svc_breaker (svc w)) w of
        (err, b, w') \<Rightarrow> (err, w'\<lparr>svc := (svc w')\<lparr>svc_breaker := b\<rparr>\<rparr>))"

definition circuit_value :: "circuit_state \<Rightarrow> int" where
  "circuit_value st = (case st of StateHalfOpen \<Rightarrow> 1 | StateOpen \<Rightarrow> 2 | StateClosed \<Rightarrow> 0)"

definition sync_circuit_metric_state :: "circuit_state \<Rightarrow> world \<Rightarrow> world" where
  "sync_circuit_metric_state st w =
     w\<lparr>svc := (svc w)\<lparr>svc_metrics := (svc_metrics (svc w))\<lparr>circuit_gauge := circuit_value st\<rparr>\<rparr>\<rparr>"

text \<open>\<open>State\<close> reads the clock and may move the breaker from open to half-open.\<close>

definition service_circuit :: "world \<Rightarrow> circuit_state \<times> world" where
  "service_circuit w =
     (case breaker_state (clock w) (svc_breaker (svc w)) of
        (st, b) \<Rightarrow> (st, w\<lparr>svc := (svc w)\<lparr>svc_breaker := b\<rparr>\<rparr>))"

definition sync_circuit_metric :: "world \<Rightarrow> world" where
  "sync_circuit_metric w = (case service_circuit w of (st, w') \<Rightarrow> sync_circuit_metric_state st w')"

definition unix_nano :: "gotime \<Rightarrow> int" where
  "unix_nano t = wrap64 (t - 62135596800 * second)"

definition new_id :: "world \<Rightarrow> string \<times> world" where
  "new_id w =
     (case id_bytes w (id_pos w) of
        None \<Rightarrow> ''ord-'' @ show_int (unix_nano (clock w))
      | Some bs \<Rightarrow> ''ord_'' @ hex_encode bs,
      w\<lparr>id_pos := Suc (id_pos w)\<rparr>)"

section \<open>Orders\<close>

definition fresh_order :: "string \<Rightarrow> string \<Rightarrow> create_order_input \<Rightarrow> order" where
  "fresh_order oid t inp = zero_order\<lparr>order_id := oid, tenant_id := t, event_id := in_event_id inp,
     quantity := in_quantity inp, order_status := order_confirmed\<rparr>"

text \<open>The operation that \<open>CreateOrder\<close> hands to the idempotency registry.\<close>

definition place_order :: "ctx \<Rightarrow> string \<Rightarrow> create_order_input \<Rightarrow> world \<Rightarrow> (go_error + order) \<times> world" where
  "place_order c t inp w =
     (case guarded_reserve c inp w of
        (err, w1) \<Rightarrow>
          (let w2 = sync_circuit_metric w1
           in case err of
                Some e \<Rightarrow> (Inl (WrapDependency e), w2)
              | None \<Rightarrow>
                  (case new_id w2 of (oid, w3) \<Rightarrow>
                     (case save (clock w3) (fresh_order oid t inp) ''order.confirmed'' (svc_store (svc w3)) of
                        (ord, m) \<Rightarrow> (Inr ord, w3\<lparr>svc := (svc w3)\<lparr>svc_store := m\<rparr>\<rparr>)))))"

definition request_fingerprint :: "create_order_input \<Rightarrow> string" where
  "request_fingerprint inp = in_event_id inp @ [CHR 0x00] @ show_int (in_quantity inp)"

definition valid_input :: "string \<Rightarrow> string \<Rightarrow> create_order_input \<Rightarrow> bool" where
  "valid_input t k inp \<longleftrightarrow>
     \<not> (t = [] \<or> k = [] \<or> in_event_id inp = [] \<or> in_quantity inp < 1 \<or> 12 < in_quantity inp)"

definition record_sample :: "gotime \<Rightarrow> bool \<Rightarrow> world \<Rightarrow> world" where
  "record_sample started failed w =
     (let s = \<lparr>sm_at = clock w, sm_requests = 1, sm_errors = (if failed then 1 else 0),
            sm_latency_ms = time_sub (clock w) started sdiv millisecond\<rparr>;
          all = samples (svc w) @ [s]
      in w\<lparr>svc := (svc w)\<lparr>samples := (if 40 < length all then drop (length all - 40) all else all)\<rparr>\<rparr>)"

definition count_order :: "string \<Rightarrow> service \<Rightarrow> service" where
  "count_order result s = s\<lparr>svc_metrics := (svc_metrics s)\<lparr>order_requests :=
     (order_requests (svc_metrics s))(result := Suc (order_requests (svc_metrics s) result))\<rparr>\<rparr>"

definition order_refused :: "gotime \<Rightarrow> string \<Rightarrow> world \<Rightarrow> world" where
  "order_refused started result w =
     record_sample started True
       (w\<lparr>svc := count_order result ((svc w)\<lparr>orders_failed := orders_failed (svc w) + 1\<rparr>)\<rparr>)"

definition order_replayed :: "world \<Rightarrow> world" where
  "order_replayed w =
     (let s = (svc w)\<lparr>duplicates_suppressed := duplicates_suppressed (svc w) + 1\<rparr>;
          s' = s\<lparr>svc_metrics := (svc_metrics s)\<lparr>suppressed_count := Suc (suppressed_count (svc_metrics s))\<rparr>\<rparr>
      in w\<lparr>svc := count_order ''replayed'' s'\<rparr>)"

definition order_placed :: "world \<Rightarrow> world" where
  "order_placed w =
     w\<lparr>svc := count_order ''succeeded'' ((svc w)\<lparr>orders_succeeded := orders_succeeded (svc w) + 1\<rparr>)\<rparr>"

text \<open>How the context of a request ends for a caller that waits on the registry.\<close>

definition ctx_end :: "ctx \<Rightarrow> world \<Rightarrow> (go_error \<times> world) option" where
  "ctx_end c w =
     (case done_at c of None \<Rightarrow> None | Some (t, e) \<Rightarrow> Some (e, w\<lparr>clock := max (clock w) t\<rparr>))"

definition create_order ::
  "ctx \<Rightarrow> string \<Rightarrow> string \<Rightarrow> create_order_input \<Rightarrow> world \<Rightarrow> ((go_error + create_result) \<times> world) option" where
  "create_order c t k inp w0 =
     (let started = clock w0;
          w = w0\<lparr>svc := (svc w0)\<lparr>orders_total := orders_total (svc w0) + 1\<rparr>\<rparr>
      in if \<not> valid_input t k inp then Some (Inl WrapInvalidInput, order_refused started ''invalid'' w)
         else case do_with_fingerprint clock (ctx_end c) (t, k) (request_fingerprint inp)
                     (place_order c t inp) (svc_idempotency (svc w)) w of
                None \<Rightarrow> None
              | Some (res, replay, r, w1) \<Rightarrow>
                  (let w2 = w1\<lparr>svc := (svc w1)\<lparr>svc_idempotency := r\<rparr>\<rparr>
                   in case res of
                        Inl e \<Rightarrow> Some (Inl e, order_refused started
                          (if errors_is e ErrIdempotencyConflict then ''conflict'' else ''failed'') w2)
                      | Inr ord \<Rightarrow> Some (Inr \<lparr>cr_order = ord, cr_replayed = replay\<rparr>,
                          record_sample started False (if replay then order_replayed w2 else order_placed w2))))"

section \<open>The other operations\<close>

definition service_get_order :: "world \<Rightarrow> string \<Rightarrow> string \<Rightarrow> go_error + order" where
  "service_get_order w t oid = get_order (svc_store (svc w)) t oid"

definition service_list_orders :: "world \<Rightarrow> string \<Rightarrow> order list" where
  "service_list_orders w t = list_orders (svc_store (svc w)) t"

definition service_subscribe_since ::
  "string \<Rightarrow> u64 \<Rightarrow> int \<Rightarrow> world \<Rightarrow> (event list \<times> nat \<times> u64 \<times> bool) \<times> world" where
  "service_subscribe_since t n b w =
     (case subscribe_since t n b (svc_store (svc w)) of (r, m) \<Rightarrow> (r, w\<lparr>svc := (svc w)\<lparr>svc_store := m\<rparr>\<rparr>))"

definition set_fault_mode :: "string \<Rightarrow> world \<Rightarrow> go_error option \<times> world" where
  "set_fault_mode m w =
     (case set_mode m (svc_dependency (svc w)) of
        (err, d) \<Rightarrow> (err, w\<lparr>svc := (svc w)\<lparr>svc_dependency := d\<rparr>\<rparr>))"

definition mark_rate_limited :: "world \<Rightarrow> world" where
  "mark_rate_limited w =
     w\<lparr>svc := (svc w)\<lparr>rate_limited := rate_limited (svc w) + 1,
       svc_metrics := (svc_metrics (svc w))\<lparr>rate_limited_count := Suc (rate_limited_count (svc_metrics (svc w)))\<rparr>\<rparr>\<rparr>"

definition ready :: "world \<Rightarrow> bool \<times> world" where
  "ready w = (case service_circuit w of (st, w') \<Rightarrow> (st \<noteq> StateOpen, sync_circuit_metric_state st w'))"

record snapshot =
  sn_status :: string
  sn_uptime_seconds :: int
  sn_version :: string
  sn_mode :: string
  sn_circuit_state :: string
  sn_consecutive_failures :: int
  sn_counts :: "u64 list"
  sn_dependency_calls :: u64
  sn_recent_events :: "event list"
  sn_timeseries :: "sample list"

definition take_snapshot :: "world \<Rightarrow> snapshot \<times> world" where
  "take_snapshot w =
     (case service_circuit w of (st, w1) \<Rightarrow>
        (let w2 = sync_circuit_metric_state st w1; s = svc w2
         in (\<lparr>sn_status = (if st = StateOpen then ''degraded'' else ''operational''),
              sn_uptime_seconds = float_to_int64 (out_of_range w2) (duration_seconds (time_sub (clock w2) (svc_started s))),
              sn_version = ''1.0.0'',
              sn_mode = sim_mode (svc_dependency s), sn_circuit_state = circuit_state_string st,
              sn_consecutive_failures = consecutive_failures (svc_breaker s),
              sn_counts = [orders_total s, orders_succeeded s, orders_failed s, duplicates_suppressed s, rate_limited s],
              sn_dependency_calls = sim_calls (svc_dependency s),
              sn_recent_events = recent_events (svc_store s) 12, sn_timeseries = samples s\<rparr>, w2)))"

definition reset_service :: "world \<Rightarrow> world" where
  "reset_service w =
     sync_circuit_metric (w\<lparr>svc := (svc w)\<lparr>svc_store := reset_memory (svc_store (svc w)),
       svc_dependency := reset_simulator (svc_dependency (svc w)), svc_breaker := reset_breaker (svc_breaker (svc w)),
       svc_idempotency := service_registry (clock w), orders_total := 0, orders_succeeded := 0,
       orders_failed := 0, duplicates_suppressed := 0, rate_limited := 0, samples := []\<rparr>\<rparr>)"

end
