(* ===== verification/App_Properties.thy ===== *)
theory App_Properties
  imports App_Service
begin

text \<open>
  What the order service guarantees: one request costs at most three dependency calls and a bounded
  time, an order is stored only after a successful reservation, a repeated request is answered from
  the registry, the service recovers from each fault mode as the retry budget and the circuit
  breaker promise, and its counters add up.
\<close>

section \<open>The configuration is valid\<close>

lemma service_policy_valid: "validate_retry_policy service_policy = None"
proof -
  have "fl (15 / 100) \<le> 1" by (rule fl_le) simp_all
  moreover have "0 \<le> fl (15 / 100)" by (rule fl_nonneg) simp
  ultimately show ?thesis
    by (simp add: validate_retry_policy_def service_policy_def millisecond_def)
qed

lemma service_breaker_ok: "breaker_ok service_breaker"
  "failure_threshold service_breaker = 3" "open_timeout service_breaker = 4 * second"
  "circuit service_breaker = StateClosed" "consecutive_failures service_breaker = 0"
  by (simp_all add: service_breaker_def new_circuit_breaker_def breaker_ok_def second_def int64_max_def)

lemma service_registry_ok: "registry_ok (service_registry t)" "ttl (service_registry t) = 30 * minute"
  "entries (service_registry t) = []"
proof -
  have "new_registry t (30 * minute) = Inr (service_registry t)"
    by (simp add: service_registry_def new_registry_def go_duration_defs)
  then show "registry_ok (service_registry t)" by (rule new_registry_ok)
  show "ttl (service_registry t) = 30 * minute" "entries (service_registry t) = []"
    by (simp_all add: service_registry_def new_registry_def go_duration_defs)
qed

section \<open>The reservation\<close>

text \<open>
  What a reservation with \<open>k\<close> dependency calls may change: the call counter by \<open>k\<close>, the metrics,
  and time and the sources of choice and randomness move on.
\<close>

definition after_calls :: "nat \<Rightarrow> world \<Rightarrow> world \<Rightarrow> bool" where
  "after_calls k w w' \<longleftrightarrow>
     (\<exists>mx. order_requests mx = order_requests (svc_metrics (svc w)) \<and>
        svc w' = (svc w)\<lparr>svc_dependency := (svc_dependency (svc w))
          \<lparr>sim_calls := sim_calls (svc_dependency (svc w)) + of_nat k\<rparr>, svc_metrics := mx\<rparr>) \<and>
     clock w \<le> clock w' \<and> rands w' = rands w \<and> ties w' = ties w \<and> id_bytes w' = id_bytes w \<and>
     id_pos w' = id_pos w \<and> out_of_range w' = out_of_range w"

lemma after_calls_env: "after_calls 0 w (w\<lparr>clock := t, tie_pos := n\<rparr>)" if "clock w \<le> t"
  unfolding after_calls_def using that by (intro conjI exI [of _ "svc_metrics (svc w)"]) simp_all

lemma after_calls_rand: "after_calls 0 w (w\<lparr>rand_pos := n\<rparr>)"
  unfolding after_calls_def by (intro conjI exI [of _ "svc_metrics (svc w)"]) simp_all

lemma after_calls_refl: "after_calls 0 w w"
  using after_calls_rand [of w "rand_pos w"] by simp

lemma after_calls_trans: "after_calls j u v \<Longrightarrow> after_calls k v w \<Longrightarrow> after_calls (j + k) u w"
  by (auto simp: after_calls_def algebra_simps; metis)

lemma after_calls_attempt:
  assumes "reserve_attempt c inp w = (err, w')"
  shows "after_calls 1 w w'"
proof -
  obtain t d where r: "reserve (ties w (tie_pos w)) (with_timeout c (clock w) (250 * millisecond)) (clock w)
      (in_event_id inp) (in_quantity inp) (svc_dependency (svc w)) = ((err, t), d)"
    using assms by (auto simp: reserve_attempt_def Let_def split: prod.splits)
  have "d = (svc_dependency (svc w))\<lparr>sim_calls := sim_calls (svc_dependency (svc w)) + 1\<rparr>"
    using arg_cong [OF r, of snd] by simp
  moreover have "clock w \<le> t" using arg_cong [OF r, of "snd \<circ> fst"] reserve_time(1) by (metis comp_apply snd_conv fst_conv)
  moreover obtain mx where "w' = w\<lparr>clock := t, tie_pos := Suc (tie_pos w), svc := (svc w)\<lparr>svc_dependency := d, svc_metrics := mx\<rparr>\<rparr>"
      "order_requests mx = order_requests (svc_metrics (svc w))"
    using assms r by (auto simp: reserve_attempt_def count_dependency_def Let_def)
  ultimately show ?thesis by (auto simp: after_calls_def)
qed

lemma after_calls_sleep: "sleep_context c w d = (err, w') \<Longrightarrow> after_calls 0 w w'"
  using select_timer_time(1) [of "clock w" "ties w (tie_pos w)" c d]
  by (auto simp: sleep_context_def intro!: after_calls_env split: prod.splits)

text \<open>The retry loop with the service's policy: at most three attempts, with delays in between.\<close>

lemma reserve_retry_induct:
  assumes start: "I 0 w"
    and dead: "\<And>a v e. I a v \<Longrightarrow> ctx_err c (clock v) = Some e \<Longrightarrow> Q (Some e) v"
    and success: "\<And>a v v1. I a v \<Longrightarrow> a < 3 \<Longrightarrow> reserve_attempt c inp v = (None, v1) \<Longrightarrow> Q None v1"
    and stop: "\<And>a v v1 e. I a v \<Longrightarrow> a < 3 \<Longrightarrow> reserve_attempt c inp v = (Some e, v1) \<Longrightarrow>
        a = 2 \<or> errors_is e CtxCanceled \<Longrightarrow> Q (Some e) v1"
    and broken: "\<And>a v v1 e v2 d e' v3. I a v \<Longrightarrow> a < 2 \<Longrightarrow> reserve_attempt c inp v = (Some e, v1) \<Longrightarrow>
        v2 \<in> {v1, v1\<lparr>rand_pos := Suc (rand_pos v1)\<rparr>} \<Longrightarrow>
        (0 \<le> rands v1 (rand_pos v1) \<and> rands v1 (rand_pos v1) \<le> 1 \<longrightarrow> 0 \<le> d \<and> d \<le> 140 * millisecond) \<Longrightarrow>
        sleep_context c v2 d = (Some e', v3) \<Longrightarrow> Q (Some e') v3"
    and again: "\<And>a v v1 e v2 d v3. I a v \<Longrightarrow> a < 2 \<Longrightarrow> reserve_attempt c inp v = (Some e, v1) \<Longrightarrow>
        v2 \<in> {v1, v1\<lparr>rand_pos := Suc (rand_pos v1)\<rparr>} \<Longrightarrow>
        (0 \<le> rands v1 (rand_pos v1) \<and> rands v1 (rand_pos v1) \<le> 1 \<longrightarrow> 0 \<le> d \<and> d \<le> 140 * millisecond) \<Longrightarrow>
        sleep_context c v2 d = (None, v3) \<Longrightarrow> I (Suc a) v3"
  shows "Q (fst (reserve_with_retry c inp w)) (snd (reserve_with_retry c inp w))"
proof -
  let ?rt = "service_runtime c w"
  let ?op = "\<lambda>s. case reserve_attempt c inp s of (Some e, s') \<Rightarrow> (Inl e, s') | (None, s') \<Rightarrow> (Inr (), s')"
  let ?ok = "\<lambda>e. \<not> errors_is e CtxCanceled"
  let ?rnd = "\<lambda>w. (rands w (rand_pos w), w\<lparr>rand_pos := Suc (rand_pos w)\<rparr>)"
  let ?R = "\<lambda>(r, v). Q (case r of Inl e \<Rightarrow> Some e | Inr _ \<Rightarrow> None) v"
  have att: "attempts service_policy = 3" by (simp add: service_policy_def)
  have opS: "?op v = (Inr x, v1) \<longleftrightarrow> reserve_attempt c inp v = (None, v1)" for v x v1
    by (auto split: prod.splits option.splits)
  have opF: "?op v = (Inl e, v1) \<longleftrightarrow> reserve_attempt c inp v = (Some e, v1)" for v e v1
    by (auto split: prod.splits option.splits)
  have delay: "v2 \<in> {v1, v1\<lparr>rand_pos := Suc (rand_pos v1)\<rparr>}"
      "0 \<le> rands v1 (rand_pos v1) \<and> rands v1 (rand_pos v1) \<le> 1 \<longrightarrow> 0 \<le> d \<and> d \<le> 140 * millisecond"
    if "retry_delay (rt_out_of_range ?rt) service_policy ?rnd n v1 = (d, v2)" for n v1 d v2
  proof -
    show "v2 \<in> {v1, v1\<lparr>rand_pos := Suc (rand_pos v1)\<rparr>}"
      using retry_delay_state [of "rt_out_of_range ?rt" service_policy ?rnd n v1] that by simp
    have "max_delay service_policy = 140 * millisecond" "max_delay service_policy \<le> 2 ^ 61"
      by (simp_all add: service_policy_def millisecond_def)
    then show "0 \<le> rands v1 (rand_pos v1) \<and> rands v1 (rand_pos v1) \<le> 1 \<longrightarrow> 0 \<le> d \<and> d \<le> 140 * millisecond"
      using retry_delay_bounds [OF service_policy_valid, of ?rnd v1 "rt_out_of_range ?rt" n] that by simp
  qed
  have "?R (retry_loop ?rt service_policy ?ok ?rnd (sleep_context c) ?op 0 w)"
  proof (rule retry_loop_invariant [where I = "\<lambda>a v. 0 \<le> a \<and> I (nat a) v"], goal_cases)
    case 1
    then show ?case by (simp add: att)
  next
    case 2
    then show ?case using start by simp
  next
    case (3 a s e)
    then show ?case using dead by (auto simp: service_runtime_def)
  next
    case (4 a s v s1)
    then show ?case using success [of "nat a" s s1] by (simp add: att opS)
  next
    case (5 a s e s1)
    then show ?case using stop [of "nat a" s e s1] by (auto simp: att opF)
  next
    case (6 a s e s1 d s2 e' s3)
    then show ?case
      using broken [of "nat a" s e s1 s2 d e' s3] delay [OF 6(6)] by (simp add: att opF)
  next
    case (7 a s e s1 d s2 s3)
    then show ?case
      using again [of "nat a" s e s1 s2 d s3] delay [OF 7(6)] by (simp add: att opF nat_add_distrib)
  qed
  moreover have "reserve_with_retry c inp w =
      (case retry_loop ?rt service_policy ?ok ?rnd (sleep_context c) ?op 0 w of
         (Inl e, s') \<Rightarrow> (Some e, s') | (Inr _, s') \<Rightarrow> (None, s'))"
    by (simp add: reserve_with_retry_def retry_def retry_value_valid [OF service_policy_valid])
      (simp add: service_policy_def service_runtime_def)
  ultimately show ?thesis by (auto split: prod.splits sum.splits)
qed

lemma after_calls_next:
  "after_calls a w v \<Longrightarrow> reserve_attempt c inp v = (r, v1) \<Longrightarrow> after_calls (Suc a) w v1"
  using after_calls_trans [of a w v 1 v1] after_calls_attempt [of c inp v r v1] by simp

lemma after_calls_pause:
  assumes "after_calls a w v1" and "v2 \<in> {v1, v1\<lparr>rand_pos := Suc (rand_pos v1)\<rparr>}"
    and "sleep_context c v2 d = (r, v3)"
  shows "after_calls a w v3"
proof -
  have "after_calls 0 v1 v2" using assms(2) after_calls_refl after_calls_rand by blast
  then have "after_calls (a + 0 + 0) w v3"
    using assms(1,3) after_calls_trans after_calls_sleep by meson
  then show ?thesis by simp
qed

lemma retry_calls:
  "\<exists>k \<le> 3. after_calls k w (snd (reserve_with_retry c inp w)) \<and>
     (fst (reserve_with_retry c inp w) = None \<longrightarrow> 0 < k)"
proof (rule reserve_retry_induct [where I = "\<lambda>a v. a \<le> 3 \<and> after_calls a w v" and
      Q = "\<lambda>r v. \<exists>k \<le> 3. after_calls k w v \<and> (r = None \<longrightarrow> 0 < k)"], goal_cases)
  case 1
  then show ?case by (simp add: after_calls_refl)
next
  case (2 a v e)
  then show ?case by blast
next
  case (3 a v v1)
  then show ?case using after_calls_next [of a w v c inp None v1] by (intro exI [of _ "Suc a"]) simp
next
  case (4 a v v1 e)
  then show ?case using after_calls_next [of a w v c inp "Some e" v1] by (intro exI [of _ "Suc a"]) simp
next
  case (5 a v v1 e v2 d e' v3)
  then show ?case
    using after_calls_pause [OF after_calls_next [OF _ 5(3)] 5(4,6)] by (intro exI [of _ "Suc a"]) simp
next
  case (6 a v v1 e v2 d v3)
  then show ?case
    using after_calls_pause [OF after_calls_next [OF _ 6(3)] 6(4,6)] by simp
qed

text \<open>Three attempts of at most a quarter second and two delays of at most 140 ms.\<close>

lemma attempt_time:
  assumes "reserve_attempt c inp v = (r, v1)"
  shows "clock v1 \<le> clock v + 250 * millisecond" "rands v1 = rands v"
  using assms reserve_time_capped [of "250 * millisecond" "ties v (tie_pos v)" c "clock v" "in_event_id inp"
      "in_quantity inp" "svc_dependency (svc v)"] after_calls_attempt [OF assms]
  by (auto simp: reserve_attempt_def Let_def millisecond_def after_calls_def split: prod.splits)

lemma sleep_time:
  assumes "sleep_context c v d = (r, v1)" and "0 \<le> d"
  shows "clock v1 \<le> clock v + d" "rands v1 = rands v"
  using assms select_timer_time(2) [of "ties v (tie_pos v)" c "clock v" d]
  by (auto simp: sleep_context_def split: prod.splits)

lemma retry_time:
  assumes rnd: "\<And>i. 0 \<le> rands w i \<and> rands w i \<le> 1"
  shows "clock (snd (reserve_with_retry c inp w)) \<le> clock w + 1030 * millisecond"
proof (rule reserve_retry_induct [where Q = "\<lambda>r v. clock v \<le> clock w + 1030 * millisecond" and
      I = "\<lambda>a v. a \<le> 2 \<and> rands v = rands w \<and> clock v \<le> clock w + int a * (390 * millisecond)"], goal_cases)
  case 1
  then show ?case by simp
next
  case (2 a v e)
  then have "int a * (390 * millisecond) \<le> 2 * (390 * millisecond)"
    by (intro mult_right_mono) (simp_all add: millisecond_def)
  then show ?case using 2 by (simp add: millisecond_def)
next
  case (3 a v v1)
  then have "int a * (390 * millisecond) \<le> 2 * (390 * millisecond)"
    by (intro mult_right_mono) (simp_all add: millisecond_def)
  then show ?case using 3 attempt_time(1) [OF 3(3)] by (simp add: millisecond_def)
next
  case (4 a v v1 e)
  then have "int a * (390 * millisecond) \<le> 2 * (390 * millisecond)"
    by (intro mult_right_mono) (simp_all add: millisecond_def)
  then show ?case using 4 attempt_time(1) [OF 4(3)] by (simp add: millisecond_def)
next
  case (5 a v v1 e v2 d e' v3)
  note at = attempt_time [OF 5(3)]
  have d: "0 \<le> d" "d \<le> 140 * millisecond" using 5(1,5) at(2) rnd by auto
  have "clock v2 = clock v1" using 5(4) by auto
  with sleep_time(1) [OF 5(6) d(1)] at(1) d(2) 5(1,2) show ?case
    by (cases a) (auto simp: millisecond_def)
next
  case (6 a v v1 e v2 d v3)
  note at = attempt_time [OF 6(3)]
  have d: "0 \<le> d" "d \<le> 140 * millisecond" using 6(1,5) at(2) rnd by auto
  have "clock v2 = clock v1" "rands v2 = rands v1" using 6(4) by auto
  with sleep_time [OF 6(6) d(1)] at d(2) 6(1,2) show ?case
    by (auto simp: millisecond_def algebra_simps)
qed

text \<open>The dependency decides: it cannot be reached in two modes, and answers in the other two.\<close>

lemma attempt_fails:
  assumes "reserve_attempt c inp v = (r, v1)" and "sim_mode (svc_dependency (svc v)) \<in> {mode_slow, mode_unavailable}"
  shows "r \<noteq> None"
  using assms reserve_unavailable [of "svc_dependency (svc v)"] reserve_slow_timeout [of "svc_dependency (svc v)"]
  by (auto simp: reserve_attempt_def Let_def split: prod.splits) (metis fst_conv)+

lemma after_calls_mode: "after_calls k v w \<Longrightarrow> sim_mode (svc_dependency (svc w)) = sim_mode (svc_dependency (svc v))"
  by (auto simp: after_calls_def)

lemma retry_fails:
  assumes mode: "sim_mode (svc_dependency (svc w)) \<in> {mode_slow, mode_unavailable}"
  shows "fst (reserve_with_retry c inp w) \<noteq> None"
proof (rule reserve_retry_induct [where Q = "\<lambda>r v. r \<noteq> None" and
      I = "\<lambda>a v. sim_mode (svc_dependency (svc v)) = sim_mode (svc_dependency (svc w))"], goal_cases)
  case (3 a v v1)
  then show ?case using attempt_fails [OF 3(3)] mode by simp
next
  case (6 a v v1 e v2 d v3)
  have "after_calls 0 v1 v2" using 6(4) after_calls_refl after_calls_rand by blast
  then show ?case
    using 6(1) after_calls_mode [OF after_calls_attempt [OF 6(3)]] after_calls_mode
      after_calls_mode [OF after_calls_sleep [OF 6(6)]] by simp
qed simp_all

text \<open>
  A caller that nobody cancels: a healthy dependency answers the first attempt, a flaky one at the
  latest the third, because one of three calls in a row has a number divisible by three.
\<close>

lemma attempt_undisturbed:
  assumes "reserve_attempt c inp v = (r, v1)" and "done_at c = None"
    and "sim_mode (svc_dependency (svc v)) = m" "m \<in> {mode_healthy, mode_flaky}"
  shows "r = (if m = mode_flaky \<and> (sim_calls (svc_dependency (svc v)) + 1) mod 3 \<noteq> 0 then Some ErrUnavailable else None)"
proof -
  have "fst (reserve (ties v (tie_pos v)) (with_timeout c (clock v) (250 * millisecond)) (clock v) (in_event_id inp)
      (in_quantity inp) (svc_dependency (svc v))) =
    (if m = mode_unavailable \<or> m = mode_flaky \<and> (sim_calls (svc_dependency (svc v)) + 1) mod 3 \<noteq> 0
     then Some ErrUnavailable else None, clock v + reserve_delay m)"
    using assms(4) by (subst reserve_undisturbed) (auto simp: assms(2,3))
  moreover obtain t d where "reserve (ties v (tie_pos v)) (with_timeout c (clock v) (250 * millisecond)) (clock v)
      (in_event_id inp) (in_quantity inp) (svc_dependency (svc v)) = ((r, t), d)"
    using assms(1) by (auto simp: reserve_attempt_def Let_def split: prod.splits)
  ultimately show ?thesis using assms(4) by auto
qed

lemma sleep_undisturbed: "done_at c = None \<Longrightarrow> fst (sleep_context c v d) = None"
  by (simp add: sleep_context_def select_timer_def split: prod.splits)

lemma after_calls_count:
  "after_calls k v w \<Longrightarrow> sim_calls (svc_dependency (svc w)) = sim_calls (svc_dependency (svc v)) + of_nat k"
  by (auto simp: after_calls_def)

lemma retry_succeeds:
  assumes ctx: "done_at c = None" and mode: "sim_mode (svc_dependency (svc w)) \<in> {mode_healthy, mode_flaky}"
    and wrap: "unat (sim_calls (svc_dependency (svc w))) + 3 < 2 ^ 64"
  shows "fst (reserve_with_retry c inp w) = None"
proof -
  let ?n = "sim_calls (svc_dependency (svc w))" and ?m = "sim_mode (svc_dependency (svc w))"
  have alive: "ctx_err c t = None" for t using ctx by (simp add: ctx_err_def)
  have outcome: "?m = mode_flaky \<and> (?n + of_nat (Suc a)) mod 3 \<noteq> 0 \<and> e = ErrUnavailable"
    if "after_calls a w v" "reserve_attempt c inp v = (Some e, v1)" for a v v1 e
    using attempt_undisturbed [OF that(2) ctx refl] mode after_calls_mode [OF that(1)] after_calls_count [OF that(1)]
    by (auto simp: algebra_simps split: if_splits)
  show ?thesis
  proof (rule reserve_retry_induct [where Q = "\<lambda>r v. r = None" and
        I = "\<lambda>a v. after_calls a w v \<and> (\<forall>j < a. (?n + of_nat (Suc j)) mod 3 \<noteq> 0)"], goal_cases)
    case 1
    then show ?case by (simp add: after_calls_refl)
  next
    case (2 a v e)
    then show ?case using alive by simp
  next
    case (4 a v v1 e)
    with outcome [of a v e v1] have o: "(?n + of_nat (Suc a)) mod 3 \<noteq> 0" "e = ErrUnavailable" by auto
    with 4(4) have "a = 2" by simp
    have "(?n + of_nat (Suc j)) mod 3 \<noteq> 0" if "j < 3" for j
    proof (cases "j = 2")
      case True
      then show ?thesis using o(1) \<open>a = 2\<close> by simp
    next
      case False
      then show ?thesis using 4(1) \<open>a = 2\<close> that by simp
    qed
    from this [of 0] this [of 1] this [of 2] three_calls [OF wrap] show ?case by simp
  next
    case (5 a v v1 e v2 d e' v3)
    then show ?case using sleep_undisturbed [OF ctx, of v2 d] by simp
  next
    case (6 a v v1 e v2 d v3)
    have new: "(?n + of_nat (Suc a)) mod 3 \<noteq> 0"
      by (rule conjunct1 [OF conjunct2 [OF outcome [OF conjunct1 [OF 6(1)] 6(3)]]])
    have "(?n + of_nat (Suc j)) mod 3 \<noteq> 0" if "j < Suc a" for j
    proof (cases "j = a")
      case True
      show ?thesis unfolding True by (rule new)
    next
      case False
      then have "j < a" using that by simp
      then show ?thesis by (rule mp [OF spec [OF conjunct2 [OF 6(1)]]])
    qed
    then have "\<forall>j < Suc a. (?n + of_nat (Suc j)) mod 3 \<noteq> 0" by blast
    moreover have "after_calls (Suc a) w v3"
      using 6(1) after_calls_pause [OF after_calls_next [OF _ 6(3)] 6(4,6)] by blast
    ultimately show ?case by blast
  qed simp
qed

section \<open>The breaker around it\<close>

lemma after_calls_breaker: "after_calls k w w' \<Longrightarrow> svc_breaker (svc w') = svc_breaker (svc w)"
  by (auto simp: after_calls_def)

text \<open>A refused request makes no call; an admitted one reports its outcome at the end.\<close>

lemma guarded_refused:
  assumes "before_request (clock w) (svc_breaker (svc w)) = (None, b)"
  shows "guarded_reserve c inp w = (Some ErrCircuitOpen, w\<lparr>svc := (svc w)\<lparr>svc_breaker := b\<rparr>\<rparr>)"
  using assms by (simp add: guarded_reserve_def execute_def)

lemma guarded_admitted:
  assumes "before_request (clock w) (svc_breaker (svc w)) = (Some tk, b)"
    and "reserve_with_retry c inp w = (err, w')"
  shows "guarded_reserve c inp w =
    (err, w'\<lparr>svc := (svc w')\<lparr>svc_breaker := after_request (clock w') tk (err = None) b\<rparr>\<rparr>)"
  using assms by (simp add: guarded_reserve_def execute_def)

lemma guarded_breaker:
  "svc_breaker (svc (snd (guarded_reserve c inp w))) =
     breaker_call (clock w) (clock (snd (reserve_with_retry c inp w))) (fst (reserve_with_retry c inp w) = None)
       (svc_breaker (svc w))"
proof -
  obtain err b w' where "execute clock (reserve_with_retry c inp) (svc_breaker (svc w)) w = (err, b, w')"
    by (rule prod_cases3)
  then show ?thesis
    using execute_breaker [of clock "reserve_with_retry c inp" "svc_breaker (svc w)" w]
    by (simp add: guarded_reserve_def)
qed

text \<open>What a whole reservation may change: as \<open>after_calls\<close>, and the breaker.\<close>

definition reserved :: "nat \<Rightarrow> world \<Rightarrow> world \<Rightarrow> bool" where
  "reserved k w w' \<longleftrightarrow>
     (\<exists>mx b. order_requests mx = order_requests (svc_metrics (svc w)) \<and>
        svc w' = (svc w)\<lparr>svc_dependency := (svc_dependency (svc w))
          \<lparr>sim_calls := sim_calls (svc_dependency (svc w)) + of_nat k\<rparr>, svc_breaker := b, svc_metrics := mx\<rparr>) \<and>
     clock w \<le> clock w' \<and> rands w' = rands w \<and> ties w' = ties w \<and> id_bytes w' = id_bytes w \<and>
     id_pos w' = id_pos w \<and> out_of_range w' = out_of_range w"

lemma reserved_breaker:
  assumes "after_calls k w w'"
  shows "reserved k w (w'\<lparr>svc := (svc w')\<lparr>svc_breaker := b\<rparr>\<rparr>)"
proof -
  from assms obtain mx where "order_requests mx = order_requests (svc_metrics (svc w))"
    "svc w' = (svc w)\<lparr>svc_dependency := (svc_dependency (svc w))
       \<lparr>sim_calls := sim_calls (svc_dependency (svc w)) + of_nat k\<rparr>, svc_metrics := mx\<rparr>"
    by (auto simp: after_calls_def)
  then show ?thesis
    using assms unfolding reserved_def by (intro conjI exI [of _ mx] exI [of _ b]) (simp_all add: after_calls_def)
qed

lemma guarded_calls:
  obtains k where "k \<le> 3" "reserved k w (snd (guarded_reserve c inp w))"
    "fst (guarded_reserve c inp w) = None \<longrightarrow> 0 < k"
    "fst (guarded_reserve c inp w) = Some ErrCircuitOpen \<or> fst (guarded_reserve c inp w) = fst (reserve_with_retry c inp w)"
proof (cases "before_request (clock w) (svc_breaker (svc w))")
  case (Pair tk b)
  show thesis
  proof (cases tk)
    case None
    have "reserved 0 w (w\<lparr>svc := (svc w)\<lparr>svc_breaker := b\<rparr>\<rparr>)"
      using after_calls_refl by (rule reserved_breaker)
    with guarded_refused [of w b c inp] Pair None that [of 0] show thesis by simp
  next
    case (Some t)
    obtain err w' where r: "reserve_with_retry c inp w = (err, w')" by fastforce
    obtain k where k: "k \<le> 3" "after_calls k w w'" "err = None \<longrightarrow> 0 < k"
      using retry_calls [of w c inp] r by auto
    have "reserved k w (w'\<lparr>svc := (svc w')\<lparr>svc_breaker := b'\<rparr>\<rparr>)" for b'
      using k(2) by (rule reserved_breaker)
    with guarded_admitted [of w t b c inp err w'] Pair Some r k that [of k] show thesis by simp
  qed
qed

section \<open>Placing an order\<close>

lemma reservedD:
  assumes "reserved k w w'"
  shows "svc_store (svc w') = svc_store (svc w)" "svc_idempotency (svc w') = svc_idempotency (svc w)"
    "svc_started (svc w') = svc_started (svc w)" "orders_total (svc w') = orders_total (svc w)"
    "orders_succeeded (svc w') = orders_succeeded (svc w)" "orders_failed (svc w') = orders_failed (svc w)"
    "duplicates_suppressed (svc w') = duplicates_suppressed (svc w)" "rate_limited (svc w') = rate_limited (svc w)"
    "samples (svc w') = samples (svc w)" "clock w \<le> clock w'"
    "sim_mode (svc_dependency (svc w')) = sim_mode (svc_dependency (svc w))"
    "sim_calls (svc_dependency (svc w')) = sim_calls (svc_dependency (svc w)) + of_nat k"
  using assms by (auto simp: reserved_def)

lemma sync_shape:
  obtains mx where "sync_circuit_metric w = w\<lparr>svc := (svc w)\<lparr>
      svc_breaker := snd (breaker_state (clock w) (svc_breaker (svc w))), svc_metrics := mx\<rparr>\<rparr>"
    "order_requests mx = order_requests (svc_metrics (svc w))"
proof -
  have "sync_circuit_metric w = w\<lparr>svc := (svc w)\<lparr>svc_breaker := snd (breaker_state (clock w) (svc_breaker (svc w))),
      svc_metrics := (svc_metrics (svc w))\<lparr>circuit_gauge := circuit_value (fst (breaker_state (clock w) (svc_breaker (svc w))))\<rparr>\<rparr>\<rparr>"
    by (simp add: sync_circuit_metric_def service_circuit_def sync_circuit_metric_state_def split: prod.splits)
  then show thesis by (rule that) simp
qed

lemma reserved_sync:
  assumes "reserved k w w'"
  shows "reserved k w (sync_circuit_metric w')"
proof -
  obtain mx where mx: "sync_circuit_metric w' = w'\<lparr>svc := (svc w')\<lparr>
      svc_breaker := snd (breaker_state (clock w') (svc_breaker (svc w'))), svc_metrics := mx\<rparr>\<rparr>"
    "order_requests mx = order_requests (svc_metrics (svc w'))"
    by (rule sync_shape)
  from assms obtain nx b where "order_requests nx = order_requests (svc_metrics (svc w))"
    "svc w' = (svc w)\<lparr>svc_dependency := (svc_dependency (svc w))
       \<lparr>sim_calls := sim_calls (svc_dependency (svc w)) + of_nat k\<rparr>, svc_breaker := b, svc_metrics := nx\<rparr>"
    by (auto simp: reserved_def)
  with mx(2) show ?thesis
    using assms unfolding mx(1) reserved_def
    by (intro conjI exI [of _ mx] exI [of _ "snd (breaker_state (clock w') (svc_breaker (svc w')))"]) simp_all
qed

lemma place_order_cases:
  obtains (failed) k e where "k \<le> 3" "reserved k w (snd (place_order c t inp w))"
      "fst (place_order c t inp w) = Inl (WrapDependency e)" "fst (guarded_reserve c inp w) = Some e"
  | (placed) k w2 oid where "0 < k" "k \<le> 3" "reserved k w w2" "fst (guarded_reserve c inp w) = None"
      "place_order c t inp w =
        (Inr (fst (save (clock w2) (fresh_order oid t inp) ''order.confirmed'' (svc_store (svc w)))),
         w2\<lparr>id_pos := Suc (id_pos w2), svc := (svc w2)\<lparr>svc_store :=
           snd (save (clock w2) (fresh_order oid t inp) ''order.confirmed'' (svc_store (svc w)))\<rparr>\<rparr>)"
      "oid = fst (new_id w2)"
proof -
  obtain err w1 where g: "guarded_reserve c inp w = (err, w1)" by fastforce
  obtain k where k: "k \<le> 3" "reserved k w w1" "err = None \<longrightarrow> 0 < k"
    using guarded_calls [of w c inp] g by auto
  have r: "reserved k w (sync_circuit_metric w1)" using k(2) by (rule reserved_sync)
  show thesis
  proof (cases err)
    case (Some e)
    then show thesis using g k r by (intro failed [of k e]) (simp_all add: place_order_def Let_def)
  next
    case None
    let ?w2 = "sync_circuit_metric w1"
    obtain oid where "new_id ?w2 = (oid, ?w2\<lparr>id_pos := Suc (id_pos ?w2)\<rparr>)" by (simp add: new_id_def)
    then show thesis using None g k r reservedD(1) [OF r]
      by (intro placed [of k ?w2 oid]) (simp_all add: place_order_def Let_def split: prod.splits)
  qed
qed

section \<open>One request\<close>

text \<open>A registry without an operation in flight, as it is between requests that run one by one.\<close>

definition settled :: "'v registry \<Rightarrow> bool" where
  "settled r \<longleftrightarrow> (\<forall>now sc p f. slot_view r now sc \<noteq> Running p f)"

lemma settledD: "settled r \<Longrightarrow> slot_view r now sc \<noteq> Running p f"
  unfolding settled_def by blast

lemma settled_cases:
  assumes "settled r"
  obtains (vacant) "slot_view r now sc = Vacant" | (cached) p f v where "slot_view r now sc = Done p f v"
  using assms unfolding settled_def by (cases "slot_view r now sc") blast+

definition counted :: "world \<Rightarrow> world" where
  "counted w = w\<lparr>svc := (svc w)\<lparr>orders_total := orders_total (svc w) + 1\<rparr>\<rparr>"

lemma counted_simps [simp]:
  "clock (counted w) = clock w" "svc_idempotency (svc (counted w)) = svc_idempotency (svc w)"
  "svc_store (svc (counted w)) = svc_store (svc w)" "svc_dependency (svc (counted w)) = svc_dependency (svc w)"
  "svc_breaker (svc (counted w)) = svc_breaker (svc w)" "samples (svc (counted w)) = samples (svc w)"
  "svc_metrics (svc (counted w)) = svc_metrics (svc w)" "rands (counted w) = rands w"
  "orders_total (svc (counted w)) = orders_total (svc w) + 1"
  "orders_succeeded (svc (counted w)) = orders_succeeded (svc w)"
  "orders_failed (svc (counted w)) = orders_failed (svc w)"
  "duplicates_suppressed (svc (counted w)) = duplicates_suppressed (svc w)"
  by (simp_all add: counted_def)

lemma create_invalid:
  "\<not> valid_input t k inp \<Longrightarrow> create_order c t k inp w =
     Some (Inl WrapInvalidInput, order_refused (clock w) ''invalid'' (counted w))"
  by (simp add: create_order_def counted_def)

definition registry_after :: "string \<Rightarrow> string \<Rightarrow> create_order_input \<Rightarrow> world \<Rightarrow> go_error + order \<Rightarrow> gotime \<Rightarrow> order registry" where
  "registry_after t k inp w res now =
     do_finish now (t, k) (next_entry (svc_idempotency (svc w))) res
       (snd (do_enter (clock w) (t, k) (request_fingerprint inp) (svc_idempotency (svc w))))"

lemma create_vacant:
  assumes "valid_input t k inp" and "registry_ok (svc_idempotency (svc w))"
    and "slot_view (svc_idempotency (svc w)) (clock w) (t, k) = Vacant"
    and "place_order c t inp (counted w) = (res, w1)"
  shows "create_order c t k inp w =
    (let w2 = w1\<lparr>svc := (svc w1)\<lparr>svc_idempotency := registry_after t k inp w res (clock w1)\<rparr>\<rparr>
     in Some (case res of
          Inl e \<Rightarrow> (Inl e, order_refused (clock w) (if errors_is e ErrIdempotencyConflict then ''conflict'' else ''failed'') w2)
        | Inr ord \<Rightarrow> (Inr \<lparr>cr_order = ord, cr_replayed = False\<rparr>, record_sample (clock w) False (order_placed w2))))"
proof -
  have "fst (do_enter (clock w) (t, k) (request_fingerprint inp) (svc_idempotency (svc w))) =
      Lead (next_entry (svc_idempotency (svc w)))"
    using assms(2,3) by (simp add: enter_decision)
  then have "do_with_fingerprint clock (ctx_end c) (t, k) (request_fingerprint inp) (place_order c t inp)
      (svc_idempotency (svc w)) (counted w) = Some (res, False, registry_after t k inp w res (clock w1), w1)"
    using do_with_lead [of clock "counted w" "(t, k)" "request_fingerprint inp" "svc_idempotency (svc w)"] assms(4)
    by (simp add: registry_after_def)
  then show ?thesis
    using assms(1) by (simp add: create_order_def Let_def counted_def [symmetric] split: sum.splits)
qed

lemma create_cached:
  assumes "valid_input t k inp" and "registry_ok (svc_idempotency (svc w))"
    and "slot_view (svc_idempotency (svc w)) (clock w) (t, k) = Done p f ord"
  shows "create_order c t k inp w =
    (let r = snd (do_enter (clock w) (t, k) (request_fingerprint inp) (svc_idempotency (svc w)));
         w2 = (counted w)\<lparr>svc := (svc (counted w))\<lparr>svc_idempotency := r\<rparr>\<rparr>
     in Some (if f \<noteq> request_fingerprint inp
       then (Inl ErrIdempotencyConflict, order_refused (clock w) ''conflict'' w2)
       else (Inr \<lparr>cr_order = ord, cr_replayed = True\<rparr>, record_sample (clock w) False (order_replayed w2))))"
proof -
  note replay = do_with_replay [where clk = clock and s = "counted w" and r = "svc_idempotency (svc w)" and sc = "(t, k)"
      and fq = "request_fingerprint inp" and ctx_end = "ctx_end c" and operation = "place_order c t inp"]
  have "slot_view (svc_idempotency (svc w)) (clock (counted w)) (t, k) = Done p f ord" using assms(3) by simp
  then have "do_with_fingerprint clock (ctx_end c) (t, k) (request_fingerprint inp) (place_order c t inp)
      (svc_idempotency (svc w)) (counted w) =
    Some (if f \<noteq> request_fingerprint inp
      then (Inl ErrIdempotencyConflict, False, snd (do_enter (clock w) (t, k) (request_fingerprint inp) (svc_idempotency (svc w))), counted w)
      else (Inr ord, True, snd (do_enter (clock w) (t, k) (request_fingerprint inp) (svc_idempotency (svc w))), counted w))"
    using replay assms(2) by simp
  then show ?thesis
    using assms(1) by (simp add: create_order_def Let_def counted_def [symmetric])
qed

text \<open>An operation in flight is seen as such at every time, and entering or finishing leaves none behind.\<close>

lemma running_any_time:
  assumes "registry_ok r" and "slot_view r t sc = Running p f"
  shows "slot_view r t' sc = Running p f"
proof -
  obtain e where e: "map_of (entries r) sc = Some p" "heap r p = Some e" "outcome e = None" "fingerprint e = f"
    using slot_view_Running [OF assms(2)] by blast
  obtain e' where "heap r p = Some e'" "case outcome e' of None \<Rightarrow> expires_at e' = 0 | Some res \<Rightarrow> \<not> isl res \<and> 0 < expires_at e'"
    using registry_ok_entry [OF assms(1) e(1)] by blast
  with e show ?thesis by (simp add: slot_view_def entry_expired_def time_is_zero_def)
qed

lemma settled_after:
  assumes "registry_ok r" and "\<And>now' sc. now \<le> now' \<Longrightarrow> \<forall>p f. slot_view r now' sc \<noteq> Running p f"
  shows "settled r"
  unfolding settled_def
proof (intro allI notI)
  fix t sc p f assume "slot_view r t sc = Running p f"
  then have "slot_view r (max now t) sc = Running p f" by (rule running_any_time [OF assms(1)])
  with assms(2) [of "max now t" sc] show False by simp
qed

lemma settled_enter:
  assumes "registry_ok r" and "settled r" and "fst (do_enter now sc fp r) \<noteq> Lead (next_entry r)"
  shows "settled (snd (do_enter now sc fp r))"
proof (rule settled_after [OF registry_ok_enter [OF assms(1)]])
  fix now' sc' assume "now \<le> now'"
  then show "\<forall>p f. slot_view (snd (do_enter now sc fp r)) now' sc' \<noteq> Running p f"
    using assms(2,3) by (simp add: enter_view [OF assms(1)] settledD)
qed

lemma registry_after_facts:
  fixes w :: world
  defines "r \<equiv> svc_idempotency (svc w)"
  assumes ok: "registry_ok r" and set: "settled r" and vac: "slot_view r (clock w) (t, k) = Vacant" and now: "0 \<le> now"
  shows "registry_ok (registry_after t k inp w res now)" "settled (registry_after t k inp w res now)"
    "ttl (registry_after t k inp w res now) = ttl r"
    "slot_view (registry_after t k inp w res now) now' (t, k) =
      (case res of Inl e \<Rightarrow> Vacant
       | Inr v \<Rightarrow> if now' < now + ttl r then Done (next_entry r) (request_fingerprint inp) v else Vacant)"
proof -
  let ?r1 = "snd (do_enter (clock w) (t, k) (request_fingerprint inp) r)"
  have lead: "fst (do_enter (clock w) (t, k) (request_fingerprint inp) r) = Lead (next_entry r)"
    using vac by (simp add: enter_decision [OF ok])
  have r1: "registry_ok ?r1" using ok by (rule registry_ok_enter)
  have run: "slot_view ?r1 (clock w) (t, k) = Running (next_entry r) (request_fingerprint inp)"
    using lead by (simp add: enter_view [OF ok])
  have ra: "registry_after t k inp w res now = do_finish now (t, k) (next_entry r) res ?r1"
    by (simp add: registry_after_def r_def)
  note fin = finish_view [OF r1 run now, of res]
  show ok2: "registry_ok (registry_after t k inp w res now)"
    unfolding ra using slot_view_Running [OF run] by (intro registry_ok_finish [OF r1 _ now]) blast
  show "ttl (registry_after t k inp w res now) = ttl r" by (simp add: ra)
  show "slot_view (registry_after t k inp w res now) now' (t, k) =
      (case res of Inl e \<Rightarrow> Vacant
       | Inr v \<Rightarrow> if now' < now + ttl r then Done (next_entry r) (request_fingerprint inp) v else Vacant)"
    unfolding ra fin by (simp split: sum.splits)
  show "settled (registry_after t k inp w res now)"
  proof (rule settled_after [OF ok2, of "clock w"])
    fix now' sc' assume "clock w \<le> now'"
    then show "\<forall>p f. slot_view (registry_after t k inp w res now) now' sc' \<noteq> Running p f"
      using set lead unfolding ra fin by (auto simp: enter_view [OF ok] settledD split: sum.splits)
  qed
qed

section \<open>The service invariant\<close>

definition breaker_configured :: "breaker \<Rightarrow> bool" where
  "breaker_configured b \<longleftrightarrow> breaker_ok b \<and> failure_threshold b = 3 \<and> open_timeout b = 4 * second \<and> \<not> half_open_probe b"

definition service_ok :: "world \<Rightarrow> bool" where
  "service_ok w \<longleftrightarrow> registry_ok (svc_idempotency (svc w)) \<and> settled (svc_idempotency (svc w)) \<and>
     ttl (svc_idempotency (svc w)) = 30 * minute \<and> breaker_configured (svc_breaker (svc w)) \<and> 0 \<le> clock w \<and>
     orders_total (svc w) = orders_succeeded (svc w) + orders_failed (svc w) + duplicates_suppressed (svc w) \<and>
     length (samples (svc w)) \<le> 40"

lemma service_okD:
  assumes "service_ok w"
  shows "registry_ok (svc_idempotency (svc w))" "settled (svc_idempotency (svc w))"
    "ttl (svc_idempotency (svc w)) = 30 * minute" "breaker_configured (svc_breaker (svc w))" "0 \<le> clock w"
    "orders_total (svc w) = orders_succeeded (svc w) + orders_failed (svc w) + duplicates_suppressed (svc w)"
    "length (samples (svc w)) \<le> 40"
  using assms by (simp_all add: service_ok_def)

lemma breaker_configured_state: "breaker_configured b \<Longrightarrow> breaker_configured (snd (breaker_state now b))"
  using breaker_ok_state [of b now] by (auto simp: breaker_configured_def breaker_state_def advance_state_def Let_def)

lemma breaker_configured_reset: "breaker_configured b \<Longrightarrow> breaker_configured (reset_breaker b)"
  using breaker_ok_reset [of b] by (simp add: breaker_configured_def reset_breaker_def)

text \<open>Between requests that run one by one no probe is in flight: each reports its outcome.\<close>

lemma breaker_configured_call:
  assumes "breaker_configured b"
  shows "breaker_configured (breaker_call t0 t1 ok b)"
proof -
  let ?b = "advance_state t0 b"
  have b: "breaker_ok b" "failure_threshold b = 3" "open_timeout b = 4 * second" "\<not> half_open_probe b"
    using assms by (simp_all add: breaker_configured_def)
  have a: "breaker_ok ?b" "failure_threshold ?b = 3" "open_timeout ?b = 4 * second" "\<not> half_open_probe ?b"
    using b breaker_ok_advance [of b t0] by (auto simp: advance_state_def)
  show ?thesis
  proof (cases "circuit ?b = StateOpen")
    case True
    then have "before_request t0 b = (None, ?b)" by (simp add: before_request_def Let_def)
    then show ?thesis using a by (simp add: breaker_call_def breaker_configured_def)
  next
    case False
    let ?t = "\<lparr>ticket_state = circuit ?b, ticket_generation = generation ?b\<rparr>"
    let ?b1 = "if circuit ?b = StateHalfOpen then ?b\<lparr>half_open_probe := True\<rparr> else ?b"
    have before: "before_request t0 b = (Some ?t, ?b1)" using False a by (simp add: before_request_def Let_def)
    have "breaker_ok ?b1" using breaker_ok_before [OF b(1), of t0] before by simp
    then have "breaker_ok (after_request t1 ?t ok ?b1)" using False by (intro breaker_ok_after) simp_all
    moreover have "failure_threshold (after_request t1 ?t ok ?b1) = 3" "open_timeout (after_request t1 ?t ok ?b1) = 4 * second"
      "\<not> half_open_probe (after_request t1 ?t ok ?b1)"
      using a by (auto simp: after_request_def open_circuit_def Let_def)
    ultimately show ?thesis using before by (simp add: breaker_call_def breaker_configured_def)
  qed
qed

lemma record_sample_shape:
  obtains xs where "record_sample st failed w = w\<lparr>svc := (svc w)\<lparr>samples := xs\<rparr>\<rparr>" "length xs \<le> 40"
  by (rule that [of "samples (svc (record_sample st failed w))"]) (simp_all add: record_sample_def Let_def)

lemma place_order_breaker:
  assumes "breaker_configured (svc_breaker (svc w))"
  shows "breaker_configured (svc_breaker (svc (snd (place_order c t inp w))))"
proof -
  obtain err w1 where g: "guarded_reserve c inp w = (err, w1)" by fastforce
  have "breaker_configured (svc_breaker (svc w1))"
    using guarded_breaker [of c inp w] breaker_configured_call [OF assms] g by simp
  then have "breaker_configured (svc_breaker (svc (sync_circuit_metric w1)))"
    using breaker_configured_state by (rule_tac sync_shape [of w1]) simp
  moreover have "svc_breaker (svc (snd (place_order c t inp w))) = svc_breaker (svc (sync_circuit_metric w1))"
    by (simp add: place_order_def g Let_def new_id_def split: option.splits prod.splits)
  ultimately show ?thesis by simp
qed

text \<open>The bookkeeping at the end of a request touches counters, metrics and samples only.\<close>

lemma sample_bookkeeping [simp]:
  "clock (record_sample st failed w) = clock w" "svc_store (svc (record_sample st failed w)) = svc_store (svc w)"
  "svc_dependency (svc (record_sample st failed w)) = svc_dependency (svc w)"
  "svc_breaker (svc (record_sample st failed w)) = svc_breaker (svc w)"
  "svc_idempotency (svc (record_sample st failed w)) = svc_idempotency (svc w)"
  "orders_total (svc (record_sample st failed w)) = orders_total (svc w)"
  "orders_succeeded (svc (record_sample st failed w)) = orders_succeeded (svc w)"
  "orders_failed (svc (record_sample st failed w)) = orders_failed (svc w)"
  "duplicates_suppressed (svc (record_sample st failed w)) = duplicates_suppressed (svc w)"
  "length (samples (svc (record_sample st failed w))) \<le> 40"
  by (simp_all add: record_sample_def Let_def)

lemma refused_bookkeeping [simp]:
  "clock (order_refused st r w) = clock w" "svc_store (svc (order_refused st r w)) = svc_store (svc w)"
  "svc_dependency (svc (order_refused st r w)) = svc_dependency (svc w)"
  "svc_breaker (svc (order_refused st r w)) = svc_breaker (svc w)"
  "svc_idempotency (svc (order_refused st r w)) = svc_idempotency (svc w)"
  "orders_total (svc (order_refused st r w)) = orders_total (svc w)"
  "orders_succeeded (svc (order_refused st r w)) = orders_succeeded (svc w)"
  "orders_failed (svc (order_refused st r w)) = orders_failed (svc w) + 1"
  "duplicates_suppressed (svc (order_refused st r w)) = duplicates_suppressed (svc w)"
  "length (samples (svc (order_refused st r w))) \<le> 40"
  by (simp_all add: order_refused_def count_order_def)

lemma success_bookkeeping [simp]:
  "clock (order_placed w) = clock w" "svc_store (svc (order_placed w)) = svc_store (svc w)"
  "svc_dependency (svc (order_placed w)) = svc_dependency (svc w)"
  "svc_breaker (svc (order_placed w)) = svc_breaker (svc w)"
  "svc_idempotency (svc (order_placed w)) = svc_idempotency (svc w)"
  "orders_total (svc (order_placed w)) = orders_total (svc w)"
  "orders_succeeded (svc (order_placed w)) = orders_succeeded (svc w) + 1"
  "orders_failed (svc (order_placed w)) = orders_failed (svc w)"
  "duplicates_suppressed (svc (order_placed w)) = duplicates_suppressed (svc w)"
  "clock (order_replayed w) = clock w" "svc_store (svc (order_replayed w)) = svc_store (svc w)"
  "svc_dependency (svc (order_replayed w)) = svc_dependency (svc w)"
  "svc_breaker (svc (order_replayed w)) = svc_breaker (svc w)"
  "svc_idempotency (svc (order_replayed w)) = svc_idempotency (svc w)"
  "orders_total (svc (order_replayed w)) = orders_total (svc w)"
  "orders_succeeded (svc (order_replayed w)) = orders_succeeded (svc w)"
  "orders_failed (svc (order_replayed w)) = orders_failed (svc w)"
  "duplicates_suppressed (svc (order_replayed w)) = duplicates_suppressed (svc w) + 1"
  by (simp_all add: order_placed_def order_replayed_def count_order_def Let_def)

lemma place_order_frame:
  assumes "place_order c t inp w = (res, w1)"
  shows "svc_idempotency (svc w1) = svc_idempotency (svc w)" "clock w \<le> clock w1"
    "orders_total (svc w1) = orders_total (svc w)" "orders_succeeded (svc w1) = orders_succeeded (svc w)"
    "orders_failed (svc w1) = orders_failed (svc w)" "duplicates_suppressed (svc w1) = duplicates_suppressed (svc w)"
proof -
  show "svc_idempotency (svc w1) = svc_idempotency (svc w)" "clock w \<le> clock w1"
    "orders_total (svc w1) = orders_total (svc w)" "orders_succeeded (svc w1) = orders_succeeded (svc w)"
    "orders_failed (svc w1) = orders_failed (svc w)" "duplicates_suppressed (svc w1) = duplicates_suppressed (svc w)"
    by (rule place_order_cases [where c = c and t = t and inp = inp and w = w]; use assms reservedD in auto)+
qed

lemma service_ok_create:
  assumes ok: "service_ok w"
  obtains res w' where "create_order c t k inp w = Some (res, w')" "service_ok w'" "clock w \<le> clock w'"
proof -
  note R = service_okD [OF ok]
  show thesis
  proof (cases "valid_input t k inp")
    case False
    let ?w' = "order_refused (clock w) ''invalid'' (counted w)"
    have "service_ok ?w'" using R by (simp add: service_ok_def algebra_simps)
    then show thesis by (intro that [OF create_invalid [OF False]]) simp_all
  next
    case True
    show thesis
    proof (rule settled_cases [OF R(2), of "clock w" "(t, k)"])
      assume vac: "slot_view (svc_idempotency (svc w)) (clock w) (t, k) = Vacant"
      obtain res w1 where p: "place_order c t inp (counted w) = (res, w1)" by fastforce
      note F = place_order_frame [OF p]
      have now: "0 \<le> clock w1" using F(2) R(5) by simp
      note A = registry_after_facts [OF R(1,2) vac now, of inp res]
      have "breaker_configured (svc_breaker (svc w1))"
        using place_order_breaker [of "counted w" c t inp] R(4) p by simp
      note facts = this A R F now
      show thesis
      proof (cases res)
        case (Inl e)
        show thesis
          by (rule that [OF create_vacant [OF True R(1) vac p, unfolded Let_def Inl sum.case]])
            (use facts Inl in \<open>simp_all add: service_ok_def algebra_simps\<close>)
      next
        case (Inr v)
        show thesis
          by (rule that [OF create_vacant [OF True R(1) vac p, unfolded Let_def Inr sum.case]])
            (use facts Inr in \<open>simp_all add: service_ok_def algebra_simps\<close>)
      qed
    next
      fix p f v assume cached: "slot_view (svc_idempotency (svc w)) (clock w) (t, k) = Done p f v"
      let ?r = "snd (do_enter (clock w) (t, k) (request_fingerprint inp) (svc_idempotency (svc w)))"
      have "registry_ok ?r" using R(1) by (rule registry_ok_enter)
      moreover have "settled ?r" using R(1,2) cached by (intro settled_enter) (simp_all add: enter_decision)
      note facts = this calculation R
      show thesis
      proof (cases "f \<noteq> request_fingerprint inp")
        case True
        show thesis
          by (rule that [OF create_cached [OF \<open>valid_input t k inp\<close> R(1) cached, unfolded Let_def if_P [OF True]]])
            (use facts in \<open>simp_all add: service_ok_def algebra_simps\<close>)
      next
        case False
        show thesis
          by (rule that [OF create_cached [OF \<open>valid_input t k inp\<close> R(1) cached, unfolded Let_def if_not_P [OF False]]])
            (use facts in \<open>simp_all add: service_ok_def algebra_simps\<close>)
      qed
    qed
  qed
qed

section \<open>Runs of the service\<close>

datatype app_op =
    Create ctx string string create_order_input
  | Set_fault string
  | Rate_limited
  | Read_ready
  | Read_snapshot
  | Reset_all
  | Pass nat

fun app_step :: "app_op \<Rightarrow> world \<Rightarrow> world option" where
  "app_step (Create c t k inp) w = map_option snd (create_order c t k inp w)"
| "app_step (Set_fault m) w = Some (snd (set_fault_mode m w))"
| "app_step Rate_limited w = Some (mark_rate_limited w)"
| "app_step Read_ready w = Some (snd (ready w))"
| "app_step Read_snapshot w = Some (snd (take_snapshot w))"
| "app_step Reset_all w = Some (reset_service w)"
| "app_step (Pass d) w = Some (w\<lparr>clock := clock w + int d\<rparr>)"

fun app_run :: "app_op list \<Rightarrow> world \<Rightarrow> world option" where
  "app_run [] w = Some w"
| "app_run (x # xs) w = (case app_step x w of None \<Rightarrow> None | Some w' \<Rightarrow> app_run xs w')"

lemma service_circuit_shape:
  "service_circuit w = (fst (breaker_state (clock w) (svc_breaker (svc w))),
     w\<lparr>svc := (svc w)\<lparr>svc_breaker := snd (breaker_state (clock w) (svc_breaker (svc w)))\<rparr>\<rparr>)"
  by (simp add: service_circuit_def split: prod.splits)

text \<open>Everything but \<open>Create\<close> and \<open>Reset\<close> leaves registry and counters alone.\<close>

lemma quiet_step:
  assumes "app_step x w = Some w'" and "\<forall>c t k inp. x \<noteq> Create c t k inp" and "x \<noteq> Reset_all"
  shows "svc_idempotency (svc w') = svc_idempotency (svc w)" "clock w \<le> clock w'"
    "svc_store (svc w') = svc_store (svc w)" "samples (svc w') = samples (svc w)"
    "orders_total (svc w') = orders_total (svc w)" "orders_succeeded (svc w') = orders_succeeded (svc w)"
    "orders_failed (svc w') = orders_failed (svc w)" "duplicates_suppressed (svc w') = duplicates_suppressed (svc w)"
    "svc_breaker (svc w') \<in> {svc_breaker (svc w), snd (breaker_state (clock w) (svc_breaker (svc w)))}"
  using assms
  by (cases x; auto simp: set_fault_mode_def mark_rate_limited_def ready_def take_snapshot_def service_circuit_shape
      sync_circuit_metric_state_def Let_def split: prod.splits)+

lemma reset_shape:
  "svc_idempotency (svc (reset_service w)) = service_registry (clock w)" "clock (reset_service w) = clock w"
  "svc_store (svc (reset_service w)) = reset_memory (svc_store (svc w))" "samples (svc (reset_service w)) = []"
  "orders_total (svc (reset_service w)) = 0" "orders_succeeded (svc (reset_service w)) = 0"
  "orders_failed (svc (reset_service w)) = 0" "duplicates_suppressed (svc (reset_service w)) = 0"
  "svc_breaker (svc (reset_service w)) = snd (breaker_state (clock w) (reset_breaker (svc_breaker (svc w))))"
  by (simp_all add: reset_service_def sync_circuit_metric_def service_circuit_shape sync_circuit_metric_state_def)

lemma settled_new: "settled (service_registry t)"
  by (simp add: settled_def slot_view_def service_registry_ok(3))

lemma service_ok_step:
  assumes "service_ok w"
  obtains w' where "app_step x w = Some w'" "service_ok w'" "clock w \<le> clock w'"
proof -
  consider (create) c t k inp where "x = Create c t k inp" | (reset) "x = Reset_all"
    | (quiet) "\<forall>c t k inp. x \<noteq> Create c t k inp" "x \<noteq> Reset_all" by blast
  then show thesis
  proof cases
    case create
    obtain res w' where "create_order c t k inp w = Some (res, w')" "service_ok w'" "clock w \<le> clock w'"
      by (rule service_ok_create [OF assms])
    with create show thesis by (intro that [of w']) simp_all
  next
    case reset
    have "service_ok (reset_service w)"
      using service_okD [OF assms] service_registry_ok [of "clock w"] settled_new [of "clock w"]
      by (simp add: service_ok_def reset_shape breaker_configured_state breaker_configured_reset)
    with reset show thesis by (intro that [of "reset_service w"]) (simp_all add: reset_shape)
  next
    case quiet
    then obtain w' where w': "app_step x w = Some w'" by (cases x) auto
    note Q = quiet_step [OF w' quiet]
    have "breaker_configured (svc_breaker (svc w'))"
      using Q(9) by (elim insertE emptyE) (simp_all add: service_okD(4) [OF assms] breaker_configured_state)
    then have "service_ok w'"
      unfolding service_ok_def Q(1,4-8) using service_okD [OF assms] Q(2) by simp
    then show thesis by (rule that [OF w' _ Q(2)])
  qed
qed

lemma service_ok_run:
  "service_ok w \<Longrightarrow> \<exists>w'. app_run xs w = Some w' \<and> service_ok w' \<and> clock w \<le> clock w'"
proof (induction xs arbitrary: w)
  case Nil
  then show ?case by simp
next
  case (Cons x xs)
  obtain w1 where w1: "app_step x w = Some w1" "service_ok w1" "clock w \<le> clock w1"
    using service_ok_step [OF Cons.prems] .
  obtain w2 where "app_run xs w1 = Some w2" "service_ok w2" "clock w1 \<le> clock w2"
    using Cons.IH [OF w1(2)] by blast
  with w1 show ?case by simp
qed

lemma service_ok_new:
  assumes "svc w = new_service m d (clock w)" and "0 \<le> clock w"
  shows "service_ok w"
  using assms service_registry_ok [of "clock w"] settled_new [of "clock w"] service_breaker_ok
  by (simp add: service_ok_def new_service_def breaker_configured_def) (simp add: service_breaker_def new_circuit_breaker_def second_def)

text \<open>A cached result outlives other requests until its time, and is visible at every earlier time.\<close>

lemma done_earlier:
  assumes "slot_view r t sc = Done p f v" and "t' \<le> t"
  shows "slot_view r t' sc = Done p f v"
proof -
  from slot_view_Done [OF assms(1)] obtain e where "map_of (entries r) sc = Some p" "heap r p = Some e"
    "outcome e = Some (Inr v)" "fingerprint e = f" "\<not> entry_expired t e" by blast
  moreover from this assms(2) have "\<not> entry_expired t' e" by (auto simp: entry_expired_def)
  ultimately show ?thesis by (simp add: slot_view_def)
qed

lemma create_keeps_slot:
  assumes ok: "service_ok w" and create: "create_order c t k inp w = Some (res, w')"
    and slot: "slot_view (svc_idempotency (svc w)) now sc = Done p f v" and "clock w \<le> now"
  shows "slot_view (svc_idempotency (svc w')) now sc = Done p f v"
proof -
  note R = service_okD [OF ok]
  show ?thesis
  proof (cases "valid_input t k inp")
    case False
    with create create_invalid [OF False, of c w] slot show ?thesis by auto
  next
    case True
    show ?thesis
    proof (rule settled_cases [OF R(2), of "clock w" "(t, k)"])
      assume vac: "slot_view (svc_idempotency (svc w)) (clock w) (t, k) = Vacant"
      obtain r1 w1 where pl: "place_order c t inp (counted w) = (r1, w1)" by fastforce
      have reg: "svc_idempotency (svc w') = registry_after t k inp w r1 (clock w1)"
        using create create_vacant [OF True R(1) vac pl] by (cases r1) (auto simp: Let_def)
      have other: "sc \<noteq> (t, k)" using done_earlier [OF slot assms(4)] vac by auto
      let ?e = "do_enter (clock w) (t, k) (request_fingerprint inp) (svc_idempotency (svc w))"
      have lead: "fst ?e = Lead (next_entry (svc_idempotency (svc w)))"
        using vac by (simp add: enter_decision [OF R(1)])
      have run: "slot_view (snd ?e) (clock w) (t, k) = Running (next_entry (svc_idempotency (svc w))) (request_fingerprint inp)"
        using lead by (simp add: enter_view [OF R(1)])
      have "0 \<le> clock w1" using place_order_frame(2) [OF pl] R(5) by simp
      from finish_view [OF registry_ok_enter [OF R(1)] run this] show ?thesis
        using slot other lead assms(4) by (simp add: reg registry_after_def enter_view [OF R(1)])
    next
      fix p' f' v' assume cached: "slot_view (svc_idempotency (svc w)) (clock w) (t, k) = Done p' f' v'"
      then have "svc_idempotency (svc w') =
          snd (do_enter (clock w) (t, k) (request_fingerprint inp) (svc_idempotency (svc w)))"
        using create create_cached [OF True R(1) cached, of c] by (auto simp: Let_def split: if_splits)
      then show ?thesis
        using slot cached assms(4) by (simp add: enter_view [OF R(1)] enter_decision [OF R(1)])
    qed
  qed
qed

lemma run_keeps_slot:
  assumes "service_ok w" and "app_run xs w = Some w'" and "Reset_all \<notin> set xs"
    and "slot_view (svc_idempotency (svc w)) now sc = Done p f v" and "clock w' \<le> now"
  shows "slot_view (svc_idempotency (svc w')) now sc = Done p f v"
  using assms
proof (induction xs arbitrary: w)
  case Nil
  then show ?case by simp
next
  case (Cons x xs)
  obtain w1 where w1: "app_step x w = Some w1" "service_ok w1" "clock w \<le> clock w1"
    using service_ok_step [OF Cons.prems(1)] .
  have run: "app_run xs w1 = Some w'" using Cons.prems(2) w1(1) by simp
  obtain w2 where "app_run xs w1 = Some w2" "clock w1 \<le> clock w2" using service_ok_run [OF w1(2), of xs] by blast
  then have late: "clock w \<le> now" using run w1(3) Cons.prems(5) by simp
  have "slot_view (svc_idempotency (svc w1)) now sc = Done p f v"
  proof (cases "\<exists>c t k inp. x = Create c t k inp")
    case True
    then obtain c t k inp res where "create_order c t k inp w = Some (res, w1)" using w1(1) by auto
    then show ?thesis using create_keeps_slot [OF Cons.prems(1) _ Cons.prems(4) late] by blast
  next
    case False
    moreover have "x \<noteq> Reset_all" using Cons.prems(3) by auto
    ultimately show ?thesis using quiet_step(1) [OF w1(1)] Cons.prems(4) by simp
  qed
  with Cons.IH [OF w1(2) run] Cons.prems(3,5) show ?case by simp
qed

section \<open>Properties of the order service\<close>

lemma fingerprint_inject: "request_fingerprint a = request_fingerprint b \<longleftrightarrow> a = b"
proof
  assume "request_fingerprint a = request_fingerprint b"
  then have "in_event_id a = in_event_id b \<and> show_int (in_quantity a) = show_int (in_quantity b)"
    unfolding request_fingerprint_def append_Cons append_Nil by (rule last_separator_unique) (rule show_int_no_nul)+
  then show "a = b" by (simp add: create_order_input.equality)
qed simp

text \<open>What a fresh success leaves in the registry.\<close>

lemma fresh_success_slot:
  assumes ok: "service_ok w" and "create_order c t k inp w = Some (Inr \<lparr>cr_order = ord, cr_replayed = False\<rparr>, w1)"
  shows "valid_input t k inp" and "now < clock w1 + 30 * minute \<Longrightarrow>
    \<exists>p. slot_view (svc_idempotency (svc w1)) now (t, k) = Done p (request_fingerprint inp) ord"
proof -
  note R = service_okD [OF ok]
  show valid: "valid_input t k inp" using assms(2) create_invalid [of t k inp c w] by auto
  show "\<exists>p. slot_view (svc_idempotency (svc w1)) now (t, k) = Done p (request_fingerprint inp) ord"
    if "now < clock w1 + 30 * minute"
  proof (rule settled_cases [OF R(2), of "clock w" "(t, k)"])
    assume vac: "slot_view (svc_idempotency (svc w)) (clock w) (t, k) = Vacant"
    obtain res w2 where pl: "place_order c t inp (counted w) = (res, w2)" by fastforce
    have now: "0 \<le> clock w2" using place_order_frame(2) [OF pl] R(5) by simp
    have res: "res = Inr ord" and w1: "svc_idempotency (svc w1) = registry_after t k inp w res (clock w2)" "clock w1 = clock w2"
      using assms(2) create_vacant [OF valid R(1) vac pl] by (cases res; auto simp: Let_def)+
    show ?thesis
      unfolding w1(1) registry_after_facts(4) [OF R(1,2) vac now] using that by (simp add: res w1(2) R(3))
  next
    fix p f v assume "slot_view (svc_idempotency (svc w)) (clock w) (t, k) = Done p f v"
    from create_cached [OF valid R(1) this, of c] assms(2) show ?thesis
      by (auto simp: Let_def split: if_splits)
  qed
qed

text \<open>
  C12. Exactly once for half an hour. After an order was placed for a key, and whatever other
  requests, fault modes and readings happen in between (short of a reset), repeating the request
  within 30 minutes returns the very same order as a replay; a different request under the same
  key gets the conflict error. Neither calls the dependency, touches the store or the breaker.
\<close>

theorem app_replay_exact:
  assumes "service_ok w" and "create_order c t k inp w = Some (Inr \<lparr>cr_order = ord, cr_replayed = False\<rparr>, w1)"
    and "app_run xs w1 = Some w2" and "Reset_all \<notin> set xs" and "clock w2 < clock w1 + 30 * minute"
    and "valid_input t k inp'"
  shows "\<exists>w3. create_order c' t k inp' w2 =
      Some (if inp' = inp then Inr \<lparr>cr_order = ord, cr_replayed = True\<rparr> else Inl ErrIdempotencyConflict, w3) \<and>
    svc_store (svc w3) = svc_store (svc w2) \<and> svc_dependency (svc w3) = svc_dependency (svc w2) \<and>
    svc_breaker (svc w3) = svc_breaker (svc w2) \<and> clock w3 = clock w2"
proof -
  obtain p where "slot_view (svc_idempotency (svc w1)) (clock w2) (t, k) = Done p (request_fingerprint inp) ord"
    using fresh_success_slot(2) [OF assms(1,2,5)] by blast
  moreover have ok1: "service_ok w1" using service_ok_create [OF assms(1), of c t k inp] assms(2) by auto
  ultimately have slot: "slot_view (svc_idempotency (svc w2)) (clock w2) (t, k) = Done p (request_fingerprint inp) ord"
    using run_keeps_slot [OF _ assms(3,4)] by simp
  obtain w2' where "app_run xs w1 = Some w2'" "service_ok w2'" using service_ok_run [OF ok1, of xs] by blast
  then have ok2: "service_ok w2" using assms(3) by simp
  from create_cached [OF assms(6) service_okD(1) [OF ok2] slot, of c'] show ?thesis
    by (auto simp: Let_def fingerprint_inject)
qed

text \<open>A new order under an identifier that the service drew went into the store at the present time.\<close>

definition order_stored :: "string \<Rightarrow> create_order_input \<Rightarrow> world \<Rightarrow> order \<Rightarrow> world \<Rightarrow> bool" where
  "order_stored t inp w ord w' \<longleftrightarrow>
     (\<exists>v. save (clock w') (fresh_order (fst (new_id v)) t inp) ''order.confirmed'' (svc_store (svc w)) =
        (ord, svc_store (svc w')))"

text \<open>What one request does to the dependency and to the store.\<close>

lemma reserve_before_store:
  assumes "service_ok w" and "create_order c t k inp w = Some (res, w')"
  shows "\<exists>n \<le> 3. sim_calls (svc_dependency (svc w')) = sim_calls (svc_dependency (svc w)) + of_nat n \<and>
    (case res of
       Inl e \<Rightarrow> svc_store (svc w') = svc_store (svc w)
     | Inr r \<Rightarrow>
         if cr_replayed r then n = 0 \<and> svc_store (svc w') = svc_store (svc w)
         else 0 < n \<and> order_stored t inp w (cr_order r) w')"
proof -
  note R = service_okD [OF assms(1)]
  show ?thesis
  proof (cases "valid_input t k inp")
    case False
    with assms(2) create_invalid [OF False, of c w] show ?thesis by (intro exI [of _ 0]) auto
  next
    case True
    show ?thesis
    proof (rule settled_cases [OF R(2), of "clock w" "(t, k)"])
      assume vac: "slot_view (svc_idempotency (svc w)) (clock w) (t, k) = Vacant"
      show ?thesis
      proof (rule place_order_cases [where c = c and t = t and inp = inp and w = "counted w"])
        fix n e assume n: "n \<le> 3" "reserved n (counted w) (snd (place_order c t inp (counted w)))"
          "fst (place_order c t inp (counted w)) = Inl (WrapDependency e)"
        obtain w1 where pl: "place_order c t inp (counted w) = (Inl (WrapDependency e), w1)"
          using n(3) by (cases "place_order c t inp (counted w)") auto
        show ?thesis
          using n(1,2) reservedD(1,12) [OF n(2)] assms(2) create_vacant [OF True R(1) vac pl] pl
          by (intro exI [of _ n]) (auto simp: Let_def)
      next
        fix n w2 oid assume n: "0 < n" "n \<le> 3" "reserved n (counted w) w2"
          "place_order c t inp (counted w) =
             (Inr (fst (save (clock w2) (fresh_order oid t inp) ''order.confirmed'' (svc_store (svc (counted w))))),
              w2\<lparr>id_pos := Suc (id_pos w2), svc := (svc w2)\<lparr>svc_store :=
                snd (save (clock w2) (fresh_order oid t inp) ''order.confirmed'' (svc_store (svc (counted w))))\<rparr>\<rparr>)"
          "oid = fst (new_id w2)"
        show ?thesis
          using n(1,2) reservedD(12) [OF n(3)] assms(2) create_vacant [OF True R(1) vac n(4)] n(5)
          by (intro exI [of _ n]) (auto simp: Let_def order_stored_def intro!: exI [of _ w2])
      qed
    next
      fix p f v assume "slot_view (svc_idempotency (svc w)) (clock w) (t, k) = Done p f v"
      from create_cached [OF True R(1) this, of c] assms(2) show ?thesis
        by (intro exI [of _ 0]) (auto simp: Let_def split: if_splits)
    qed
  qed
qed

text \<open>
  What the dependency answered: \<open>good\<close> calls returned no error and \<open>bad\<close> calls returned one, as the
  service counts them under \<open>success\<close> and \<open>failure\<close> right after each call.
\<close>

definition calls_counted :: "string \<Rightarrow> world \<Rightarrow> nat" where
  "calls_counted result w = dependency_calls (svc_metrics (svc w)) (result, sim_mode (svc_dependency (svc w)))"

definition dependency_answered :: "nat \<Rightarrow> nat \<Rightarrow> world \<Rightarrow> world \<Rightarrow> bool" where
  "dependency_answered good bad w w' \<longleftrightarrow>
     sim_calls (svc_dependency (svc w')) = sim_calls (svc_dependency (svc w)) + of_nat (good + bad) \<and>
     sim_mode (svc_dependency (svc w')) = sim_mode (svc_dependency (svc w)) \<and>
     calls_counted ''success'' w' = calls_counted ''success'' w + good \<and>
     calls_counted ''failure'' w' = calls_counted ''failure'' w + bad"

lemma answered_none: "svc_dependency (svc w') = svc_dependency (svc w) \<Longrightarrow>
    dependency_calls (svc_metrics (svc w')) = dependency_calls (svc_metrics (svc w)) \<Longrightarrow> dependency_answered 0 0 w w'"
  by (simp add: dependency_answered_def calls_counted_def)

lemma answered_kept:
  assumes "svc_dependency (svc v') = svc_dependency (svc v)"
    and "dependency_calls (svc_metrics (svc v')) = dependency_calls (svc_metrics (svc v))"
  shows "dependency_answered good bad w v' \<longleftrightarrow> dependency_answered good bad w v"
    and "dependency_answered good bad v' w \<longleftrightarrow> dependency_answered good bad v w"
  using assms by (simp_all add: dependency_answered_def calls_counted_def)

lemma attempt_answered:
  assumes "dependency_answered 0 a w v" and "reserve_attempt c inp v = (r, v1)"
  shows "case r of None \<Rightarrow> dependency_answered 1 a w v1 | Some e \<Rightarrow> dependency_answered 0 (Suc a) w v1"
proof -
  obtain t d where call: "reserve (ties v (tie_pos v)) (with_timeout c (clock v) (250 * millisecond)) (clock v)
      (in_event_id inp) (in_quantity inp) (svc_dependency (svc v)) = ((r, t), d)"
    using assms(2) by (auto simp: reserve_attempt_def Let_def split: prod.splits)
  have d: "d = (svc_dependency (svc v))\<lparr>sim_calls := sim_calls (svc_dependency (svc v)) + 1\<rparr>"
    using arg_cong [OF call, of snd] by simp
  have v1: "v1 = v\<lparr>clock := t, tie_pos := Suc (tie_pos v), svc := (svc v)\<lparr>svc_dependency := d, svc_metrics := count_dependency
      (if r \<noteq> None then ''failure'' else ''success'') (sim_mode (svc_dependency (svc v))) (svc_metrics (svc v))\<rparr>\<rparr>"
    using assms(2) call by (simp add: reserve_attempt_def Let_def)
  show ?thesis
    using assms(1)
    by (cases r) (auto simp: v1 d dependency_answered_def calls_counted_def count_dependency_def algebra_simps)
qed

text \<open>A retry ends with the first call that succeeds, or without one.\<close>

lemma retry_answered:
  "case fst (reserve_with_retry c inp w) of
     None \<Rightarrow> \<exists>bad \<le> 2. dependency_answered 1 bad w (snd (reserve_with_retry c inp w))
   | Some e \<Rightarrow> \<exists>bad \<le> 3. dependency_answered 0 bad w (snd (reserve_with_retry c inp w))"
proof (rule reserve_retry_induct [where I = "\<lambda>a v. a \<le> 3 \<and> dependency_answered 0 a w v" and Q = "\<lambda>r v. case r of
      None \<Rightarrow> \<exists>bad \<le> 2. dependency_answered 1 bad w v | Some e \<Rightarrow> \<exists>bad \<le> 3. dependency_answered 0 bad w v"], goal_cases)
  case 1
  then show ?case by (simp add: answered_none)
next
  case (2 a v e)
  then show ?case by auto
next
  case (3 a v v1)
  then show ?case using attempt_answered [of a w v c inp None v1] by (auto intro!: exI [of _ a])
next
  case (4 a v v1 e)
  then show ?case using attempt_answered [of a w v c inp "Some e" v1] by (auto intro!: exI [of _ "Suc a"])
next
  case (5 a v v1 e v2 d e' v3)
  have "dependency_answered 0 (Suc a) w v1" using 5 attempt_answered [of a w v c inp "Some e" v1] by simp
  moreover have "svc v3 = svc v1" using 5(4,6) by (auto simp: sleep_context_def split: prod.splits)
  ultimately have "dependency_answered 0 (Suc a) w v3" using answered_kept(1) [of v3 v1] by simp
  then show ?case using 5(2) by (auto intro!: exI [of _ "Suc a"])
next
  case (6 a v v1 e v2 d v3)
  have "dependency_answered 0 (Suc a) w v1" using 6 attempt_answered [of a w v c inp "Some e" v1] by simp
  moreover have "svc v3 = svc v1" using 6(4,6) by (auto simp: sleep_context_def split: prod.splits)
  ultimately have "dependency_answered 0 (Suc a) w v3" using answered_kept(1) [of v3 v1] by simp
  then show ?case using 6(2) by simp
qed

lemma guarded_answered:
  assumes "guarded_reserve c inp w = (err, w')"
  shows "case err of None \<Rightarrow> \<exists>bad \<le> 2. dependency_answered 1 bad w w' | Some e \<Rightarrow> \<exists>bad \<le> 3. dependency_answered 0 bad w w'"
proof (cases "before_request (clock w) (svc_breaker (svc w))")
  case (Pair tk b)
  show ?thesis
  proof (cases tk)
    case None
    then have "err = Some ErrCircuitOpen" "dependency_answered 0 0 w w'"
      using assms guarded_refused [of w b c inp] Pair by (auto intro!: answered_none)
    then show ?thesis by auto
  next
    case (Some t)
    obtain e v where r: "reserve_with_retry c inp w = (e, v)" by fastforce
    have "err = e" "\<And>good bad. dependency_answered good bad w w' \<longleftrightarrow> dependency_answered good bad w v"
      using assms guarded_admitted [of w t b c inp e v] Pair Some r by (auto intro!: answered_kept(1))
    then show ?thesis using retry_answered [where c = c and inp = inp and w = w] r by (cases e) simp_all
  qed
qed

lemma sync_answered: "dependency_answered good bad w (sync_circuit_metric v) \<longleftrightarrow> dependency_answered good bad w v"
  by (rule answered_kept(1))
    (simp_all add: sync_circuit_metric_def service_circuit_def sync_circuit_metric_state_def split: prod.splits)

lemma place_order_answered:
  assumes "place_order c t inp w = (res, w')"
  shows "case res of
      Inl e \<Rightarrow> (\<exists>e'. e = WrapDependency e') \<and> svc_store (svc w') = svc_store (svc w) \<and> (\<exists>bad \<le> 3. dependency_answered 0 bad w w')
    | Inr ord \<Rightarrow> order_stored t inp w ord w' \<and> (\<exists>bad \<le> 2. dependency_answered 1 bad w w')"
proof -
  obtain err w1 where g: "guarded_reserve c inp w = (err, w1)" by fastforce
  note A = guarded_answered [OF g]
  have store: "svc_store (svc (sync_circuit_metric w1)) = svc_store (svc w)"
    using reservedD(1) [OF reserved_sync] guarded_calls [of w c inp] g by (metis snd_conv)
  show ?thesis
  proof (cases err)
    case (Some e)
    then have "res = Inl (WrapDependency e)" "w' = sync_circuit_metric w1" using assms g by (simp_all add: place_order_def Let_def)
    then show ?thesis using A Some store by (auto simp: sync_answered)
  next
    case None
    let ?w2 = "sync_circuit_metric w1"
    let ?s = "save (clock ?w2) (fresh_order (fst (new_id ?w2)) t inp) ''order.confirmed'' (svc_store (svc ?w2))"
    have r: "res = Inr (fst ?s)"
      "w' = ?w2\<lparr>id_pos := Suc (id_pos ?w2), svc := (svc ?w2)\<lparr>svc_store := snd ?s\<rparr>\<rparr>"
      using assms g None by (auto simp: place_order_def new_id_def Let_def split: prod.splits)
    have "order_stored t inp w (fst ?s) w'" unfolding order_stored_def r(2) using store by (intro exI [of _ ?w2]) simp
    moreover have "dependency_answered good bad w w' \<longleftrightarrow> dependency_answered good bad w w1" for good bad
      using answered_kept(1) [of w' ?w2 good bad w] sync_answered [of good bad w w1] r(2) by simp
    ultimately show ?thesis using r(1) A None by auto
  qed
qed

text \<open>The registry decides: what the answer is, what the dependency was asked, and what is stored.\<close>

lemma create_by_slot:
  assumes ok: "service_ok w" and create: "create_order c t k inp w = Some (res, w')"
  obtains (invalid) "\<not> valid_input t k inp" "res = Inl WrapInvalidInput" "dependency_answered 0 0 w w'" "svc_store (svc w') = svc_store (svc w)"
    | (cached) p f ord where "valid_input t k inp" "slot_view (svc_idempotency (svc w)) (clock w) (t, k) = Done p f ord"
        "res = (if f = request_fingerprint inp then Inr \<lparr>cr_order = ord, cr_replayed = True\<rparr> else Inl ErrIdempotencyConflict)"
        "dependency_answered 0 0 w w'" "svc_store (svc w') = svc_store (svc w)"
    | (failed) e bad where "valid_input t k inp" "slot_view (svc_idempotency (svc w)) (clock w) (t, k) = Vacant"
        "res = Inl (WrapDependency e)" "bad \<le> 3" "dependency_answered 0 bad w w'" "svc_store (svc w') = svc_store (svc w)"
    | (placed) ord bad where "valid_input t k inp" "slot_view (svc_idempotency (svc w)) (clock w) (t, k) = Vacant"
        "res = Inr \<lparr>cr_order = ord, cr_replayed = False\<rparr>" "bad \<le> 2" "dependency_answered 1 bad w w'" "order_stored t inp w ord w'"
proof -
  note R = service_okD [OF ok]
  note books = order_refused_def order_replayed_def order_placed_def record_sample_def count_order_def Let_def
  show thesis
  proof (cases "valid_input t k inp")
    case False
    with create create_invalid [OF False, of c w] show thesis
      by (intro invalid answered_none) (auto simp: books)
  next
    case True
    show thesis
    proof (rule settled_cases [OF R(2), of "clock w" "(t, k)"])
      assume vac: "slot_view (svc_idempotency (svc w)) (clock w) (t, k) = Vacant"
      obtain r w1 where pl: "place_order c t inp (counted w) = (r, w1)" by fastforce
      note A = place_order_answered [OF pl]
      have start: "dependency_answered good bad w v \<longleftrightarrow> dependency_answered good bad (counted w) v" for good bad v
        by (rule answered_kept(2) [symmetric]) simp_all
      have calls: "dependency_answered good bad w w' \<longleftrightarrow> dependency_answered good bad (counted w) w1" for good bad
        unfolding start using create create_vacant [OF True R(1) vac pl]
        by (intro answered_kept(1)) (auto simp: books split: sum.splits)
      have same: "svc_store (svc w') = svc_store (svc w1)" "clock w' = clock w1"
        using create create_vacant [OF True R(1) vac pl] by (auto simp: books split: sum.splits)
      show thesis
      proof (cases r)
        case (Inl e)
        then obtain e' where "res = Inl (WrapDependency e')"
          using A create create_vacant [OF True R(1) vac pl] by (auto simp: Let_def)
        then show thesis using A Inl failed [OF True vac] unfolding same calls by auto
      next
        case (Inr ord)
        then have "res = Inr \<lparr>cr_order = ord, cr_replayed = False\<rparr>"
          using create create_vacant [OF True R(1) vac pl] by (auto simp: Let_def)
        moreover have "order_stored t inp w ord w'" using A Inr by (simp add: order_stored_def same)
        ultimately show thesis using A Inr placed [OF True vac] unfolding calls by auto
      qed
    next
      fix p f v assume slot: "slot_view (svc_idempotency (svc w)) (clock w) (t, k) = Done p f v"
      from create_cached [OF True R(1) slot, of c] create show thesis
        by (intro cached [OF True slot] answered_none) (auto simp: books split: if_splits)
    qed
  qed
qed

text \<open>
  C16. No order without a reservation. A request makes at most three dependency calls. It adds an order to
  the store exactly when it is new, and then exactly one of these calls succeeded and the others, at most
  two, failed before. After an error no call has succeeded and the store is as it was; a
  replay makes no call at all and leaves the store as it was. (Requests run one at a time.)
\<close>

theorem app_reserve_before_store:
  assumes "service_ok w" and "create_order c t k inp w = Some (res, w')"
  shows "case res of
      Inl e \<Rightarrow> (\<exists>bad \<le> 3. dependency_answered 0 bad w w') \<and> svc_store (svc w') = svc_store (svc w)
    | Inr r \<Rightarrow>
        if cr_replayed r then dependency_answered 0 0 w w' \<and> svc_store (svc w') = svc_store (svc w)
        else (\<exists>bad \<le> 2. dependency_answered 1 bad w w') \<and> order_stored t inp w (cr_order r) w'"
  using assms by (cases rule: create_by_slot) auto

text \<open>
  C18. The service always answers and its books balance. From a new service, any sequence of
  requests, fault modes, readings, resets and passing time runs to its end (no request waits for
  ever), the total of requests is the sum of placed, failed and replayed ones, at most 40 samples
  are kept, and no probe of the breaker is left in flight.
\<close>

theorem app_runs_and_balances:
  assumes "svc w = new_service m d (clock w)" and "0 \<le> clock w"
  shows "\<exists>w'. app_run xs w = Some w' \<and>
    orders_total (svc w') = orders_succeeded (svc w') + orders_failed (svc w') + duplicates_suppressed (svc w') \<and>
    length (samples (svc w')) \<le> 40 \<and> breaker_ok (svc_breaker (svc w')) \<and> \<not> half_open_probe (svc_breaker (svc w'))"
proof -
  have "service_ok w" using assms by (rule service_ok_new)
  then obtain w' where w': "app_run xs w = Some w'" "service_ok w'" using service_ok_run by blast
  then show ?thesis using service_okD(4,6,7) [OF w'(2)] by (auto simp: breaker_configured_def)
qed

text \<open>
  Bounded latency. A request that does not have to wait for another one takes at most 1.03
  seconds of waiting: three attempts of a quarter second and two delays of at most 140 ms.
\<close>

theorem app_latency:
  assumes "service_ok w" and "\<And>i. 0 \<le> rands w i \<and> rands w i \<le> 1"
    and "create_order c t k inp w = Some (res, w')"
  shows "clock w' \<le> clock w + 1030 * millisecond"
proof -
  note R = service_okD [OF assms(1)]
  have guard: "clock (snd (guarded_reserve c inp v)) \<le> clock v + 1030 * millisecond" if "rands v = rands w" for v
  proof (cases "before_request (clock v) (svc_breaker (svc v))")
    case (Pair tk b)
    obtain err v' where r: "reserve_with_retry c inp v = (err, v')" by fastforce
    have "clock v' \<le> clock v + 1030 * millisecond"
      using retry_time [of v c inp] assms(2) that r by simp
    then show ?thesis
      using Pair guarded_refused [of v b c inp] guarded_admitted [of v _ b c inp err v'] r
      by (cases tk) (simp_all add: millisecond_def)
  qed
  have sync: "clock (sync_circuit_metric v) = clock v" for v by (rule sync_shape [of v]) simp
  have place: "clock w1 \<le> clock w + 1030 * millisecond" if "place_order c t inp (counted w) = (r1, w1)" for r1 w1
    using that guard [of "counted w"] sync
    by (auto simp: place_order_def Let_def new_id_def split: prod.splits option.splits)
  show ?thesis
  proof (cases "valid_input t k inp")
    case False
    with assms(3) create_invalid [OF False, of c w] show ?thesis by (auto simp: millisecond_def)
  next
    case True
    show ?thesis
    proof (rule settled_cases [OF R(2), of "clock w" "(t, k)"])
      assume vac: "slot_view (svc_idempotency (svc w)) (clock w) (t, k) = Vacant"
      obtain r1 w1 where pl: "place_order c t inp (counted w) = (r1, w1)" by fastforce
      have "clock w' = clock w1"
        using assms(3) create_vacant [OF True R(1) vac pl] by (cases r1) (auto simp: Let_def)
      then show ?thesis using place [OF pl] by simp
    next
      fix p f v assume "slot_view (svc_idempotency (svc w)) (clock w) (t, k) = Done p f v"
      from create_cached [OF True R(1) this, of c] assms(3) show ?thesis
        by (auto simp: Let_def millisecond_def split: if_splits)
    qed
  qed
qed

section \<open>Outage and recovery\<close>

lemma admitted_closed_or_due:
  "breaker_configured b \<Longrightarrow> circuit b \<noteq> StateOpen \<or> opened_at b + 4 * second \<le> now \<Longrightarrow>
     fst (before_request now b) \<noteq> None"
  by (cases "circuit b") (auto simp: breaker_configured_def before_request_def advance_state_def Let_def
      second_def int64_max_def)

lemma admission_obtain:
  assumes "fst (before_request (clock w) (svc_breaker (svc w))) \<noteq> None"
  obtains tk b err w' where "before_request (clock w) (svc_breaker (svc w)) = (Some tk, b)"
    "reserve_with_retry c inp w = (err, w')"
  using assms by (cases "before_request (clock w) (svc_breaker (svc w))"; cases "reserve_with_retry c inp w") auto

lemma execute_outcome:
  assumes "fst (before_request (clock w) (svc_breaker (svc w))) \<noteq> None"
  shows "fst (guarded_reserve c inp w) = fst (reserve_with_retry c inp w)"
proof -
  obtain tk b err w' where "before_request (clock w) (svc_breaker (svc w)) = (Some tk, b)"
    "reserve_with_retry c inp w = (err, w')"
    by (rule admission_obtain [OF assms])
  then show ?thesis using guarded_admitted by simp
qed

lemma breaker_call_success:
  assumes "breaker_configured b" and "fst (before_request t0 b) \<noteq> None"
  shows "circuit (breaker_call t0 t1 True b) = StateClosed" "consecutive_failures (breaker_call t0 t1 True b) = 0"
  using assms
  by (cases "circuit b"; auto simp: breaker_configured_def breaker_ok_def breaker_call_def before_request_def
      advance_state_def after_request_def Let_def split: if_splits)+

lemma place_order_breaker_eq:
  assumes adm: "fst (before_request (clock w) (svc_breaker (svc w))) \<noteq> None"
  shows "svc_breaker (svc (snd (place_order c t inp w))) =
     snd (breaker_state (clock (snd (reserve_with_retry c inp w)))
       (breaker_call (clock w) (clock (snd (reserve_with_retry c inp w))) (fst (reserve_with_retry c inp w) = None)
         (svc_breaker (svc w))))"
proof -
  obtain tk b err w' where a: "before_request (clock w) (svc_breaker (svc w)) = (Some tk, b)"
    "reserve_with_retry c inp w = (err, w')"
    by (rule admission_obtain [OF adm])
  obtain w1 where g: "guarded_reserve c inp w = (err, w1)" "clock w1 = clock w'"
    using guarded_admitted [OF a] by simp
  have sync: "svc_breaker (svc (sync_circuit_metric v)) = snd (breaker_state (clock v) (svc_breaker (svc v)))" for v
    by (rule sync_shape [of v]) simp
  have "svc_breaker (svc (snd (place_order c t inp w))) = svc_breaker (svc (sync_circuit_metric w1))"
    by (simp add: place_order_def g(1) Let_def new_id_def split: option.splits prod.splits)
  then show ?thesis using guarded_breaker [of c inp w] a g by (simp add: sync)
qed

lemma create_succeeds:
  assumes "service_ok w" and "valid_input t k inp" and "done_at c = None"
    and "slot_view (svc_idempotency (svc w)) (clock w) (t, k) = Vacant"
    and "circuit (svc_breaker (svc w)) \<noteq> StateOpen \<or> opened_at (svc_breaker (svc w)) + 4 * second \<le> clock w"
    and "sim_mode (svc_dependency (svc w)) \<in> {mode_healthy, mode_flaky}"
    and "unat (sim_calls (svc_dependency (svc w))) + 3 < 2 ^ 64"
  shows "\<exists>ord w'. create_order c t k inp w = Some (Inr \<lparr>cr_order = ord, cr_replayed = False\<rparr>, w') \<and>
    event_id ord = in_event_id inp \<and> quantity ord = in_quantity inp \<and> order_status ord = order_confirmed \<and>
    tenant_id ord = t \<and> circuit (svc_breaker (svc w')) = StateClosed \<and> consecutive_failures (svc_breaker (svc w')) = 0"
proof -
  note R = service_okD [OF assms(1)]
  let ?w = "counted w"
  have adm: "fst (before_request (clock ?w) (svc_breaker (svc ?w))) \<noteq> None"
    using admitted_closed_or_due [OF R(4)] assms(5) by simp
  have none: "fst (reserve_with_retry c inp ?w) = None"
    by (rule retry_succeeds [OF assms(3)]; unfold counted_simps; rule assms(6,7))
  then have g: "fst (guarded_reserve c inp ?w) = None" using execute_outcome [OF adm] by simp
  show ?thesis
  proof (rule place_order_cases [where c = c and t = t and inp = inp and w = ?w])
    fix n e assume "fst (guarded_reserve c inp ?w) = Some e"
    then show ?thesis using g by simp
  next
    fix n w2 oid assume pl: "place_order c t inp ?w =
        (Inr (fst (save (clock w2) (fresh_order oid t inp) ''order.confirmed'' (svc_store (svc ?w)))),
         w2\<lparr>id_pos := Suc (id_pos w2), svc := (svc w2)\<lparr>svc_store :=
           snd (save (clock w2) (fresh_order oid t inp) ''order.confirmed'' (svc_store (svc ?w)))\<rparr>\<rparr>)"
    let ?ord = "fst (save (clock w2) (fresh_order oid t inp) ''order.confirmed'' (svc_store (svc ?w)))"
    have ord: "?ord = stamp (clock w2) (next_sequence (svc_store (svc ?w)) + 1) (fresh_order oid t inp)"
      using save_shape(1) [of "clock w2" "fresh_order oid t inp" "''order.confirmed''" "svc_store (svc ?w)"]
      by (metis prod.collapse)
    have "svc_breaker (svc w2) = svc_breaker (svc (snd (place_order c t inp ?w)))" by (simp add: pl)
    also have "\<dots> = snd (breaker_state (clock (snd (reserve_with_retry c inp ?w)))
       (breaker_call (clock ?w) (clock (snd (reserve_with_retry c inp ?w))) True (svc_breaker (svc ?w))))"
      using place_order_breaker_eq [OF adm, of c t inp] none by simp
    finally have "circuit (svc_breaker (svc w2)) = StateClosed" "consecutive_failures (svc_breaker (svc w2)) = 0"
      using breaker_call_success [OF _ adm, of "clock (snd (reserve_with_retry c inp ?w))"] R(4)
      by (simp_all add: breaker_state_def advance_state_def Let_def)
    then show ?thesis
      using create_vacant [OF assms(2) R(1) assms(4) pl] ord
      by (simp add: Let_def stamp_def fresh_order_def)
  qed
qed

text \<open>
  C19. Service in the good and the flaky modes. Whenever the circuit is closed, or open for at least
  four seconds, a fresh request that nobody cancels succeeds against a healthy dependency, and also
  against the flaky one that fails two calls of three; afterwards the circuit is closed with a clean
  failure count, so the service has recovered.
\<close>

theorem app_succeeds_and_recovers:
  assumes "service_ok w" and "valid_input t k inp" and "done_at c = None"
    and "slot_view (svc_idempotency (svc w)) (clock w) (t, k) = Vacant"
    and "circuit (svc_breaker (svc w)) \<noteq> StateOpen \<or> opened_at (svc_breaker (svc w)) + 4 * second \<le> clock w"
    and "sim_mode (svc_dependency (svc w)) \<in> {mode_healthy, mode_flaky}"
    and "unat (sim_calls (svc_dependency (svc w))) + 3 < 2 ^ 64"
  shows "\<exists>ord w'. create_order c t k inp w = Some (Inr \<lparr>cr_order = ord, cr_replayed = False\<rparr>, w') \<and>
    event_id ord = in_event_id inp \<and> quantity ord = in_quantity inp \<and> order_status ord = order_confirmed \<and>
    tenant_id ord = t \<and> circuit (svc_breaker (svc w')) = StateClosed \<and> consecutive_failures (svc_breaker (svc w')) = 0"
  using assms by (rule create_succeeds)

text \<open>One failed request against a closed circuit counts once, and the third in a row opens it.\<close>

lemma create_failing:
  assumes ok: "service_ok w" and valid: "valid_input t k inp"
    and vac: "slot_view (svc_idempotency (svc w)) (clock w) (t, k) = Vacant"
    and closed: "circuit (svc_breaker (svc w)) = StateClosed"
    and fail: "fst (reserve_with_retry c inp (counted w)) = Some e"
  obtains w' where "create_order c t k inp w = Some (Inl (WrapDependency e), w')" "service_ok w'"
    "if consecutive_failures (svc_breaker (svc w)) < 2
     then svc_breaker (svc w') = (svc_breaker (svc w))\<lparr>consecutive_failures := consecutive_failures (svc_breaker (svc w)) + 1\<rparr>
     else circuit (svc_breaker (svc w')) = StateOpen \<and> opened_at (svc_breaker (svc w')) = clock w'"
    "sim_mode (svc_dependency (svc w')) = sim_mode (svc_dependency (svc w))"
    "svc_store (svc w') = svc_store (svc w)"
    "\<And>now. slot_view (svc_idempotency (svc w')) now (t, k) = Vacant"
    "svc_dependency (svc w') = svc_dependency (svc (snd (reserve_with_retry c inp (counted w))))"
proof -
  note R = service_okD [OF ok]
  let ?w = "counted w"
  have adm: "fst (before_request (clock ?w) (svc_breaker (svc ?w))) \<noteq> None" using closed by simp
  have g: "fst (guarded_reserve c inp ?w) = Some e" using execute_outcome [OF adm] fail by simp
  have b: "breaker_ok (svc_breaker (svc w))" "failure_threshold (svc_breaker (svc w)) = 3"
    "open_timeout (svc_breaker (svc w)) = 4 * second" using R(4) by (simp_all add: breaker_configured_def)
  show thesis
  proof (rule place_order_cases [where c = c and t = t and inp = inp and w = ?w])
    fix n w2 oid assume "fst (guarded_reserve c inp ?w) = None"
    then show thesis using g by simp
  next
    fix n e' assume n: "reserved n ?w (snd (place_order c t inp ?w))"
      "fst (place_order c t inp ?w) = Inl (WrapDependency e')" "fst (guarded_reserve c inp ?w) = Some e'"
    obtain w1 where pl: "place_order c t inp ?w = (Inl (WrapDependency e), w1)"
      using n(2,3) g by (cases "place_order c t inp ?w") auto
    let ?t1 = "clock (snd (reserve_with_retry c inp ?w))"
    have brk: "svc_breaker (svc w1) = snd (breaker_state ?t1 (breaker_call (clock w) ?t1 False (svc_breaker (svc w))))"
      using place_order_breaker_eq [OF adm, of c t inp] fail pl by simp
    have t1: "clock w1 = ?t1" "svc_dependency (svc w1) = svc_dependency (svc (snd (reserve_with_retry c inp ?w)))"
    proof -
      have sync: "clock (sync_circuit_metric v) = clock v \<and> svc_dependency (svc (sync_circuit_metric v)) = svc_dependency (svc v)"
        for v by (rule sync_shape [of v]) simp
      obtain err w' tk b' where a: "before_request (clock ?w) (svc_breaker (svc ?w)) = (Some tk, b')"
        "reserve_with_retry c inp ?w = (err, w')" by (rule admission_obtain [OF adm])
      then have "w1 = sync_circuit_metric (w'\<lparr>svc := (svc w')\<lparr>svc_breaker :=
          after_request (clock w') tk False b'\<rparr>\<rparr>)"
        using pl guarded_admitted [OF a] fail by (auto simp: place_order_def Let_def)
      with sync a(2) show "clock w1 = ?t1"
        "svc_dependency (svc w1) = svc_dependency (svc (snd (reserve_with_retry c inp ?w)))" by simp_all
    qed
    have now: "0 \<le> clock w1" using place_order_frame(2) [OF pl] R(5) by simp
    obtain w' where w': "create_order c t k inp w = Some (Inl (WrapDependency e), w')"
      "svc_breaker (svc w') = svc_breaker (svc w1)" "clock w' = clock w1"
      "svc_dependency (svc w') = svc_dependency (svc w1)" "svc_store (svc w') = svc_store (svc w1)"
      "svc_idempotency (svc w') = registry_after t k inp w (Inl (WrapDependency e)) (clock w1)"
      using create_vacant [OF valid R(1) vac pl] by (simp add: Let_def)
    have "slot_view (svc_idempotency (svc w')) now (t, k) = Vacant" for now
      unfolding w'(6) registry_after_facts(4) [OF R(1,2) vac now] by simp
    moreover have "service_ok w'" using service_ok_create [OF ok, of c t k inp] w'(1) by auto
    moreover have "if consecutive_failures (svc_breaker (svc w)) < 2
     then svc_breaker (svc w') = (svc_breaker (svc w))\<lparr>consecutive_failures := consecutive_failures (svc_breaker (svc w)) + 1\<rparr>
     else circuit (svc_breaker (svc w')) = StateOpen \<and> opened_at (svc_breaker (svc w')) = clock w'"
    proof (cases "consecutive_failures (svc_breaker (svc w)) < 2")
      case True
      then have "breaker_call (clock w) ?t1 False (svc_breaker (svc w)) =
          (svc_breaker (svc w))\<lparr>consecutive_failures := consecutive_failures (svc_breaker (svc w)) + 1\<rparr>"
        using closed_failure [OF b(1) closed, of "clock w" ?t1] b(2) by simp
      then show ?thesis using True w'(2) brk closed by (simp add: breaker_state_def advance_state_def)
    next
      case False
      then have "breaker_call (clock w) ?t1 False (svc_breaker (svc w)) = open_circuit ?t1 (svc_breaker (svc w))"
        using closed_failure [OF b(1) closed, of "clock w" ?t1] b(2) by simp
      then show ?thesis
        using False w'(2,3) brk b(3) t1(1)
        by (simp add: breaker_state_def advance_state_def open_circuit_def second_def Let_def)
    qed
    ultimately show thesis
      using that [OF w'(1)] w'(4,5) reservedD(1,11) [OF n(1)] pl t1(2) by simp
  qed
qed

lemma failing_request:
  assumes ok: "service_ok w" and valid: "valid_input t k inp"
    and vac: "slot_view (svc_idempotency (svc w)) (clock w) (t, k) = Vacant"
    and mode: "sim_mode (svc_dependency (svc w)) \<in> {mode_slow, mode_unavailable}"
    and closed: "circuit (svc_breaker (svc w)) = StateClosed"
    and create: "create_order c t k inp w = Some (r, w')"
  shows "\<exists>e. r = Inl (WrapDependency e)" "service_ok w'" "svc_store (svc w') = svc_store (svc w)"
    "sim_mode (svc_dependency (svc w')) = sim_mode (svc_dependency (svc w))"
    "slot_view (svc_idempotency (svc w')) now (t, k) = Vacant"
    "if consecutive_failures (svc_breaker (svc w)) < 2
     then svc_breaker (svc w') = (svc_breaker (svc w))\<lparr>consecutive_failures := consecutive_failures (svc_breaker (svc w)) + 1\<rparr>
     else circuit (svc_breaker (svc w')) = StateOpen \<and> opened_at (svc_breaker (svc w')) = clock w'"
proof -
  have "fst (reserve_with_retry c inp (counted w)) \<noteq> None" using mode by (intro retry_fails) simp
  then obtain e where e: "fst (reserve_with_retry c inp (counted w)) = Some e" by blast
  obtain v where
    v: "create_order c t k inp w = Some (Inl (WrapDependency e), v)" "service_ok v"
    "if consecutive_failures (svc_breaker (svc w)) < 2
     then svc_breaker (svc v) = (svc_breaker (svc w))\<lparr>consecutive_failures := consecutive_failures (svc_breaker (svc w)) + 1\<rparr>
     else circuit (svc_breaker (svc v)) = StateOpen \<and> opened_at (svc_breaker (svc v)) = clock v"
    "sim_mode (svc_dependency (svc v)) = sim_mode (svc_dependency (svc w))" "svc_store (svc v) = svc_store (svc w)"
    "\<And>now. slot_view (svc_idempotency (svc v)) now (t, k) = Vacant"
    by (rule create_failing [OF ok valid vac closed e], rule that)
  have "r = Inl (WrapDependency e)" "v = w'" using v(1) create by simp_all
  then show "\<exists>e. r = Inl (WrapDependency e)" "service_ok w'" "svc_store (svc w') = svc_store (svc w)"
    "sim_mode (svc_dependency (svc w')) = sim_mode (svc_dependency (svc w))"
    "slot_view (svc_idempotency (svc w')) now (t, k) = Vacant"
    "if consecutive_failures (svc_breaker (svc w)) < 2
     then svc_breaker (svc w') = (svc_breaker (svc w))\<lparr>consecutive_failures := consecutive_failures (svc_breaker (svc w)) + 1\<rparr>
     else circuit (svc_breaker (svc w')) = StateOpen \<and> opened_at (svc_breaker (svc w')) = clock w'"
    using v by blast+
qed

text \<open>A request against an open circuit before its four seconds are over fails without a call.\<close>

lemma create_open_circuit:
  assumes ok: "service_ok w" and valid: "valid_input t k inp"
    and vac: "slot_view (svc_idempotency (svc w)) (clock w) (t, k) = Vacant"
    and brk: "circuit (svc_breaker (svc w)) = StateOpen" "clock w < opened_at (svc_breaker (svc w)) + 4 * second"
  obtains w' where "create_order c t k inp w = Some (Inl (WrapDependency ErrCircuitOpen), w')"
    "svc_dependency (svc w') = svc_dependency (svc w)" "svc_store (svc w') = svc_store (svc w)" "clock w' = clock w"
    "svc_breaker (svc w') = svc_breaker (svc w)"
proof -
  note R = service_okD [OF ok]
  let ?w = "counted w"
  have early: "\<not> open_timeout (svc_breaker (svc w)) \<le> time_sub (clock w) (opened_at (svc_breaker (svc w)))"
    using R(4) brk(2) by (simp add: breaker_configured_def second_def int64_max_def)
  then have "before_request (clock ?w) (svc_breaker (svc ?w)) = (None, svc_breaker (svc w))"
    using brk(1) by (simp add: before_open_early)
  from guarded_refused [OF this, of c inp]
  have g: "guarded_reserve c inp ?w = (Some ErrCircuitOpen, ?w\<lparr>svc := (svc ?w)\<lparr>svc_breaker := svc_breaker (svc w)\<rparr>\<rparr>)" .
  obtain w1 where pl: "place_order c t inp ?w = (Inl (WrapDependency ErrCircuitOpen), w1)"
    "svc_dependency (svc w1) = svc_dependency (svc w)" "svc_store (svc w1) = svc_store (svc w)" "clock w1 = clock w"
    "svc_breaker (svc w1) = svc_breaker (svc w)"
    by (rule sync_shape [of "snd (guarded_reserve c inp ?w)"])
      (use early in \<open>simp add: place_order_def g Let_def breaker_state_def advance_state_def\<close>)
  show thesis
    by (rule that [OF create_vacant [OF valid R(1) vac pl(1), unfolded Let_def sum.case]]) (simp_all add: pl(2-5))
qed

text \<open>
  Outage. While the dependency is slow or unavailable and the circuit starts closed with a clean
  count, a client that sends its request three times gets a dependency error each time and nothing
  is stored; the third failure opens the circuit, and until four seconds have passed every request
  under any key is refused at once with the circuit-open error and without a dependency call.
\<close>

theorem app_outage_opens_circuit:
  assumes "service_ok w" and "valid_input t k inp" and "slot_view (svc_idempotency (svc w)) (clock w) (t, k) = Vacant"
    and "sim_mode (svc_dependency (svc w)) \<in> {mode_slow, mode_unavailable}"
    and "circuit (svc_breaker (svc w)) = StateClosed" and "consecutive_failures (svc_breaker (svc w)) = 0"
    and "create_order c1 t k inp w = Some (r1, w1)" and "create_order c2 t k inp w1 = Some (r2, w2)"
    and "create_order c3 t k inp w2 = Some (r3, w3)"
    and "svc w4 = svc w3" and "clock w3 \<le> clock w4" and "clock w4 < clock w3 + 4 * second" and "valid_input t' k' inp'"
    and "slot_view (svc_idempotency (svc w4)) (clock w4) (t', k') = Vacant"
    and "create_order c4 t' k' inp' w4 = Some (r4, w5)"
  shows "(\<exists>e1 e2 e3. r1 = Inl (WrapDependency e1) \<and> r2 = Inl (WrapDependency e2) \<and> r3 = Inl (WrapDependency e3)) \<and>
    circuit (svc_breaker (svc w3)) = StateOpen \<and> r4 = Inl (WrapDependency ErrCircuitOpen) \<and>
    svc_dependency (svc w5) = svc_dependency (svc w3) \<and> svc_store (svc w5) = svc_store (svc w) \<and> clock w5 = clock w4"
proof -
  note s1 = failing_request [OF assms(1-5,7)]
  have b1: "svc_breaker (svc w1) = (svc_breaker (svc w))\<lparr>consecutive_failures := 1\<rparr>" using s1(6) assms(6) by simp
  have m1: "sim_mode (svc_dependency (svc w1)) \<in> {mode_slow, mode_unavailable}" using s1(4) assms(4) by simp
  have c1: "circuit (svc_breaker (svc w1)) = StateClosed" using b1 assms(5) by simp
  note s2 = failing_request [OF s1(2) assms(2) s1(5) m1 c1 assms(8)]
  have b2: "svc_breaker (svc w2) = (svc_breaker (svc w))\<lparr>consecutive_failures := 2\<rparr>" using s2(6) b1 by simp
  have m2: "sim_mode (svc_dependency (svc w2)) \<in> {mode_slow, mode_unavailable}" using s2(4) m1 by simp
  have c2: "circuit (svc_breaker (svc w2)) = StateClosed" using b2 assms(5) by simp
  note s3 = failing_request [OF s2(2) assms(2) s2(5) m2 c2 assms(9)]
  have b3: "circuit (svc_breaker (svc w3)) = StateOpen" "opened_at (svc_breaker (svc w3)) = clock w3"
    using s3(6) b2 by simp_all
  have "service_ok w4" using s3(2) assms(10,11) by (simp add: service_ok_def)
  moreover have "circuit (svc_breaker (svc w4)) = StateOpen" "clock w4 < opened_at (svc_breaker (svc w4)) + 4 * second"
    using b3 assms(10,12) by simp_all
  ultimately obtain v where "create_order c4 t' k' inp' w4 = Some (Inl (WrapDependency ErrCircuitOpen), v)"
    "svc_dependency (svc v) = svc_dependency (svc w4)" "svc_store (svc v) = svc_store (svc w4)" "clock v = clock w4"
    using create_open_circuit [OF _ assms(13,14), of c4] by blast
  then have "r4 = Inl (WrapDependency ErrCircuitOpen) \<and> svc_dependency (svc w5) = svc_dependency (svc w3) \<and>
      svc_store (svc w5) = svc_store (svc w3) \<and> clock w5 = clock w4" using assms(10,15) by simp
  with s1(1,3) s2(1,3) s3(1,3) b3(1) show ?thesis by simp
qed

lemma retry_canceled:
  "ctx_err c (clock w) = Some e \<Longrightarrow> reserve_with_retry c inp w = (Some e, w)"
  by (simp add: reserve_with_retry_def retry_def retry_value_valid [OF service_policy_valid] retry_loop.simps)
    (simp add: service_policy_def service_runtime_def)

text \<open>
  C20. A cancelled client counts as a failure of the dependency. If the context of a request is
  already cancelled, no dependency call is made, and still the breaker counts a failure: the request
  gets a dependency error, and the third such client in a row opens the circuit.
\<close>

theorem app_cancel_counts_as_failure:
  assumes "service_ok w" and "valid_input t k inp" and "slot_view (svc_idempotency (svc w)) (clock w) (t, k) = Vacant"
    and "circuit (svc_breaker (svc w)) = StateClosed" and "done_at c = Some (t0, CtxCanceled)" and "t0 \<le> clock w"
  shows "\<exists>w'. create_order c t k inp w = Some (Inl (WrapDependency CtxCanceled), w') \<and>
    svc_dependency (svc w') = svc_dependency (svc w) \<and>
    (if consecutive_failures (svc_breaker (svc w)) = 2 then circuit (svc_breaker (svc w')) = StateOpen
     else consecutive_failures (svc_breaker (svc w')) = consecutive_failures (svc_breaker (svc w)) + 1)"
proof -
  have r: "reserve_with_retry c inp (counted w) = (Some CtxCanceled, counted w)"
    using assms(5,6) by (intro retry_canceled) (simp add: ctx_err_def)
  have b: "consecutive_failures (svc_breaker (svc w)) < 3"
    using service_okD(4) [OF assms(1)] by (simp add: breaker_configured_def breaker_ok_def)
  show ?thesis
    by (rule create_failing [OF assms(1-4), of c CtxCanceled]) (use r b in \<open>auto split: if_splits\<close>)
qed

section \<open>A concrete service\<close>

definition sample_world :: "string \<Rightarrow> world" where
  "sample_world m = \<lparr>clock = 1000, ties = (\<lambda>_. True), tie_pos = 0, rands = (\<lambda>_. 1 / 2), rand_pos = 0,
     id_bytes = (\<lambda>_. Some [1, 2]), id_pos = 0, out_of_range = (\<lambda>_. int64_min),
     svc = new_service (new_memory 500) \<lparr>sim_mode = m, sim_calls = 0\<rparr> 1000\<rparr>"

definition sample_input :: create_order_input where
  "sample_input = \<lparr>in_event_id = ''evt'', in_quantity = 2\<rparr>"

lemma sample_world_facts:
  "service_ok (sample_world m)" "clock (sample_world m) = 1000"
  "slot_view (svc_idempotency (svc (sample_world m))) now sc = Vacant"
  "circuit (svc_breaker (svc (sample_world m))) = StateClosed"
  "consecutive_failures (svc_breaker (svc (sample_world m))) = 0"
  "svc_dependency (svc (sample_world m)) = \<lparr>sim_mode = m, sim_calls = 0\<rparr>"
  "rands (sample_world m) i = 1 / 2" "valid_input ''t'' ''k'' sample_input"
  "svc (sample_world m) = new_service (new_memory 500) \<lparr>sim_mode = m, sim_calls = 0\<rparr> (clock (sample_world m))"
proof -
  show "svc (sample_world m) = new_service (new_memory 500) \<lparr>sim_mode = m, sim_calls = 0\<rparr> (clock (sample_world m))"
    by (simp add: sample_world_def)
  then show "service_ok (sample_world m)" by (rule service_ok_new) (simp add: sample_world_def)
qed (simp_all add: sample_world_def new_service_def service_breaker_ok slot_view_def service_registry_ok(3)
    valid_input_def sample_input_def)

lemmas sample_simps = sample_world_facts(1-8)

lemma sample_success:
  obtains ord w1 where "create_order background ''t'' ''k'' sample_input (sample_world mode_flaky) =
    Some (Inr \<lparr>cr_order = ord, cr_replayed = False\<rparr>, w1)"
  using create_succeeds [OF sample_world_facts(1,8), of background mode_flaky]
  by (auto simp: sample_simps background_def)

theorem app_replay_exact_witness:
  "\<exists>w ord w1 w3. create_order background ''t'' ''k'' sample_input w = Some (Inr \<lparr>cr_order = ord, cr_replayed = False\<rparr>, w1) \<and>
     create_order background ''t'' ''k'' sample_input w1 = Some (Inr \<lparr>cr_order = ord, cr_replayed = True\<rparr>, w3)"
proof -
  obtain ord w1 where c: "create_order background ''t'' ''k'' sample_input (sample_world mode_flaky) =
    Some (Inr \<lparr>cr_order = ord, cr_replayed = False\<rparr>, w1)" by (rule sample_success)
  from app_replay_exact [OF sample_world_facts(1) c, of "[]" w1 sample_input background] c show ?thesis
    by (auto simp: sample_simps go_duration_defs)
qed

theorem app_reserve_before_store_witness:
  "\<exists>r w'. create_order background ''t'' ''k'' sample_input (sample_world mode_flaky) = Some (Inr r, w') \<and>
     calls_counted ''success'' w' = 1 \<and> calls_counted ''failure'' w' \<le> 2 \<and> order_stored ''t'' sample_input (sample_world mode_flaky) (cr_order r) w'"
proof -
  obtain ord w1 where c: "create_order background ''t'' ''k'' sample_input (sample_world mode_flaky) =
    Some (Inr \<lparr>cr_order = ord, cr_replayed = False\<rparr>, w1)" by (rule sample_success)
  have "calls_counted x (sample_world mode_flaky) = 0" for x
    by (simp add: calls_counted_def sample_world_def new_service_def no_metrics_def)
  with app_reserve_before_store [OF sample_world_facts(1) c] c show ?thesis
    by (auto simp: dependency_answered_def)
qed

theorem app_runs_and_balances_witness:
  "\<exists>w'. app_run [Create background ''t'' ''k'' sample_input, Set_fault ''slow'', Read_ready, Pass 5] (sample_world mode_healthy) = Some w' \<and>
     orders_total (svc w') = orders_succeeded (svc w') + orders_failed (svc w') + duplicates_suppressed (svc w')"
  using app_runs_and_balances [OF sample_world_facts(9), of mode_healthy
      "[Create background ''t'' ''k'' sample_input, Set_fault ''slow'', Read_ready, Pass 5]"]
    sample_world_facts(2) [of mode_healthy] by (simp del: app_run.simps) blast

theorem app_latency_witness:
  "\<exists>res w'. create_order background ''t'' ''k'' sample_input (sample_world mode_slow) = Some (res, w') \<and>
     clock w' \<le> 1000 + 1030 * millisecond"
proof -
  obtain res w' where c: "create_order background ''t'' ''k'' sample_input (sample_world mode_slow) = Some (res, w')"
    by (rule service_ok_create [OF sample_world_facts(1)], rule that)
  from app_latency [OF sample_world_facts(1) _ c] c show ?thesis by (auto simp: sample_simps)
qed

theorem app_succeeds_and_recovers_witness:
  "\<exists>ord w'. create_order background ''t'' ''k'' sample_input (sample_world mode_flaky) =
     Some (Inr \<lparr>cr_order = ord, cr_replayed = False\<rparr>, w') \<and> event_id ord = ''evt'' \<and> quantity ord = 2"
  using app_succeeds_and_recovers [OF sample_world_facts(1,8), of background mode_flaky]
  by (auto simp: sample_simps background_def sample_input_def)

theorem app_outage_opens_circuit_witness:
  "\<exists>w3 w5. circuit (svc_breaker (svc w3)) = StateOpen \<and>
     create_order background ''t'' ''k'' sample_input w3 = Some (Inl (WrapDependency ErrCircuitOpen), w5)"
proof -
  let ?c = "create_order background ''t'' ''k'' sample_input"
  let ?w = "sample_world mode_slow"
  have ok: "service_ok ?w" and m: "sim_mode (svc_dependency (svc ?w)) \<in> {mode_slow, mode_unavailable}"
    by (simp_all add: sample_simps)
  obtain r1 w1 where c1: "?c ?w = Some (r1, w1)" "service_ok w1" by (rule service_ok_create [OF ok], rule that)
  obtain r2 w2 where c2: "?c w1 = Some (r2, w2)" "service_ok w2" by (rule service_ok_create [OF c1(2)], rule that)
  obtain r3 w3 where c3: "?c w2 = Some (r3, w3)" "service_ok w3" by (rule service_ok_create [OF c2(2)], rule that)
  obtain r4 w4 where c4: "?c w3 = Some (r4, w4)" by (rule service_ok_create [OF c3(2)], rule that)
  have vac: "slot_view (svc_idempotency (svc w3)) (clock w3) (''t'', ''k'') = Vacant"
  proof -
    note s1 = failing_request [OF ok sample_world_facts(8) sample_world_facts(3) m sample_world_facts(4) c1(1)]
    have b1: "svc_breaker (svc w1) = (svc_breaker (svc ?w))\<lparr>consecutive_failures := 1\<rparr>"
      using s1(6) by (simp add: sample_simps)
    have m1: "sim_mode (svc_dependency (svc w1)) \<in> {mode_slow, mode_unavailable}" using s1(4) m by simp
    have k1: "circuit (svc_breaker (svc w1)) = StateClosed" using b1 by (simp add: sample_simps)
    note s2 = failing_request [OF c1(2) sample_world_facts(8) s1(5) m1 k1 c2(1)]
    have b2: "svc_breaker (svc w2) = (svc_breaker (svc ?w))\<lparr>consecutive_failures := 2\<rparr>" using s2(6) b1 by simp
    have m2: "sim_mode (svc_dependency (svc w2)) \<in> {mode_slow, mode_unavailable}" using s2(4) m1 by simp
    have k2: "circuit (svc_breaker (svc w2)) = StateClosed" using b2 by (simp add: sample_simps)
    show ?thesis by (rule failing_request(5) [OF c2(2) sample_world_facts(8) s2(5) m2 k2 c3(1)])
  qed
  from app_outage_opens_circuit [OF ok sample_world_facts(8) sample_world_facts(3) m sample_world_facts(4,5)
      c1(1) c2(1) c3(1) refl _ _ sample_world_facts(8) vac c4] c4
  show ?thesis by (auto simp: second_def)
qed

theorem app_cancel_counts_as_failure_witness:
  "\<exists>w'. create_order \<lparr>done_at = Some (0, CtxCanceled)\<rparr> ''t'' ''k'' sample_input (sample_world mode_healthy) =
     Some (Inl (WrapDependency CtxCanceled), w') \<and> consecutive_failures (svc_breaker (svc w')) = 1"
  using app_cancel_counts_as_failure [OF sample_world_facts(1,8,3,4), of "\<lparr>done_at = Some (0, CtxCanceled)\<rparr>" 0 mode_healthy]
  by (auto simp: sample_simps)

end
