(* ===== verification/Http_Api.thy ===== *)
theory Http_Api
  imports App_Service Go_Json
begin

text \<open>
  The HTTP API of the lab server, \<open>internal/httpapi/server.go\<close>: the middleware (authentication,
  three-layer admission, the demo guard, observation) wrapped around the handlers, exactly as
  \<open>Handler\<close> wires them, on a \<open>lab\<close>: the order service with its world, the three limiters, the API
  keys and the HTTP metrics.

  A request carries the endpoint that \<open>http.ServeMux\<close> selected for it, its headers and query as the
  accessors \<open>Get\<close> return them, and its body as \<open>Go_Json\<close> reads it. Handlers that end with a
  third-party component (the Prometheus handler, the file server, the mux's own 404 and 405, a
  refused WebSocket upgrade) answer with the response that component gives, a parameter. \<open>None\<close> is a
  request that never returns. The stream handler takes the outcomes of its WebSocket operations
  and the arms its \<open>select\<close> takes as inputs.
\<close>

section \<open>Requests and responses\<close>

datatype endpoint =
    Ep_metrics | Ep_health | Ep_ready | Ep_create_order | Ep_list_orders | Ep_get_order string
  | Ep_stream | Ep_snapshot | Ep_fault | Ep_reset | Ep_static | Ep_unmatched

record http_request =
  rq_method :: string
  rq_path :: string
  rq_endpoint :: endpoint
  rq_header :: "string \<Rightarrow> string"
  rq_query :: "string \<Rightarrow> string"
  rq_remote :: string
  rq_ctx :: ctx
  rq_body :: json_stream

datatype message = Text string | Error_text go_error

text \<open>A stream that \<open>stream\<close> has opened: its handler has not returned yet.\<close>

record session =
  ss_tenant :: string
  ss_chan :: nat
  ss_id :: u64
  ss_replay :: "event list"

datatype payload =
    Error_body string message
  | Status_body string
  | Ready_body string "string \<times> string \<times> int"
  | Result_body create_result
  | Order_body order
  | Orders_body "order list"
  | Snapshot_body snapshot
  | Dependency_body "string \<times> string \<times> int"
  | Page_not_found
  | Session_body session
  | Other_body string

record response =
  rs_status :: int
  rs_headers :: "(string \<times> string) list"
  rs_body :: payload

definition json_headers :: "(string \<times> string) list" where
  "json_headers = [(''Content-Type'', ''application/json; charset=utf-8''), (''Cache-Control'', ''no-store'')]"

definition write_json :: "int \<Rightarrow> payload \<Rightarrow> response" where
  "write_json status value = \<lparr>rs_status = status, rs_headers = json_headers, rs_body = value\<rparr>"

definition write_error :: "int \<Rightarrow> string \<Rightarrow> message \<Rightarrow> response" where
  "write_error status code msg = write_json status (Error_body code msg)"

section \<open>The server\<close>

record lab =
  world :: world
  tenant_limiter :: limiter
  key_limiter :: limiter
  ip_limiter :: limiter
  api_keys :: "string \<rightharpoonup> string"
  demo_mode :: bool
  web_dir :: string
  http_requests :: "string \<times> string \<times> string \<Rightarrow> nat"
  request_durations :: "string \<Rightarrow> rat list"

text \<open>\<open>NewServer\<close>, given the environment; the limiter constructors accept their arguments.\<close>

definition server_limiter :: "rat \<Rightarrow> int \<Rightarrow> limiter" where
  "server_limiter r b = (case new_token_bucket_limiter r b of Inr l \<Rightarrow> l)"

definition server_keys :: "string \<rightharpoonup> string" where
  "server_keys = [''tenant-alpha-key'' \<mapsto> ''tenant-alpha'', ''tenant-beta-key'' \<mapsto> ''tenant-beta'']"

definition new_server :: "(string \<Rightarrow> string) \<Rightarrow> world \<Rightarrow> lab" where
  "new_server env w = \<lparr>world = w, tenant_limiter = server_limiter 20 30, key_limiter = server_limiter 15 25,
     ip_limiter = server_limiter 40 50, api_keys = server_keys,
     demo_mode = equal_fold (env ''DEMO_MODE'') ''true'',
     web_dir = (if env ''WEB_DIR'' = [] then ''web'' else env ''WEB_DIR''),
     http_requests = (\<lambda>_. 0), request_durations = (\<lambda>_. [])\<rparr>"

type_synonym handler = "http_request \<Rightarrow> lab \<Rightarrow> (response \<times> lab) option"

definition tenant_from_context :: "http_request \<Rightarrow> string" where
  "tenant_from_context r = rq_header r ''X-Northstar-Tenant''"

definition client_ip :: "http_request \<Rightarrow> string" where
  "client_ip r = (case split_host (rq_remote r) of Some host \<Rightarrow> host | None \<Rightarrow> rq_remote r)"

section \<open>Middleware\<close>

definition auth :: "handler \<Rightarrow> handler" where
  "auth handle r l =
     (case api_keys l (rq_header r ''X-API-Key'') of
        None \<Rightarrow> Some (write_error 401 ''unauthorized'' (Text ''a valid X-API-Key is required''), l)
      | Some tenant \<Rightarrow>
          handle (r\<lparr>rq_header := (rq_header r)(''X-Northstar-Tenant'' := tenant)\<rparr>) l)"

definition reject_rate_limit :: "http_request \<Rightarrow> lab \<Rightarrow> response \<times> lab" where
  "reject_rate_limit r l =
     (let e = write_error 429 ''rate_limited'' (Text ''request rate exceeded the synthetic isolation policy'')
      in (e\<lparr>rs_headers := (''Retry-After'', ''1'') # rs_headers e\<rparr>, l\<lparr>world := mark_rate_limited (world l)\<rparr>))"

definition rate_limit :: "handler \<Rightarrow> handler" where
  "rate_limit handle r l =
     (let now = clock (world l);
          tenant = tenant_from_context r;
          scope = tenant @ '':'' @ rq_header r ''X-API-Key'';
          (key_ok, kl) = allow now scope (key_limiter l);
          l1 = l\<lparr>key_limiter := kl\<rparr>
      in if \<not> key_ok then Some (reject_rate_limit r l1)
         else let (tenant_ok, tl) = allow now tenant (tenant_limiter l1); l2 = l1\<lparr>tenant_limiter := tl\<rparr>
           in if \<not> tenant_ok
              then Some (reject_rate_limit r (l2\<lparr>key_limiter := refund scope (key_limiter l2)\<rparr>))
              else let ip = client_ip r; (ip_ok, il) = allow now ip (ip_limiter l2); l3 = l2\<lparr>ip_limiter := il\<rparr>
                in if \<not> ip_ok
                   then Some (reject_rate_limit r
                     (l3\<lparr>tenant_limiter := refund tenant (tenant_limiter l3),
                        key_limiter := refund scope (key_limiter l3)\<rparr>))
                   else handle r l3)"

definition demo :: "handler \<Rightarrow> handler" where
  "demo handle r l =
     (if \<not> demo_mode l
      then Some (\<lparr>rs_status = 404, rs_headers = [(''Content-Type'', ''text/plain; charset=utf-8''),
        (''X-Content-Type-Options'', ''nosniff'')], rs_body = Page_not_found\<rparr>, l)
      else handle r l)"

definition route_label :: "string \<Rightarrow> string" where
  "route_label path =
     (if prefix ''/v1/orders/'' path then ''/v1/orders/{id}''
      else if path \<in> {''/'', ''/styles.css'', ''/app.js'', ''/healthz'', ''/readyz'', ''/metrics'', ''/v1/orders'',
        ''/v1/stream'', ''/v1/demo/snapshot'', ''/v1/demo/fault'', ''/v1/demo/reset''} then path
      else ''other'')"

text \<open>
  What \<open>observe\<close> does once the handler has returned. The recorded status is the one the handler wrote; a handler
  that writes none answers 200. The handler of a stream returns when its session ends: until then
  the upgrade is answered, but the request is not counted.
\<close>

definition count_request :: "http_request \<Rightarrow> int \<Rightarrow> gotime \<Rightarrow> lab \<Rightarrow> lab" where
  "count_request r status started l =
     (let path = route_label (rq_path r);
          labels = (rq_method r, path, show_int status);
          took = duration_seconds (time_sub (clock (world l)) started)
      in l\<lparr>http_requests := (http_requests l)(labels := Suc (http_requests l labels)),
           request_durations := (request_durations l)(path := request_durations l path @ [took])\<rparr>)"

definition still_open :: "response \<Rightarrow> bool" where
  "still_open resp \<longleftrightarrow> (case rs_body resp of Session_body s \<Rightarrow> True | _ \<Rightarrow> False)"

definition observe :: "handler \<Rightarrow> handler" where
  "observe handle r l =
     (let started = clock (world l)
      in case handle r l of
           None \<Rightarrow> None
         | Some (resp, l') \<Rightarrow>
             Some (resp, if still_open resp then l' else count_request r (rs_status resp) started l'))"

section \<open>Handlers\<close>

definition health :: handler where
  "health r l = Some (write_json 200 (Status_body ''ok''), l)"

definition dependency_view :: "lab \<Rightarrow> (string \<times> string \<times> int) \<times> lab" where
  "dependency_view l =
     (case take_snapshot (world l) of
        (s, w) \<Rightarrow> ((sn_mode s, sn_circuit_state s, sn_consecutive_failures s), l\<lparr>world := w\<rparr>))"

definition ready_handler :: handler where
  "ready_handler r l =
     (case ready (world l) of
        (ok, w) \<Rightarrow>
          (case dependency_view (l\<lparr>world := w\<rparr>) of
             (dep, l') \<Rightarrow> Some (if ok then write_json 200 (Ready_body ''ready'' dep)
                               else write_json 503 (Ready_body ''degraded'' dep), l')))"

definition input_decoder :: "create_order_input json_decoder" where
  "input_decoder = dec_struct True
     [(''event_id'', dec_field in_event_id (\<lambda>x i. i\<lparr>in_event_id := x\<rparr>) dec_string),
      (''quantity'', dec_field in_quantity (\<lambda>x i. i\<lparr>in_quantity := x\<rparr>) dec_int)]"

definition zero_input :: create_order_input where
  "zero_input = \<lparr>in_event_id = [], in_quantity = 0\<rparr>"

text \<open>The part of \<open>createOrder\<close> before the service is called: the input and the key, or the error response.\<close>

definition parse_create :: "http_request \<Rightarrow> response + create_order_input \<times> string" where
  "parse_create r =
     (case decode_first input_decoder zero_input (rq_body r) of
        None \<Rightarrow> Inl (write_error 400 ''invalid_json'' (Text ''request body must contain event_id and quantity''))
      | Some inp \<Rightarrow>
          if \<not> at_end (rq_body r)
          then Inl (write_error 400 ''invalid_json'' (Text ''request body must contain exactly one JSON object''))
          else let key = trim_space (rq_header r ''Idempotency-Key'')
            in if key = [] \<or> 128 < length key
               then Inl (write_error 400 ''invalid_idempotency_key''
                 (Text ''Idempotency-Key is required and must be at most 128 characters''))
               else Inr (inp, key))"

definition create_response :: "go_error + create_result \<Rightarrow> response" where
  "create_response res =
     (case res of
        Inl e \<Rightarrow>
          (if errors_is e ErrInvalidInput then write_error 400 ''invalid_order'' (Error_text e)
           else if errors_is e ErrIdempotencyConflict then write_error 409 ''idempotency_conflict'' (Error_text e)
           else if errors_is e ErrDependency
           then write_error 503 ''dependency_unavailable'' (Text ''inventory reservation is temporarily unavailable'')
           else write_error 500 ''internal_error'' (Text ''request could not be completed''))
      | Inr result \<Rightarrow> write_json (if cr_replayed result then 200 else 201) (Result_body result))"

definition create_order_handler :: handler where
  "create_order_handler r l =
     (case parse_create r of
        Inl resp \<Rightarrow> Some (resp, l)
      | Inr (inp, key) \<Rightarrow>
          (case create_order (rq_ctx r) (tenant_from_context r) key inp (world l) of
             None \<Rightarrow> None
           | Some (res, w) \<Rightarrow> Some (create_response res, l\<lparr>world := w\<rparr>)))"

definition get_order_handler :: "string \<Rightarrow> handler" where
  "get_order_handler oid r l =
     Some (case service_get_order (world l) (tenant_from_context r) oid of
        Inl e \<Rightarrow> (if errors_is e ErrNotFound then write_error 404 ''not_found'' (Text ''order was not found'')
                  else write_error 500 ''internal_error'' (Text ''order could not be loaded''))
      | Inr ord \<Rightarrow> write_json 200 (Order_body ord), l)"

definition list_orders_handler :: handler where
  "list_orders_handler r l =
     Some (write_json 200 (Orders_body (service_list_orders (world l) (tenant_from_context r))), l)"

definition snapshot_handler :: handler where
  "snapshot_handler r l =
     (case take_snapshot (world l) of (s, w) \<Rightarrow> Some (write_json 200 (Snapshot_body s), l\<lparr>world := w\<rparr>))"

definition mode_decoder :: "string json_decoder" where
  "mode_decoder = dec_struct False [(''mode'', dec_string)]"

definition set_fault_handler :: handler where
  "set_fault_handler r l =
     (case decode_first mode_decoder [] (rq_body r) of
        None \<Rightarrow> Some (write_error 400 ''invalid_json'' (Text ''mode is required''), l)
      | Some mode \<Rightarrow>
          if \<not> at_end (rq_body r)
          then Some (write_error 400 ''invalid_json'' (Text ''request body must contain exactly one JSON object''), l)
          else (case set_fault_mode mode (world l) of
                  (Some e, w) \<Rightarrow> Some (write_error 400 ''invalid_mode'' (Error_text e), l\<lparr>world := w\<rparr>)
                | (None, w) \<Rightarrow>
                    (case dependency_view (l\<lparr>world := w\<rparr>) of
                       (dep, l') \<Rightarrow> Some (write_json 200 (Dependency_body dep), l'))))"

definition reset_handler :: handler where
  "reset_handler r l =
     Some (write_json 200 (Status_body ''reset''),
       l\<lparr>world := reset_service (world l), tenant_limiter := reset_limiter (tenant_limiter l),
         key_limiter := reset_limiter (key_limiter l), ip_limiter := reset_limiter (ip_limiter l)\<rparr>)"

section \<open>The event stream\<close>

text \<open>
  \<open>stream\<close> up to its first write: the subscription, and either an error response or a session.
  \<open>accepted\<close> is what \<open>websocket.Accept\<close> gives: nothing, or the response it has already written.
\<close>

definition end_subscription :: "u64 \<Rightarrow> lab \<Rightarrow> lab" where
  "end_subscription i l =
     l\<lparr>world := (world l)\<lparr>svc := (svc (world l))\<lparr>svc_store := snd (cancel i False (svc_store (svc (world l))))\<rparr>\<rparr>\<rparr>"

definition stream_open :: "response option \<Rightarrow> http_request \<Rightarrow> lab \<Rightarrow> (response + session) \<times> lab" where
  "stream_open accepted r l =
     (let since = of_nat (fst (parse_uint (rq_query r ''since''))); tenant = tenant_from_context r
      in case service_subscribe_since tenant since 128 (world l) of
           ((replay, ch, i, expired), w) \<Rightarrow>
             (let l1 = l\<lparr>world := w\<rparr>
              in if expired
                 then (Inl (write_error 409 ''replay_window_expired''
                   (Text ''cursor is older than the retained event window; reconcile through GET /v1/orders'')),
                   end_subscription i l1)
                 else (case accepted of
                     Some refused \<Rightarrow> (Inl refused, end_subscription i l1)
                   | None \<Rightarrow> (Inr \<lparr>ss_tenant = tenant, ss_chan = ch, ss_id = i, ss_replay = replay\<rparr>, l1))))"

text \<open>
  What the session writes. \<open>ok\<close> says of every write, by its number, whether it succeeds; the result
  is what was written, the number of writes, and whether all of them succeeded. The arms of the
  \<open>select\<close> loop are its inputs; it stops at the end of the inputs, where it still waits, or returns.
\<close>

fun write_replay :: "(nat \<Rightarrow> bool) \<Rightarrow> nat \<Rightarrow> event list \<Rightarrow> event list \<times> nat \<times> bool" where
  "write_replay ok n [] = ([], n, True)"
| "write_replay ok n (ev # evs) =
     (if ok n then (case write_replay ok (Suc n) evs of (ws, m, fine) \<Rightarrow> (ev # ws, m, fine)) else ([], Suc n, False))"

datatype stream_input = Context_done | Ping_tick bool | Event_received event | Channel_closed

fun stream_loop :: "(nat \<Rightarrow> bool) \<Rightarrow> nat \<Rightarrow> string \<Rightarrow> stream_input list \<Rightarrow> event list \<times> bool" where
  "stream_loop ok n tenant [] = ([], False)"
| "stream_loop ok n tenant (Context_done # ins) = ([], True)"
| "stream_loop ok n tenant (Ping_tick answered # ins) =
     (if answered then stream_loop ok n tenant ins else ([], True))"
| "stream_loop ok n tenant (Channel_closed # ins) = ([], True)"
| "stream_loop ok n tenant (Event_received ev # ins) =
     (if ev_tenant ev = tenant
      then if ok n then (case stream_loop ok (Suc n) tenant ins of (ws, fin) \<Rightarrow> (ev # ws, fin)) else ([], True)
      else stream_loop ok n tenant ins)"

definition stream_session :: "(nat \<Rightarrow> bool) \<Rightarrow> session \<Rightarrow> stream_input list \<Rightarrow> event list \<times> bool" where
  "stream_session ok s ins =
     (case write_replay ok 0 (ss_replay s) of
        (ws, n, fine) \<Rightarrow>
          if fine then (case stream_loop ok n (ss_tenant s) ins of (ws', fin) \<Rightarrow> (ws @ ws', fin)) else (ws, True))"

text \<open>
  As a handler, the stream starts here; the lab then changes by other requests until the session
  ends, which is \<open>end_subscription\<close> and then, when the connection is closed, \<open>count_request\<close>. An upgrade
  has the status 101.
\<close>

definition stream_handler :: "response option \<Rightarrow> handler" where
  "stream_handler accepted r l =
     (case stream_open accepted r l of
        (Inl resp, l') \<Rightarrow> Some (resp, l')
      | (Inr s, l') \<Rightarrow> Some (\<lparr>rs_status = 101, rs_headers = [], rs_body = Session_body s\<rparr>, l'))"

section \<open>The mux\<close>

text \<open>
  \<open>external\<close> gives the responses of the components outside the program: the Prometheus handler, the
  file server on \<open>web_dir\<close>, the mux's own errors; \<open>accepted\<close> the upgrade of the WebSocket package.
\<close>

definition dispatch :: "(http_request \<Rightarrow> response) \<Rightarrow> (http_request \<Rightarrow> response option) \<Rightarrow> handler" where
  "dispatch external accepted r l =
     (case rq_endpoint r of
        Ep_metrics \<Rightarrow> Some (external r, l)
      | Ep_health \<Rightarrow> health r l
      | Ep_ready \<Rightarrow> ready_handler r l
      | Ep_create_order \<Rightarrow> auth (rate_limit create_order_handler) r l
      | Ep_list_orders \<Rightarrow> auth list_orders_handler r l
      | Ep_get_order oid \<Rightarrow> auth (get_order_handler oid) r l
      | Ep_stream \<Rightarrow> auth (stream_handler (accepted r)) r l
      | Ep_snapshot \<Rightarrow> demo snapshot_handler r l
      | Ep_fault \<Rightarrow> demo set_fault_handler r l
      | Ep_reset \<Rightarrow> demo reset_handler r l
      | Ep_static \<Rightarrow> Some (external r, l)
      | Ep_unmatched \<Rightarrow> Some (external r, l))"

definition serve :: "(http_request \<Rightarrow> response) \<Rightarrow> (http_request \<Rightarrow> response option) \<Rightarrow> handler" where
  "serve external accepted = observe (dispatch external accepted)"

end
