(* ===== verification/Http_Properties.thy ===== *)
theory Http_Properties
  imports App_Properties Http_Api
begin

text \<open>
  What the HTTP API of the lab server guarantees: it always answers, a tenant only ever sees its
  own orders and events, admission charges all three layers or none, the status of an order request
  says what happened, and refused requests have no effect. The first section extends the invariant
  of the service by the ownership of cached results.
\<close>

section \<open>Cached results belong to their tenant\<close>

definition cache_owned :: "world \<Rightarrow> bool" where
  "cache_owned w \<longleftrightarrow> (\<forall>now t k p f v. clock w \<le> now \<longrightarrow>
     slot_view (svc_idempotency (svc w)) now (t, k) = Done p f v \<longrightarrow> tenant_id v = t)"

lemma cache_ownedD:
  "cache_owned w \<Longrightarrow> clock w \<le> now \<Longrightarrow> slot_view (svc_idempotency (svc w)) now (t, k) = Done p f v \<Longrightarrow> tenant_id v = t"
  unfolding cache_owned_def by blast

lemma place_order_result:
  assumes "place_order c t inp w = (res, w')"
  shows "case res of Inl e \<Rightarrow> \<exists>e'. e = WrapDependency e' | Inr ord \<Rightarrow> tenant_id ord = t"
  using assms
  by (rule_tac place_order_cases [where c = c and t = t and inp = inp and w = w])
    (auto simp: save_def Let_def stamp_def fresh_order_def split: prod.splits)

lemma registry_after_other:
  fixes w :: world
  assumes ok: "registry_ok (svc_idempotency (svc w))"
    and vac: "slot_view (svc_idempotency (svc w)) (clock w) (t, k) = Vacant"
    and "0 \<le> now" and "clock w \<le> now'" and "sc \<noteq> (t, k)"
  shows "slot_view (registry_after t k inp w res now) now' sc = slot_view (svc_idempotency (svc w)) now' sc"
proof -
  let ?e = "do_enter (clock w) (t, k) (request_fingerprint inp) (svc_idempotency (svc w))"
  have lead: "fst ?e = Lead (next_entry (svc_idempotency (svc w)))"
    using vac by (simp add: enter_decision [OF ok])
  have "slot_view (snd ?e) (clock w) (t, k) = Running (next_entry (svc_idempotency (svc w))) (request_fingerprint inp)"
    using lead by (simp add: enter_view [OF ok])
  from finish_view [OF registry_ok_enter [OF ok] this assms(3)] show ?thesis
    using assms(4,5) by (simp add: registry_after_def enter_view [OF ok])
qed

lemma create_outcome:
  assumes ok: "service_ok w" and own: "cache_owned w" and create: "create_order c t k inp w = Some (res, w')"
  shows "cache_owned w'" and "case res of Inl e \<Rightarrow> e = WrapInvalidInput \<or> e = ErrIdempotencyConflict \<or> (\<exists>e'. e = WrapDependency e')
      | Inr r \<Rightarrow> tenant_id (cr_order r) = t"
proof -
  note R = service_okD [OF ok]
  have "cache_owned w' \<and> (case res of Inl e \<Rightarrow> e = WrapInvalidInput \<or> e = ErrIdempotencyConflict \<or> (\<exists>e'. e = WrapDependency e')
      | Inr r \<Rightarrow> tenant_id (cr_order r) = t)"
  proof (cases "valid_input t k inp")
    case False
    with create create_invalid [OF False, of c w] own show ?thesis by (auto simp: cache_owned_def)
  next
    case True
    show ?thesis
    proof (rule settled_cases [OF R(2), of "clock w" "(t, k)"])
      assume vac: "slot_view (svc_idempotency (svc w)) (clock w) (t, k) = Vacant"
      obtain r1 w1 where pl: "place_order c t inp (counted w) = (r1, w1)" by fastforce
      have reg: "svc_idempotency (svc w') = registry_after t k inp w r1 (clock w1)" "clock w' = clock w1"
        and res: "res = map_sum id (\<lambda>ord. \<lparr>cr_order = ord, cr_replayed = False\<rparr>) r1"
        using create create_vacant [OF True R(1) vac pl] by (cases r1; auto simp: Let_def)+
      have le: "clock w \<le> clock w1" using place_order_frame(2) [OF pl] by simp
      then have pos: "0 \<le> clock w1" using R(5) by simp
      have "tenant_id v = t'"
        if "clock w' \<le> now" "slot_view (svc_idempotency (svc w')) now (t', k') = Done p f v" for now t' k' p f v
      proof (cases "(t', k') = (t, k)")
        case True
        then show ?thesis
          using that(2) place_order_result [OF pl]
          by (auto simp: reg(1) registry_after_facts(4) [OF R(1,2) vac pos] split: sum.splits if_splits)
      next
        case False
        have now: "clock w \<le> now" using that(1) le reg(2) by simp
        then have "slot_view (svc_idempotency (svc w)) now (t', k') = Done p f v"
          using that(2) False by (simp add: reg(1) registry_after_other [OF R(1) vac pos])
        then show ?thesis by (rule cache_ownedD [OF own now])
      qed
      then have "cache_owned w'" unfolding cache_owned_def by blast
      with place_order_result [OF pl] show ?thesis by (cases r1) (auto simp: res)
    next
      fix p f v assume cached: "slot_view (svc_idempotency (svc w)) (clock w) (t, k) = Done p f v"
      let ?r = "snd (do_enter (clock w) (t, k) (request_fingerprint inp) (svc_idempotency (svc w)))"
      have "svc_idempotency (svc w') = ?r \<and> clock w' = clock w"
        using create create_cached [OF True R(1) cached, of c] by (auto simp: Let_def split: if_splits)
      then have "cache_owned w'"
        using own cached by (simp add: cache_owned_def enter_view [OF R(1)] enter_decision [OF R(1)])
      then show ?thesis
        using create create_cached [OF True R(1) cached, of c] cache_ownedD [OF own order_refl cached]
        by (auto simp: Let_def split: if_splits)
    qed
  qed
  then show "cache_owned w'" and "case res of Inl e \<Rightarrow> e = WrapInvalidInput \<or> e = ErrIdempotencyConflict \<or> (\<exists>e'. e = WrapDependency e')
      | Inr r \<Rightarrow> tenant_id (cr_order r) = t" by simp_all
qed

section \<open>The state of the server\<close>

definition lab_ok :: "lab \<Rightarrow> bool" where
  "lab_ok l \<longleftrightarrow> service_ok (world l) \<and> cache_owned (world l) \<and>
     limiter_ok (key_limiter l) \<and> limiter_ok (tenant_limiter l) \<and> limiter_ok (ip_limiter l)"

lemma lab_okD:
  assumes "lab_ok l"
  shows "service_ok (world l)" "cache_owned (world l)" "limiter_ok (key_limiter l)"
    "limiter_ok (tenant_limiter l)" "limiter_ok (ip_limiter l)"
  using assms by (simp_all add: lab_ok_def)

lemma cache_owned_op:
  assumes "app_step x w = Some w'" and "\<forall>c t k inp. x \<noteq> Create c t k inp" and "cache_owned w"
  shows "cache_owned w'"
proof (cases "x = Reset_all")
  case True
  have "slot_view (service_registry (clock w)) now sc = Vacant" for now sc
    by (simp add: slot_view_def service_registry_ok(3))
  with True assms(1) show ?thesis by (auto simp: cache_owned_def reset_shape)
next
  case False
  note Q = quiet_step [OF assms(1,2) False]
  show ?thesis
    unfolding cache_owned_def Q(1) using cache_ownedD [OF assms(3)] Q(2) order_trans by blast
qed

lemma lab_ok_op:
  assumes "lab_ok l" and "app_step x (world l) = Some w'" and "\<forall>c t k inp. x \<noteq> Create c t k inp"
  shows "lab_ok (l\<lparr>world := w'\<rparr>)" "clock (world l) \<le> clock w'"
proof -
  obtain v where "app_step x (world l) = Some v" "service_ok v" "clock (world l) \<le> clock v"
    by (rule service_ok_step [OF lab_okD(1) [OF assms(1)]])
  with assms(2) have "service_ok w'" and le: "clock (world l) \<le> clock w'" by simp_all
  with lab_okD [OF assms(1)] cache_owned_op [OF assms(2,3)] show "lab_ok (l\<lparr>world := w'\<rparr>)"
    by (simp add: lab_ok_def)
  from le show "clock (world l) \<le> clock w'" .
qed

lemma server_limiter_ok: "0 < r \<Longrightarrow> 0 < b \<Longrightarrow> b \<le> 2 ^ 53 \<Longrightarrow> limiter_ok (server_limiter r b)"
  using new_limiter_ok [of r b] by (simp add: server_limiter_def new_token_bucket_limiter_def)

lemma lab_ok_new:
  assumes "svc w = new_service m d (clock w)" and "0 \<le> clock w"
  shows "lab_ok (new_server env w)"
proof -
  have "slot_view (svc_idempotency (svc w)) now sc = Vacant" for now sc
    by (simp add: assms(1) new_service_def slot_view_def service_registry_ok(3))
  then show ?thesis
    using service_ok_new [OF assms] by (simp add: lab_ok_def new_server_def cache_owned_def server_limiter_ok)
qed

section \<open>Admission\<close>

definition key_scope :: "http_request \<Rightarrow> string" where
  "key_scope r = tenant_from_context r @ '':'' @ rq_header r ''X-API-Key''"

text \<open>What each of the three layers has left for a request.\<close>

definition layer_budgets :: "lab \<Rightarrow> http_request \<Rightarrow> rat \<times> rat \<times> rat" where
  "layer_budgets l r =
     (budget (key_limiter l) (clock (world l)) (key_scope r),
      budget (tenant_limiter l) (clock (world l)) (tenant_from_context r),
      budget (ip_limiter l) (clock (world l)) (client_ip r))"

definition same_budgets :: "lab \<Rightarrow> lab \<Rightarrow> bool" where
  "same_budgets l l' \<longleftrightarrow> (let t = clock (world l) in
     (\<forall>k. budget (key_limiter l') t k = budget (key_limiter l) t k) \<and>
     (\<forall>k. budget (tenant_limiter l') t k = budget (tenant_limiter l) t k) \<and>
     (\<forall>k. budget (ip_limiter l') t k = budget (ip_limiter l) t k))"

text \<open>The admitted state: each layer charged one unit of the request's key.\<close>

definition charged :: "http_request \<Rightarrow> lab \<Rightarrow> lab" where
  "charged r l = l\<lparr>key_limiter := snd (allow (clock (world l)) (key_scope r) (key_limiter l)),
     tenant_limiter := snd (allow (clock (world l)) (tenant_from_context r) (tenant_limiter l)),
     ip_limiter := snd (allow (clock (world l)) (client_ip r) (ip_limiter l))\<rparr>"

lemma mark_shape [simp]:
  "clock (mark_rate_limited w) = clock w" "svc_store (svc (mark_rate_limited w)) = svc_store (svc w)"
  "svc_idempotency (svc (mark_rate_limited w)) = svc_idempotency (svc w)"
  "svc_breaker (svc (mark_rate_limited w)) = svc_breaker (svc w)"
  "svc_dependency (svc (mark_rate_limited w)) = svc_dependency (svc w)" "rands (mark_rate_limited w) = rands w"
  by (simp_all add: mark_rate_limited_def)

definition rejection :: response where
  "rejection = \<lparr>rs_status = 429, rs_headers = (''Retry-After'', ''1'') # json_headers, rs_body =
     Error_body ''rate_limited'' (Text ''request rate exceeded the synthetic isolation policy'')\<rparr>"

lemma reject_shape: "reject_rate_limit r l = (rejection, l\<lparr>world := mark_rate_limited (world l)\<rparr>)"
  by (simp add: reject_rate_limit_def rejection_def write_error_def write_json_def)

lemma rejection_status [simp]: "rs_status rejection = 429"
  by (simp add: rejection_def)

lemma rate_limit_cases:
  assumes "lab_ok l"
  obtains (admitted) "rate_limit handle r l = handle r (charged r l)"
      "fst (allow (clock (world l)) (key_scope r) (key_limiter l))"
      "fst (allow (clock (world l)) (tenant_from_context r) (tenant_limiter l))"
      "fst (allow (clock (world l)) (client_ip r) (ip_limiter l))"
  | (rejected) kl tl il where "rate_limit handle r l =
      Some (rejection, l\<lparr>key_limiter := kl, tenant_limiter := tl, ip_limiter := il, world := mark_rate_limited (world l)\<rparr>)"
      "limiter_ok kl" "limiter_ok tl" "limiter_ok il"
      "\<And>k. budget kl (clock (world l)) k = budget (key_limiter l) (clock (world l)) k"
      "\<And>k. budget tl (clock (world l)) k = budget (tenant_limiter l) (clock (world l)) k"
      "\<And>k. budget il (clock (world l)) k = budget (ip_limiter l) (clock (world l)) k"
      "\<not> fst (allow (clock (world l)) (key_scope r) (key_limiter l)) \<or>
       \<not> fst (allow (clock (world l)) (tenant_from_context r) (tenant_limiter l)) \<or>
       \<not> fst (allow (clock (world l)) (client_ip r) (ip_limiter l))"
      "burst kl = burst (key_limiter l) \<and> burst tl = burst (tenant_limiter l) \<and> burst il = burst (ip_limiter l)"
proof -
  note L = lab_okD [OF assms]
  let ?t = "clock (world l)"
  let ?k = "allow ?t (key_scope r) (key_limiter l)"
  let ?n = "allow ?t (tenant_from_context r) (tenant_limiter l)"
  let ?i = "allow ?t (client_ip r) (ip_limiter l)"
  note ops = limiter_ok_ops L
  show thesis
  proof (cases "fst ?k")
    case False
    show thesis
      by (rule rejected [where kl = "snd ?k" and tl = "tenant_limiter l" and il = "ip_limiter l"])
        (use False in \<open>simp_all add: rate_limit_def reject_shape Let_def
          key_scope_def case_prod_beta ops lim.balance_refused\<close>)
  next
    case k: True
    show thesis
    proof (cases "fst ?n")
      case False
      show thesis
        by (rule rejected [where kl = "refund (key_scope r) (snd ?k)"
                and tl = "snd ?n" and il = "ip_limiter l"])
          (use k False in \<open>simp_all add: rate_limit_def reject_shape Let_def
            key_scope_def case_prod_beta ops lim.balance_refused lim.balance_undone\<close>)
    next
      case n: True
      show thesis
      proof (cases "fst ?i")
        case False
        show thesis
          by (rule rejected [where kl = "refund (key_scope r) (snd ?k)"
                and tl = "refund (tenant_from_context r) (snd ?n)" and il = "snd ?i"])
            (use k n False in \<open>simp_all add: rate_limit_def reject_shape Let_def
              key_scope_def case_prod_beta ops lim.balance_refused lim.balance_undone\<close>)
      next
        case True
        show thesis
          by (rule admitted) (use k n True in \<open>simp_all add: rate_limit_def charged_def key_scope_def Let_def case_prod_beta\<close>)
      qed
    qed
  qed
qed

lemma lab_ok_charged: "lab_ok l \<Longrightarrow> lab_ok (charged r l)"
  by (simp add: lab_ok_def charged_def limiter_ok_ops)

lemma charged_fields [simp]:
  "world (charged r l) = world l" "api_keys (charged r l) = api_keys l" "demo_mode (charged r l) = demo_mode l"
  by (simp_all add: charged_def)

section \<open>Handlers keep the state sound\<close>

lemma lab_ok_create:
  assumes "lab_ok l"
  obtains resp l' where "create_order_handler r l = Some (resp, l')" "lab_ok l'"
proof (cases "parse_create r")
  case (Inl e)
  then show thesis using assms by (intro that [of e l]) (simp_all add: create_order_handler_def)
next
  case (Inr p)
  obtain inp key where p: "p = (inp, key)" by (cases p)
  note L = lab_okD [OF assms]
  obtain res w' where c: "create_order (rq_ctx r) (tenant_from_context r) key inp (world l) = Some (res, w')" "service_ok w'"
    by (rule service_ok_create [OF L(1)], rule that)
  show thesis
    by (rule that [of "create_response res" "l\<lparr>world := w'\<rparr>"])
      (use c create_outcome(1) [OF L(1,2) c(1)] L Inr p in \<open>simp_all add: create_order_handler_def lab_ok_def\<close>)
qed

lemma lab_ok_fault: "lab_ok l \<Longrightarrow> set_fault_mode m (world l) = (err, w) \<Longrightarrow> lab_ok (l\<lparr>world := w\<rparr>)"
  using lab_ok_op(1) [of l "Set_fault m" w] by simp

lemma lab_ok_view: "lab_ok l \<Longrightarrow> dependency_view l = (dep, l') \<Longrightarrow> lab_ok l'"
  using lab_ok_op(1) [of l Read_snapshot] by (auto simp: dependency_view_def split: prod.splits)

lemma lab_ok_store:
  "lab_ok l \<Longrightarrow> lab_ok (l\<lparr>world := (world l)\<lparr>svc := (svc (world l))\<lparr>svc_store := m\<rparr>\<rparr>\<rparr>)"
  by (simp add: lab_ok_def service_ok_def cache_owned_def)

lemma stream_open_world:
  assumes "stream_open accepted r l = (res, l')"
  obtains m where "l' = l\<lparr>world := (world l)\<lparr>svc := (svc (world l))\<lparr>svc_store := m\<rparr>\<rparr>\<rparr>"
  using assms that
  by (auto simp: stream_open_def service_subscribe_since_def end_subscription_def Let_def split: prod.splits if_splits option.splits)

lemma lab_ok_stream: "lab_ok l \<Longrightarrow> stream_handler accepted r l = Some (resp, l') \<Longrightarrow> lab_ok l'"
  by (auto simp: stream_handler_def split: prod.splits sum.splits elim!: stream_open_world intro!: lab_ok_store)

lemma lab_ok_dispatch:
  assumes ok: "lab_ok l"
  obtains resp l' where "dispatch external accepted r l = Some (resp, l')" "lab_ok l'"
proof -
  have auth: "\<exists>resp l'. auth handle r l = Some (resp, l') \<and> lab_ok l'"
    if "\<And>r'. \<exists>resp l'. handle r' l = Some (resp, l') \<and> lab_ok l'" for handle
    using that ok by (auto simp: auth_def split: option.split)
  have demo: "\<exists>resp l'. demo handle r l = Some (resp, l') \<and> lab_ok l'"
    if "\<exists>resp l'. handle r l = Some (resp, l') \<and> lab_ok l'" for handle
    using that ok by (auto simp: demo_def)
  have limited: "\<exists>resp l'. rate_limit create_order_handler r' l = Some (resp, l') \<and> lab_ok l'" for r'
  proof (rule rate_limit_cases [OF ok, of create_order_handler r'])
    assume "rate_limit create_order_handler r' l = create_order_handler r' (charged r' l)"
    then show ?thesis using lab_ok_create [OF lab_ok_charged [OF ok], of r' r'] by metis
  next
    fix kl tl il
    assume c: "rate_limit create_order_handler r' l =
      Some (rejection, l\<lparr>key_limiter := kl, tenant_limiter := tl, ip_limiter := il, world := mark_rate_limited (world l)\<rparr>)"
      "limiter_ok kl" "limiter_ok tl" "limiter_ok il"
    have "lab_ok (l\<lparr>world := mark_rate_limited (world l)\<rparr>)"
      by (rule lab_ok_op(1) [OF ok, of Rate_limited]) simp_all
    with c show ?thesis by (simp add: lab_ok_def)
  qed
  have snapshot: "\<exists>resp l'. snapshot_handler r l = Some (resp, l') \<and> lab_ok l'"
    using lab_ok_op(1) [OF ok, of Read_snapshot] by (auto simp: snapshot_handler_def split: prod.splits)
  have fault: "\<exists>resp l'. set_fault_handler r l = Some (resp, l') \<and> lab_ok l'"
    using ok by (auto simp: set_fault_handler_def split: option.splits prod.splits intro: lab_ok_view lab_ok_fault)
  have reset: "\<exists>resp l'. reset_handler r l = Some (resp, l') \<and> lab_ok l'"
    using lab_okD [OF lab_ok_op(1) [OF ok, of Reset_all]] lab_okD [OF ok]
    by (simp add: reset_handler_def lab_ok_def limiter_ok_ops)
  have readiness: "\<exists>resp l'. ready_handler r l = Some (resp, l') \<and> lab_ok l'"
    using lab_ok_op(1) [OF ok, of Read_ready] by (auto simp: ready_handler_def lab_ok_view split: prod.splits)
  have stream: "\<exists>resp l'. stream_handler a r' l = Some (resp, l') \<and> lab_ok l'" for a r'
  proof -
    have "\<exists>resp l'. stream_handler a r' l = Some (resp, l')"
      by (simp add: stream_handler_def split: prod.split sum.split)
    with lab_ok_stream [OF ok] show ?thesis by metis
  qed
  have "\<exists>resp l'. dispatch external accepted r l = Some (resp, l') \<and> lab_ok l'"
    unfolding dispatch_def
    by (cases "rq_endpoint r"; simp add: ok health_def auth demo limited snapshot fault reset readiness stream
        list_orders_handler_def get_order_handler_def)
  then show thesis using that by blast
qed

lemma counted_frame [simp]:
  "world (count_request r status started l) = world l" "key_limiter (count_request r status started l) = key_limiter l"
  "tenant_limiter (count_request r status started l) = tenant_limiter l" "ip_limiter (count_request r status started l) = ip_limiter l"
  "demo_mode (count_request r status started l) = demo_mode l" "api_keys (count_request r status started l) = api_keys l"
  by (simp_all add: count_request_def Let_def)

lemma lab_ok_counted [simp]: "lab_ok (count_request r status started l) = lab_ok l"
  by (simp add: lab_ok_def)

text \<open>Around a handler, \<open>observe\<close> touches the HTTP metrics only.\<close>

lemma serve_shape:
  assumes "dispatch external accepted r l = Some (resp, l1)"
  shows "\<exists>h d. serve external accepted r l = Some (resp, l1\<lparr>http_requests := h, request_durations := d\<rparr>)"
proof (cases "still_open resp")
  case True
  then have "serve external accepted r l = Some (resp, l1\<lparr>http_requests := http_requests l1, request_durations := request_durations l1\<rparr>)"
    using assms by (simp add: serve_def observe_def)
  then show ?thesis by blast
next
  case False
  then show ?thesis using assms by (auto simp: serve_def observe_def count_request_def Let_def)
qed

lemma lab_ok_serve:
  assumes "lab_ok l"
  obtains resp l' where "serve external accepted r l = Some (resp, l')" "lab_ok l'"
proof -
  obtain resp l' where d: "dispatch external accepted r l = Some (resp, l')" "lab_ok l'"
    by (rule lab_ok_dispatch [OF assms])
  show thesis
    by (rule that [of resp "if still_open resp then l' else count_request r (rs_status resp) (clock (world l)) l'"])
      (use d in \<open>simp_all add: serve_def observe_def lab_ok_counted\<close>)
qed

section \<open>Properties of the API\<close>

fun api_run :: "(http_request \<Rightarrow> response) \<Rightarrow> (http_request \<Rightarrow> response option) \<Rightarrow> (nat \<times> http_request) list \<Rightarrow>
    lab \<Rightarrow> (response list \<times> lab) option" where
  "api_run external accepted [] l = Some ([], l)"
| "api_run external accepted ((pause, r) # rs) l =
     (case serve external accepted r (l\<lparr>world := (world l)\<lparr>clock := clock (world l) + int pause\<rparr>\<rparr>) of
        None \<Rightarrow> None
      | Some (resp, l') \<Rightarrow> map_option (\<lambda>(resps, l''). (resp # resps, l'')) (api_run external accepted rs l'))"

lemma lab_ok_run:
  "lab_ok l \<Longrightarrow> \<exists>resps l'. api_run external accepted rs l = Some (resps, l') \<and> length resps = length rs \<and> lab_ok l'"
proof (induction rs arbitrary: l)
  case Nil
  then show ?case by simp
next
  case (Cons x rs)
  obtain pause r where x: "x = (pause, r)" by (cases x)
  let ?l = "l\<lparr>world := (world l)\<lparr>clock := clock (world l) + int pause\<rparr>\<rparr>"
  have "lab_ok ?l" by (rule lab_ok_op(1) [OF Cons.prems, of "Pass pause"]) simp_all
  then obtain resp l1 where s: "serve external accepted r ?l = Some (resp, l1)" "lab_ok l1" by (rule lab_ok_serve)
  from Cons.IH [OF s(2)] obtain resps l2 where
    "api_run external accepted rs l1 = Some (resps, l2)" "length resps = length rs" "lab_ok l2" by blast
  with s(1) show ?case by (simp add: x)
qed

text \<open>
  C21. The API always answers. Starting from a new server, every sequence of requests, to whatever
  endpoints, with whatever headers and bodies and with any pauses in between, is answered
  completely, and leaves sound limiters, a sound service and an owned cache.
\<close>

theorem api_always_answers:
  assumes "svc w = new_service m d (clock w)" and "0 \<le> clock w"
  shows "\<exists>resps l'. api_run external accepted rs (new_server env w) = Some (resps, l') \<and>
    length resps = length rs \<and> lab_ok l'"
  using lab_ok_new [OF assms] by (rule lab_ok_run)

lemma serve_same:
  "dispatch external accepted r' l = dispatch external accepted r l \<Longrightarrow> rq_method r' = rq_method r \<Longrightarrow>
   rq_path r' = rq_path r \<Longrightarrow> serve external accepted r' l = serve external accepted r l"
  by (cases "dispatch external accepted r l") (auto simp: serve_def observe_def count_request_def)

fun orders_shown :: "payload \<Rightarrow> order list" where
  "orders_shown (Result_body r) = [cr_order r]"
| "orders_shown (Order_body ord) = [ord]"
| "orders_shown (Orders_body ords) = ords"
| "orders_shown _ = []"

lemma orders_shown_error [simp]: "orders_shown (rs_body (write_error c s m)) = []"
  by (simp add: write_error_def write_json_def)

lemma create_handler_orders:
  assumes ok: "lab_ok l" and "create_order_handler r l = Some (resp, l')" and "ord \<in> set (orders_shown (rs_body resp))"
  shows "tenant_id ord = tenant_from_context r"
proof -
  have early: "orders_shown (rs_body e) = []" if "parse_create r = Inl e" for e
    using that by (auto simp: parse_create_def Let_def split: option.splits if_splits)
  obtain inp key where p: "parse_create r = Inr (inp, key)"
    using early assms(2,3) by (cases "parse_create r") (auto simp: create_order_handler_def)
  obtain res w where c: "create_order (rq_ctx r) (tenant_from_context r) key inp (world l) = Some (res, w)"
      "resp = create_response res"
    using assms(2) p by (auto simp: create_order_handler_def split: option.splits)
  show ?thesis
    using create_outcome(2) [OF lab_okD(1,2) [OF ok] c(1)] assms(3) c(2)
    by (auto simp: create_response_def write_json_def split: sum.splits if_splits)
qed

text \<open>Behind the authentication, every order endpoint shows orders of the authenticated tenant only.\<close>

lemma order_endpoint_orders:
  assumes ok: "lab_ok l"
    and "rate_limit create_order_handler r l = Some (resp, l1) \<or> list_orders_handler r l = Some (resp, l1) \<or>
      get_order_handler oid r l = Some (resp, l1)"
    and ord: "ord \<in> set (orders_shown (rs_body resp))"
  shows "tenant_id ord = tenant_from_context r"
  using assms(2)
proof (elim disjE)
  assume created: "rate_limit create_order_handler r l = Some (resp, l1)"
  show ?thesis
  proof (cases rule: rate_limit_cases [OF ok, of create_order_handler r])
    case 1
    then show ?thesis using create_handler_orders [OF lab_ok_charged [OF ok]] created ord by metis
  next
    case (2 kl tl il)
    then have "resp = rejection" using created by simp
    with ord show ?thesis by (simp add: rejection_def)
  qed
next
  assume "list_orders_handler r l = Some (resp, l1)"
  then have "resp = write_json 200 (Orders_body (service_list_orders (world l) (tenant_from_context r)))"
    by (auto simp: list_orders_handler_def)
  with ord show ?thesis by (auto simp: write_json_def service_list_orders_def list_orders_def)
next
  assume "get_order_handler oid r l = Some (resp, l1)"
  then show ?thesis
    using ord by (auto simp: get_order_handler_def write_json_def service_get_order_def get_order_def
        split: option.splits if_splits)
qed

text \<open>
  C13. Tenant isolation. Whoever presents the API key of a tenant sees in the responses of the order
  endpoints only orders of that tenant, replayed ones included, and a tenant header sent along with
  the request makes no difference.
\<close>

theorem api_tenant_isolation:
  assumes "lab_ok l" and "api_keys l (rq_header r ''X-API-Key'') = Some t"
    and "rq_endpoint r = Ep_create_order \<or> rq_endpoint r = Ep_list_orders \<or> rq_endpoint r = Ep_get_order oid"
    and "serve external accepted r l = Some (resp, l')"
  shows "(\<forall>ord \<in> set (orders_shown (rs_body resp)). tenant_id ord = t) \<and>
    serve external accepted (r\<lparr>rq_header := (rq_header r)(''X-Northstar-Tenant'' := forged)\<rparr>) l = Some (resp, l')"
proof
  let ?r = "r\<lparr>rq_header := (rq_header r)(''X-Northstar-Tenant'' := t)\<rparr>"
  obtain l1 where d: "dispatch external accepted r l = Some (resp, l1)"
    using assms(4) by (auto simp: serve_def observe_def Let_def split: option.splits)
  have "rate_limit create_order_handler ?r l = Some (resp, l1) \<or> list_orders_handler ?r l = Some (resp, l1) \<or>
      get_order_handler oid ?r l = Some (resp, l1)"
    using assms(2,3) d by (elim disjE) (simp_all add: dispatch_def auth_def)
  moreover have "tenant_from_context ?r = t" by (simp add: tenant_from_context_def)
  ultimately show "\<forall>ord \<in> set (orders_shown (rs_body resp)). tenant_id ord = t"
    using order_endpoint_orders [OF assms(1)] by metis
  have "dispatch external accepted (r\<lparr>rq_header := (rq_header r)(''X-Northstar-Tenant'' := forged)\<rparr>) l =
      dispatch external accepted r l"
    using assms(2,3) by (elim disjE) (simp_all add: dispatch_def auth_def)
  from serve_same [OF this] show "serve external accepted (r\<lparr>rq_header := (rq_header r)(''X-Northstar-Tenant'' := forged)\<rparr>) l =
      Some (resp, l')" using assms(4) by simp
qed

text \<open>
  C14. Admission is all or nothing. An order request reaches its handler exactly when its key, its
  tenant and its address each have a token left, and then each of the three is charged one; a
  request that any layer refuses is answered with 429, leaves the budget of every key in every
  layer as it was, and does not touch store, registry, breaker or dependency.
\<close>

theorem api_admission:
  assumes "lab_ok l" and "rate_limit create_order_handler r l = Some (resp, l')"
    and "layer_budgets l r = (key_left, tenant_left, ip_left)"
  shows "if 1 \<le> key_left \<and> 1 \<le> tenant_left \<and> 1 \<le> ip_left
    then create_order_handler r (charged r l) = Some (resp, l') \<and>
      layer_budgets (charged r l) r = (key_left - 1, tenant_left - 1, ip_left - 1)
    else rs_status resp = 429 \<and> same_budgets l l' \<and>
      svc_store (svc (world l')) = svc_store (svc (world l)) \<and>
      svc_idempotency (svc (world l')) = svc_idempotency (svc (world l)) \<and>
      svc_breaker (svc (world l')) = svc_breaker (svc (world l)) \<and>
      svc_dependency (svc (world l')) = svc_dependency (svc (world l))"
proof -
  note L = lab_okD [OF assms(1)]
  have left: "key_left = budget (key_limiter l) (clock (world l)) (key_scope r)"
      "tenant_left = budget (tenant_limiter l) (clock (world l)) (tenant_from_context r)"
      "ip_left = budget (ip_limiter l) (clock (world l)) (client_ip r)"
    using assms(3) by (simp_all add: layer_budgets_def)
  show ?thesis
  proof (cases rule: rate_limit_cases [OF assms(1), of create_order_handler r])
    case 1
    then have "1 \<le> key_left \<and> 1 \<le> tenant_left \<and> 1 \<le> ip_left"
      using L by (simp add: left lim.take_iff)
    moreover have "layer_budgets (charged r l) r = (key_left - 1, tenant_left - 1, ip_left - 1)"
      using 1 L by (simp add: layer_budgets_def charged_def left lim.balance_taken)
    ultimately show ?thesis using 1 assms(2) by simp
  next
    case (2 kl tl il)
    then have "\<not> (1 \<le> key_left \<and> 1 \<le> tenant_left \<and> 1 \<le> ip_left)"
      using L by (auto simp: left lim.take_iff)
    moreover have "same_budgets l l'" using 2 assms(2) by (auto simp: same_budgets_def Let_def)
    ultimately show ?thesis using 2(1) assms(2) by auto
  qed
qed

lemma create_statuses:
  "rs_status (create_response (Inl WrapInvalidInput)) = 400" "rs_status (create_response (Inl ErrIdempotencyConflict)) = 409"
  "rs_status (create_response (Inl (WrapDependency e))) = 503"
  "create_response (Inr x) = write_json (if cr_replayed x then 200 else 201) (Result_body x)"
  by (simp_all add: create_response_def write_error_def write_json_def)

text \<open>
  C17. The status of an order request says exactly what happened. 400 without any effect when the body or
  the key is unusable, 400 for an invalid order. Otherwise the registry's entry under the tenant's key decides. A
  finished entry of the same request gives 200 and its order, one of another request 409. Without an
  entry the dependency is asked, at most three times: 201 with the new order, stored behind
  exactly one successful call, or 503 when no call succeeded. All but 201 leave the store as it was, and only 201 and 503 make
  calls; no other status exists. (Requests run one at a time, so no entry is still running.)
\<close>

theorem api_create_status:
  assumes "lab_ok l" and "create_order_handler r l = Some (resp, l')"
  shows "case parse_create r of
      Inl e \<Rightarrow> resp = e \<and> rs_status resp = 400 \<and> l' = l
    | Inr (inp, key) \<Rightarrow>
        (let w = world l; w' = world l'; tenant = tenant_from_context r;
             untouched = (dependency_answered 0 0 w w' \<and> svc_store (svc w') = svc_store (svc w))
         in if \<not> valid_input tenant key inp then rs_status resp = 400 \<and> untouched
            else case slot_view (svc_idempotency (svc w)) (clock w) (tenant, key) of
                Done p f ord \<Rightarrow> untouched \<and>
                  (if f = request_fingerprint inp
                   then rs_status resp = 200 \<and> rs_body resp = Result_body \<lparr>cr_order = ord, cr_replayed = True\<rparr>
                   else rs_status resp = 409)
              | Vacant \<Rightarrow>
                  (if rs_status resp = 201
                   then (\<exists>ord. rs_body resp = Result_body \<lparr>cr_order = ord, cr_replayed = False\<rparr> \<and> order_stored tenant inp w ord w') \<and>
                     (\<exists>bad \<le> 2. dependency_answered 1 bad w w')
                   else rs_status resp = 503 \<and> svc_store (svc w') = svc_store (svc w) \<and>
                     (\<exists>bad \<le> 3. dependency_answered 0 bad w w'))
              | Running p f \<Rightarrow> False)"
proof (cases "parse_create r")
  case (Inl e)
  then have "rs_status e = 400"
    by (auto simp: parse_create_def Let_def write_error_def write_json_def split: option.splits if_splits)
  with Inl assms(2) show ?thesis by (simp add: create_order_handler_def)
next
  case (Inr p)
  obtain inp key where p: "p = (inp, key)" by (cases p)
  obtain res w where c: "create_order (rq_ctx r) (tenant_from_context r) key inp (world l) = Some (res, w)"
      and resp: "resp = create_response res" and l': "l' = l\<lparr>world := w\<rparr>"
    using assms(2) Inr p by (auto simp: create_order_handler_def split: option.splits)
  from lab_okD(1) [OF assms(1)] c show ?thesis
  proof (cases rule: create_by_slot)
    case invalid
    then show ?thesis by (simp add: Inr p resp l' Let_def create_statuses)
  next
    case (cached q f ord)
    then show ?thesis by (simp add: Inr p resp l' Let_def create_statuses write_json_def)
  next
    case (failed e bad)
    then show ?thesis by (auto simp: Inr p resp l' Let_def create_statuses)
  next
    case (placed ord bad)
    then show ?thesis by (auto simp: Inr p resp l' Let_def create_statuses write_json_def)
  qed
qed

definition needs_key :: "endpoint \<Rightarrow> bool" where
  "needs_key ep \<longleftrightarrow> (case ep of Ep_create_order \<Rightarrow> True | Ep_list_orders \<Rightarrow> True | Ep_get_order _ \<Rightarrow> True | Ep_stream \<Rightarrow> True | _ \<Rightarrow> False)"

definition needs_demo :: "endpoint \<Rightarrow> bool" where
  "needs_demo ep \<longleftrightarrow> ep = Ep_snapshot \<or> ep = Ep_fault \<or> ep = Ep_reset"

text \<open>
  Guards come first. A request to an order or stream endpoint without a known API key gets
  401, a request to a demo endpoint of a server that is not in demo mode gets 404, and neither
  changes the service, a limiter or a budget: only the HTTP metrics see it.
\<close>

theorem api_guards:
  assumes "needs_key (rq_endpoint r) \<and> api_keys l (rq_header r ''X-API-Key'') = None \<and> status = 401 \<or>
    needs_demo (rq_endpoint r) \<and> \<not> demo_mode l \<and> status = 404"
  shows "\<exists>resp l'. serve external accepted r l = Some (resp, l') \<and> rs_status resp = status \<and>
    l' = l\<lparr>http_requests := http_requests l', request_durations := request_durations l'\<rparr> \<and>
    http_requests l' (rq_method r, route_label (rq_path r), show_int status) =
      Suc (http_requests l (rq_method r, route_label (rq_path r), show_int status))"
proof -
  have "\<exists>resp. dispatch external accepted r l = Some (resp, l) \<and> rs_status resp = status \<and> \<not> still_open resp"
    using assms
    by (auto simp: dispatch_def auth_def demo_def needs_key_def needs_demo_def write_error_def write_json_def still_open_def
        split: endpoint.splits)
  then show ?thesis by (auto simp: serve_def observe_def count_request_def Let_def)
qed

section \<open>The stream at the API\<close>

lemma write_replay_all: "write_replay (\<lambda>_. True) n evs = (evs, n + length evs, True)"
  by (induction evs arbitrary: n) simp_all

text \<open>Whatever goes wrong, a session writes a prefix of what it was given.\<close>

lemma write_replay_prefix: "prefix (fst (write_replay ok n evs)) evs \<and> (snd (snd (write_replay ok n evs)) \<longrightarrow> fst (write_replay ok n evs) = evs)"
  by (induction evs arbitrary: n) (auto split: prod.splits, (metis fst_conv snd_conv)+)

text \<open>The arms of the loop after which it goes on.\<close>

fun goes_on :: "stream_input \<Rightarrow> bool" where
  "goes_on (Event_received ev) \<longleftrightarrow> True"
| "goes_on (Ping_tick answered) \<longleftrightarrow> answered"
| "goes_on Context_done \<longleftrightarrow> False"
| "goes_on Channel_closed \<longleftrightarrow> False"

fun events_given :: "stream_input list \<Rightarrow> event list" where
  "events_given [] = []"
| "events_given (Event_received ev # ins) = ev # events_given ins"
| "events_given (_ # ins) = events_given ins"

lemma stream_loop_all:
  "\<forall>ev \<in> set (events_given ins). ev_tenant ev = t \<Longrightarrow> stream_loop (\<lambda>_. True) n t ins =
     (events_given (takeWhile goes_on ins), \<not> list_all goes_on ins)"
proof (induction ins arbitrary: n)
  case (Cons i ins)
  then show ?case by (cases i) auto
qed simp

lemma stream_loop_prefix:
  "\<forall>ev \<in> set (events_given ins). ev_tenant ev = t \<Longrightarrow> prefix (fst (stream_loop ok n t ins)) (events_given ins)"
  by (induction ok n t ins rule: stream_loop.induct) (auto split: prod.splits)

text \<open>The subscription of a session, as the store's own theory describes it.\<close>

lemma stream_open_session:
  assumes "stream_open None r l = (Inr ses, l')" and "mem w = svc_store (svc (world l))"
  shows "subscription_of w (tenant_from_context r) (of_nat (fst (parse_uint (rq_query r ''since''))))
      (fst (subscribe_since (tenant_from_context r) (of_nat (fst (parse_uint (rq_query r ''since'')))) 128 (mem w))) =
    \<lparr>s_id = ss_id ses, s_sub = \<lparr>sub_tenant = ss_tenant ses, sub_chan = ss_chan ses\<rparr>,
     s_cursor = of_nat (fst (parse_uint (rq_query r ''since''))), s_replay = ss_replay ses, s_expired = False,
     s_epoch = epoch w, s_base = evicted_count (current w) (mem w), s_start = length (current w),
     s_received = [], s_fired = False\<rparr>"
    and "svc_store (svc (world l')) =
      snd (subscribe_since (tenant_from_context r) (of_nat (fst (parse_uint (rq_query r ''since'')))) 128 (mem w))"
  using assms
  by (auto simp: stream_open_def service_subscribe_since_def Let_def subscription_of_def split: prod.splits if_splits)

lemma received_own:
  assumes "store_reach w" and "s \<in> set (subs w)" and "sub_tenant (s_sub s) \<noteq> []"
  shows "ev \<in> set (s_received s) \<Longrightarrow> ev_tenant ev = sub_tenant (s_sub s)"
proof -
  assume ev: "ev \<in> set (s_received s)"
  obtain c :: event_chan where "prefix (s_received s @ chan_buf c) (live_due w s)"
    using store_invD(8) [OF store_inv_reach [OF assms(1)] assms(2)] unfolding stream_ok_def by blast
  then have "prefix (s_received s) (live_due w s)" by (rule append_prefixD)
  then have "ev \<in> set (live_due w s)" using ev set_mono_prefix by blast
  then show ?thesis using assms(3) by (auto simp: live_due_def wants_def)
qed

text \<open>
  C15. The stream at the API is the tenant's history. Take a session that \<open>stream\<close> opened (its cursor not ahead of the
  log) in a store that has since run on in any way while the session stays subscribed, and that has fed the
  session everything it has received so far, between pings. If all writes succeed, the client got
  everything it was fed until the context ended, a ping was not answered or the channel was closed, and the session
  returned exactly then. If none of these happened, what the client got, followed by what is still buffered, is exactly
  the tenant's events after its cursor, in order and without a gap, among those the store retained
  when the session was opened and all since; with a cursor that names an event and was not expired, or
  when nothing had been evicted yet, that is the full history after the cursor (a cursor 0 starts with what was
  retained). If a write fails, what the client got is a prefix of that.
\<close>

theorem api_stream_gap_free:
  assumes reach: "store_reach w" and s: "s \<in> set (subs w)" and reg: "is_registered w s"
    and cell: "cells (channels_of (mem w)) (sub_chan (s_sub s)) = Some c"
    and ses: "s_sub s = \<lparr>sub_tenant = ss_tenant ses, sub_chan = ss_chan ses\<rparr>" "s_replay s = ss_replay ses" "ss_tenant ses \<noteq> []"
    and cursor: "unat (s_cursor s) \<le> s_start s"
    and ins: "events_given ins = s_received s"
  shows "prefix (fst (stream_session ok ses ins)) (filter (after_cursor s) (drop (s_base s) (current w))) \<and>
    (ok = (\<lambda>_. True) \<longrightarrow> stream_session ok ses ins =
       (s_replay s @ events_given (takeWhile goes_on ins), \<exists>i \<in> set ins. \<not> goes_on i)) \<and>
    (ok = (\<lambda>_. True) \<longrightarrow> (\<forall>i \<in> set ins. goes_on i) \<longrightarrow>
       fst (stream_session ok ses ins) @ chan_buf c = filter (after_cursor s) (drop (s_base s) (current w))) \<and>
    (\<not> s_expired s \<longrightarrow> 0 < s_cursor s \<or> s_base s = 0 \<longrightarrow>
       filter (after_cursor s) (drop (s_base s) (current w)) = filter (after_cursor s) (current w))"
proof -
  have t: "sub_tenant (s_sub s) = ss_tenant ses" "sub_tenant (s_sub s) \<noteq> []" using ses by simp_all
  note history = stream_history [OF reach s reg cell t(2) cursor]
  have own: "\<forall>ev \<in> set (events_given ins). ev_tenant ev = ss_tenant ses"
    using received_own [OF reach s t(2)] t(1) ins by simp
  have loop: "prefix (fst (stream_loop ok n (ss_tenant ses) ins)) (s_received s)" for n
    using stream_loop_prefix [OF own] unfolding ins by blast
  have "prefix (fst (stream_session ok ses ins)) (s_replay s @ s_received s)"
  proof -
    obtain ws n fine where w: "write_replay ok 0 (ss_replay ses) = (ws, n, fine)" by (metis prod_cases3)
    show ?thesis
    proof (cases fine)
      case True
      then have ws: "ws = s_replay s" using write_replay_prefix [of ok 0 "ss_replay ses"] w ses(2) by simp
      from ws have "fst (stream_session ok ses ins) = s_replay s @ fst (stream_loop ok n (ss_tenant ses) ins)"
        using w True by (simp add: stream_session_def case_prod_beta)
      then show ?thesis using loop [of n] by simp
    next
      case False
      then have "fst (stream_session ok ses ins) = ws" using w by (simp add: stream_session_def)
      moreover have "prefix ws (s_replay s)" using write_replay_prefix [of ok 0 "ss_replay ses"] w ses(2) by simp
      ultimately show ?thesis by (simp add: prefix_prefix)
    qed
  qed
  then have "prefix (fst (stream_session ok ses ins)) (filter (after_cursor s) (drop (s_base s) (current w)))"
    unfolding history(1) [symmetric] append_assoc [symmetric] by (rule prefix_prefix)
  moreover have all: "stream_session (\<lambda>_. True) ses ins =
      (s_replay s @ events_given (takeWhile goes_on ins), \<exists>i \<in> set ins. \<not> goes_on i)"
    by (simp add: stream_session_def write_replay_all ses(2) stream_loop_all [OF own] list_all_iff)
  moreover have "fst (stream_session (\<lambda>_. True) ses ins) @ chan_buf c = filter (after_cursor s) (drop (s_base s) (current w))"
    if "\<forall>i \<in> set ins. goes_on i"
  proof -
    have whole: "takeWhile goes_on ins = ins" using that by (simp add: takeWhile_eq_all_conv)
    show ?thesis unfolding all whole fst_conv ins using history(1) by simp
  qed
  ultimately show ?thesis using history(2) by blast
qed

section \<open>A concrete server\<close>

definition sample_lab :: "string \<Rightarrow> lab" where
  "sample_lab m = new_server (\<lambda>_. []) (sample_world m)"

definition sample_request :: "string \<Rightarrow> http_request" where
  "sample_request key = \<lparr>rq_method = ''POST'', rq_path = ''/v1/orders'', rq_endpoint = Ep_create_order,
     rq_header = (\<lambda>_. [])(''X-API-Key'' := key, ''Idempotency-Key'' := '' k ''), rq_query = (\<lambda>_. []),
     rq_remote = ''10.0.0.1:4242'', rq_ctx = background,
     rq_body = one_value (JObject [(''event_id'', JString ''evt''), (''quantity'', JNumber ''2'')])\<rparr>"

lemma sample_lab_facts:
  "lab_ok (sample_lab m)" "world (sample_lab m) = sample_world m" "\<not> demo_mode (sample_lab m)"
  "api_keys (sample_lab m) = server_keys"
proof -
  show "lab_ok (sample_lab m)"
    unfolding sample_lab_def by (rule lab_ok_new [OF sample_world_facts(9)]) (simp add: sample_simps)
qed (simp_all add: sample_lab_def new_server_def equal_fold_def)

lemma sample_parse: "parse_create (sample_request key) = Inr (sample_input, ''k'')"
proof -
  have "trim_space '' k '' = ''k''" by code_simp
  moreover have "parse_int ''2'' = Some 2" by (simp add: parse_int_def parse_uint_def is_digit_def)
  ultimately show ?thesis
    by (simp add: parse_create_def sample_request_def input_decoder_def dec_struct_def dec_member_def dec_field_def
        dec_int_def zero_input_def sample_input_def)
qed

lemma sample_left: "layer_budgets (sample_lab m) r = (25, 30, 50)"
  by (simp add: layer_budgets_def sample_lab_def new_server_def server_limiter_def new_token_bucket_limiter_def
      budget_def is_float64_of_int [of 25, simplified] is_float64_of_int [of 30, simplified] is_float64_of_int [of 50, simplified])

theorem api_always_answers_witness:
  "\<exists>resps l'. api_run (\<lambda>_. rejection) (\<lambda>_. None) [(0, sample_request ''tenant-alpha-key''), (5, sample_request ''x'')] (sample_lab mode_flaky) =
     Some (resps, l') \<and> length resps = 2"
  using api_always_answers [OF sample_world_facts(9), of mode_flaky "\<lambda>_. rejection" "\<lambda>_. None"
      "[(0, sample_request ''tenant-alpha-key''), (5, sample_request ''x'')]" "\<lambda>_. []"]
  by (auto simp: sample_simps sample_lab_def [symmetric] simp del: api_run.simps)

theorem api_tenant_isolation_witness:
  "\<exists>resp l'. serve (\<lambda>_. rejection) (\<lambda>_. None) (sample_request ''tenant-alpha-key'') (sample_lab mode_flaky) = Some (resp, l') \<and>
     (\<forall>ord \<in> set (orders_shown (rs_body resp)). tenant_id ord = ''tenant-alpha'')"
proof -
  obtain resp l' where s: "serve (\<lambda>_. rejection) (\<lambda>_. None) (sample_request ''tenant-alpha-key'') (sample_lab mode_flaky) = Some (resp, l')"
    by (rule lab_ok_serve [OF sample_lab_facts(1)], rule that)
  have "api_keys (sample_lab mode_flaky) (rq_header (sample_request ''tenant-alpha-key'') ''X-API-Key'') = Some ''tenant-alpha''"
    by (simp add: sample_lab_facts sample_request_def server_keys_def)
  from api_tenant_isolation [OF sample_lab_facts(1) this _ s] s show ?thesis by (simp add: sample_request_def)
qed

theorem api_admission_witness:
  "\<exists>resp l'. rate_limit create_order_handler (sample_request ''x'') (sample_lab mode_flaky) = Some (resp, l') \<and>
     layer_budgets (charged (sample_request ''x'') (sample_lab mode_flaky)) (sample_request ''x'') = (24, 29, 49)"
proof -
  let ?l = "sample_lab mode_flaky" and ?r = "sample_request ''x''"
  obtain resp l' where c: "rate_limit create_order_handler ?r ?l = Some (resp, l')"
  proof (rule rate_limit_cases [OF sample_lab_facts(1) [of mode_flaky], of create_order_handler ?r], goal_cases)
    case 1
    then show ?case using lab_ok_create [OF lab_ok_charged [OF sample_lab_facts(1)]] by metis
  qed simp
  from api_admission [OF sample_lab_facts(1) c sample_left] c show ?thesis by simp
qed

theorem api_create_status_witness:
  "\<exists>resp l' ord bad. create_order_handler ((sample_request ''x'')\<lparr>rq_header := (rq_header (sample_request ''x''))(''X-Northstar-Tenant'' := ''t'')\<rparr>)
       (sample_lab mode_flaky) = Some (resp, l') \<and> rs_status resp = 201 \<and>
     order_stored ''t'' sample_input (sample_world mode_flaky) ord (world l') \<and> dependency_answered 1 bad (sample_world mode_flaky) (world l')"
proof -
  let ?r = "(sample_request ''x'')\<lparr>rq_header := (rq_header (sample_request ''x''))(''X-Northstar-Tenant'' := ''t'')\<rparr>"
  obtain ord w where create: "create_order background ''t'' ''k'' sample_input (sample_world mode_flaky) =
    Some (Inr \<lparr>cr_order = ord, cr_replayed = False\<rparr>, w)" by (rule sample_success)
  have tenant: "tenant_from_context ?r = ''t''" by (simp add: tenant_from_context_def)
  have "rq_body ?r = rq_body (sample_request ''x'')" "rq_header ?r ''Idempotency-Key'' = rq_header (sample_request ''x'') ''Idempotency-Key''"
    by simp_all
  then have parse: "parse_create ?r = Inr (sample_input, ''k'')"
    using sample_parse [of "''x''"] unfolding parse_create_def by (simp only:)
  have c: "create_order_handler ?r (sample_lab mode_flaky) =
      Some (create_response (Inr \<lparr>cr_order = ord, cr_replayed = False\<rparr>), (sample_lab mode_flaky)\<lparr>world := w\<rparr>)"
    using create by (simp add: create_order_handler_def parse tenant sample_lab_facts) (simp add: sample_request_def)
  have "valid_input ''t'' ''k'' sample_input" by (rule sample_world_facts(8))
  with api_create_status [OF sample_lab_facts(1) c] c show ?thesis
    by (auto simp: parse tenant Let_def sample_lab_facts sample_world_facts(3) create_statuses(4) write_json_def)
qed

theorem api_guards_witness:
  "\<exists>resp l'. serve (\<lambda>_. rejection) (\<lambda>_. None) (sample_request ''stolen'') (sample_lab mode_flaky) = Some (resp, l') \<and>
     rs_status resp = 401 \<and> world l' = world (sample_lab mode_flaky)"
proof -
  have "needs_key (rq_endpoint (sample_request ''stolen'')) \<and>
      api_keys (sample_lab mode_flaky) (rq_header (sample_request ''stolen'') ''X-API-Key'') = None \<and> (401 :: int) = 401"
    by (simp add: sample_lab_facts sample_request_def server_keys_def needs_key_def)
  from api_guards [OF disjI1 [OF this], of "\<lambda>_. rejection" "\<lambda>_. None"] show ?thesis by (metis lab.select_convs(1) lab.surjective lab.update_convs(8,9))
qed

lemma events_given_map [simp]: "events_given (map Event_received evs) = evs"
  by (induction evs) simp_all

theorem api_stream_gap_free_witness:
  "\<exists>w s (c :: event_chan) ses. store_reach w \<and> subs w = [s] \<and> chan_buf c \<noteq> [] \<and>
     fst (stream_session (\<lambda>_. True) ses (Ping_tick True # map Event_received (s_received s))) @ chan_buf c = filter (after_cursor s) (current w)"
proof -
  obtain w s c where w: "store_reach w" "subs w = [s]" "is_registered w s"
    "cells (channels_of (mem w)) (sub_chan (s_sub s)) = Some c" "sub_tenant (s_sub s) = ''t''"
    "\<not> s_expired s" "s_cursor s = 1" "s_start s = 2" "length (chan_buf c) = 1"
    by (rule store_demo, rule that)
  let ?ses = "\<lparr>ss_tenant = ''t'', ss_chan = sub_chan (s_sub s), ss_id = s_id s, ss_replay = s_replay s\<rparr>"
  let ?ins = "Ping_tick True # map Event_received (s_received s)"
  have "s_sub s = \<lparr>sub_tenant = ss_tenant ?ses, sub_chan = ss_chan ?ses\<rparr>" using w(5) by (cases "s_sub s") simp
  note gap_free = api_stream_gap_free [OF w(1) _ w(3,4) this, of ?ins "\<lambda>_. True"]
  have "fst (stream_session (\<lambda>_. True) ?ses ?ins) @ chan_buf c = filter (after_cursor s) (drop (s_base s) (current w)) \<and>
      filter (after_cursor s) (drop (s_base s) (current w)) = filter (after_cursor s) (current w)"
    using gap_free w by auto
  moreover have "chan_buf c \<noteq> []" using w(9) by (cases "chan_buf c") simp_all
  ultimately show ?thesis using w(1,2) by (metis (no_types, lifting))
qed

end
