(* ===== verification/Telemetry.thy ===== *)
theory Telemetry
  imports Http_Properties
begin

text \<open>
  The metrics of both servers. The collectors that \<open>NewMetrics\<close> registers (\<open>internal/telemetry/metrics.go\<close> and
  \<open>internal/product/metrics.go\<close>) are data here; the histogram has the default buckets of the library. What the
  collectors of the lab server hold is state of \<open>App_Service\<close> (\<open>metrics\<close>) and \<open>Http_Api\<close> (\<open>http_requests\<close>,
  \<open>request_durations\<close>). The lemmas follow the series through every operation, on traffic with streams that stay open
  while other requests come: they count exactly the finished requests, and the route, outcome, result and mode
  labels come from fixed small sets.
\<close>

section \<open>Collectors\<close>

datatype collector_kind = Counter | Histogram | Gauge

record collector =
  co_kind :: collector_kind
  co_name :: string
  co_help :: string
  co_labels :: "string list"

definition lab_collectors :: "collector list" where
  "lab_collectors =
     [\<lparr>co_kind = Counter, co_name = ''northstar_http_requests_total'',
        co_help = ''HTTP requests processed by method, route, and status.'', co_labels = [''method'', ''path'', ''status'']\<rparr>,
      \<lparr>co_kind = Counter, co_name = ''northstar_order_requests_total'',
        co_help = ''Order requests partitioned by outcome.'', co_labels = [''result'']\<rparr>,
      \<lparr>co_kind = Counter, co_name = ''northstar_dependency_calls_total'',
        co_help = ''Synthetic inventory dependency calls.'', co_labels = [''result'', ''mode'']\<rparr>,
      \<lparr>co_kind = Counter, co_name = ''northstar_duplicates_suppressed_total'',
        co_help = ''Duplicate order requests returned from the idempotency registry.'', co_labels = []\<rparr>,
      \<lparr>co_kind = Counter, co_name = ''northstar_rate_limited_total'',
        co_help = ''Requests rejected by tenant or API-key limits.'', co_labels = []\<rparr>,
      \<lparr>co_kind = Histogram, co_name = ''northstar_request_duration_seconds'',
        co_help = ''End-to-end HTTP request latency.'', co_labels = [''path'']\<rparr>,
      \<lparr>co_kind = Gauge, co_name = ''northstar_circuit_state'',
        co_help = ''Circuit state: 0 closed, 1 half-open, 2 open.'', co_labels = []\<rparr>]"

text \<open>\<open>must_register\<close> is the registry's: the new registry, or a panic.\<close>

definition new_metrics :: "(collector list \<Rightarrow> 'r \<Rightarrow> 'r option) \<Rightarrow> 'r \<Rightarrow> (metrics \<times> 'r) option" where
  "new_metrics must_register r = map_option (\<lambda>r'. (no_metrics, r')) (must_register lab_collectors r)"

definition product_collectors :: "collector list" where
  "product_collectors =
     [\<lparr>co_kind = Counter, co_name = ''northstar_product_orders_total'',
        co_help = ''Product order requests grouped by result and source.'', co_labels = [''result'', ''source'']\<rparr>,
      \<lparr>co_kind = Counter, co_name = ''northstar_product_webhook_deliveries_total'',
        co_help = ''Outbound webhook attempts grouped by result.'', co_labels = [''result'']\<rparr>,
      \<lparr>co_kind = Counter, co_name = ''northstar_product_coordination_fallback_total'',
        co_help = ''Order requests that safely fell back from Redis to PostgreSQL uniqueness.'', co_labels = []\<rparr>]"

text \<open>The product's counters start at zero: the series of orders and deliveries, and the fallbacks.\<close>

definition new_product_metrics ::
    "(collector list \<Rightarrow> 'r \<Rightarrow> 'r option) \<Rightarrow> 'r \<Rightarrow> (((string \<times> string \<Rightarrow> nat) \<times> (string \<Rightarrow> nat) \<times> nat) \<times> 'r) option" where
  "new_product_metrics must_register r = map_option (\<lambda>r'. ((\<lambda>_. 0, \<lambda>_. 0, 0), r')) (must_register product_collectors r)"

lemma collectors_distinct: "distinct (map co_name (lab_collectors @ product_collectors))"
  by (simp add: lab_collectors_def product_collectors_def)

section \<open>Labels of the service\<close>

definition fault_modes :: "string set" where
  "fault_modes = {mode_healthy, mode_slow, mode_flaky, mode_unavailable}"

definition outcome_labels :: "string set" where
  "outcome_labels = {''invalid'', ''conflict'', ''failed'', ''replayed'', ''succeeded''}"

definition bounded_labels :: "world \<Rightarrow> bool" where
  "bounded_labels w \<longleftrightarrow> sim_mode (svc_dependency (svc w)) \<in> fault_modes \<and>
     (\<forall>x. order_requests (svc_metrics (svc w)) x \<noteq> 0 \<longrightarrow> x \<in> outcome_labels) \<and>
     (\<forall>r m. dependency_calls (svc_metrics (svc w)) (r, m) \<noteq> 0 \<longrightarrow> r \<in> {''success'', ''failure''} \<and> m \<in> fault_modes)"

lemma attempt_labels:
  assumes "reserve_attempt c inp v = (r, v1)"
  shows "sim_mode (svc_dependency (svc v1)) = sim_mode (svc_dependency (svc v))"
    "order_requests (svc_metrics (svc v1)) = order_requests (svc_metrics (svc v))"
    "dependency_calls (svc_metrics (svc v1)) k \<noteq> 0 \<longrightarrow> dependency_calls (svc_metrics (svc v)) k \<noteq> 0 \<or>
       k = (if r \<noteq> None then ''failure'' else ''success'', sim_mode (svc_dependency (svc v)))"
  using assms after_calls_mode [OF after_calls_attempt [OF assms]]
  by (auto simp: reserve_attempt_def count_dependency_def Let_def split: prod.splits if_splits)

lemma bounded_attempt:
  assumes b: "bounded_labels v" and a: "reserve_attempt c inp v = (r, v1)"
  shows "bounded_labels v1"
proof -
  note L = attempt_labels [OF a]
  have "x \<in> {''success'', ''failure''} \<and> m \<in> fault_modes" if "dependency_calls (svc_metrics (svc v1)) (x, m) \<noteq> 0" for x m
    using L(3) [of "(x, m)"] that b unfolding bounded_labels_def by (cases r) auto
  then show ?thesis using b L(1,2) unfolding bounded_labels_def by simp
qed

lemma bounded_retry: "bounded_labels w \<Longrightarrow> bounded_labels (snd (reserve_with_retry c inp w))"
proof (rule reserve_retry_induct [where Q = "\<lambda>r v. bounded_labels v" and I = "\<lambda>a v. bounded_labels v"], goal_cases)
  case (6 a v v1 e v2 d v3)
  have "bounded_labels v1" using bounded_attempt 6 by blast
  moreover have "svc v3 = svc v1" using 6 by (auto simp: sleep_context_def split: prod.splits)
  ultimately show ?case by (simp add: bounded_labels_def)
next
  case (5 a v v1 e v2 d e' v3)
  have "bounded_labels v1" using bounded_attempt 5 by blast
  moreover have "svc v3 = svc v1" using 5 by (auto simp: sleep_context_def split: prod.splits)
  ultimately show ?case by (simp add: bounded_labels_def)
qed (blast intro: bounded_attempt)+

lemma bounded_breaker: "bounded_labels w \<Longrightarrow> bounded_labels (w\<lparr>svc := (svc w)\<lparr>svc_breaker := b\<rparr>\<rparr>)"
  by (simp add: bounded_labels_def)

lemma bounded_guarded:
  assumes "bounded_labels w"
  shows "bounded_labels (snd (guarded_reserve c inp w))"
proof (cases "before_request (clock w) (svc_breaker (svc w))")
  case (Pair tk b)
  obtain err v where "reserve_with_retry c inp w = (err, v)" by fastforce
  then show ?thesis
    using Pair guarded_refused [of w b c inp] guarded_admitted [of w _ b c inp err v] bounded_retry [OF assms, of c inp] assms
    by (cases tk) (auto intro: bounded_breaker)
qed

lemma bounded_place:
  assumes "bounded_labels w"
  shows "bounded_labels (snd (place_order c t inp w))"
proof -
  obtain err v where "guarded_reserve c inp w = (err, v)" by fastforce
  with bounded_guarded [OF assms, of c inp] show ?thesis
    by (auto simp: place_order_def sync_circuit_metric_def service_circuit_shape sync_circuit_metric_state_def new_id_def
        bounded_labels_def Let_def split: option.splits prod.splits)
qed

lemma bounded_count:
  assumes "bounded_labels w" and "x \<in> outcome_labels"
    and "svc_dependency (svc v) = svc_dependency (svc w)" "dependency_calls (svc_metrics (svc v)) = dependency_calls (svc_metrics (svc w))"
    and "order_requests (svc_metrics (svc v)) = (order_requests (svc_metrics (svc w)))(x := Suc (order_requests (svc_metrics (svc w)) x))"
  shows "bounded_labels v"
  using assms by (auto simp: bounded_labels_def)

lemma bounded_bookkeeping:
  "bounded_labels w \<Longrightarrow> x \<in> outcome_labels \<Longrightarrow> bounded_labels (order_refused st x w)"
  "bounded_labels w \<Longrightarrow> bounded_labels (order_placed w)" "bounded_labels w \<Longrightarrow> bounded_labels (order_replayed w)"
  "bounded_labels (record_sample st failed w) = bounded_labels w" "bounded_labels (counted w) = bounded_labels w"
  "bounded_labels (w\<lparr>svc := (svc w)\<lparr>svc_idempotency := r\<rparr>\<rparr>) = bounded_labels w"
proof -
  show "bounded_labels (record_sample st failed w) = bounded_labels w" "bounded_labels (counted w) = bounded_labels w"
    "bounded_labels (w\<lparr>svc := (svc w)\<lparr>svc_idempotency := r\<rparr>\<rparr>) = bounded_labels w"
    by (simp_all add: bounded_labels_def record_sample_def counted_def Let_def)
  note defs = order_refused_def order_placed_def order_replayed_def record_sample_def count_order_def
  show "bounded_labels w \<Longrightarrow> x \<in> outcome_labels \<Longrightarrow> bounded_labels (order_refused st x w)"
    by (rule bounded_count [of w x]) (simp_all add: defs Let_def)
  show "bounded_labels w \<Longrightarrow> bounded_labels (order_placed w)"
    by (rule bounded_count [of w "''succeeded''"]) (simp_all add: defs outcome_labels_def Let_def)
  show "bounded_labels w \<Longrightarrow> bounded_labels (order_replayed w)"
    by (rule bounded_count [of w "''replayed''"]) (simp_all add: defs outcome_labels_def Let_def)
qed

lemma bounded_create:
  assumes ok: "service_ok w" and w: "bounded_labels w" and create: "create_order c t k inp w = Some (res, w')"
  shows "bounded_labels w'"
proof -
  note R = service_okD [OF ok]
  have out: "{''invalid'', ''conflict'', ''failed''} \<subseteq> outcome_labels" by (simp add: outcome_labels_def)
  show ?thesis
  proof (cases "valid_input t k inp")
    case False
    with create create_invalid [OF False, of c w] w out show ?thesis by (auto simp: bounded_bookkeeping)
  next
    case True
    show ?thesis
    proof (rule settled_cases [OF R(2), of "clock w" "(t, k)"])
      assume vac: "slot_view (svc_idempotency (svc w)) (clock w) (t, k) = Vacant"
      obtain r1 w1 where pl: "place_order c t inp (counted w) = (r1, w1)" by fastforce
      have "bounded_labels w1" using bounded_place [of "counted w" c t inp] w pl by (simp add: bounded_bookkeeping)
      then show ?thesis
        using create create_vacant [OF True R(1) vac pl] out by (cases r1) (auto simp: Let_def bounded_bookkeeping)
    next
      fix p f v assume "slot_view (svc_idempotency (svc w)) (clock w) (t, k) = Done p f v"
      then show ?thesis using create create_cached [OF True R(1), of p f v c] w out
        by (auto simp: Let_def bounded_bookkeeping split: if_splits)
    qed
  qed
qed

lemma other_op:
  assumes "app_step x w = Some w'" and "\<forall>c t k inp. x \<noteq> Create c t k inp"
  shows "order_requests (svc_metrics (svc w')) = order_requests (svc_metrics (svc w))"
    "dependency_calls (svc_metrics (svc w')) = dependency_calls (svc_metrics (svc w))"
    "sim_mode (svc_dependency (svc w')) \<in> insert (sim_mode (svc_dependency (svc w))) fault_modes"
  using assms
  by (cases x; auto simp: set_fault_mode_def set_mode_def mark_rate_limited_def ready_def take_snapshot_def service_circuit_shape
      sync_circuit_metric_state_def reset_service_def reset_simulator_def sync_circuit_metric_def fault_modes_def Let_def
      split: prod.splits if_splits)+

lemma bounded_op:
  assumes "service_ok w" and "bounded_labels w" and "app_step x w = Some w'"
  shows "bounded_labels w'"
proof (cases "\<exists>c t k inp. x = Create c t k inp")
  case True
  then show ?thesis using assms(3) by (auto intro: bounded_create [OF assms(1,2)])
next
  case False
  then have "\<forall>c t k inp. x \<noteq> Create c t k inp" by blast
  note O = other_op [OF assms(3) this]
  have "sim_mode (svc_dependency (svc w')) \<in> fault_modes" using O(3) assms(2) by (auto simp: bounded_labels_def)
  then show ?thesis using assms(2) by (simp add: bounded_labels_def O(1,2))
qed

lemma bounded_ops: "service_ok w \<Longrightarrow> bounded_labels w \<Longrightarrow> app_run xs w = Some w' \<Longrightarrow> bounded_labels w'"
proof (induction xs arbitrary: w)
  case (Cons x xs)
  obtain v where v: "app_step x w = Some v" "service_ok v" by (rule service_ok_step [OF Cons.prems(1)])
  then have "app_run xs v = Some w'" using Cons.prems(3) by simp
  with Cons.IH [OF v(2) bounded_op [OF Cons.prems(1,2) v(1)]] show ?case .
qed simp

section \<open>What a request does to the service\<close>

text \<open>Every handler is a sequence of operations of the service, or opens a stream; no handler touches the HTTP metrics.\<close>

definition quiet :: "lab \<Rightarrow> lab \<Rightarrow> bool" where
  "quiet l l' \<longleftrightarrow> http_requests l' = http_requests l \<and> request_durations l' = request_durations l \<and>
     ((\<exists>xs. app_run xs (world l) = Some (world l')) \<or>
      (\<exists>m. world l' = (world l)\<lparr>svc := (svc (world l))\<lparr>svc_store := m\<rparr>\<rparr>))"

lemma quietI:
  assumes "http_requests l' = http_requests l" "request_durations l' = request_durations l" "app_run xs (world l) = Some (world l')"
  shows "quiet l l'"
  using assms by (auto simp: quiet_def)

lemma quiet_refl: "quiet l l"
  by (rule quietI [of _ _ "[]"]) simp_all

lemma quiet_view: "dependency_view l = (dep, l') \<Longrightarrow> world l' = snd (take_snapshot (world l)) \<and>
    http_requests l' = http_requests l \<and> request_durations l' = request_durations l"
  by (auto simp: dependency_view_def split: prod.splits)

lemma quiet_create:
  assumes "create_order_handler r l = Some (resp, l')"
  shows "quiet l l'"
proof (cases "parse_create r")
  case (Inl e)
  then show ?thesis using assms quiet_refl by (simp add: create_order_handler_def)
next
  case (Inr p)
  obtain inp key where p: "p = (inp, key)" by (cases p)
  show ?thesis
    using assms Inr p
    by (intro quietI [of _ _ "[Create (rq_ctx r) (tenant_from_context r) key inp]"])
      (auto simp: create_order_handler_def split: option.splits)
qed

lemma quiet_limited:
  assumes ok: "lab_ok l" and d: "rate_limit create_order_handler r l = Some (resp, l')"
  shows "quiet l l'"
proof (cases rule: rate_limit_cases [OF ok, of create_order_handler r])
  case 1
  then have "quiet (charged r l) l'" using d quiet_create [of r "charged r l" resp l'] by simp
  then show ?thesis by (simp add: quiet_def charged_def)
next
  case (2 kl tl il)
  then show ?thesis using d by (intro quietI [of _ _ "[Rate_limited]"]) auto
qed

lemma quiet_fault:
  assumes "set_fault_handler r l = Some (resp, l')"
  shows "quiet l l'"
proof (cases "decode_first mode_decoder [] (rq_body r)")
  case None
  then show ?thesis using assms quiet_refl by (simp add: set_fault_handler_def)
next
  case (Some m)
  show ?thesis
  proof (cases "at_end (rq_body r)")
    case False
    then show ?thesis using assms Some quiet_refl by (simp add: set_fault_handler_def)
  next
    case True
    obtain e w where w: "set_fault_mode m (world l) = (e, w)" by fastforce
    show ?thesis
    proof (cases e)
      case None
      obtain dep l2 where v: "dependency_view (l\<lparr>world := w\<rparr>) = (dep, l2)" by fastforce
      then have "l' = l2" using assms Some True w None by (simp add: set_fault_handler_def)
      then show ?thesis using quiet_view [OF v] w by (intro quietI [of _ _ "[Set_fault m, Read_snapshot]"]) simp_all
    next
      case (Some x)
      then have "l' = l\<lparr>world := w\<rparr>" using assms \<open>decode_first mode_decoder [] (rq_body r) = Some m\<close> True w
        by (simp add: set_fault_handler_def)
      then show ?thesis using w by (intro quietI [of _ _ "[Set_fault m]"]) simp_all
    qed
  qed
qed

lemma quiet_ready:
  assumes "ready_handler r l = Some (resp, l')"
  shows "quiet l l'"
proof -
  obtain ok w where w: "ready (world l) = (ok, w)" by fastforce
  obtain dep l2 where v: "dependency_view (l\<lparr>world := w\<rparr>) = (dep, l2)" by fastforce
  have "l' = l2" using assms w v by (auto simp: ready_handler_def)
  then show ?thesis using quiet_view [OF v] w by (intro quietI [of _ _ "[Read_ready, Read_snapshot]"]) simp_all
qed

lemma quiet_snapshot: "snapshot_handler r l = Some (resp, l') \<Longrightarrow> quiet l l'"
  by (intro quietI [of _ _ "[Read_snapshot]"]) (auto simp: snapshot_handler_def split: prod.splits)

lemma quiet_reset: "reset_handler r l = Some (resp, l') \<Longrightarrow> quiet l l'"
  by (intro quietI [of _ _ "[Reset_all]"]) (auto simp: reset_handler_def)

lemma quiet_stream: "stream_handler a r l = Some (resp, l') \<Longrightarrow> quiet l l'"
  by (auto simp: stream_handler_def quiet_def split: prod.splits sum.splits elim!: stream_open_world)

lemma quiet_dispatch:
  assumes ok: "lab_ok l" and d: "dispatch external accepted r l = Some (resp, l')"
  shows "quiet l l'"
  using d quiet_limited [OF ok]
  by (auto simp: dispatch_def auth_def demo_def health_def list_orders_handler_def get_order_handler_def quiet_refl
      dest: quiet_fault quiet_ready quiet_snapshot quiet_reset quiet_stream split: endpoint.splits option.splits if_splits)

lemma bounded_store: "bounded_labels (w\<lparr>svc := (svc w)\<lparr>svc_store := m\<rparr>\<rparr>) = bounded_labels w"
  by (simp add: bounded_labels_def)

lemma bounded_quiet: "lab_ok l \<Longrightarrow> bounded_labels (world l) \<Longrightarrow> quiet l l' \<Longrightarrow> bounded_labels (world l')"
  using bounded_ops [of "world l"] lab_okD(1) [of l] by (auto simp: quiet_def bounded_store)

section \<open>HTTP metrics\<close>

definition routes :: "string set" where
  "routes = {''/v1/orders/{id}'', ''/'', ''/styles.css'', ''/app.js'', ''/healthz'', ''/readyz'', ''/metrics'', ''/v1/orders'',
     ''/v1/stream'', ''/v1/demo/snapshot'', ''/v1/demo/fault'', ''/v1/demo/reset'', ''other''}"

lemma route_label_bounded: "route_label p \<in> routes"
  by (simp add: route_label_def routes_def)

text \<open>
  The traffic of a server. A request arrives after a pause; its handler returns, or it is a stream and stays open
  until its loop ends (\<open>Stream_leaves\<close>: the deferred \<open>cancel\<close>) and then its connection is closed (\<open>Stream_closed\<close>: the
  handler returns). Meanwhile the stream takes events from its channel. A finished request
  is noted with its status, its start and its end. Indices that name no open stream mean nothing.
\<close>

record open_stream =
  os_request :: http_request
  os_status :: int
  os_started :: gotime
  os_session :: session
  os_left :: bool

record finished =
  fr_request :: http_request
  fr_status :: int
  fr_started :: gotime
  fr_ended :: gotime

record site =
  si_lab :: lab
  si_open :: "open_stream list"
  si_finished :: "finished list"

datatype traffic = Arrives http_request | Stream_reads nat | Stream_leaves nat | Stream_closed nat

definition after_pause :: "nat \<Rightarrow> lab \<Rightarrow> lab" where
  "after_pause pause l = l\<lparr>world := (world l)\<lparr>clock := clock (world l) + int pause\<rparr>\<rparr>"

definition stream_reads :: "session \<Rightarrow> lab \<Rightarrow> lab" where
  "stream_reads ses l =
     l\<lparr>world := (world l)\<lparr>svc := (svc (world l))\<lparr>svc_store := (svc_store (svc (world l)))
       \<lparr>channels_of := snd (chan_recv (ss_chan ses) (channels_of (svc_store (svc (world l)))))\<rparr>\<rparr>\<rparr>\<rparr>"

definition arrives :: "(http_request \<Rightarrow> response) \<Rightarrow> (http_request \<Rightarrow> response option) \<Rightarrow> http_request \<Rightarrow> site \<Rightarrow> site option" where
  "arrives external accepted r s =
     (case serve external accepted r (si_lab s) of
        None \<Rightarrow> None
      | Some (resp, l) \<Rightarrow>
          Some (case rs_body resp of
              Session_body ses \<Rightarrow> s\<lparr>si_lab := l, si_open := si_open s @ [\<lparr>os_request = r, os_status = rs_status resp,
                os_started = clock (world (si_lab s)), os_session = ses, os_left = False\<rparr>]\<rparr>
            | _ \<Rightarrow> s\<lparr>si_lab := l, si_finished := si_finished s @ [\<lparr>fr_request = r, fr_status = rs_status resp,
                fr_started = clock (world (si_lab s)), fr_ended = clock (world l)\<rparr>]\<rparr>))"

fun traffic_step :: "(http_request \<Rightarrow> response) \<Rightarrow> (http_request \<Rightarrow> response option) \<Rightarrow> traffic \<Rightarrow> site \<Rightarrow> site option" where
  "traffic_step external accepted (Arrives r) s = arrives external accepted r s"
| "traffic_step external accepted (Stream_reads i) s =
     Some (if i < length (si_open s) \<and> \<not> os_left (si_open s ! i)
           then s\<lparr>si_lab := stream_reads (os_session (si_open s ! i)) (si_lab s)\<rparr> else s)"
| "traffic_step external accepted (Stream_leaves i) s =
     Some (if i < length (si_open s) \<and> \<not> os_left (si_open s ! i)
           then s\<lparr>si_lab := end_subscription (ss_id (os_session (si_open s ! i))) (si_lab s),
             si_open := (si_open s)[i := (si_open s ! i)\<lparr>os_left := True\<rparr>]\<rparr> else s)"
| "traffic_step external accepted (Stream_closed i) s =
     Some (if i < length (si_open s) \<and> os_left (si_open s ! i)
           then (let e = si_open s ! i
             in s\<lparr>si_lab := count_request (os_request e) (os_status e) (os_started e) (si_lab s),
                  si_open := take i (si_open s) @ drop (Suc i) (si_open s),
                  si_finished := si_finished s @ [\<lparr>fr_request = os_request e, fr_status = os_status e,
                    fr_started = os_started e, fr_ended = clock (world (si_lab s))\<rparr>]\<rparr>) else s)"

fun traffic_run :: "(http_request \<Rightarrow> response) \<Rightarrow> (http_request \<Rightarrow> response option) \<Rightarrow> (nat \<times> traffic) list \<Rightarrow> site \<Rightarrow> site option" where
  "traffic_run external accepted [] s = Some s"
| "traffic_run external accepted ((pause, ev) # evs) s =
     (case traffic_step external accepted ev (s\<lparr>si_lab := after_pause pause (si_lab s)\<rparr>) of
        None \<Rightarrow> None
      | Some s' \<Rightarrow> traffic_run external accepted evs s')"

fun arrivals :: "(nat \<times> traffic) list \<Rightarrow> nat" where
  "arrivals [] = 0"
| "arrivals ((pause, Arrives r) # evs) = Suc (arrivals evs)"
| "arrivals ((pause, _) # evs) = arrivals evs"

text \<open>What the series should say of the finished requests.\<close>

definition finished_as :: "string \<times> string \<times> string \<Rightarrow> finished \<Rightarrow> bool" where
  "finished_as k f \<longleftrightarrow> k = (rq_method (fr_request f), route_label (rq_path (fr_request f)), show_int (fr_status f))"

definition finished_took :: "string \<Rightarrow> finished list \<Rightarrow> rat list" where
  "finished_took p fs = map (\<lambda>f. duration_seconds (time_sub (fr_ended f) (fr_started f)))
     (filter (\<lambda>f. route_label (rq_path (fr_request f)) = p) fs)"

definition metrics_ok :: "site \<Rightarrow> bool" where
  "metrics_ok s \<longleftrightarrow> lab_ok (si_lab s) \<and> bounded_labels (world (si_lab s)) \<and>
     http_requests (si_lab s) = (\<lambda>k. length (filter (finished_as k) (si_finished s))) \<and>
     request_durations (si_lab s) = (\<lambda>p. finished_took p (si_finished s))"

lemma metrics_okI:
  assumes "metrics_ok s" and "lab_ok l" and "bounded_labels (world l)"
    and "http_requests l = http_requests (si_lab s)" and "request_durations l = request_durations (si_lab s)"
  shows "metrics_ok (s\<lparr>si_lab := l\<rparr>)" "metrics_ok (s\<lparr>si_lab := l, si_open := os\<rparr>)"
  using assms by (simp_all add: metrics_ok_def)

text \<open>The one place where a request is counted.\<close>

lemma metrics_ok_finish:
  assumes ok: "metrics_ok s" and l: "lab_ok l" "bounded_labels (world l)"
    and same: "http_requests l = http_requests (si_lab s)" "request_durations l = request_durations (si_lab s)"
  shows "metrics_ok (s\<lparr>si_lab := count_request r status started l, si_open := os, si_finished := si_finished s @
    [\<lparr>fr_request = r, fr_status = status, fr_started = started, fr_ended = clock (world l)\<rparr>]\<rparr>)"
proof -
  let ?f = "\<lparr>fr_request = r, fr_status = status, fr_started = started, fr_ended = clock (world l)\<rparr>"
  have "http_requests (count_request r status started l) = (\<lambda>k. length (filter (finished_as k) (si_finished s @ [?f])))"
    using ok by (auto simp: count_request_def same metrics_ok_def finished_as_def Let_def)
  moreover have "request_durations (count_request r status started l) = (\<lambda>p. finished_took p (si_finished s @ [?f]))"
    using ok by (auto simp: count_request_def same metrics_ok_def finished_took_def Let_def)
  ultimately show ?thesis using l by (simp add: metrics_ok_def)
qed

lemma metrics_ok_arrives:
  assumes ok: "metrics_ok s"
  obtains s' where "arrives external accepted r s = Some s'" "metrics_ok s'"
    "length (si_finished s') + length (si_open s') = Suc (length (si_finished s) + length (si_open s))"
proof -
  have lab: "lab_ok (si_lab s)" "bounded_labels (world (si_lab s))" using ok by (simp_all add: metrics_ok_def)
  obtain resp l1 where d: "dispatch external accepted r (si_lab s) = Some (resp, l1)" "lab_ok l1"
    by (rule lab_ok_dispatch [OF lab(1)])
  note Q = quiet_dispatch [OF lab(1) d(1)]
  have b: "bounded_labels (world l1)" by (rule bounded_quiet [OF lab Q])
  have q: "http_requests l1 = http_requests (si_lab s)" "request_durations l1 = request_durations (si_lab s)" using Q by (simp_all add: quiet_def)
  show thesis
  proof (cases "still_open resp")
    case True
    then obtain ses where ses: "rs_body resp = Session_body ses" by (auto simp: still_open_def split: payload.splits)
    have "arrives external accepted r s = Some (s\<lparr>si_lab := l1, si_open := si_open s @ [\<lparr>os_request = r, os_status = rs_status resp,
        os_started = clock (world (si_lab s)), os_session = ses, os_left = False\<rparr>]\<rparr>)"
      using d(1) True ses by (simp add: arrives_def serve_def observe_def)
    then show thesis using metrics_okI(2) [OF ok d(2) b q] by (rule that) simp
  next
    case False
    let ?l = "count_request r (rs_status resp) (clock (world (si_lab s))) l1"
    let ?s = "s\<lparr>si_lab := ?l, si_open := si_open s, si_finished := si_finished s @ [\<lparr>fr_request = r, fr_status = rs_status resp,
        fr_started = clock (world (si_lab s)), fr_ended = clock (world l1)\<rparr>]\<rparr>"
    have "arrives external accepted r s = Some ?s"
      using d(1) False by (simp add: arrives_def serve_def observe_def still_open_def split: payload.splits)
    then show thesis using metrics_ok_finish [OF ok d(2) b q] by (rule that) simp
  qed
qed

lemma metrics_ok_step:
  assumes ok: "metrics_ok s"
  obtains s' where "traffic_step external accepted ev s = Some s'" "metrics_ok s'"
    "length (si_finished s') + length (si_open s') = length (si_finished s) + length (si_open s) + arrivals [(0, ev)]"
proof -
  have lab: "lab_ok (si_lab s)" "bounded_labels (world (si_lab s))" using ok by (simp_all add: metrics_ok_def)
  show thesis
  proof (cases ev)
    case (Arrives r)
    obtain s' where "arrives external accepted r s = Some s'" "metrics_ok s'"
      "length (si_finished s') + length (si_open s') = Suc (length (si_finished s) + length (si_open s))"
      by (rule metrics_ok_arrives [OF ok])
    then show thesis using that [of s'] Arrives by simp
  next
    case (Stream_reads i)
    have "metrics_ok (s\<lparr>si_lab := stream_reads (os_session (si_open s ! i)) (si_lab s)\<rparr>)"
      unfolding stream_reads_def by (rule metrics_okI(1) [OF ok]) (use lab in \<open>simp_all add: lab_ok_store bounded_store\<close>)
    then show thesis using that Stream_reads ok by simp
  next
    case (Stream_leaves i)
    have "metrics_ok (s\<lparr>si_lab := end_subscription (ss_id (os_session (si_open s ! i))) (si_lab s),
        si_open := (si_open s)[i := (si_open s ! i)\<lparr>os_left := True\<rparr>]\<rparr>)"
      unfolding end_subscription_def by (rule metrics_okI(2) [OF ok]) (use lab in \<open>simp_all add: lab_ok_store bounded_store\<close>)
    then show thesis using that Stream_leaves ok by simp
  next
    case (Stream_closed i)
    show thesis
    proof (cases "i < length (si_open s) \<and> os_left (si_open s ! i)")
      case True
      then have "Suc (length (si_finished s) + length (si_open s) - Suc 0) = length (si_finished s) + length (si_open s)" by linarith
      then show thesis using True that Stream_closed metrics_ok_finish [OF ok lab refl refl] by (simp add: Let_def)
    next
      case False
      then show thesis using that [of s] Stream_closed ok by auto
    qed
  qed
qed

lemma arrivals_Cons: "arrivals ((pause, ev) # evs) = arrivals [(0, ev)] + arrivals evs"
  by (cases ev) simp_all

lemma metrics_ok_run:
  "metrics_ok s \<Longrightarrow> \<exists>s'. traffic_run external accepted evs s = Some s' \<and> metrics_ok s' \<and>
     length (si_finished s') + length (si_open s') = length (si_finished s) + length (si_open s) + arrivals evs"
proof (induction evs arbitrary: s)
  case Nil
  then show ?case by simp
next
  case (Cons x evs)
  obtain pause ev where x: "x = (pause, ev)" by (cases x)
  let ?s = "s\<lparr>si_lab := after_pause pause (si_lab s)\<rparr>"
  have "lab_ok (after_pause pause (si_lab s))"
    unfolding after_pause_def using Cons.prems by (intro lab_ok_op(1) [of _ "Pass pause"]) (simp_all add: metrics_ok_def)
  then have "metrics_ok ?s" using Cons.prems
    by (intro metrics_okI(1)) (simp_all add: metrics_ok_def after_pause_def bounded_labels_def)
  then obtain s1 where s1: "traffic_step external accepted ev ?s = Some s1" "metrics_ok s1"
    "length (si_finished s1) + length (si_open s1) = length (si_finished ?s) + length (si_open ?s) + arrivals [(0, ev)]"
    by (rule metrics_ok_step)
  from Cons.IH [OF s1(2)] s1(1,3) show ?case unfolding x arrivals_Cons [of pause ev evs] by auto
qed

definition new_site :: "lab \<Rightarrow> site" where
  "new_site l = \<lparr>si_lab = l, si_open = [], si_finished = []\<rparr>"

text \<open>
  C38. The metrics tell what was served. From a new lab server, any traffic runs to its end: requests,
  streams that stay open while others come, read, and end in any order. Then every HTTP series counts exactly the
  finished requests with its method, route and status, a stream when its handler has returned and not
  before; every route has exactly the durations of its finished requests, from arrival to end; and every request
  has finished or is an open stream. The route label of any path is one of thirteen. Order outcomes are one of
  five, dependency calls are labelled success or failure and one of four modes, so no tenant, key or
  order becomes a label there. The method label is the request's and the status label that of its answer.
\<close>

theorem api_metrics_exact:
  assumes "svc w = new_service m d (clock w)" and "0 \<le> clock w" and "sim_mode d \<in> fault_modes"
  shows "\<exists>s l. traffic_run external accepted evs (new_site (new_server env w)) = Some s \<and> si_lab s = l \<and>
    (\<forall>mth path status. http_requests l (mth, path, status) = length (filter (\<lambda>f. rq_method (fr_request f) = mth \<and>
        route_label (rq_path (fr_request f)) = path \<and> show_int (fr_status f) = status) (si_finished s))) \<and>
    (\<forall>path. request_durations l path = map (\<lambda>f. duration_seconds (time_sub (fr_ended f) (fr_started f)))
        (filter (\<lambda>f. route_label (rq_path (fr_request f)) = path) (si_finished s))) \<and>
    length (si_finished s) + length (si_open s) = arrivals evs \<and>
    (\<forall>mth path status. http_requests l (mth, path, status) \<noteq> 0 \<longrightarrow> path \<in> routes) \<and>
    (\<forall>x. order_requests (svc_metrics (svc (world l))) x \<noteq> 0 \<longrightarrow> x \<in> outcome_labels) \<and>
    (\<forall>x m. dependency_calls (svc_metrics (svc (world l))) (x, m) \<noteq> 0 \<longrightarrow> x \<in> {''success'', ''failure''} \<and> m \<in> fault_modes)"
proof -
  have "lab_ok (new_server env w)" using assms(1,2) by (rule lab_ok_new)
  moreover have "bounded_labels w" using assms(1,3) by (simp add: bounded_labels_def new_service_def no_metrics_def)
  ultimately have "metrics_ok (new_site (new_server env w))"
    by (simp add: metrics_ok_def new_site_def new_server_def finished_took_def)
  from metrics_ok_run [OF this, of external accepted evs] obtain s where
    s: "traffic_run external accepted evs (new_site (new_server env w)) = Some s" "metrics_ok s"
    "length (si_finished s) + length (si_open s) = arrivals evs" by (auto simp: new_site_def)
  have counts: "http_requests (si_lab s) (mth, path, status) = length (filter (\<lambda>f. rq_method (fr_request f) = mth \<and>
      route_label (rq_path (fr_request f)) = path \<and> show_int (fr_status f) = status) (si_finished s))" for mth path status
  proof -
    have "finished_as (mth, path, status) = (\<lambda>f. rq_method (fr_request f) = mth \<and>
      route_label (rq_path (fr_request f)) = path \<and> show_int (fr_status f) = status)" by (auto simp: finished_as_def fun_eq_iff)
    then show ?thesis using s(2) by (simp add: metrics_ok_def)
  qed
  moreover have "path \<in> routes" if "http_requests (si_lab s) (mth, path, status) \<noteq> 0" for mth path status
    using that route_label_bounded unfolding counts by (auto simp: filter_empty_conv)
  moreover have "request_durations (si_lab s) path = map (\<lambda>f. duration_seconds (time_sub (fr_ended f) (fr_started f)))
      (filter (\<lambda>f. route_label (rq_path (fr_request f)) = path) (si_finished s))" for path
    using s(2) by (simp add: metrics_ok_def finished_took_def)
  moreover have "bounded_labels (world (si_lab s))" using s(2) by (simp add: metrics_ok_def)
  ultimately show ?thesis using s(1,3) unfolding bounded_labels_def by blast
qed

text \<open>A stream that stays open for a minute while an unknown key and an invented method are answered.\<close>

definition sample_traffic :: "(nat \<times> traffic) list" where
  "sample_traffic =
     [(0, Arrives ((sample_request ''tenant-alpha-key'')\<lparr>rq_method := ''GET'', rq_path := ''/v1/stream'', rq_endpoint := Ep_stream\<rparr>)),
      (5, Arrives (sample_request ''stolen'')),
      (7, Arrives ((sample_request ''stolen'')\<lparr>rq_method := ''BREW'', rq_endpoint := Ep_unmatched, rq_path := ''/pot''\<rparr>)),
      (60, Stream_leaves 0), (3, Stream_closed 0)]"

lemma sample_traffic_runs:
  "\<exists>s. traffic_run (\<lambda>_. rejection) (\<lambda>_. None) sample_traffic (new_site (new_server (\<lambda>_. []) (sample_world mode_flaky))) = Some s \<and>
     map (\<lambda>f. (rq_method (fr_request f), rq_path (fr_request f), fr_status f, fr_ended f - fr_started f)) (si_finished s) =
       [(''POST'', ''/v1/orders'', 401, 0), (''BREW'', ''/pot'', 429, 0), (''GET'', ''/v1/stream'', 101, 75)] \<and> si_open s = []"
  by (simp add: sample_traffic_def new_site_def after_pause_def arrives_def serve_def observe_def still_open_def dispatch_def auth_def
      stream_handler_def stream_open_def service_subscribe_since_def subscribe_since_def chan_make_def end_subscription_def count_request_def
      sample_request_def new_server_def server_keys_def sample_world_def new_service_def new_memory_def write_error_def write_json_def
      rejection_def parse_uint_def tenant_from_context_def Let_def)

theorem api_metrics_exact_witness:
  "\<exists>s. traffic_run (\<lambda>_. rejection) (\<lambda>_. None) sample_traffic (new_site (new_server (\<lambda>_. []) (sample_world mode_flaky))) = Some s \<and>
     http_requests (si_lab s) (''GET'', ''/v1/stream'', ''101'') = 1 \<and> http_requests (si_lab s) (''BREW'', ''other'', ''429'') = 1 \<and>
     http_requests (si_lab s) (''POST'', ''/v1/orders'', ''401'') = 1 \<and> length (request_durations (si_lab s) ''/v1/stream'') = 1"
proof -
  obtain s where s: "traffic_run (\<lambda>_. rejection) (\<lambda>_. None) sample_traffic (new_site (new_server (\<lambda>_. []) (sample_world mode_flaky))) = Some s"
    and log: "map (\<lambda>f. (rq_method (fr_request f), rq_path (fr_request f), fr_status f, fr_ended f - fr_started f)) (si_finished s) =
       [(''POST'', ''/v1/orders'', 401, 0), (''BREW'', ''/pot'', 429, 0), (''GET'', ''/v1/stream'', 101, 75)]"
    using sample_traffic_runs by (elim exE conjE) (rule that, assumption+)
  have shown: "show_int 401 = ''401''" "show_int 429 = ''429''" "show_int 101 = ''101''" by code_simp+
  have routes: "route_label ''/pot'' = ''other''" "route_label ''/v1/orders'' = ''/v1/orders''" "route_label ''/v1/stream'' = ''/v1/stream''"
    by (simp_all add: route_label_def)
  have "sim_mode \<lparr>sim_mode = mode_flaky, sim_calls = 0\<rparr> \<in> fault_modes" by (simp add: fault_modes_def)
  from api_metrics_exact [OF sample_world_facts(9) _ this, of "\<lambda>_. rejection" "\<lambda>_. None" sample_traffic "\<lambda>_. []"] s
  have counts: "http_requests (si_lab s) (mth, path, status) = length (filter (\<lambda>f. rq_method (fr_request f) = mth \<and>
        route_label (rq_path (fr_request f)) = path \<and> show_int (fr_status f) = status) (si_finished s))"
    and durations: "request_durations (si_lab s) path = map (\<lambda>f. duration_seconds (time_sub (fr_ended f) (fr_started f)))
        (filter (\<lambda>f. route_label (rq_path (fr_request f)) = path) (si_finished s))" for mth path status
    by (auto simp: sample_world_facts(2))
  obtain f1 f2 f3 where fin: "si_finished s = [f1, f2, f3]"
    and f: "rq_method (fr_request f1) = ''POST''" "rq_path (fr_request f1) = ''/v1/orders''" "fr_status f1 = 401"
      "rq_method (fr_request f2) = ''BREW''" "rq_path (fr_request f2) = ''/pot''" "fr_status f2 = 429"
      "rq_method (fr_request f3) = ''GET''" "rq_path (fr_request f3) = ''/v1/stream''" "fr_status f3 = 101"
    using log by (auto simp: map_eq_Cons_conv)
  show ?thesis using s by (intro exI [of _ s] conjI) (simp_all add: counts durations fin f shown routes)
qed

end
