(* ===== verification/Entry_Points.thy ===== *)
theory Entry_Points
  imports Product_Server_Properties Product_Config Telemetry Webhook_Properties
begin

text \<open>
  The entry points of both servers, \<open>cmd/server/main.go\<close> and \<open>cmd/product-server/main.go\<close>: from the environment to
  the running parts, in the order of the code, and how the process ends. What the libraries
  contribute (the registry, the connection pool, the URL parsers, the listener) are inputs. Logging and the deferred
  closing of connections are left out. The theorem says that what \<open>main\<close> wires together fits together.
\<close>

section \<open>Processes\<close>

datatype process_end = Exited int | Panicked

text \<open>What \<open>main\<close> waits for: a signal, or the end of \<open>ListenAndServe\<close>, by \<open>ErrServerClosed\<close> or for another reason.\<close>

datatype process_event = Signalled | Serve_ended bool

record listener =
  ls_address :: string
  ls_read_header :: duration
  ls_read :: duration
  ls_write :: duration
  ls_idle :: duration

section \<open>The lab server\<close>

record lab_process =
  lp_server :: lab
  lp_listener :: listener

definition lab_start :: "(collector list \<Rightarrow> 'r \<Rightarrow> 'r option) \<Rightarrow> 'r \<Rightarrow> environment \<Rightarrow> world \<Rightarrow> lab_process option" where
  "lab_start must_register registry env w =
     (case new_metrics must_register registry of
        None \<Rightarrow> None
      | Some (m, registry') \<Rightarrow>
          (let service = (new_service (new_memory 500) new_simulator (clock w))\<lparr>svc_metrics := m\<rparr>;
               address = (if env ''ADDR'' = [] then '':8080'' else env ''ADDR'')
           in Some \<lparr>lp_server = new_server env (w\<lparr>svc := service\<rparr>),
                lp_listener = \<lparr>ls_address = address, ls_read_header = 5 * second, ls_read = 10 * second, ls_write = 30 * second,
                  ls_idle = 60 * second\<rparr>\<rparr>))"

text \<open>The first event decides; \<open>shut\<close> says whether \<open>Shutdown\<close> succeeds. Without an event the process runs on.\<close>

definition lab_main ::
    "(collector list \<Rightarrow> 'r \<Rightarrow> 'r option) \<Rightarrow> 'r \<Rightarrow> environment \<Rightarrow> world \<Rightarrow> process_event list \<Rightarrow> bool \<Rightarrow> process_end option" where
  "lab_main must_register registry env w evs shut =
     (case lab_start must_register registry env w of
        None \<Rightarrow> Some Panicked
      | Some p \<Rightarrow>
          (case evs of
             [] \<Rightarrow> None
           | Signalled # _ \<Rightarrow> Some (Exited (if shut then 0 else 1))
           | Serve_ended by_close # _ \<Rightarrow> Some (Exited (if by_close then 0 else 1))))"

text \<open>The server that \<open>main\<close> starts is the one that the theorems about the lab server are about.\<close>

lemma lab_starts:
  assumes "lab_start must_register registry env w = Some p" and "0 \<le> clock w"
  obtains w' where "lp_server p = new_server env w'" "svc w' = new_service (new_memory 500) new_simulator (clock w')"
    "clock w' = clock w" "lab_ok (lp_server p)"
proof -
  let ?w = "w\<lparr>svc := new_service (new_memory 500) new_simulator (clock w)\<rparr>"
  have "lp_server p = new_server env ?w"
    using assms(1) by (auto simp: lab_start_def new_metrics_def new_service_def Let_def split: option.splits)
  moreover have "lab_ok (new_server env ?w)" using assms(2) by (intro lab_ok_new) simp_all
  ultimately show thesis using that [of ?w] by simp
qed

section \<open>The product\<close>

record 'r product_host =
  ho_env :: environment
  ho_parse_url :: "string \<Rightarrow> (string \<times> string) option"
  ho_pool :: "string \<Rightarrow> product_error option"
  ho_paths :: "product_error + string list"
  ho_contents :: "string \<Rightarrow> product_error + string"
  ho_exec :: "string \<Rightarrow> pworld \<Rightarrow> product_error option \<times> pworld"
  ho_parse_redis :: "string \<Rightarrow> product_error option"
  ho_registry :: "'r option"
  ho_register :: "collector list \<Rightarrow> 'r \<Rightarrow> 'r option"
  ho_sha :: digest
  ho_mac :: hmac
  ho_reader :: json_reader
  ho_other :: "product_endpoint \<Rightarrow> product_response"

text \<open>\<open>ho_registry\<close> is the new registry with the collectors of the Go runtime, or nothing after a panic.\<close>

record product_process =
  pp_http :: product_http
  pp_worker :: webhook_worker
  pp_client_timeout :: duration
  pp_listener :: listener

definition wire_product :: "'r product_host \<Rightarrow> product_config \<Rightarrow> product_process" where
  "wire_product h c =
     (let service = new_product_service (ho_sha h) (new_redis_coordinator ''northstar:product'') True (pc_webhook_url c) (pc_max_attempts c);
          worker = new_webhook_worker (ho_mac h) (pc_webhook_secret c) (pc_lease c) (pc_poll c) True
      in \<lparr>pp_http = \<lparr>ph_service = service, ph_keys = pc_api_keys c, ph_tenant = pc_integration_tenant c,
              ph_stripe = pc_stripe_secret c, ph_shopify = pc_shopify_secret c, ph_reader = ho_reader h, ph_mac = ho_mac h,
              ph_other = ho_other h\<rparr>,
          pp_worker = worker, pp_client_timeout = pc_request_timeout c,
          pp_listener = \<lparr>ls_address = pc_address c, ls_read_header = 5 * second, ls_read = 10 * second, ls_write = 15 * second,
            ls_idle = 60 * second\<rparr>\<rparr>)"

definition product_start :: "'r product_host \<Rightarrow> pworld \<Rightarrow> (process_end + product_process) \<times> pworld" where
  "product_start h w =
     (case load_config (ho_parse_url h) (ho_env h) of
        Inl e \<Rightarrow> (Inl (Exited 1), w)
      | Inr c \<Rightarrow>
     (case open_postgres (ho_pool h (pc_database_url c)) w of
        (Some e, w1) \<Rightarrow> (Inl (Exited 1), w1)
      | (None, w1) \<Rightarrow>
     (case migrate (ho_paths h) (ho_contents h) (ho_exec h) w1 of
        (Some e, w2) \<Rightarrow> (Inl (Exited 1), w2)
      | (None, w2) \<Rightarrow>
     (case ho_parse_redis h (pc_redis_url c) of
        Some e \<Rightarrow> (Inl (Exited 1), w2)
      | None \<Rightarrow>
     (case Option.bind (ho_registry h) (new_product_metrics (ho_register h)) of
        None \<Rightarrow> (Inl Panicked, w2)
      | Some ((placed, attempted, fallbacks), registry) \<Rightarrow>
          (Inr (wire_product h c),
           w2\<lparr>p_order_metric := placed, p_delivery_metric := attempted, p_fallback_metric := fallbacks\<rparr>))))))"

text \<open>
  The context of the process ends with a signal, or when the listener stops on its own. Both ways lead
  through \<open>Shutdown\<close> to the end of \<open>main\<close>, whatever \<open>Shutdown\<close> returns: the exit code is 0 then.
\<close>

definition stops_product :: "process_event \<Rightarrow> bool" where
  "stops_product ev = (case ev of Signalled \<Rightarrow> True | Serve_ended by_close \<Rightarrow> \<not> by_close)"

definition product_main :: "'r product_host \<Rightarrow> pworld \<Rightarrow> process_event list \<Rightarrow> process_end option" where
  "product_main h w evs =
     (case fst (product_start h w) of
        Inl e \<Rightarrow> Some e
      | Inr p \<Rightarrow> if list_ex stops_product evs then Some (Exited 0) else None)"

lemma product_startD:
  assumes "product_start h w = (Inr p, w')"
  obtains c w1 w2 where "load_config (ho_parse_url h) (ho_env h) = Inr c" "p = wire_product h c"
    "open_postgres (ho_pool h (pc_database_url c)) w = (None, w1)"
    "migrate (ho_paths h) (ho_contents h) (ho_exec h) w1 = (None, w2)" "ho_parse_redis h (pc_redis_url c) = None"
    "w' = w2\<lparr>p_order_metric := \<lambda>_. 0, p_delivery_metric := \<lambda>_. 0, p_fallback_metric := 0\<rparr>"
  using assms
  by (auto simp: product_start_def new_product_metrics_def bind_eq_Some_conv split: sum.splits prod.splits option.splits)


text \<open>
  C40. A product that starts is wired soundly. When \<open>main\<close> gets as far as listening, from whatever environment,
  the database has answered and every migration was applied. The server has API keys, none with an empty key or
  tenant, and a tenant for integrations that order creation accepts. The client of the worker gives up before the lease of the
  delivery ends, there is at least one attempt, and webhooks go to an absolute HTTP address, signed with a secret. The
  counters start at zero.
\<close>

theorem product_starts_sound:
  assumes "product_start h w = (Inr p, w')"
  shows "(\<exists>url w1 w2. open_postgres (ho_pool h url) w = (None, w1) \<and>
        migrate (ho_paths h) (ho_contents h) (ho_exec h) w1 = (None, w2) \<and> p_db w' = p_db w2 \<and> p_redis w' = p_redis w2) \<and>
    ph_keys (pp_http p) \<noteq> Map.empty \<and> named_keys (ph_keys (pp_http p)) \<and>
    ph_tenant (pp_http p) \<noteq> [] \<and> length (ph_tenant (pp_http p)) \<le> 100 \<and>
    0 < pp_client_timeout p \<and> pp_client_timeout p < ww_lease (pp_worker p) \<and> 0 < ww_poll (pp_worker p) \<and>
    1 \<le> ps_max_attempts (ph_service (pp_http p)) \<and> in_int64 (ps_max_attempts (ph_service (pp_http p))) \<and>
    (ps_webhook_url (ph_service (pp_http p)) \<noteq> [] \<longrightarrow> ww_secret (pp_worker p) \<noteq> [] \<and>
      (\<exists>scheme name. ho_parse_url h (ps_webhook_url (ph_service (pp_http p))) = Some (scheme, name) \<and>
         scheme \<in> {''http'', ''https''} \<and> name \<noteq> [])) \<and>
    p_order_metric w' = (\<lambda>_. 0) \<and> p_delivery_metric w' = (\<lambda>_. 0) \<and> p_fallback_metric w' = 0"
proof -
  obtain c w1 w2 where c: "load_config (ho_parse_url h) (ho_env h) = Inr c" "p = wire_product h c"
    "open_postgres (ho_pool h (pc_database_url c)) w = (None, w1)"
    "migrate (ho_paths h) (ho_contents h) (ho_exec h) w1 = (None, w2)" "ho_parse_redis h (pc_redis_url c) = None"
    "w' = w2\<lparr>p_order_metric := \<lambda>_. 0, p_delivery_metric := \<lambda>_. 0, p_fallback_metric := 0\<rparr>"
    by (rule product_startD [OF assms])
  have parts: "ph_keys (pp_http p) = pc_api_keys c" "ph_tenant (pp_http p) = pc_integration_tenant c"
    "pp_client_timeout p = pc_request_timeout c" "ww_lease (pp_worker p) = pc_lease c" "ww_poll (pp_worker p) = pc_poll c"
    "ww_secret (pp_worker p) = pc_webhook_secret c" "ps_webhook_url (ph_service (pp_http p)) = pc_webhook_url c"
    "ps_max_attempts (ph_service (pp_http p)) = pc_max_attempts c"
    by (simp_all add: c(2) wire_product_def new_product_service_def new_webhook_worker_def Let_def)
  have "valid_config (ho_parse_url h) c" by (rule config_sound [OF c(1)])
  moreover have "\<exists>url w1 w2. open_postgres (ho_pool h url) w = (None, w1) \<and>
      migrate (ho_paths h) (ho_contents h) (ho_exec h) w1 = (None, w2) \<and> p_db w' = p_db w2 \<and> p_redis w' = p_redis w2"
    using c(3,4,6) by auto
  ultimately show ?thesis unfolding parts valid_config_def using c(6) by simp
qed

definition sample_host :: "string list product_host" where
  "sample_host = \<lparr>ho_env = sample_env, ho_parse_url = (\<lambda>_. None), ho_pool = (\<lambda>_. None), ho_paths = Inr [''2.sql'', ''1.sql''],
     ho_contents = Inr, ho_exec = (\<lambda>script w. (None, w)), ho_parse_redis = (\<lambda>_. None), ho_registry = Some [],
     ho_register = (\<lambda>cs r. Some (map co_name cs @ r)), ho_sha = (\<lambda>_. []), ho_mac = (\<lambda>_ _. [1]), ho_reader = ph_reader sample_http,
     ho_other = ph_other sample_http\<rparr>"

lemma sample_ping: "\<exists>w1. open_postgres None quiet_world = (None, w1)"
  by (simp add: open_postgres_def repo_ping_def statement_def external_call_def wrap_error_def quiet_world_def Let_def)

theorem product_starts_sound_witness:
  "\<exists>p w'. product_start sample_host quiet_world = (Inr p, w') \<and> ww_lease (pp_worker p) = 20 * second \<and>
     pp_client_timeout p < 20 * second"
proof -
  obtain c where c: "load_config (\<lambda>_. None) sample_env = Inr c" "pc_lease c = 20 * second" using sample_config by blast
  obtain w1 where ping: "open_postgres None quiet_world = (None, w1)" using sample_ping by blast
  have "\<exists>w'. product_start sample_host quiet_world = (Inr (wire_product sample_host c), w')"
    by (simp add: product_start_def sample_host_def c ping migrate_def new_product_metrics_def)
  then obtain w' where run: "product_start sample_host quiet_world = (Inr (wire_product sample_host c), w')" ..
  moreover have "ww_lease (pp_worker (wire_product sample_host c)) = 20 * second"
    by (simp add: wire_product_def new_webhook_worker_def c Let_def)
  ultimately show ?thesis using product_starts_sound [OF run] by auto
qed

text \<open>
  The lease reaches the database in whole milliseconds. A shorter one passes the checks, and then every claimed
  delivery is due again at once.
\<close>

lemma short_lease_is_none:
  "\<exists>c. load_config (\<lambda>_. None) (sample_env(''WEBHOOK_LEASE'' := show_nat 900 @ ''us'', ''WEBHOOK_REQUEST_TIMEOUT'' := show_nat 800 @ ''us'')) =
       Inr c \<and> (\<forall>now d. delivery_due now (pc_lease c) (claimed now d))"
proof -
  have us: "parse_duration (show_nat 900 @ ''us'') = Some 900000" "parse_duration (show_nat 800 @ ''us'') = Some 800000"
    using parse_duration_unit [of "''us''" 1000 900] parse_duration_unit [of "''us''" 1000 800]
    by (simp_all add: duration_units_def in_number_def is_digit_def)
  have ne: "show_nat 900 @ ''us'' \<noteq> []" "show_nat 800 @ ''us'' \<noteq> []" by simp_all
  show ?thesis
    by (simp add: load_config_def env_int_def env_duration_def sample_env_def sample_keys us ne del: show_nat.simps)
      (simp add: config_problem_def assemble_config_def env_or_default_def go_duration_defs delivery_due_def claimed_def milliseconds_def)
qed

text \<open>How the processes end: the lab server reports a listener that fails, the product does not.\<close>

lemma listener_failure:
  assumes "lab_start must_register registry env v = Some q" and "product_start h w = (Inr p, w')"
  shows "lab_main must_register registry env v [Serve_ended False] shut = Some (Exited 1)"
    and "product_main h w [Serve_ended False] = Some (Exited 0)"
  using assms by (simp_all add: lab_main_def product_main_def stops_product_def)

end
