(* ===== verification/Order_Arrives.thy ===== *)
theory Order_Arrives
  imports Webhook_Demo Entry_Points
begin

text \<open>
  From an order to its webhook: an order that the product's server accepts leaves one delivery in
  the outbox, and the worker brings exactly that to the receiver. The theorem ties server, service,
  coordinator, repository, worker and receiver together, wired as \<open>main\<close> wires them.
\<close>

section \<open>What a creation leaves in the outbox\<close>

abbreviation outbox :: "pworld \<Rightarrow> webhook_delivery list" where
  "outbox w \<equiv> delivery_rows (p_db w)"

definition later :: "pworld \<Rightarrow> pworld \<Rightarrow> bool" where
  "later w w' \<longleftrightarrow> calm w' \<and> p_payload w' = p_payload w \<and> p_stored w' = p_stored w \<and> p_delays w' = p_delays w \<and>
     p_clock w \<le> p_clock w'"

definition outbox_kept :: "pworld \<Rightarrow> pworld \<Rightarrow> bool" where
  "outbox_kept w w' \<longleftrightarrow> later w w' \<and> outbox w' = outbox w"

text \<open>One new delivery for the order, waiting and not tried yet.\<close>

definition announces :: "pworld \<Rightarrow> create_order_request \<Rightarrow> order \<Rightarrow> webhook_delivery \<Rightarrow> bool" where
  "announces w q ord d \<longleftrightarrow> wd_event_type d = ''order.confirmed'' \<and> wd_target d = rq_webhook_url q \<and> waiting d \<and>
     wd_attempts d = 0 \<and> wd_max_attempts d = rq_max_attempts q \<and>
     (\<exists>eid now. wd_next_attempt d = p_stored w now \<and> now \<le> p_clock w \<and>
        wd_payload d = p_payload w \<lparr>oe_id = eid, oe_type = ''order.confirmed'', oe_created = now, oe_data = ord\<rparr>)"

definition outbox_gets :: "create_order_request \<Rightarrow> order \<Rightarrow> pworld \<Rightarrow> pworld \<Rightarrow> bool" where
  "outbox_gets q ord w w' \<longleftrightarrow> later w w' \<and>
     (\<exists>d. outbox w' = outbox w @ [d] \<and> announces w' q ord d \<and> wd_id d \<notin> set (map wd_id (outbox w)))"

lemma later_trans: "later a b \<Longrightarrow> later b c \<Longrightarrow> later a c"
  by (simp add: later_def)

lemma outbox_kept_trans: "outbox_kept a b \<Longrightarrow> outbox_kept b c \<Longrightarrow> outbox_kept a c"
  by (auto simp: outbox_kept_def intro: later_trans)

lemma outbox_kept_refl: "calm w \<Longrightarrow> outbox_kept w w"
  by (simp add: outbox_kept_def later_def)

lemma outbox_kept_calm: "outbox_kept w w' \<Longrightarrow> calm w'"
  by (simp add: outbox_kept_def later_def)

lemma outbox_gets_after: "outbox_kept a b \<Longrightarrow> outbox_gets q ord b c \<Longrightarrow> outbox_gets q ord a c"
  by (auto simp: outbox_kept_def outbox_gets_def intro: later_trans)

lemma announces_later:
  assumes d: "announces b q ord d" and "later b c"
  shows "announces c q ord d"
proof -
  have same: "p_payload c = p_payload b" "p_stored c = p_stored b" "p_clock b \<le> p_clock c"
    using assms(2) by (simp_all add: later_def)
  obtain eid now where "wd_next_attempt d = p_stored b now" "now \<le> p_clock b"
    "wd_payload d = p_payload b \<lparr>oe_id = eid, oe_type = ''order.confirmed'', oe_created = now, oe_data = ord\<rparr>"
    using d by (auto simp: announces_def)
  moreover have "now \<le> p_clock c" using \<open>now \<le> p_clock b\<close> same(3) by simp
  ultimately show ?thesis using d same(1,2) by (auto simp: announces_def)
qed

lemma outbox_gets_before: "outbox_gets q ord a b \<Longrightarrow> outbox_kept b c \<Longrightarrow> outbox_gets q ord a c"
  by (auto simp: outbox_gets_def outbox_kept_def intro: later_trans announces_later)

lemma statement_later:
  assumes "calm w" and "statement held f w = (res, w')"
  shows "later w w'" and "(res, p_db w') = f (w\<lparr>p_clock := p_clock w'\<rparr>) (p_db w)" and "p_redis w' = p_redis w"
  using assms by (auto simp: statement_def external_call_def calm_def alone_def later_def Let_def split: prod.splits)

lemma statement_kept:
  assumes "calm w" and "statement held f w = (res, w')" and "\<And>v. delivery_rows (snd (f v (p_db w))) = outbox w"
  shows "outbox_kept w w'"
  using statement_later [OF assms(1,2)] assms(3) by (metis outbox_kept_def snd_conv)

lemma draw_kept: "calm w \<Longrightarrow> product_id pre w = (x, w') \<Longrightarrow> outbox_kept w w'"
  by (auto simp: product_id_def draw_bytes_def outbox_kept_def later_def calm_def alone_def split: option.splits)

lemma find_kept: "calm w \<Longrightarrow> find_order held t k w = (res, w') \<Longrightarrow> outbox_kept w w'"
  by (auto simp: find_order_def split: prod.splits intro: statement_kept)

lemma resolve_kept: "calm w \<Longrightarrow> resolve_concurrent_create q w = (res, w') \<Longrightarrow> outbox_kept w w' \<and> (\<forall>ord. res \<noteq> Inr (ord, False))"
  by (auto simp: resolve_concurrent_create_def split: prod.splits sum.splits option.splits if_splits intro: find_kept)


definition outbox_after :: "create_order_request \<Rightarrow> product_error + order \<times> bool \<Rightarrow> pworld \<Rightarrow> pworld \<Rightarrow> bool" where
  "outbox_after q res w w' \<longleftrightarrow>
     (case res of Inl e \<Rightarrow> outbox_kept w w' | Inr (ord, b) \<Rightarrow> if b then outbox_kept w w' else outbox_gets q ord w w')"

lemma outbox_after_from: "outbox_kept a b \<Longrightarrow> outbox_after q res b c \<Longrightarrow> outbox_after q res a c"
  by (auto simp: outbox_after_def intro: outbox_kept_trans outbox_gets_after split: sum.splits prod.splits)

lemma outbox_after_calm: "outbox_after q res a b \<Longrightarrow> calm b"
  by (auto simp: outbox_after_def outbox_gets_def outbox_kept_def later_def split: sum.splits prod.splits if_splits)

lemma enqueue_calm:
  assumes "calm w" and "now \<le> p_clock w" and url: "rq_webhook_url q \<noteq> []" and run: "enqueue_delivery q ord now held w = (res, w')"
  shows "outbox_kept w w'" and "res = Inr ds \<Longrightarrow> \<exists>d. ds = [d] \<and> announces w' q ord d \<and> wd_id d \<notin> set (map wd_id (outbox w))"
proof -
  obtain eid w1 where e: "product_id ''evt'' w = (eid, w1)" by fastforce
  obtain did w2 where d: "product_id ''wh'' w1 = (did, w2)" by fastforce
  have k1: "outbox_kept w w1" by (rule draw_kept [OF assms(1) e])
  have k2: "outbox_kept w1 w2" by (rule draw_kept [OF outbox_kept_calm [OF k1] d])
  have k: "outbox_kept w w2" by (rule outbox_kept_trans [OF k1 k2])
  let ?d = "\<lparr>wd_id = did, wd_tenant = tenant_id ord, wd_event_type = ''order.confirmed'',
    wd_payload = p_payload w \<lparr>oe_id = eid, oe_type = ''order.confirmed'', oe_created = now, oe_data = ord\<rparr>,
    wd_target = rq_webhook_url q, wd_status = delivery_pending, wd_attempts = 0, wd_max_attempts = rq_max_attempts q,
    wd_next_attempt = p_stored w now, wd_last_error = [], wd_created = p_stored w now, wd_updated = p_stored w now\<rparr>"
  obtain r where s: "statement held (\<lambda>_. insert_delivery_statement ?d) w2 = (r, w')"
    and res: "res = (case r of Inl e \<Rightarrow> Inl (Wrapped ''enqueue transactional webhook: '' e []) | Inr _ \<Rightarrow> Inr [?d])"
    using run url e d by (auto simp: enqueue_delivery_def outbox_delivery_def split: prod.splits sum.splits)
  have k3: "outbox_kept w2 w'"
    by (rule statement_kept [OF outbox_kept_calm [OF k] s]) (simp add: insert_delivery_statement_def)
  show kept: "outbox_kept w w'" by (rule outbox_kept_trans [OF k k3])
  show "\<exists>d. ds = [d] \<and> announces w' q ord d \<and> wd_id d \<notin> set (map wd_id (outbox w))" if "res = Inr ds"
  proof -
    have ds: "ds = [?d]" and ok: "\<exists>u. r = Inr u" using res that by (auto split: sum.splits)
    have "(r, p_db w') = insert_delivery_statement ?d (p_db w2)" using statement_later(2) [OF outbox_kept_calm [OF k] s] .
    then have "did \<notin> set (map wd_id (outbox w2))"
      using ok by (auto simp: insert_delivery_statement_def list_ex_iff split: if_splits)
    moreover have "announces w' q ord ?d"
      using kept assms(2) by (auto simp: announces_def outbox_kept_def later_def intro!: exI [of _ eid] exI [of _ now])
    ultimately show ?thesis using ds k by (auto simp: outbox_kept_def)
  qed
qed

lemma insert_all_calm:
  assumes "calm w" and url: "rq_webhook_url q \<noteq> []" and run: "insert_all q w = (res, w')"
  shows "outbox_after q res w w'"
proof -
  obtain oid w1 where d: "product_id ''ord'' w = (oid, w1)" by fastforce
  have k1: "outbox_kept w w1" by (rule draw_kept [OF assms(1) d])
  obtain r2 w2 where s2: "statement nothing_pending (\<lambda>_. next_sequence_statement) w1 = (r2, w2)" by fastforce
  have k2: "outbox_kept w w2"
    by (rule outbox_kept_trans [OF k1 statement_kept [OF outbox_kept_calm [OF k1] s2]]) (simp add: next_sequence_statement_def)
  show ?thesis
  proof (cases r2)
    case (Inl e)
    then show ?thesis using run d s2 k2 by (auto simp: insert_all_def outbox_after_def Let_def)
  next
    case (Inr n)
    let ?ord = "new_order q oid (p_clock w) n"
    let ?r = "order_row_of q ?ord (p_stored w2)" and ?eh = "nothing_pending\<lparr>pn_sequences := [n]\<rparr>"
    let ?held = "?eh\<lparr>pn_orders := [?r]\<rparr>"
    obtain r3 w3 where s3: "statement ?eh (\<lambda>_. insert_order_statement ?r) w2 = (r3, w3)" by fastforce
    have k3: "outbox_kept w w3"
      by (rule outbox_kept_trans [OF k2 statement_kept [OF outbox_kept_calm [OF k2] s3]]) (simp add: insert_order_statement_def)
    show ?thesis
    proof (cases r3)
      case (Inl e)
      show ?thesis
      proof (cases "is_unique_violation e")
        case True
        then have "resolve_concurrent_create q w3 = (res, w')" using run d s2 s3 Inr Inl by (simp add: insert_all_def Let_def)
        from resolve_kept [OF outbox_kept_calm [OF k3] this] show ?thesis
          using outbox_kept_trans [OF k3] by (auto simp: outbox_after_def split: sum.splits)
      next
        case False
        then show ?thesis using run d s2 s3 Inr Inl k3 by (auto simp: insert_all_def outbox_after_def Let_def)
      qed
    next
      case (Inr u)
      obtain r4 w4 where s4: "enqueue_delivery q ?ord (p_clock w) ?held w3 = (r4, w4)" by fastforce
      have "p_clock w \<le> p_clock w3" using k3 by (simp add: outbox_kept_def later_def)
      note E = enqueue_calm [OF outbox_kept_calm [OF k3] this url s4]
      have k4: "outbox_kept w w4" by (rule outbox_kept_trans [OF k3 E(1)])
      show ?thesis
      proof (cases r4)
        case (Inl e)
        then show ?thesis using run d s2 s3 s4 \<open>r2 = Inr n\<close> Inr k4 by (auto simp: insert_all_def outbox_after_def Let_def)
      next
        case (Inr ds)
        obtain d where ds: "ds = [d]" "announces w4 q ?ord d" "wd_id d \<notin> set (map wd_id (outbox w))"
          using E(2) [OF Inr] k3 by (auto simp: outbox_kept_def)
        obtain r5 where s5: "statement (?held\<lparr>pn_deliveries := ds\<rparr>)
            (\<lambda>_. commit_statement (event_row_of ?ord n (p_stored w4 (p_clock w))) ?r ds) w4 = (r5, w')"
          and res: "res = (case r5 of Inl e \<Rightarrow> Inl (Wrapped ''commit order transaction: '' e []) | Inr _ \<Rightarrow> Inr (?ord, False))"
          using run d s2 s3 s4 \<open>r2 = Inr n\<close> \<open>r3 = Inr u\<close> Inr by (auto simp: insert_all_def Let_def split: prod.splits sum.splits)
        note L = statement_later [OF outbox_kept_calm [OF k4] s5]
        have "r5 = Inr ()" "outbox w' = outbox w4 @ [d]" using L(2) ds(1) by (auto simp: commit_statement_def)
        moreover have "announces w' q ?ord d"
          by (rule announces_later [OF ds(2) L(1)])
        moreover have "later w w'" using k4 L(1) by (auto simp: outbox_kept_def intro: later_trans)
        ultimately show ?thesis using res ds(3) k4 by (auto simp: outbox_after_def outbox_gets_def outbox_kept_def)
      qed
    qed
  qed
qed


lemma repo_create_calm:
  assumes "calm w" and url: "rq_webhook_url q \<noteq> []" and run: "repo_create_order q w = (res, w')"
  shows "outbox_after q res w w'"
proof -
  obtain r1 w1 where s1: "statement nothing_pending (\<lambda>_ db. (Inr (), db)) w = (r1, w1)" by fastforce
  have k1: "outbox_kept w w1" by (rule statement_kept [OF assms(1) s1]) simp
  obtain r2 w2 where s2: "find_order nothing_pending (rq_tenant q) (rq_key q) w1 = (r2, w2)" by fastforce
  have k2: "outbox_kept w w2" by (rule outbox_kept_trans [OF k1 find_kept [OF outbox_kept_calm [OF k1] s2]])
  show ?thesis
  proof (cases "r1 = Inr () \<and> r2 = Inr None")
    case True
    then have "insert_all q w2 = (res, w')" using run s1 s2 by (simp add: repo_create_order_def)
    from outbox_after_from [OF k2 insert_all_calm [OF outbox_kept_calm [OF k2] url this]] show ?thesis .
  next
    case False
    then show ?thesis using run s1 s2 k1 k2
      by (auto simp: repo_create_order_def outbox_after_def split: sum.splits option.splits if_splits)
  qed
qed

section \<open>Coordination\<close>

lemma redis_kept:
  assumes "calm w" and "redis_call f w = (res, w')"
  shows "outbox_kept w w'" and "p_replayed w' = p_replayed w"
  using assms by (auto simp: redis_call_def external_call_def calm_def alone_def outbox_kept_def later_def Let_def split: prod.splits)

lemma load_kept:
  assumes "calm w" and "load_result K w = (res, w')"
  shows "outbox_kept w w'"
proof -
  obtain r v where c: "redis_call (redis_get K) w = (r, v)" by fastforce
  then have "w' = v" using assms(2) by (auto simp: load_result_def split: sum.splits cached.splits if_splits)
  then show ?thesis using redis_kept(1) [OF assms(1) c] by simp
qed

text \<open>
  What a coordination leaves behind: a new order is announced, unless the closure noted a replay; an unavailable
  coordinator has changed nothing.
\<close>

definition coordinated :: "create_order_request \<Rightarrow> pworld \<Rightarrow> product_error + order \<times> bool \<Rightarrow> pworld \<Rightarrow> bool" where
  "coordinated q w res w' \<longleftrightarrow> calm w' \<and>
     (\<forall>ord. res = Inr (ord, False) \<and> \<not> p_replayed w' \<longrightarrow> outbox_gets q ord w w') \<and>
     (\<forall>e. res = Inl e \<and> product_is e Err_coordination_unavailable \<longrightarrow> outbox_kept w w')"

lemma coordinated_from: "outbox_kept a b \<Longrightarrow> coordinated q b res c \<Longrightarrow> coordinated q a res c"
  by (auto simp: coordinated_def intro: outbox_kept_trans outbox_gets_after)

lemma coordinated_kept: "outbox_kept w w' \<Longrightarrow> \<forall>ord. res \<noteq> Inr (ord, False) \<Longrightarrow> coordinated q w res w'"
  by (auto simp: coordinated_def intro: outbox_kept_calm)

lemma store_calm:
  assumes "calm w" and "store_result co rk fp ord w = (res, w')"
  shows "outbox_kept w w'" and "p_replayed w' = p_replayed w" and "\<forall>x. res = Inr (x, False) \<longrightarrow> x = ord"
    and "\<forall>e. res = Inl e \<longrightarrow> \<not> product_is e Err_coordination_unavailable"
proof -
  let ?c = "\<lparr>co_fingerprint = fp, co_order = ord\<rparr>"
  have "outbox_kept w w' \<and> p_replayed w' = p_replayed w \<and> (\<forall>x. res = Inr (x, False) \<longrightarrow> x = ord) \<and>
    (\<forall>e. res = Inl e \<longrightarrow> \<not> product_is e Err_coordination_unavailable)"
  proof (cases "marshal_result ?c")
    case (Inl e)
    then have "res = Inl e" "w' = w" using assms(2) by (simp_all add: store_result_def)
    moreover have "\<not> product_is e Err_coordination_unavailable" using Inl by (auto simp: marshal_result_def split: if_splits)
    ultimately show ?thesis using outbox_kept_refl [OF assms(1)] by simp
  next
    case (Inr v)
    obtain r u where c: "redis_call (redis_set rk v (rc_result_ttl co)) w = (r, u)" by fastforce
    then have "r = Inr ()" using assms(1)
      by (auto simp: redis_call_def external_call_def redis_set_def calm_def alone_def Let_def)
    then have "res = Inr (ord, False)" "w' = u" using assms(2) Inr c by (simp_all add: store_result_def)
    then show ?thesis using redis_kept [OF assms(1) c] by simp
  qed
  then show "outbox_kept w w'" "p_replayed w' = p_replayed w" "\<forall>x. res = Inr (x, False) \<longrightarrow> x = ord"
    "\<forall>e. res = Inl e \<longrightarrow> \<not> product_is e Err_coordination_unavailable" by blast+
qed

lemma execute_calm:
  assumes "calm w" and url: "rq_webhook_url q \<noteq> []"
    and run: "coordinator_execute co rk lk token fp (create_closure repo_create_order remember_replayed q) w = (res, w')"
  shows "coordinated q w res w'"
proof -
  obtain res0 v where e: "execute_locked co rk fp (create_closure repo_create_order remember_replayed q) w = (res0, v)"
    by fastforce
  have res: "res = res0" and w': "w' = release_lock lk token v" using run e by (simp_all add: coordinator_execute_def)
  have free: "outbox_kept u (release_lock lk token u)" "p_replayed (release_lock lk token u) = p_replayed u" if "calm u" for u
    using redis_kept [OF that, of "release_script lk token"] by (simp_all add: release_lock_def surjective_pairing [symmetric] prod_eq_iff)
  obtain l w1 where load: "load_result rk w = (l, w1)" by fastforce
  have k1: "outbox_kept w w1" by (rule load_kept [OF assms(1) load])
  show ?thesis
  proof (cases "l = Inr None")
    case False
    then have "v = w1" "\<forall>ord. res \<noteq> Inr (ord, False)"
      using e load res by (auto simp: execute_locked_def cached_answer_def split: sum.splits option.splits if_splits)
    then show ?thesis unfolding w'
      using outbox_kept_trans [OF k1 free(1) [OF outbox_kept_calm [OF k1]]] by (intro coordinated_kept) simp_all
  next
    case True
    obtain r w2 where c: "repo_create_order q w1 = (r, w2)" by fastforce
    note A = repo_create_calm [OF outbox_kept_calm [OF k1] url c]
    show ?thesis
    proof (cases r)
      case (Inl x)
      then have v: "v = remember_replayed False w2" "res = Inl x" using e load True c res
        by (simp_all add: execute_locked_def create_closure_def)
      have "outbox_kept w1 v" using A Inl v by (simp add: outbox_after_def outbox_kept_def later_def remember_replayed_def calm_def alone_def)
      then have "outbox_kept w w'" unfolding w' using k1 free(1) by (blast intro: outbox_kept_trans outbox_kept_calm)
      then show ?thesis using v(2) by (intro coordinated_kept) simp_all
    next
      case (Inr x)
      obtain ord b where x: "x = (ord, b)" by fastforce
      let ?u = "remember_replayed b w2"
      have s: "store_result co rk fp ord ?u = (res, v)" using e load True c res Inr x
        by (simp add: execute_locked_def create_closure_def)
      have later: "outbox_kept w2 ?u"
        using outbox_after_calm [OF A] by (simp add: outbox_kept_def later_def remember_replayed_def calm_def alone_def)
      note S = store_calm [OF outbox_kept_calm [OF later] s]
      have "outbox_kept w2 w'" unfolding w' using later S(1) free(1) by (blast intro: outbox_kept_trans outbox_kept_calm)
      moreover have "p_replayed w' = b" unfolding w' using S(1,2) free(2) outbox_kept_calm by (simp add: remember_replayed_def)
      moreover have "outbox_after q (Inr (ord, b)) w w2" using outbox_after_from [OF k1 A] Inr x by simp
      ultimately show ?thesis using S(3,4)
        by (auto simp: coordinated_def outbox_after_def intro: outbox_kept_calm outbox_gets_before)
    qed
  qed
qed


lemma poll_kept: "calm w \<Longrightarrow> poll_wait co c w = (e, w') \<Longrightarrow> outbox_kept w w'"
  using select_timer_time(1) [of "p_clock w" "p_ties w (p_selects w)" c "rc_poll co"]
  by (auto simp: poll_wait_def outbox_kept_def later_def calm_def alone_def split: prod.splits)

lemma loop_calm:
  assumes url: "rq_webhook_url q \<noteq> []"
  shows "calm w \<Longrightarrow> coordination_loop n co c rk lk token fp (create_closure repo_create_order remember_replayed q) w = Some (res, w') \<Longrightarrow>
    coordinated q w res w'"
proof (induction n arbitrary: w)
  case 0
  then show ?case by simp
next
  case (Suc n)
  let ?fn = "create_closure repo_create_order remember_replayed q"
  obtain l w1 where load: "load_result rk w = (l, w1)" by fastforce
  have k1: "outbox_kept w w1" by (rule load_kept [OF Suc.prems(1) load])
  show ?case
  proof (cases "l = Inr None")
    case False
    then have "w' = w1" "\<forall>ord. res \<noteq> Inr (ord, False)"
      using Suc.prems(2) load by (auto simp: cached_answer_def split: sum.splits option.splits if_splits)
    then show ?thesis using k1 by (intro coordinated_kept) simp_all
  next
    case True
    obtain r w2 where lock: "redis_call (redis_setnx lk (Token token) (rc_lock_ttl co)) w1 = (r, w2)" by fastforce
    have k2: "outbox_kept w w2" by (rule outbox_kept_trans [OF k1 redis_kept(1) [OF outbox_kept_calm [OF k1] lock]])
    show ?thesis
    proof (cases r)
      case (Inl e)
      then have "w' = w2" "\<forall>ord. res \<noteq> Inr (ord, False)" using Suc.prems(2) load True lock by auto
      then show ?thesis using k2 by (intro coordinated_kept) simp_all
    next
      case (Inr won)
      show ?thesis
      proof (cases won)
        case True
        then have "coordinator_execute co rk lk token fp ?fn w2 = (res, w')"
          using Suc.prems(2) load \<open>l = Inr None\<close> lock Inr by simp
        from coordinated_from [OF k2 execute_calm [OF outbox_kept_calm [OF k2] url this]] show ?thesis .
      next
        case False
        obtain e w3 where wait: "poll_wait co c w2 = (e, w3)" by fastforce
        have k3: "outbox_kept w w3" by (rule outbox_kept_trans [OF k2 poll_kept [OF outbox_kept_calm [OF k2] wait]])
        show ?thesis
        proof (cases e)
          case None
          then have "coordination_loop n co c rk lk token fp ?fn w3 = Some (res, w')"
            using Suc.prems(2) load \<open>l = Inr None\<close> lock Inr False wait by simp
          from coordinated_from [OF k3 Suc.IH [OF outbox_kept_calm [OF k3] this]] show ?thesis .
        next
          case (Some x)
          then have "w' = w3" "\<forall>ord. res \<noteq> Inr (ord, False)"
            using Suc.prems(2) load \<open>l = Inr None\<close> lock Inr False wait by auto
          then show ?thesis using k3 by (intro coordinated_kept) simp_all
        qed
      qed
    qed
  qed
qed

section \<open>The service and the server\<close>

lemma kept_flag: "calm w \<Longrightarrow> outbox_kept w (remember_replayed b w)" "calm w \<Longrightarrow> outbox_kept w (record_fallback m w)"
    "calm w \<Longrightarrow> outbox_kept w (record_order s result source w)"
  by (simp_all add: outbox_kept_def later_def remember_replayed_def record_fallback_def record_order_def calm_def alone_def Let_def)

lemma service_calm:
  assumes "calm w" and url: "ps_webhook_url s \<noteq> []"
    and run: "product_create_order fuel s c t k source external inp w = Some (Inr out, w')" and new: "\<not> or_replayed out"
  obtains q where "outbox_gets q (or_order out) w w'" "rq_webhook_url q = ps_webhook_url s" "rq_max_attempts q = ps_max_attempts s"
proof -
  define q where "q = service_request s t k (if source = [] then ''api'' else source)
    (if external = [] then in_event_id inp else external) inp"
  have q: "rq_webhook_url q = ps_webhook_url s" "rq_max_attempts q = ps_max_attempts s" by (simp_all add: q_def service_request_def)
  have qurl: "rq_webhook_url q \<noteq> []" using url q by simp
  let ?co = "coordinate_request fuel (ps_sha s) (ps_coordinator s) c"
  obtain res v where cc: "coordinated_create ?co repo_create_order remember_replayed (record_fallback (ps_metrics s)) q w = Some (res, v)"
    and outcome: "service_outcome s (if source = [] then ''api'' else source) res v = (Inr out, w')"
    using run by (auto simp: product_create_order_def Let_def q_def split: if_splits)
  obtain ord where res: "res = Inr (ord, False)" and flag: "\<not> p_replayed v" and out: "or_order out = ord"
    and w': "w' = record_order s ''created'' (if source = [] then ''api'' else source) v"
    using outcome new by (auto simp: service_outcome_def Let_def split: sum.splits prod.splits)
  let ?w0 = "remember_replayed False w"
  have k0: "outbox_kept w ?w0" by (rule kept_flag(1) [OF assms(1)])
  obtain r w1 where co: "?co q (create_closure repo_create_order remember_replayed q) ?w0 = Some (r, w1)"
    using cc by (auto simp: coordinated_create_def split: option.splits)
  obtain token u where tok: "random_token ?w0 = (token, u)" by fastforce
  have ku: "outbox_kept ?w0 u" using tok outbox_kept_calm [OF k0]
    by (auto simp: random_token_def draw_bytes_def outbox_kept_def later_def calm_def alone_def split: option.splits)
  have kept_u: "outbox_kept w u" by (rule outbox_kept_trans [OF k0 ku])
  have "coordinated q u r w1"
    using co tok by (intro loop_calm [OF qurl outbox_kept_calm [OF ku]]) (auto simp: coordinate_request_def coordinator_do_def Let_def)
  then have C: "coordinated q w r w1" by (rule coordinated_from [OF kept_u])
  have gets: "outbox_gets q ord w v"
  proof (cases "\<exists>e. r = Inl e \<and> product_is e Err_coordination_unavailable")
    case True
    let ?f = "record_fallback (ps_metrics s) w1"
    have kf: "outbox_kept w ?f" using C True kept_flag(2) by (auto simp: coordinated_def intro: outbox_kept_trans)
    obtain r2 w2 where c2: "repo_create_order q ?f = (r2, w2)" by fastforce
    obtain b where r2: "r2 = Inr (ord, b)" "v = remember_replayed b w2"
      using cc co True c2 res by (auto simp: coordinated_create_def split: sum.splits)
    then have "\<not> b" using flag by (simp add: remember_replayed_def)
    have A: "outbox_after q r2 w w2" by (rule outbox_after_from [OF kf repo_create_calm [OF outbox_kept_calm [OF kf] qurl c2]])
    then show ?thesis using r2 \<open>\<not> b\<close> outbox_gets_before [OF _ kept_flag(1) [OF outbox_after_calm [OF A]]] by (simp add: outbox_after_def)
  next
    case False
    then have "r = res" "v = w1" using cc co by (auto simp: coordinated_create_def split: sum.splits if_splits)
    then show ?thesis using C res flag by (simp add: coordinated_def)
  qed
  have "calm v" using gets by (simp add: outbox_gets_def later_def)
  then have "outbox_gets q ord w w'" unfolding w' by (rule outbox_gets_before [OF gets kept_flag(3)])
  then show thesis using that q out by blast
qed

lemma server_calm:
  assumes "calm w" and "ps_webhook_url (ph_service h) \<noteq> []" and "pr_endpoint rq = Pe_create"
    and "product_dispatch fuel h rq w = Some (resp, w')" and "ps_status resp = 201"
  obtains out q where "ps_body resp = Pb_result out" "outbox_gets q (or_order out) w w'"
    "rq_webhook_url q = ps_webhook_url (ph_service h)" "rq_max_attempts q = ps_max_attempts (ph_service h)"
proof -
  obtain t where t: "ph_keys h (pr_header rq ''X-API-Key'') = Some t"
    and hd: "product_create_handler fuel h (rq\<lparr>pr_tenant := t\<rparr>) w = Some (resp, w')"
    using assms(3-5) by (auto simp: product_dispatch_def authenticate_def product_write_error_def product_write_json_def split: option.splits)
  let ?r = "rq\<lparr>pr_tenant := t\<rparr>"
  obtain inp where inp: "read_json (ph_reader h) ?r = Inr inp"
    using hd assms(5) by (auto simp: product_create_handler_def product_write_error_def product_write_json_def split: sum.splits)
  obtain res u where run0: "product_create_order fuel (ph_service h) (pr_ctx ?r) (tenant_from ?r) (pr_header ?r ''Idempotency-Key'')
      ''api'' [] inp w = Some (res, u)"
    using hd by (auto simp: product_create_handler_def inp)
  have resp: "resp = (case res of Inl e \<Rightarrow> write_service_error e
      | Inr out \<Rightarrow> product_write_json (if or_replayed out then 200 else 201) (Pb_result out))" and "u = w'"
    using hd unfolding product_create_handler_def inp sum.case run0 by (cases res; simp)+
  then have run: "product_create_order fuel (ph_service h) (pr_ctx ?r) (tenant_from ?r) (pr_header ?r ''Idempotency-Key'')
      ''api'' [] inp w = Some (res, w')" using run0 by simp
  have "ps_status (write_service_error e) \<noteq> 201" for e
    by (simp add: write_service_error_def product_write_error_def product_write_json_def)
  then obtain out where out: "res = Inr out" "\<not> or_replayed out" "ps_body resp = Pb_result out"
    using resp assms(5) by (auto simp: product_write_json_def split: sum.splits if_splits)
  obtain q where "outbox_gets q (or_order out) w w'" "rq_webhook_url q = ps_webhook_url (ph_service h)"
    "rq_max_attempts q = ps_max_attempts (ph_service h)"
    by (rule service_calm [OF assms(1,2) run [unfolded out(1)] out(2)])
  then show thesis using that out(3) by blast
qed

section \<open>From the request to the receiver\<close>

text \<open>
  C2. An accepted order reaches the receiver, exactly once. A product that \<open>main\<close> has started with a webhook
  address answers an order request with 201 while its outbox holds settled deliveries only, none with a next attempt more
  than a minute ahead. Then its worker, running against the
  receiver of the demo, which shares the worker's secret, has kept nothing yet and refuses the first requests on
  purpose, fewer than the product's attempts, brings it one webhook for this order, never another and never twice,
  however the goroutines of each round interleave and however long the worker waits between rounds (the shipped poll
  interval is 250 milliseconds): once the clock has passed the deadline (a minute and a round, and a minute
  and two rounds for each refusal, where \<open>G\<close> bounds a round with its wait when each call takes at most \<open>T\<close>) the receiver has got it, until then it has got it or
  nothing. Nobody else uses the database, no call to it or to Redis fails, payloads are at most 1 MiB, the database stores no
  time stamp later than it is, requests travel at most four minutes, and times are between 1970 and the year 10000.
\<close>

theorem order_arrives:
  assumes started: "product_start host w0 = (Inr p, w1)"
    and demo: "dm_worker dm = pp_worker p" "dm_secret dm = ww_secret (pp_worker p)" "int (dm_travel dm) \<le> 4 * minute"
      "dm_url dm = ps_webhook_url (ph_service (pp_http p))" "dm_url dm \<noteq> []"
    and world: "calm w" "distinct (map wd_id (outbox w))" "62135596801 * second \<le> p_clock w" "\<forall>t. p_stored w t \<le> t"
      "\<forall>x \<in> set (outbox w). wd_status x \<in> {delivery_delivered, delivery_dead_letter} \<and> wd_next_attempt x \<le> p_clock w + minute"
    and request: "product_dispatch fuel (pp_http p) rq w = Some (resp, v)" "pr_endpoint rq = Pe_create" "ps_status resp = 201"
      "\<forall>x \<in> set (outbox v). length (wd_payload x) \<le> max_sink_body"
    and sink: "0 \<le> sk_remaining s" "sk_remaining s < ps_max_attempts (ph_service (pp_http p))" "sk_deliveries s = []"
    and rounds: "\<forall>r \<in> set rounds. fair_round r \<and> round_time T r \<le> G"
    and time: "brisk T dm v" "p_clock v + int (demo_time T rounds) < 315537897600 * second"
  shows "\<exists>out w' s' id eid now. ps_body resp = Pb_result out \<and> demo_run dm rounds (v, s) = Some (w', s') \<and>
    p_clock v + int (time_waited rounds) \<le> p_clock w' \<and>
    map note_received (sk_deliveries s') \<in> {[], [(id, ''order.confirmed'',
      p_payload w \<lparr>oe_id = eid, oe_type = ''order.confirmed'', oe_created = now, oe_data = or_order out\<rparr>)]} \<and>
    (p_clock v + delivery_deadline G (sk_remaining s) < p_clock w' \<longrightarrow> sk_deliveries s' \<noteq> [])"
proof -
  obtain c where c: "load_config (ho_parse_url host) (ho_env host) = Inr c" "p = wire_product host c"
    by (rule product_startD [OF started])
  have "valid_config (ho_parse_url host) c" by (rule config_sound [OF c(1)])
  moreover have parts: "ps_max_attempts (ph_service (pp_http p)) = pc_max_attempts c" "pp_worker p =
      new_webhook_worker (ho_mac host) (ww_secret (pp_worker p)) (pc_lease c) (pc_poll c) True"
    by (simp_all add: c(2) wire_product_def new_product_service_def new_webhook_worker_def Let_def)
  ultimately have fits: "in_int64 (sk_remaining s)" using sink(1,2) by (simp add: valid_config_def in_int64_def int64_min_def)
  have worker: "dm_worker dm = new_webhook_worker (ho_mac host) (dm_secret dm) (pc_lease c) (pc_poll c) True"
    using demo(1,2) parts(2) by simp
  obtain out q where out: "ps_body resp = Pb_result out" "outbox_gets q (or_order out) w v"
    "rq_webhook_url q = dm_url dm" "rq_max_attempts q = ps_max_attempts (ph_service (pp_http p))"
    using server_calm [OF world(1) _ request(2,1,3)] demo(4,5) by metis
  obtain d where later: "later w v" and d: "outbox v = outbox w @ [d]" "announces v q (or_order out) d" "wd_id d \<notin> set (map wd_id (outbox w))"
    using out(2) by (auto simp: outbox_gets_def)
  have same: "calm v" "p_payload v = p_payload w" "p_stored v = p_stored w" "p_clock w \<le> p_clock v" using later by (simp_all add: later_def)
  obtain eid now where new: "wd_next_attempt d = p_stored w now" "now \<le> p_clock v"
    "wd_payload d = p_payload w \<lparr>oe_id = eid, oe_type = ''order.confirmed'', oe_created = now, oe_data = or_order out\<rparr>"
    using d(2) same(2,3) by (auto simp: announces_def)
  have wait: "waiting d" "wd_target d = dm_url dm" "wd_attempts d = 0" "wd_max_attempts d = ps_max_attempts (ph_service (pp_http p))"
    "wd_event_type d = ''order.confirmed''"
    using d(2) out(3,4) by (simp_all add: announces_def)
  have old: "\<not> waiting x \<and> resting x \<and> wd_next_attempt x \<le> p_clock v + minute" if "x \<in> set (outbox w)" for x
    using bspec [OF world(5) that] same(4) by (auto simp: resting_def)
  have "wd_next_attempt d \<le> p_clock v" using new(1,2) world(4) by (metis order_trans)
  then have due: "wd_next_attempt d \<le> p_clock v + minute" by (simp add: minute_def second_def)
  have only: "filter waiting (outbox v) = [d]" using old wait(1) by (auto simp: d(1) filter_empty_conv)
  have "resting x \<and> wd_next_attempt x \<le> p_clock v + minute \<and>
      (waiting x \<longrightarrow> deliverable dm x \<and> wd_attempts x + sk_remaining s < wd_max_attempts x)" if "x \<in> set (outbox v)" for x
  proof (cases "x = d")
    case True
    then show ?thesis using due wait sink(2) request(4) that by (simp add: resting_def deliverable_def)
  next
    case False
    then show ?thesis using old [of x] that by (simp add: d(1))
  qed
  then have rows: "\<forall>x \<in> set (outbox v). resting x \<and> wd_next_attempt x \<le> p_clock v + minute \<and>
      (waiting x \<longrightarrow> deliverable dm x \<and> wd_attempts x + sk_remaining s < wd_max_attempts x)" by blast
  have ids: "distinct (map wd_id (outbox v))" using world(2) d(3) by (simp add: d(1))
  have early: "62135596801 * second \<le> p_clock v" using world(3) same(4) by simp
  have few: "still_waiting v \<le> 10" "length (sk_deliveries s) + still_waiting v \<le> 50" by (simp_all add: only sink(3))
  obtain w' s' where run: "demo_run dm rounds (v, s) = Some (w', s')" "p_clock v + int (time_waited rounds) \<le> p_clock w'"
    and kept: "mset (map note_received (sk_deliveries s')) + mset (map note_of (filter waiting (outbox w'))) = {#note_of d#}"
    and told: "p_clock v + delivery_deadline G (sk_remaining s) < p_clock w' \<longrightarrow> mset (map note_received (sk_deliveries s')) = {#note_of d#}"
    using demo_delivers [OF worker demo(3) same(1) ids early rows few sink(1) fits rounds time] by (auto simp: only sink(3))
  have "sk_deliveries s' \<noteq> []" if "p_clock v + delivery_deadline G (sk_remaining s) < p_clock w'" using told that by auto
  moreover have "map note_received (sk_deliveries s') \<in> {[], [note_of d]}"
  proof -
    have "mset (map note_received (sk_deliveries s')) = {#} \<or> mset (map note_received (sk_deliveries s')) = {#note_of d#}"
      using kept [symmetric] unfolding single_is_union by auto
    then show ?thesis by (simp only: insert_iff empty_iff mset_zero_iff mset_single_iff simp_thms)
  qed
  ultimately show ?thesis using run out(1) new(3) wait(5) unfolding note_of_def by metis
qed

text \<open>A product with a receiver, and one request to it.\<close>

definition wired_env :: environment where
  "wired_env = sample_env(''OUTBOUND_WEBHOOK_URL'' := ''http://sink'', ''OUTBOUND_WEBHOOK_SECRET'' := ''secret'')"

definition wired_host :: "string list product_host" where
  "wired_host = sample_host\<lparr>ho_env := wired_env, ho_parse_url := (\<lambda>_. Some (''http'', ''sink''))\<rparr>"

lemma wired_config: "\<exists>c. load_config (\<lambda>_. Some (''http'', ''sink'')) wired_env = Inr c \<and> pc_webhook_url c = ''http://sink'' \<and>
    pc_webhook_secret c = ''secret'' \<and> pc_max_attempts c = 5 \<and> pc_api_keys c = [''k'' \<mapsto> ''t'']"
proof -
  have lease: "parse_duration (show_nat 20 @ ''s'') = Some (20 * second)" using parse_duration_units(2) [of 20] by simp
  have ne: "show_nat 20 @ ''s'' \<noteq> []" by simp
  show ?thesis
    by (simp add: load_config_def env_int_def env_duration_def wired_env_def sample_env_def sample_keys lease ne del: show_nat.simps)
      (simp add: config_problem_def assemble_config_def env_or_default_def go_duration_defs)
qed

definition busy_world :: pworld where
  "busy_world = quiet_world\<lparr>p_clock := 62135600000 * second\<rparr>"

definition wired_service :: product_service where
  "wired_service = new_product_service (\<lambda>_. []) (new_redis_coordinator ''northstar:product'') True ''http://sink'' 5"

lemmas creation_steps = product_create_order_def coordinated_create_def coordinate_request_def coordinator_do_def
  new_product_service_def new_redis_coordinator_def service_request_def invalid_create_def service_outcome_def record_order_def
  random_token_def draw_bytes_def remember_replayed_def create_closure_def coordination_key_def json_pair_def
  load_result_def redis_call_def external_call_def redis_get_def live_value_def redis_setnx_def redis_set_def
  coordinator_execute_def execute_locked_def store_result_def marshal_result_def release_lock_def release_script_def json_time_ok_def
  repo_create_order_def insert_all_def statement_def find_order_def find_row_def wrap_error_def product_id_def next_sequence_statement_def
  insert_order_statement_def order_row_of_def new_order_def enqueue_delivery_def outbox_delivery_def insert_delivery_statement_def
  commit_statement_def Let_def

lemma wired_created: "\<exists>ord w'. product_create_order 1 wired_service background ''t'' ''k'' ''api'' [] sample_order_input busy_world =
   Some (Inr \<lparr>or_order = ord, or_replayed = False\<rparr>, w') \<and> p_clock w' = p_clock busy_world \<and> p_delays w' = (\<lambda>_. 0) \<and>
   (\<forall>d \<in> set (delivery_rows (p_db w')). length (wd_payload d) = 6)"
  by (simp add: creation_steps busy_world_def quiet_world_def wired_service_def sample_order_input_def empty_database_def second_def)

definition wired_post :: product_request where
  "wired_post = sample_post\<lparr>pr_header := (\<lambda>_. ''k'')\<rparr>"

definition wired_demo :: "product_process \<Rightarrow> demo" where
  "wired_demo p = \<lparr>dm_worker = pp_worker p, dm_url = ''http://sink'', dm_secret = ''secret'', dm_travel = 5, dm_took = (\<lambda>_. 9)\<rparr>"

lemma wired_answer:
  assumes "pp_http p = h" and "ph_service h = wired_service" and "ph_keys h = [''k'' \<mapsto> ''t'']" and "ph_reader h = ph_reader sample_http"
  shows "\<exists>resp v. product_dispatch 1 h wired_post busy_world = Some (resp, v) \<and> ps_status resp = 201 \<and>
    p_clock v = p_clock busy_world \<and> p_delays v = (\<lambda>_. 0) \<and> (\<forall>d \<in> set (outbox v). length (wd_payload d) = 6)"
proof -
  obtain ord v where run: "product_create_order 1 wired_service background ''t'' ''k'' ''api'' [] sample_order_input busy_world =
      Some (Inr \<lparr>or_order = ord, or_replayed = False\<rparr>, v)"
    and v: "p_clock v = p_clock busy_world" "p_delays v = (\<lambda>_. 0)" "\<forall>d \<in> set (outbox v). length (wd_payload d) = 6"
    using wired_created by blast
  have "read_body (wired_post\<lparr>pr_tenant := ''t''\<rparr>) = read_body sample_post" by (simp add: read_body_def wired_post_def sample_post_def)
  then have "read_json (ph_reader h) (wired_post\<lparr>pr_tenant := ''t''\<rparr>) = Inr sample_order_input"
    using sample_read unfolding read_json_def assms(4) by (simp only:)
  then have "product_dispatch 1 h wired_post busy_world = Some (product_write_json 201 (Pb_result \<lparr>or_order = ord, or_replayed = False\<rparr>), v)"
    using run by (simp add: product_dispatch_def authenticate_def product_create_handler_def wired_post_def sample_post_def tenant_from_def assms(2,3))
  then show ?thesis using v by (simp add: product_write_json_def)
qed

theorem order_arrives_witness:
  "\<exists>p w1 resp v w' s' id payload. product_start wired_host quiet_world = (Inr p, w1) \<and>
     product_dispatch 1 (pp_http p) wired_post busy_world = Some (resp, v) \<and> ps_status resp = 201 \<and>
     demo_run (wired_demo p) sample_rounds (v, \<lparr>sk_remaining = 2, sk_deliveries = []\<rparr>) = Some (w', s') \<and>
     map note_received (sk_deliveries s') = [(id, ''order.confirmed'', payload)]"
proof -
  let ?s = "\<lparr>sk_remaining = 2, sk_deliveries = []\<rparr>"
  obtain c where c: "load_config (\<lambda>_. Some (''http'', ''sink'')) wired_env = Inr c" "pc_webhook_url c = ''http://sink''"
    "pc_webhook_secret c = ''secret''" "pc_max_attempts c = 5" "pc_api_keys c = [''k'' \<mapsto> ''t'']"
    using wired_config by blast
  let ?p = "wire_product wired_host c"
  obtain w0 where ping: "open_postgres None quiet_world = (None, w0)" using sample_ping by blast
  have "\<exists>w1. product_start wired_host quiet_world = (Inr ?p, w1)"
    by (simp add: product_start_def wired_host_def sample_host_def c(1) ping migrate_def new_product_metrics_def)
  then obtain w1 where start: "product_start wired_host quiet_world = (Inr ?p, w1)" ..
  have http: "ph_service (pp_http ?p) = wired_service" "ph_keys (pp_http ?p) = [''k'' \<mapsto> ''t'']" "ph_reader (pp_http ?p) = ph_reader sample_http"
    and worker: "ww_secret (pp_worker ?p) = ''secret''"
    by (simp_all add: wire_product_def wired_host_def sample_host_def wired_service_def new_webhook_worker_def c Let_def)
  obtain resp v where ans: "product_dispatch 1 (pp_http ?p) wired_post busy_world = Some (resp, v)" "ps_status resp = 201"
    "p_clock v = p_clock busy_world" "p_delays v = (\<lambda>_. 0)" "\<forall>d \<in> set (outbox v). length (wd_payload d) = 6"
    using wired_answer [OF refl http] by blast
  have service: "ps_webhook_url wired_service = ''http://sink''" "ps_max_attempts wired_service = 5"
    by (simp_all add: wired_service_def new_product_service_def)
  have demo: "dm_worker (wired_demo ?p) = pp_worker ?p" "dm_secret (wired_demo ?p) = ww_secret (pp_worker ?p)"
    "int (dm_travel (wired_demo ?p)) \<le> 4 * minute" "dm_url (wired_demo ?p) = ps_webhook_url (ph_service (pp_http ?p))"
    "dm_url (wired_demo ?p) \<noteq> []"
    by (simp_all add: wired_demo_def worker http service minute_def second_def)
  have world: "calm busy_world" "distinct (map wd_id (outbox busy_world))" "62135596801 * second \<le> p_clock busy_world"
    "\<forall>t. p_stored busy_world t \<le> t"
    "\<forall>x \<in> set (outbox busy_world). wd_status x \<in> {delivery_delivered, delivery_dead_letter} \<and> wd_next_attempt x \<le> p_clock busy_world + minute"
    by (simp_all add: calm_def alone_def busy_world_def quiet_world_def empty_database_def second_def)
  have rest: "pr_endpoint wired_post = Pe_create" "\<forall>x \<in> set (outbox v). length (wd_payload x) \<le> max_sink_body"
    "0 \<le> sk_remaining ?s" "sk_remaining ?s < ps_max_attempts (ph_service (pp_http ?p))" "sk_deliveries ?s = []"
    using ans(5) by (simp_all add: wired_post_def sample_post_def max_sink_body_def http service)
  have time: "brisk 9 (wired_demo ?p) v" by (simp add: brisk_def ans(4) wired_demo_def)
  have soon: "p_clock v + int (demo_time 9 sample_rounds) < 315537897600 * second"
    unfolding sample_time ans(3) by (simp add: busy_world_def quiet_world_def second_def)
  obtain w' s' id payload where run: "demo_run (wired_demo ?p) sample_rounds (v, ?s) = Some (w', s')"
    and clock: "p_clock v + int (time_waited sample_rounds) \<le> p_clock w'"
    and got: "map note_received (sk_deliveries s') \<in> {[], [(id, ''order.confirmed'', payload)]}"
      "p_clock v + delivery_deadline 250000189 (sk_remaining ?s) < p_clock w' \<longrightarrow> sk_deliveries s' \<noteq> []"
    using order_arrives [OF start demo world ans(1) rest(1) ans(2) rest(2-5) sample_fair time soon] by (elim exE conjE)
  have "p_clock v + delivery_deadline 250000189 2 < p_clock w'" using clock unfolding sample_time by simp
  then have "sk_deliveries s' \<noteq> []" using got(2) by simp
  then have sent: "map note_received (sk_deliveries s') = [(id, ''order.confirmed'', payload)]" using got(1) by auto
  show ?thesis by (intro exI conjI) (rule start ans(1,2) run sent)+
qed

end
