(* ===== verification/Replay.thy ===== *)
theory Replay
  imports App_Service Go_Json
begin

text \<open>
  The acceptance tool \<open>cmd/replay/main.go\<close>, which drives a running lab server through three scenarios
  and reports whether it behaved. Everything outside the tool is a \<open>web\<close>, operations on a state \<open>'w\<close>: the
  HTTP client and the server behind it, the WebSocket package, clock, sleep and file system. The
  twelve goroutines of the first scenario take their steps in the order of a schedule. A map of
  evidence is a constructor with its values; the report is printed as the code prints it.
\<close>

section \<open>The surroundings\<close>

record http_call =
  hc_method :: string
  hc_url :: string
  hc_headers :: "(string \<times> string) list"
  hc_body :: "json option"

record http_reply =
  hr_status :: int
  hr_body :: json_stream

text \<open>
  \<open>web_do\<close> is \<open>http.NewRequestWithContext\<close> with \<open>Client.Do\<close>: an error text, or the reply. A dialled connection is
  a number; a read gives an error or the message. The time next to a dial or a read is the deadline
  of its context.
\<close>

record 'w web =
  web_do :: "http_call \<Rightarrow> 'w \<Rightarrow> (string + http_reply) \<times> 'w"
  web_dial :: "string \<Rightarrow> (string \<times> string) list \<Rightarrow> gotime \<Rightarrow> 'w \<Rightarrow> (string + nat) \<times> 'w"
  web_read :: "nat \<Rightarrow> gotime \<Rightarrow> 'w \<Rightarrow> (string + json_stream) \<times> 'w"
  web_close :: "nat \<Rightarrow> 'w \<Rightarrow> 'w"
  web_now :: "'w \<Rightarrow> gotime"
  web_sleep :: "duration \<Rightarrow> 'w \<Rightarrow> 'w"
  web_write_file :: "string \<Rightarrow> string \<Rightarrow> 'w \<Rightarrow> string option \<times> 'w"
  web_decode_error :: "json_stream \<Rightarrow> string"

section \<open>Requests\<close>

definition order_fields :: "(string \<times> order json_decoder) list" where
  "order_fields =
     [(''id'', dec_field order_id (\<lambda>x r. r\<lparr>order_id := x\<rparr>) dec_string),
      (''tenant_id'', dec_field tenant_id (\<lambda>x r. r\<lparr>tenant_id := x\<rparr>) dec_string),
      (''event_id'', dec_field event_id (\<lambda>x r. r\<lparr>event_id := x\<rparr>) dec_string),
      (''quantity'', dec_field quantity (\<lambda>x r. r\<lparr>quantity := x\<rparr>) dec_int),
      (''status'', dec_field order_status (\<lambda>x r. r\<lparr>order_status := x\<rparr>) dec_string),
      (''created_at'', dec_field created_at (\<lambda>x r. r\<lparr>created_at := x\<rparr>) dec_time),
      (''updated_at'', dec_field updated_at (\<lambda>x r. r\<lparr>updated_at := x\<rparr>) dec_time),
      (''sequence'', dec_field sequence (\<lambda>x r. r\<lparr>sequence := x\<rparr>) dec_uint64)]"

definition result_decoder :: "create_result json_decoder" where
  "result_decoder = dec_struct False
     [(''order'', dec_field cr_order (\<lambda>x r. r\<lparr>cr_order := x\<rparr>) (dec_struct False order_fields)),
      (''replayed'', dec_field cr_replayed (\<lambda>x r. r\<lparr>cr_replayed := x\<rparr>) dec_bool)]"

definition event_decoder :: "event json_decoder" where
  "event_decoder = dec_struct False
     [(''sequence'', dec_field ev_sequence (\<lambda>x r. r\<lparr>ev_sequence := x\<rparr>) dec_uint64),
      (''type'', dec_field ev_type (\<lambda>x r. r\<lparr>ev_type := x\<rparr>) dec_string),
      (''order_id'', dec_field ev_order_id (\<lambda>x r. r\<lparr>ev_order_id := x\<rparr>) dec_string),
      (''tenant_id'', dec_field ev_tenant (\<lambda>x r. r\<lparr>ev_tenant := x\<rparr>) dec_string),
      (''status'', dec_field ev_status (\<lambda>x r. r\<lparr>ev_status := x\<rparr>) dec_string),
      (''at'', dec_field ev_at (\<lambda>x r. r\<lparr>ev_at := x\<rparr>) dec_time)]"

definition snapshot_decoder :: "string json_decoder" where
  "snapshot_decoder = dec_struct False [(''dependency'', dec_struct False [(''circuit_state'', dec_string)])]"

definition zero_result :: create_result where
  "zero_result = \<lparr>cr_order = zero_order, cr_replayed = False\<rparr>"

definition zero_event :: event where
  "zero_event = \<lparr>ev_sequence = 0, ev_type = [], ev_order_id = [], ev_tenant = [], ev_status = [], ev_at = 0\<rparr>"

text \<open>One \<open>Decode\<close> from a body: what it leaves in the output and whether there was no error.\<close>

definition decode_into :: "'a json_decoder \<Rightarrow> 'a \<Rightarrow> json_stream \<Rightarrow> 'a \<times> bool" where
  "decode_into dec old js = (case js_values js of [] \<Rightarrow> (old, False) | j # _ \<Rightarrow> dec j old)"

text \<open>The status, the error and the output; without an output the body is discarded.\<close>

definition request_json ::
  "'w web \<Rightarrow> string \<Rightarrow> string \<Rightarrow> string \<Rightarrow> json option \<Rightarrow> (string \<times> string) list \<Rightarrow> 'a json_decoder option \<Rightarrow> 'a \<Rightarrow>
   'w \<Rightarrow> (int \<times> string option \<times> 'a) \<times> 'w" where
  "request_json web base mth path body headers output old w =
     (case web_do web \<lparr>hc_method = mth, hc_url = base @ path,
          hc_headers = (''Content-Type'', ''application/json'') # headers, hc_body = body\<rparr> w of
        (Inl e, w') \<Rightarrow> ((0, Some e, old), w')
      | (Inr r, w') \<Rightarrow>
          (case output of
             Some dec \<Rightarrow>
               if 200 \<le> hr_status r \<and> hr_status r < 300
               then (case decode_into dec old (hr_body r) of
                       (v, ok) \<Rightarrow> ((hr_status r, if ok then None else Some (web_decode_error web (hr_body r)), v), w'))
               else ((hr_status r, None, old), w')
           | None \<Rightarrow> ((hr_status r, None, old), w')))"

definition checked_json ::
  "'w web \<Rightarrow> string \<Rightarrow> string \<Rightarrow> string \<Rightarrow> json option \<Rightarrow> 'a json_decoder option \<Rightarrow> 'a \<Rightarrow> 'w \<Rightarrow> (string option \<times> 'a) \<times> 'w" where
  "checked_json web base mth path body output old w =
     (case request_json web base mth path body [] output old w of
        ((status, err, v), w') \<Rightarrow>
          ((if err \<noteq> None then err
            else if status < 200 \<or> 300 \<le> status then Some (mth @ '' '' @ path @ '' returned HTTP '' @ show_int status)
            else None, v), w'))"

definition get_json :: "'w web \<Rightarrow> string \<Rightarrow> string \<Rightarrow> 'a json_decoder option \<Rightarrow> 'a \<Rightarrow> 'w \<Rightarrow> (string option \<times> 'a) \<times> 'w" where
  "get_json web base path = checked_json web base ''GET'' path None"

definition post_json ::
  "'w web \<Rightarrow> string \<Rightarrow> string \<Rightarrow> json option \<Rightarrow> 'a json_decoder option \<Rightarrow> 'a \<Rightarrow> 'w \<Rightarrow> (string option \<times> 'a) \<times> 'w" where
  "post_json web base path = checked_json web base ''POST'' path"

definition switch_mode :: "'w web \<Rightarrow> string \<Rightarrow> string \<Rightarrow> 'w \<Rightarrow> string option \<times> 'w" where
  "switch_mode web base mode w =
     (case post_json web base ''/v1/demo/fault'' (Some (JObject [(''mode'', JString mode)])) None () w of
        ((err, _), w') \<Rightarrow> (err, w'))"

definition replay_order :: json where
  "replay_order = JObject [(''event_id'', JString ''event-replay-suite''), (''quantity'', JNumber ''2'')]"

definition replay_create :: "'w web \<Rightarrow> string \<Rightarrow> string \<Rightarrow> 'w \<Rightarrow> (create_result \<times> int \<times> string option) \<times> 'w" where
  "replay_create web base key w =
     (case request_json web base ''POST'' ''/v1/orders'' (Some replay_order)
          [(''X-API-Key'', ''tenant-alpha-key''), (''Idempotency-Key'', key)] (Some result_decoder) zero_result w of
        ((status, err, result), w') \<Rightarrow>
          ((result, status,
            if err \<noteq> None then err
            else if status \<noteq> 200 \<and> status \<noteq> 201 then Some (''create order returned HTTP '' @ show_int status)
            else None), w'))"

section \<open>Concurrent duplicates\<close>

datatype evidence =
    Idempotency_evidence int nat nat
  | Recovery_evidence string "int list" int
  | Websocket_evidence u64 u64 string u64

type_synonym verdict = "evidence option \<times> string option"

definition unix_nano_text :: "gotime \<Rightarrow> string" where
  "unix_nano_text t = show_int (unix_nano t)"

text \<open>The keys of the tool: \<open>replay-\<close>, what they are for, and the time in nanoseconds.\<close>

definition replay_key :: "string \<Rightarrow> gotime \<Rightarrow> string" where
  "replay_key purpose t = ''replay-'' @ purpose @ ''-'' @ unix_nano_text t"

definition request_count :: nat where
  "request_count = 12"

text \<open>
  A goroutine: its request, then the send of the result, then the send of the error. The channels
  have room for everything, so no send blocks.
\<close>

datatype caller = Calling | Answered create_result "string option" | Reporting "string option" | Returned

record callers =
  cs_tasks :: "caller list"
  cs_results :: "create_result list"
  cs_errs :: "string option list"

definition new_callers :: "nat \<Rightarrow> callers" where
  "new_callers n = \<lparr>cs_tasks = replicate n Calling, cs_results = [], cs_errs = []\<rparr>"

definition caller_step :: "'w web \<Rightarrow> string \<Rightarrow> string \<Rightarrow> nat \<Rightarrow> callers \<times> 'w \<Rightarrow> callers \<times> 'w" where
  "caller_step web base key i cw =
     (case cw of (cs, w) \<Rightarrow>
        if length (cs_tasks cs) \<le> i then cw
        else case cs_tasks cs ! i of
               Calling \<Rightarrow>
                 (case replay_create web base key w of
                    ((result, status, err), w') \<Rightarrow> (cs\<lparr>cs_tasks := (cs_tasks cs)[i := Answered result err]\<rparr>, w'))
             | Answered result err \<Rightarrow>
                 (cs\<lparr>cs_tasks := (cs_tasks cs)[i := Reporting err], cs_results := cs_results cs @ [result]\<rparr>, w)
             | Reporting err \<Rightarrow> (cs\<lparr>cs_tasks := (cs_tasks cs)[i := Returned], cs_errs := cs_errs cs @ [err]\<rparr>, w)
             | Returned \<Rightarrow> cw)"

definition run_callers :: "'w web \<Rightarrow> string \<Rightarrow> string \<Rightarrow> nat list \<Rightarrow> callers \<times> 'w \<Rightarrow> callers \<times> 'w" where
  "run_callers web base key = fold (caller_step web base key)"

definition judge_results :: "create_result list \<Rightarrow> verdict" where
  "judge_results results =
     (let ids = card (set (map (order_id \<circ> cr_order) results)); dups = length (filter cr_replayed results);
          evidence = Idempotency_evidence (int request_count) ids dups
      in (Some evidence,
          if ids \<noteq> 1 \<or> dups \<noteq> request_count - 1
          then Some ''duplicate requests did not converge on one order'' else None))"

text \<open>\<open>None\<close>: the scenario still waits for its goroutines when the schedule ends.\<close>

definition idempotency_scenario :: "nat list \<Rightarrow> 'w web \<Rightarrow> string \<Rightarrow> 'w \<Rightarrow> (verdict \<times> 'w) option" where
  "idempotency_scenario sched web base w =
     (case switch_mode web base ''healthy'' w of
        (Some e, w1) \<Rightarrow> Some ((None, Some e), w1)
      | (None, w1) \<Rightarrow>
          (let key = replay_key ''idempotency'' (web_now web w1)
           in case run_callers web base key sched (new_callers request_count, w1) of
                (cs, w2) \<Rightarrow>
                  if \<exists>t \<in> set (cs_tasks cs). t \<noteq> Returned then None
                  else case find (\<lambda>e. e \<noteq> None) (cs_errs cs) of
                         Some err \<Rightarrow> Some ((None, err), w2)
                       | None \<Rightarrow> Some (judge_results (cs_results cs), w2)))"

section \<open>Recovery of the dependency\<close>

fun outage_statuses :: "'w web \<Rightarrow> string \<Rightarrow> nat list \<Rightarrow> 'w \<Rightarrow> int list \<times> 'w" where
  "outage_statuses web base [] w = ([], w)"
| "outage_statuses web base (i # is) w =
     (case replay_create web base (replay_key ''outage'' (web_now web w) @ ''-'' @ show_nat i) w of
        ((_, status, _), w') \<Rightarrow>
          (case outage_statuses web base is w' of (statuses, w'') \<Rightarrow> (status # statuses, w'')))"

text \<open>\<open>fmt.Errorf\<close> prints the missing error of its \<open>%w\<close> as \<open>%!w(<nil>)\<close>.\<close>

definition wrapped_error :: "string option \<Rightarrow> string" where
  "wrapped_error err = (case err of Some e \<Rightarrow> e | None \<Rightarrow> ''%!w(<nil>)'')"

definition recovery_scenario :: "'w web \<Rightarrow> string \<Rightarrow> 'w \<Rightarrow> verdict \<times> 'w" where
  "recovery_scenario web base w =
     (case switch_mode web base ''unavailable'' w of
        (Some e, w1) \<Rightarrow> ((None, Some e), w1)
      | (None, w1) \<Rightarrow>
          (case outage_statuses web base [0, 1, 2, 3] w1 of (statuses, w2) \<Rightarrow>
          (case get_json web base ''/v1/demo/snapshot'' (Some snapshot_decoder) [] w2 of
             ((Some e, _), w3) \<Rightarrow> ((None, Some e), w3)
           | ((None, before), w3) \<Rightarrow>
               (case switch_mode web base ''healthy'' w3 of
                  (Some e, w4) \<Rightarrow> ((None, Some e), w4)
                | (None, w4) \<Rightarrow>
                    (let w5 = web_sleep web (4200 * millisecond) w4
                     in case replay_create web base (replay_key ''recovery'' (web_now web w5)) w5 of
                          ((_, status, err), w6) \<Rightarrow>
                            ((Some (Recovery_evidence before statuses status),
                              if err \<noteq> None \<or> before \<noteq> ''open'' \<or> (status \<noteq> 201 \<and> status \<noteq> 200)
                              then Some (''recovery invariant failed: '' @ wrapped_error err) else None), w6))))))"

section \<open>Replay of missed events\<close>

definition stream_url :: "string \<Rightarrow> u64 \<Rightarrow> string" where
  "stream_url base n =
     ''ws'' @ (if prefix ''http'' base then drop 4 base else base) @ ''/v1/stream?since='' @ show_nat (unat n)"

text \<open>\<open>wsjson.Read\<close> wants exactly one value in the message; what it decoded before an error is not used.\<close>

definition read_event :: "'w web \<Rightarrow> nat \<Rightarrow> gotime \<Rightarrow> 'w \<Rightarrow> (string + event) \<times> 'w" where
  "read_event web conn deadline w =
     (case web_read web conn deadline w of
        (Inl e, w') \<Rightarrow> (Inl e, w')
      | (Inr js, w') \<Rightarrow>
          (case decode_first event_decoder zero_event js of
             Some ev \<Rightarrow> (if at_end js then Inr ev else Inl (web_decode_error web js), w')
           | None \<Rightarrow> (Inl (web_decode_error web js), w')))"

definition websocket_scenario :: "'w web \<Rightarrow> string \<Rightarrow> 'w \<Rightarrow> verdict \<times> 'w" where
  "websocket_scenario web base w =
     (case replay_create web base (replay_key ''ws-first'' (web_now web w)) w of
        ((_, _, Some e), w1) \<Rightarrow> ((None, Some e), w1)
      | ((first, _, None), w1) \<Rightarrow>
          (case replay_create web base (replay_key ''ws-second'' (web_now web w1)) w1 of
             ((_, _, Some e), w2) \<Rightarrow> ((None, Some e), w2)
           | ((snd_result, _, None), w2) \<Rightarrow>
               (let deadline = time_add (web_now web w2) (3 * second)
                in case web_dial web (stream_url base (sequence (cr_order first)))
                       [(''X-API-Key'', ''tenant-alpha-key'')] deadline w2 of
                     (Inl e, w3) \<Rightarrow> ((None, Some e), w3)
                   | (Inr conn, w3) \<Rightarrow>
                       (case read_event web conn deadline w3 of
                          (Inl e, w4) \<Rightarrow> ((None, Some e), web_close web conn w4)
                        | (Inr ev, w4) \<Rightarrow>
                            ((Some (Websocket_evidence (sequence (cr_order first)) (sequence (cr_order snd_result))
                               (ev_order_id ev) (ev_sequence ev)),
                              if ev_sequence ev \<noteq> sequence (cr_order snd_result) \<or> ev_order_id ev \<noteq> order_id (cr_order snd_result)
                              then Some ''WebSocket replay returned an unexpected event'' else None), web_close web conn w4)))))"

section \<open>The report\<close>

record scenario_result =
  sr_name :: string
  sr_passed :: bool
  sr_duration_ms :: int
  sr_evidence :: "evidence option"
  sr_error :: string

record report =
  rp_generated_at :: gotime
  rp_target :: string
  rp_passed :: bool
  rp_scenarios :: "scenario_result list"

definition run_scenario ::
  "'w web \<Rightarrow> string \<Rightarrow> ('w \<Rightarrow> (verdict \<times> 'w) option) \<Rightarrow> report \<times> string \<times> 'w \<Rightarrow> (report \<times> string \<times> 'w) option" where
  "run_scenario web name run rw =
     (case rw of (r, out, w) \<Rightarrow>
        let started = web_now web w
        in case run w of
             None \<Rightarrow> None
           | Some ((ev, err), w') \<Rightarrow>
               (let result = \<lparr>sr_name = name, sr_passed = (err = None),
                      sr_duration_ms = time_sub (web_now web w') started sdiv millisecond, sr_evidence = ev,
                      sr_error = (case err of None \<Rightarrow> [] | Some e \<Rightarrow> e)\<rparr>;
                    line = name @ replicate (28 - length name) (CHR '' '') @ '' '' @ (if err = None then ''PASS'' else ''FAIL'') @
                      '' ('' @ show_int (sr_duration_ms result) @ '' ms)'' @ [CHR 0x0A]
                in Some (r\<lparr>rp_passed := rp_passed r \<and> err = None, rp_scenarios := rp_scenarios r @ [result]\<rparr>, out @ line, w')))"

definition evidence_json :: "evidence \<Rightarrow> json" where
  "evidence_json ev =
     (case ev of
        Idempotency_evidence n ids dups \<Rightarrow>
          JObject [(''replayed_responses'', JNumber (show_nat dups)), (''requests'', JNumber (show_int n)),
            (''unique_order_ids'', JNumber (show_nat ids))]
      | Recovery_evidence before statuses status \<Rightarrow>
          JObject [(''circuit_before_recovery'', JString before),
            (''outage_statuses'', JArray (map (JNumber \<circ> show_int) statuses)), (''recovery_status'', JNumber (show_int status))]
      | Websocket_evidence since expected oid n \<Rightarrow>
          JObject [(''disconnected_after_sequence'', JNumber (show_nat (unat since))),
            (''expected_sequence'', JNumber (show_nat (unat expected))), (''replayed_order_id'', JString oid),
            (''replayed_sequence'', JNumber (show_nat (unat n)))])"

definition scenario_json :: "scenario_result \<Rightarrow> json" where
  "scenario_json s = JObject
     ([(''name'', JString (sr_name s)), (''passed'', JBool (sr_passed s)), (''duration_ms'', JNumber (show_int (sr_duration_ms s))),
       (''evidence'', case sr_evidence s of None \<Rightarrow> JNull | Some ev \<Rightarrow> evidence_json ev)] @
      (if sr_error s = [] then [] else [(''error'', JString (sr_error s))]))"

definition report_json :: "report \<Rightarrow> json" where
  "report_json r = JObject
     [(''generated_at'', JString (format_rfc3339 (rp_generated_at r))), (''target'', JString (rp_target r)),
      (''passed'', JBool (rp_passed r)), (''scenarios'', JArray (map scenario_json (rp_scenarios r)))]"

text \<open>\<open>MarshalIndent\<close> with two spaces per level.\<close>

definition new_line :: "nat \<Rightarrow> string" where
  "new_line d = CHR 0x0A # replicate (2 * d) (CHR '' '')"

fun separated :: "string \<Rightarrow> string list \<Rightarrow> string" where
  "separated sep [] = []"
| "separated sep [x] = x"
| "separated sep (x # y # ys) = x @ sep @ separated sep (y # ys)"

fun print_indented :: "nat \<Rightarrow> json \<Rightarrow> string" where
  "print_indented d JNull = ''null''"
| "print_indented d (JBool b) = (if b then ''true'' else ''false'')"
| "print_indented d (JNumber s) = s"
| "print_indented d (JString s) = json_quote s"
| "print_indented d (JArray js) =
     (if js = [] then ''[]''
      else ''['' @ new_line (Suc d) @ separated (CHR '','' # new_line (Suc d)) (map (print_indented (Suc d)) js) @ new_line d @ '']'')"
| "print_indented d (JObject ms) =
     (if ms = [] then ''{}''
      else ''{'' @ new_line (Suc d) @ separated (CHR '','' # new_line (Suc d))
             (map (\<lambda>m. json_quote (fst m) @ '': '' @ print_indented (Suc d) (snd m)) ms) @ new_line d @ ''}'')"

section \<open>The program\<close>

datatype ending = Exit int | Panic string

record outcome =
  oc_ending :: ending
  oc_stdout :: string
  oc_stderr :: string
  oc_report :: "report option"

definition trim_right_slashes :: "string \<Rightarrow> string" where
  "trim_right_slashes s = rev (dropWhile (\<lambda>c. c = CHR ''/'') (rev s))"

definition failed_early :: "string \<Rightarrow> outcome" where
  "failed_early msg = \<lparr>oc_ending = Exit 1, oc_stdout = [], oc_stderr = msg @ [CHR 0x0A], oc_report = None\<rparr>"

definition run_scenarios :: "nat list \<Rightarrow> 'w web \<Rightarrow> string \<Rightarrow> 'w \<Rightarrow> (report \<times> string \<times> 'w) option" where
  "run_scenarios sched web base w =
     (let r = \<lparr>rp_generated_at = web_now web w, rp_target = base, rp_passed = True, rp_scenarios = []\<rparr>
      in case run_scenario web ''concurrent-idempotency'' (idempotency_scenario sched web base) (r, [], w) of
           None \<Rightarrow> None
         | Some rw1 \<Rightarrow>
             (case run_scenario web ''dependency-recovery'' (Some \<circ> recovery_scenario web base) rw1 of
                None \<Rightarrow> None
              | Some rw2 \<Rightarrow> run_scenario web ''websocket-gap-replay'' (Some \<circ> websocket_scenario web base) rw2))"

definition finish_report :: "'w web \<Rightarrow> string \<Rightarrow> report \<times> string \<times> 'w \<Rightarrow> outcome \<times> 'w" where
  "finish_report web output rw =
     (case rw of (r, out, w) \<Rightarrow>
        let code = Exit (if rp_passed r then 0 else 1); payload = print_indented 0 (report_json r)
        in if \<not> json_time_ok (rp_generated_at r)
           then (\<lparr>oc_ending = Panic ''year outside of range [0,9999]'', oc_stdout = out, oc_stderr = [], oc_report = Some r\<rparr>, w)
           else if output \<noteq> []
           then (case web_write_file web output (payload @ [CHR 0x0A]) w of
                   (Some e, w') \<Rightarrow> (\<lparr>oc_ending = Exit 1, oc_stdout = out, oc_stderr = ''write report: '' @ e @ [CHR 0x0A],
                     oc_report = Some r\<rparr>, w')
                 | (None, w') \<Rightarrow> (\<lparr>oc_ending = code, oc_stdout = out @ ''report: '' @ output @ [CHR 0x0A], oc_stderr = [],
                     oc_report = Some r\<rparr>, w'))
           else (\<lparr>oc_ending = code, oc_stdout = out @ payload @ [CHR 0x0A], oc_stderr = [], oc_report = Some r\<rparr>, w))"

text \<open>\<open>main\<close>, given its two flags.\<close>

definition replay_main :: "nat list \<Rightarrow> 'w web \<Rightarrow> string \<Rightarrow> string \<Rightarrow> 'w \<Rightarrow> (outcome \<times> 'w) option" where
  "replay_main sched web base_url output w =
     (let base = trim_right_slashes base_url
      in case post_json web base ''/v1/demo/reset'' None None () w of
           ((Some e, _), w1) \<Rightarrow> Some (failed_early (''reset demo: '' @ e), w1)
         | ((None, _), w1) \<Rightarrow> map_option (finish_report web output) (run_scenarios sched web base w1))"

end
