(* ===== verification/Replay_Properties.thy ===== *)
theory Replay_Properties
  imports Replay Signatures "HOL-Library.Multiset"
begin

text \<open>
  What the acceptance tool's report means. The verdict on the concurrent duplicates does not depend on
  how the goroutines run. \<open>order_site\<close> is what the tool expects of a server, as laws on the calls it makes;
  against every server that keeps them the tool passes, with exactly known evidence.
\<close>

section \<open>Goroutines\<close>

text \<open>The requests one after the other: their results and errors, and the state after them.\<close>

primrec answers :: "'w web \<Rightarrow> string \<Rightarrow> string \<Rightarrow> nat \<Rightarrow> 'w \<Rightarrow> (create_result \<times> string option) list \<times> 'w" where
  "answers web base key 0 w = ([], w)"
| "answers web base key (Suc n) w =
     (case answers web base key n w of (as, w1) \<Rightarrow>
        (case replay_create web base key w1 of ((r, _, e), w2) \<Rightarrow> (as @ [(r, e)], w2)))"

text \<open>What a goroutine still has to send, and how far it is.\<close>

fun unsent_results :: "caller \<Rightarrow> create_result multiset" where
  "unsent_results (Answered r e) = {#r#}"
| "unsent_results _ = {#}"

fun unsent_errs :: "caller \<Rightarrow> string option multiset" where
  "unsent_errs (Answered r e) = {#e#}"
| "unsent_errs (Reporting e) = {#e#}"
| "unsent_errs _ = {#}"

fun progress :: "caller \<Rightarrow> nat" where
  "progress Calling = 0"
| "progress (Answered r e) = 1"
| "progress (Reporting e) = 2"
| "progress Returned = 3"

definition started :: "caller \<Rightarrow> nat" where
  "started t = (if t = Calling then 0 else 1)"

text \<open>Between any two steps: everything that was answered is either sent or still to be sent.\<close>

definition callers_ok :: "'w web \<Rightarrow> string \<Rightarrow> string \<Rightarrow> nat \<Rightarrow> 'w \<Rightarrow> callers \<times> 'w \<Rightarrow> bool" where
  "callers_ok web base key n w0 cw \<longleftrightarrow>
     (case cw of (cs, w) \<Rightarrow> length (cs_tasks cs) = n \<and>
       (\<exists>as. answers web base key (sum_list (map started (cs_tasks cs))) w0 = (as, w) \<and>
          mset (cs_results cs) + sum_list (map unsent_results (cs_tasks cs)) = mset (map fst as) \<and>
          mset (cs_errs cs) + sum_list (map unsent_errs (cs_tasks cs)) = mset (map snd as)))"

lemma sum_list_empty [simp]: "sum_list (replicate n {#}) = {#}"
  by (induction n) simp_all

lemma callers_ok_new: "callers_ok web base key n w (new_callers n, w)"
  by (simp add: callers_ok_def new_callers_def started_def sum_list_replicate map_replicate_const)

lemma callers_ok_step:
  assumes "callers_ok web base key n w0 cw"
  shows "callers_ok web base key n w0 (caller_step web base key i cw)"
proof -
  obtain cs w where cw: "cw = (cs, w)" by fastforce
  obtain as where len: "length (cs_tasks cs) = n"
    and as: "answers web base key (sum_list (map started (cs_tasks cs))) w0 = (as, w)"
    and rs: "mset (cs_results cs) + sum_list (map unsent_results (cs_tasks cs)) = mset (map fst as)"
    and es: "mset (cs_errs cs) + sum_list (map unsent_errs (cs_tasks cs)) = mset (map snd as)"
    using assms by (auto simp: callers_ok_def cw)
  show ?thesis
  proof (cases "i < n")
    case False
    then show ?thesis using assms len by (simp add: caller_step_def cw)
  next
    case True
    define us vs where "us = take i (cs_tasks cs)" and "vs = drop (Suc i) (cs_tasks cs)"
    define t where "t = cs_tasks cs ! i"
    have ts: "cs_tasks cs = us @ t # vs" using True len by (simp add: us_def vs_def t_def id_take_nth_drop)
    have up: "(cs_tasks cs)[i := x] = us @ x # vs" for x
      using True len by (simp add: us_def vs_def upd_conv_take_nth_drop)
    obtain r st e w1 where call: "replay_create web base key w = ((r, st, e), w1)" by (metis prod.exhaust)
    show ?thesis
      using as rs es len True call
      by (cases t; simp add: callers_ok_def caller_step_def cw t_def [symmetric] up) (simp_all add: ts started_def)
  qed
qed

lemma callers_ok_run:
  "callers_ok web base key n w0 cw \<Longrightarrow> callers_ok web base key n w0 (run_callers web base key sched cw)"
  by (induction sched arbitrary: cw) (simp_all add: run_callers_def callers_ok_step)

lemma progress_step:
  assumes "i < length (cs_tasks (fst cw))"
  shows "length (cs_tasks (fst (caller_step web base key j cw))) = length (cs_tasks (fst cw))"
    and "progress (cs_tasks (fst (caller_step web base key j cw)) ! i) =
      (if i = j then min 3 (Suc (progress (cs_tasks (fst cw) ! i))) else progress (cs_tasks (fst cw) ! i))"
  using assms
  by (cases cw; cases "cs_tasks (fst cw) ! j"; auto simp: caller_step_def nth_list_update split: prod.splits)+

lemma progress_run:
  assumes "i < length (cs_tasks (fst cw))"
  shows "progress (cs_tasks (fst (run_callers web base key sched cw)) ! i) =
    min 3 (progress (cs_tasks (fst cw) ! i) + count_list sched i)"
  using assms
proof (induction sched arbitrary: cw)
  case Nil
  have "progress t \<le> 3" for t by (cases t) simp_all
  then show ?case by (simp add: run_callers_def min_absorb2)
next
  case (Cons j sched)
  note P = progress_step [OF Cons.prems, of web base key j]
  have "progress (cs_tasks (fst (run_callers web base key sched (caller_step web base key j cw))) ! i) =
      min 3 (progress (cs_tasks (fst (caller_step web base key j cw)) ! i) + count_list sched i)"
    using Cons.IH P(1) Cons.prems by simp
  then show ?case by (auto simp: run_callers_def P(2))
qed

text \<open>A schedule that gives every goroutine its three steps brings all of them to their end.\<close>

lemma callers_return:
  assumes "\<forall>i < n. 3 \<le> count_list sched i" and "run_callers web base key sched (new_callers n, w) = (cs, w')"
  obtains as where "answers web base key n w = (as, w')" "\<forall>t \<in> set (cs_tasks cs). t = Returned"
    "mset (cs_results cs) = mset (map fst as)" "mset (cs_errs cs) = mset (map snd as)"
proof -
  have ok: "callers_ok web base key n w (cs, w')"
    using callers_ok_run [OF callers_ok_new, of web base key n w sched] assms(2) by simp
  then have len: "length (cs_tasks cs) = n" by (simp add: callers_ok_def)
  have "cs_tasks cs ! i = Returned" if "i < n" for i
  proof -
    have "progress (cs_tasks cs ! i) = 3"
      using progress_run [of i "(new_callers n, w)" web base key sched] assms that by (simp add: new_callers_def min_def)
    then show ?thesis by (cases "cs_tasks cs ! i") simp_all
  qed
  then have all: "cs_tasks cs = replicate n Returned" using len by (intro nth_equalityI) simp_all
  with ok obtain as where "answers web base key n w = (as, w')"
    "mset (cs_results cs) = mset (map fst as)" "mset (cs_errs cs) = mset (map snd as)"
    by (auto simp: callers_ok_def started_def sum_list_replicate map_replicate_const)
  then show thesis using that all by simp
qed

text \<open>The judgement, on the answers as they came.\<close>

definition converged :: "(create_result \<times> string option) list \<Rightarrow> bool" where
  "converged as \<longleftrightarrow> (\<forall>(r, e) \<in> set as. e = None) \<and> (\<exists>oid. \<forall>(r, e) \<in> set as. order_id (cr_order r) = oid) \<and>
     length (filter (\<lambda>(r, e). \<not> cr_replayed r) as) = 1"

lemma one_value_card: "xs \<noteq> [] \<Longrightarrow> card (f ` set xs) = 1 \<longleftrightarrow> (\<exists>y. \<forall>x \<in> set xs. f x = y)"
proof
  assume "card (f ` set xs) = 1"
  then obtain y where "f ` set xs = {y}" by (auto simp: card_1_singleton_iff)
  then show "\<exists>y. \<forall>x \<in> set xs. f x = y" by (intro exI [of _ y]) auto
next
  assume "xs \<noteq> []" and "\<exists>y. \<forall>x \<in> set xs. f x = y"
  then obtain y where "f ` set xs = {y}" by (cases xs) auto
  then show "card (f ` set xs) = 1" by simp
qed

lemma judged:
  assumes "mset rs = mset (map fst as)" and "length as = request_count" and "\<forall>(r, e) \<in> set as. e = None"
  shows "snd (judge_results rs) = None \<longleftrightarrow> converged as"
    and "converged as \<Longrightarrow> judge_results rs = (Some (Idempotency_evidence 12 1 11), None)"
proof -
  have set: "set rs = fst ` set as" using mset_eq_setD [OF assms(1)] by simp
  have len: "length rs = 12" using mset_eq_length [OF assms(1)] assms(2) by (simp add: request_count_def)
  have "size (filter_mset cr_replayed (mset rs)) = size (filter_mset cr_replayed (mset (map fst as)))" by (simp only: assms(1))
  then have dups: "length (filter cr_replayed rs) = length (filter (cr_replayed \<circ> fst) as)"
    by (simp only: mset_filter [symmetric] size_mset filter_map length_map)
  have split: "length (filter (cr_replayed \<circ> fst) as) + length (filter (\<lambda>(r, e). \<not> cr_replayed r) as) = 12"
    using sum_length_filter_compl [of "cr_replayed \<circ> fst" as] assms(2) by (simp add: case_prod_beta' request_count_def comp_def)
  have "rs \<noteq> []" using len by auto
  from one_value_card [OF this, of "order_id \<circ> cr_order"]
  have ids: "card (set (map (order_id \<circ> cr_order) rs)) = 1 \<longleftrightarrow> (\<exists>oid. \<forall>(r, e) \<in> set as. order_id (cr_order r) = oid)"
    by (simp add: set case_prod_beta image_image)
  have conv: "converged as \<longleftrightarrow> card (set (map (order_id \<circ> cr_order) rs)) = 1 \<and> length (filter cr_replayed rs) = 11"
    using ids dups split assms(3) by (auto simp: converged_def)
  then show "snd (judge_results rs) = None \<longleftrightarrow> converged as"
    by (simp add: judge_results_def Let_def request_count_def del: set_map)
  show "judge_results rs = (Some (Idempotency_evidence 12 1 11), None)" if "converged as"
    using that conv by (simp add: judge_results_def Let_def request_count_def del: set_map)
qed

lemma answers_length: "answers web base key n w = (as, w') \<Longrightarrow> length as = n"
  by (induction n arbitrary: as w') (auto split: prod.splits)

lemma schedule_free:
  assumes "\<forall>i < request_count. 3 \<le> count_list sched i" and "switch_mode web base ''healthy'' w = (None, w1)"
    and "answers web base (replay_key ''idempotency'' (web_now web w1)) request_count w1 = (as, w2)"
  shows "\<exists>ev err. idempotency_scenario sched web base w = Some ((ev, err), w2) \<and> (err = None \<longleftrightarrow> converged as) \<and>
    (err = None \<longrightarrow> ev = Some (Idempotency_evidence 12 1 11))"
proof -
  let ?key = "replay_key ''idempotency'' (web_now web w1)"
  obtain cs w' where run: "run_callers web base ?key sched (new_callers request_count, w1) = (cs, w')" by fastforce
  obtain as' where "answers web base ?key request_count w1 = (as', w')" and fin: "\<forall>t \<in> set (cs_tasks cs). t = Returned"
    and ms: "mset (cs_results cs) = mset (map fst as')" "mset (cs_errs cs) = mset (map snd as')"
    by (rule callers_return [OF assms(1) run])
  then have as: "as' = as" "w' = w2" using assms(3) by simp_all
  have errs: "set (cs_errs cs) = snd ` set as" using mset_eq_setD [OF ms(2)] as by simp
  show ?thesis
  proof (cases "\<forall>(r, e) \<in> set as. e = None")
    case True
    then have "find (\<lambda>e. e \<noteq> None) (cs_errs cs) = None" using errs by (auto simp: find_None_iff)
    then show ?thesis
      using judged [OF ms(1) [unfolded as] answers_length [OF assms(3)] True] fin as
      by (cases "judge_results (cs_results cs)") (auto simp: idempotency_scenario_def Let_def assms(2) run)
  next
    case False
    then obtain e where "find (\<lambda>e. e \<noteq> None) (cs_errs cs) = Some (Some e)"
      using errs by (cases "find (\<lambda>e. e \<noteq> None) (cs_errs cs)") (force simp: find_None_iff find_Some_iff)+
    then show ?thesis using False fin as
      by (auto simp: idempotency_scenario_def Let_def assms(2) run converged_def)
  qed
qed


section \<open>What the tool expects of a server\<close>

definition plain_key :: "string \<Rightarrow> bool" where
  "plain_key key \<longleftrightarrow> key \<noteq> [] \<and> length key \<le> 128 \<and> printing key"

lemma show_nat_length: "n < 10 ^ Suc k \<Longrightarrow> length (show_nat n) \<le> Suc k"
proof (induction k arbitrary: n)
  case 0
  then show ?case by (simp add: show_nat.simps [of n])
next
  case (Suc k)
  have "n div 10 < 10 ^ Suc k" using Suc.prems by (simp add: less_mult_imp_div_less mult.commute)
  then show ?case using Suc.IH [of "n div 10"] by (simp add: show_nat.simps [of n])
qed

lemma unix_nano_text_plain: "printing (unix_nano_text t)" "length (unix_nano_text t) \<le> 20"
proof -
  define z where "z = unix_nano t"
  have "\<bar>z\<bar> \<le> 2 ^ 63" by (simp add: z_def unix_nano_def wrap64_def)
  then have "nat \<bar>z\<bar> < 10 ^ Suc 18" by (simp add: nat_less_iff)
  from show_nat_length [OF this] show "length (unix_nano_text t) \<le> 20"
    by (simp add: unix_nano_text_def show_int_def z_def [symmetric] abs_if split: if_splits)
  show "printing (unix_nano_text t)" by (simp add: unix_nano_text_def)
qed

lemma plain_replay_key: "printing p \<Longrightarrow> length p \<le> 20 \<Longrightarrow> plain_key (replay_key p t)"
  using unix_nano_text_plain [of t] by (simp add: plain_key_def replay_key_def)

lemma plain_outage_key: "i < 10 \<Longrightarrow> plain_key (replay_key ''outage'' t @ ''-'' @ show_nat i)"
  using unix_nano_text_plain [of t] by (auto simp: plain_key_def replay_key_def show_nat.simps [of i] digit_char_def)

text \<open>The circuit as the tool sees it: closed after some failures, open since this moment, or due for a probe.\<close>

datatype site_circuit = Closed_after nat | Open_now | Retry_due

text \<open>
  The tool's view of a server: whether the dependency is healthy, the circuit, how many requests the
  server still admits, and the keys that may be taken; which key still answers with which order; and
  the orders the event log holds after a given one.
\<close>

locale order_site =
  fixes web :: "'w web" and base :: string and up :: "'w \<Rightarrow> bool"
    and site :: "bool \<Rightarrow> site_circuit \<Rightarrow> nat \<Rightarrow> string set \<Rightarrow> 'w \<Rightarrow> bool"
    and kept :: "string \<Rightarrow> order \<Rightarrow> 'w \<Rightarrow> bool" and log_after :: "order \<Rightarrow> order list \<Rightarrow> 'w \<Rightarrow> bool"
  assumes reset: "up s \<Longrightarrow> \<exists>s'. post_json web base ''/v1/demo/reset'' None None () s = ((None, ()), s') \<and>
      site True (Closed_after 0) 25 {} s'"
    and mode: "site h c n K s \<Longrightarrow> c \<noteq> Retry_due \<Longrightarrow> \<exists>s'. switch_mode web base (if g then ''healthy'' else ''unavailable'') s =
      (None, s') \<and> site g c n K s'"
    and placed: "site True c n K s \<Longrightarrow> 0 < n \<Longrightarrow> c \<noteq> Open_now \<Longrightarrow> key \<notin> K \<Longrightarrow> plain_key key \<Longrightarrow>
      \<exists>ord s'. replay_create web base key s = ((\<lparr>cr_order = ord, cr_replayed = False\<rparr>, 201, None), s') \<and>
        site True (Closed_after 0) (n - 1) (insert key K) s' \<and> kept key ord s' \<and> log_after ord [] s' \<and>
        (\<forall>o' os. log_after o' os s \<longrightarrow> log_after o' (os @ [ord]) s')"
    and repeated: "site True c n K s \<Longrightarrow> 0 < n \<Longrightarrow> kept key ord s \<Longrightarrow> plain_key key \<Longrightarrow>
      \<exists>s'. replay_create web base key s = ((\<lparr>cr_order = ord, cr_replayed = True\<rparr>, 200, None), s') \<and>
        site True c (n - 1) K s' \<and> kept key ord s'"
    and failed: "site False (Closed_after f) n K s \<Longrightarrow> 0 < n \<Longrightarrow> key \<notin> K \<Longrightarrow> plain_key key \<Longrightarrow>
      \<exists>r e s'. replay_create web base key s = ((r, 503, e), s') \<and>
        site False (if f < 2 then Closed_after (Suc f) else Open_now) (n - 1) K s'"
    and refused: "site h Open_now n K s \<Longrightarrow> 0 < n \<Longrightarrow> key \<notin> K \<Longrightarrow> plain_key key \<Longrightarrow>
      \<exists>r e s'. replay_create web base key s = ((r, 503, e), s') \<and> site h Open_now (n - 1) K s'"
    and seen: "site h Open_now n K s \<Longrightarrow>
      \<exists>s'. get_json web base ''/v1/demo/snapshot'' (Some snapshot_decoder) [] s = ((None, ''open''), s') \<and> site h Open_now n K s'"
    and slept: "site h Open_now n K s \<Longrightarrow> 3 \<le> n \<Longrightarrow> site h Retry_due (n - 3) K (web_sleep web (4200 * millisecond) s)"
    and missed: "site h c n K s \<Longrightarrow> log_after o' (ord # os) s \<Longrightarrow>
      \<exists>conn s1 ev s2. web_dial web (stream_url base (sequence o')) [(''X-API-Key'', ''tenant-alpha-key'')]
          (time_add (web_now web s) (3 * second)) s = (Inr conn, s1) \<and>
        read_event web conn (time_add (web_now web s) (3 * second)) s1 = (Inr ev, s2) \<and>
        ev_sequence ev = sequence ord \<and> ev_order_id ev = order_id ord"
    and dated: "site h c n K s \<Longrightarrow> json_time_ok (web_now web s)"
begin

lemma repeated_answers:
  assumes "site True c n K s" and "kept key ord s" and "plain_key key" and "m \<le> n"
  shows "\<exists>s'. answers web base key m s = (replicate m (\<lparr>cr_order = ord, cr_replayed = True\<rparr>, None), s') \<and>
    site True c (n - m) K s' \<and> kept key ord s'"
  using assms(4)
proof (induction m)
  case 0
  then show ?case using assms(1,2) by simp
next
  case (Suc m)
  then obtain s1 where s1: "answers web base key m s = (replicate m (\<lparr>cr_order = ord, cr_replayed = True\<rparr>, None), s1)"
    "site True c (n - m) K s1" "kept key ord s1" by auto
  obtain s2 where "replay_create web base key s1 = ((\<lparr>cr_order = ord, cr_replayed = True\<rparr>, 200, None), s2)"
    "site True c (n - m - 1) K s2" "kept key ord s2"
    using repeated [OF s1(2) _ s1(3) assms(3)] Suc.prems by auto
  with s1(1) show ?case by (simp add: replicate_append_same)
qed

text \<open>Twelve requests under one fresh key: the first is placed, the others repeat it.\<close>

lemma answers_first: "answers web base key (Suc m) s =
    (case replay_create web base key s of ((r, _, e), s1) \<Rightarrow>
      (case answers web base key m s1 of (as, s2) \<Rightarrow> ((r, e) # as, s2)))"
  by (induction m) (auto split: prod.splits)

lemma idempotency_passes:
  assumes "site h (Closed_after 0) n {} s" and "12 \<le> n" and "\<forall>i < request_count. 3 \<le> count_list sched i"
  shows "\<exists>K s'. idempotency_scenario sched web base s = Some ((Some (Idempotency_evidence 12 1 11), None), s') \<and>
    site True (Closed_after 0) (n - 12) K s' \<and> K \<subseteq> range (replay_key ''idempotency'')"
proof -
  obtain s1 where s1: "switch_mode web base ''healthy'' s = (None, s1)" "site True (Closed_after 0) n {} s1"
    using mode [OF assms(1) _, of True] by auto
  let ?key = "replay_key ''idempotency'' (web_now web s1)"
  have key: "plain_key ?key" by (rule plain_replay_key) simp_all
  obtain ord s2 where s2: "replay_create web base ?key s1 = ((\<lparr>cr_order = ord, cr_replayed = False\<rparr>, 201, None), s2)"
    "site True (Closed_after 0) (n - 1) {?key} s2" "kept ?key ord s2"
    using placed [OF s1(2) _ _ _ key] assms(2) by auto
  have eleven: "11 \<le> n - 1" using assms(2) by simp
  obtain s3 where s3: "answers web base ?key 11 s2 = (replicate 11 (\<lparr>cr_order = ord, cr_replayed = True\<rparr>, None), s3)"
    "site True (Closed_after 0) (n - 1 - 11) {?key} s3"
    using repeated_answers [OF s2(2,3) key eleven] by blast
  let ?as = "(\<lparr>cr_order = ord, cr_replayed = False\<rparr>, None) # replicate 11 (\<lparr>cr_order = ord, cr_replayed = True\<rparr>, None)"
  have count: "request_count = Suc 11" by (simp add: request_count_def)
  have "answers web base ?key request_count s1 = (?as, s3)"
    unfolding count answers_first by (simp only: s2(1) s3(1) prod.case)
  moreover have "converged ?as" by (simp add: converged_def filter_empty_conv)
  ultimately have "idempotency_scenario sched web base s = Some ((Some (Idempotency_evidence 12 1 11), None), s3)"
    using schedule_free [OF assms(3) s1(1)] by blast
  moreover have "site True (Closed_after 0) (n - 12) {?key} s3" using s3(2) by simp
  ultimately show ?thesis by blast
qed

text \<open>The outage: three failures open the circuit, the fourth request is refused by it.\<close>

lemma outage_passes:
  assumes "site False (Closed_after 0) n K s" and "4 \<le> n" and "\<forall>t i. replay_key ''outage'' t @ ''-'' @ show_nat i \<notin> K"
  shows "\<exists>s'. outage_statuses web base [0, 1, 2, 3] s = ([503, 503, 503, 503], s') \<and> site False Open_now (n - 4) K s'"
proof -
  let ?key = "\<lambda>i v. replay_key ''outage'' (web_now web v) @ ''-'' @ show_nat i"
  have new: "?key i v \<notin> K" for i v using assms(3) by blast
  have key: "plain_key (?key i v)" if "i < 10" for i v using plain_outage_key [OF that] .
  obtain r1 e1 s1 where s1: "replay_create web base (?key 0 s) s = ((r1, 503, e1), s1)" "site False (Closed_after 1) (n - 1) K s1"
    using failed [OF assms(1) _ new [of s 0] key [of 0 s]] assms(2) by auto
  obtain r2 e2 s2 where s2: "replay_create web base (?key 1 s1) s1 = ((r2, 503, e2), s2)" "site False (Closed_after 2) (n - 2) K s2"
    using failed [OF s1(2) _ new [of s1 1] key [of 1 s1]] assms(2) by (auto simp: numeral_2_eq_2)
  obtain r3 e3 s3 where s3: "replay_create web base (?key 2 s2) s2 = ((r3, 503, e3), s3)" "site False Open_now (n - 3) K s3"
    using failed [OF s2(2) _ new [of s2 2] key [of 2 s2]] assms(2) by (auto simp: numeral_3_eq_3 numeral_2_eq_2)
  obtain r4 e4 s4 where s4: "replay_create web base (?key 3 s3) s3 = ((r4, 503, e4), s4)" "site False Open_now (n - 3 - 1) K s4"
    using refused [OF s3(2) _ new [of s3 3] key [of 3 s3]] assms(2) by auto
  have "outage_statuses web base [0, 1, 2, 3] s = ([503, 503, 503, 503], s4)"
    by (simp only: outage_statuses.simps s1(1) s2(1) s3(1) s4(1) prod.case)
  with s4(2) show ?thesis by simp
qed

lemma recovery_passes:
  assumes "site h (Closed_after 0) n K s" and "8 \<le> n" and "K \<subseteq> range (replay_key ''idempotency'')"
  shows "\<exists>s' t. recovery_scenario web base s = ((Some (Recovery_evidence ''open'' [503, 503, 503, 503] 201), None), s') \<and>
    site True (Closed_after 0) (n - 8) (insert (replay_key ''recovery'' t) K) s'"
proof -
  obtain s1 where s1: "switch_mode web base ''unavailable'' s = (None, s1)" "site False (Closed_after 0) n K s1"
    using mode [OF assms(1) _, of False] by auto
  have "\<forall>t i. replay_key ''outage'' t @ ''-'' @ show_nat i \<notin> K" using assms(3) by (auto simp: replay_key_def)
  then obtain s2 where s2: "outage_statuses web base [0, 1, 2, 3] s1 = ([503, 503, 503, 503], s2)" "site False Open_now (n - 4) K s2"
    using outage_passes [OF s1(2)] assms(2) by auto
  obtain s3 where s3: "get_json web base ''/v1/demo/snapshot'' (Some snapshot_decoder) [] s2 = ((None, ''open''), s3)"
    "site False Open_now (n - 4) K s3" using seen [OF s2(2)] by blast
  obtain s4 where s4: "switch_mode web base ''healthy'' s3 = (None, s4)" "site True Open_now (n - 4) K s4"
    using mode [OF s3(2) _, of True] by auto
  let ?s5 = "web_sleep web (4200 * millisecond) s4"
  let ?key = "replay_key ''recovery'' (web_now web ?s5)"
  have s5: "site True Retry_due (n - 4 - 3) K ?s5" using slept [OF s4(2)] assms(2) by simp
  have new: "?key \<notin> K" using assms(3) by (auto simp: replay_key_def)
  have key: "plain_key ?key" by (rule plain_replay_key) simp_all
  obtain ord s6 where s6: "replay_create web base ?key ?s5 = ((\<lparr>cr_order = ord, cr_replayed = False\<rparr>, 201, None), s6)"
    "site True (Closed_after 0) (n - 4 - 3 - 1) (insert ?key K) s6"
    using placed [OF s5 _ _ new key] assms(2) by auto
  have "recovery_scenario web base s = ((Some (Recovery_evidence ''open'' [503, 503, 503, 503] 201), None), s6)"
    by (simp only: recovery_scenario_def s1(1) s2(1) s3(1) s4(1) s6(1) Let_def prod.case option.case) simp
  moreover have "site True (Closed_after 0) (n - 8) (insert ?key K) s6" using s6(2) by simp
  ultimately show ?thesis by blast
qed

lemma websocket_passes:
  assumes "site True (Closed_after 0) n K s" and "2 \<le> n" and "\<forall>t. replay_key ''ws-first'' t \<notin> K \<and> replay_key ''ws-second'' t \<notin> K"
  shows "\<exists>a b oid s'. websocket_scenario web base s = ((Some (Websocket_evidence a b oid b), None), s')"
proof -
  let ?k1 = "replay_key ''ws-first'' (web_now web s)"
  have key: "plain_key ?k1" "plain_key (replay_key ''ws-second'' t)" for t by (rule plain_replay_key; simp)+
  obtain o1 s1 where s1: "replay_create web base ?k1 s = ((\<lparr>cr_order = o1, cr_replayed = False\<rparr>, 201, None), s1)"
    "site True (Closed_after 0) (n - 1) (insert ?k1 K) s1" "log_after o1 [] s1"
    using placed [OF assms(1) _ _ _ key(1)] assms(2,3) by auto
  let ?k2 = "replay_key ''ws-second'' (web_now web s1)"
  have new: "?k2 \<notin> insert ?k1 K" using assms(3) by (auto simp: replay_key_def)
  obtain o2 s2 where s2: "replay_create web base ?k2 s1 = ((\<lparr>cr_order = o2, cr_replayed = False\<rparr>, 201, None), s2)"
    "site True (Closed_after 0) (n - 1 - 1) (insert ?k2 (insert ?k1 K)) s2" "log_after o1 [o2] s2"
    using placed [OF s1(2) _ _ new key(2)] assms(2) s1(3) by fastforce
  obtain conn s3 ev s4 where "web_dial web (stream_url base (sequence o1)) [(''X-API-Key'', ''tenant-alpha-key'')]
      (time_add (web_now web s2) (3 * second)) s2 = (Inr conn, s3)"
    "read_event web conn (time_add (web_now web s2) (3 * second)) s3 = (Inr ev, s4)"
    "ev_sequence ev = sequence o2" "ev_order_id ev = order_id o2"
    using missed [OF s2(2,3)] by blast
  then show ?thesis by (simp add: websocket_scenario_def s1(1) s2(1) Let_def)
qed

text \<open>The whole tool.\<close>

lemma scenario_ran:
  "run w = Some ((ev, None), w') \<Longrightarrow> \<exists>r' out'. run_scenario web name run (r, out, w) = Some (r', out', w') \<and>
    rp_generated_at r' = rp_generated_at r \<and> rp_target r' = rp_target r \<and> rp_passed r' = rp_passed r \<and>
    map sr_evidence (rp_scenarios r') = map sr_evidence (rp_scenarios r) @ [ev]"
  by (simp add: run_scenario_def Let_def)

lemma tool_passes:
  assumes "up s" and "trim_right_slashes base_url = base" and "\<forall>i < request_count. 3 \<le> count_list sched i"
    and "output = [] \<or> (\<forall>text s'. fst (web_write_file web output text s') = None)"
  shows "\<exists>oc s' r a b oid. replay_main sched web base_url output s = Some (oc, s') \<and> oc_ending oc = Exit 0 \<and>
    oc_report oc = Some r \<and> rp_target r = base \<and> rp_passed r \<and> map sr_evidence (rp_scenarios r) =
      [Some (Idempotency_evidence 12 1 11), Some (Recovery_evidence ''open'' [503, 503, 503, 503] 201),
       Some (Websocket_evidence a b oid b)]"
proof -
  obtain s1 where s1: "post_json web base ''/v1/demo/reset'' None None () s = ((None, ()), s1)" "site True (Closed_after 0) 25 {} s1"
    using reset [OF assms(1)] by blast
  obtain K s2 where s2: "idempotency_scenario sched web base s1 = Some ((Some (Idempotency_evidence 12 1 11), None), s2)"
    "site True (Closed_after 0) 13 K s2" "K \<subseteq> range (replay_key ''idempotency'')"
    using idempotency_passes [OF s1(2) _ assms(3)] by auto
  obtain s3 t where s3: "recovery_scenario web base s2 = ((Some (Recovery_evidence ''open'' [503, 503, 503, 503] 201), None), s3)"
    "site True (Closed_after 0) 5 (insert (replay_key ''recovery'' t) K) s3"
    using recovery_passes [OF s2(2) _ s2(3)] by auto
  have "\<forall>u. replay_key ''ws-first'' u \<notin> insert (replay_key ''recovery'' t) K \<and>
      replay_key ''ws-second'' u \<notin> insert (replay_key ''recovery'' t) K"
    using s2(3) by (auto simp: replay_key_def)
  then obtain a b oid s4 where s4: "websocket_scenario web base s3 = ((Some (Websocket_evidence a b oid b), None), s4)"
    using websocket_passes [OF s3(2)] by auto
  let ?r0 = "\<lparr>rp_generated_at = web_now web s1, rp_target = base, rp_passed = True, rp_scenarios = []\<rparr>"
  obtain r1 out1 where r1: "run_scenario web ''concurrent-idempotency'' (idempotency_scenario sched web base) (?r0, [], s1) =
      Some (r1, out1, s2)" "rp_generated_at r1 = web_now web s1" "rp_target r1 = base" "rp_passed r1"
    "map sr_evidence (rp_scenarios r1) = [Some (Idempotency_evidence 12 1 11)]"
    using scenario_ran [where run = "idempotency_scenario sched web base" and name = "''concurrent-idempotency''" and r = ?r0 and out = "[]",
        OF s2(1)] by auto
  obtain r2 out2 where r2: "run_scenario web ''dependency-recovery'' (Some \<circ> recovery_scenario web base) (r1, out1, s2) =
      Some (r2, out2, s3)" "rp_generated_at r2 = web_now web s1" "rp_target r2 = base" "rp_passed r2"
    "map sr_evidence (rp_scenarios r2) = [Some (Idempotency_evidence 12 1 11), Some (Recovery_evidence ''open'' [503, 503, 503, 503] 201)]"
    using scenario_ran [where run = "Some \<circ> recovery_scenario web base" and w = s2 and name = "''dependency-recovery''" and
        r = r1 and out = out1] s3(1) r1(2-5) by auto
  obtain r3 out3 where r3: "run_scenario web ''websocket-gap-replay'' (Some \<circ> websocket_scenario web base) (r2, out2, s3) =
      Some (r3, out3, s4)" "rp_generated_at r3 = web_now web s1" "rp_target r3 = base" "rp_passed r3"
    "map sr_evidence (rp_scenarios r3) = [Some (Idempotency_evidence 12 1 11), Some (Recovery_evidence ''open'' [503, 503, 503, 503] 201),
       Some (Websocket_evidence a b oid b)]"
    using scenario_ran [where run = "Some \<circ> websocket_scenario web base" and w = s3 and name = "''websocket-gap-replay''" and
        r = r2 and out = out2] s4 r2(2-5) by auto
  have "run_scenarios sched web base s1 = Some (r3, out3, s4)"
    by (simp add: run_scenarios_def Let_def r1(1) r2(1) r3(1))
  then have "replay_main sched web base_url output s = Some (finish_report web output (r3, out3, s4))"
    by (simp add: replay_main_def assms(2) s1(1) Let_def)
  moreover obtain oc s5 where f: "finish_report web output (r3, out3, s4) = (oc, s5)" by fastforce
  moreover have "oc_ending oc = Exit 0" "oc_report oc = Some r3"
    using f assms(4) dated [OF s1(2)] r3(2,4)
    by (auto simp: finish_report_def Let_def split: if_splits prod.splits option.splits dest: arg_cong [of _ _ fst])
  ultimately show ?thesis using r3(3-5) by auto
qed

end

section \<open>A concrete server\<close>

text \<open>A server that answers every request, and every order after the first as a replay.\<close>

definition desk :: "nat web" where
  "desk = \<lparr>web_do = (\<lambda>c n. if hc_url c = ''/v1/orders''
       then (Inr \<lparr>hr_status = 201, hr_body = one_value (JObject [(''order'', JObject [(''id'', JString ''o-1'')]),
         (''replayed'', JBool (0 < n))])\<rparr>, Suc n)
       else (Inr \<lparr>hr_status = 200, hr_body = one_value JNull\<rparr>, n)),
     web_dial = (\<lambda>_ _ _ n. (Inl ''refused'', n)), web_read = (\<lambda>_ _ n. (Inl ''closed'', n)), web_close = (\<lambda>_ n. n),
     web_now = (\<lambda>_. 0), web_sleep = (\<lambda>_ n. n), web_write_file = (\<lambda>_ _ n. (None, n)), web_decode_error = (\<lambda>_. [])\<rparr>"

lemma desk_create: "replay_create desk [] key n =
    ((\<lparr>cr_order = zero_order\<lparr>order_id := ''o-1''\<rparr>, cr_replayed = (0 < n)\<rparr>, 201, None), Suc n)"
  by (simp add: replay_create_def request_json_def desk_def decode_into_def one_value_def result_decoder_def zero_result_def
      order_fields_def dec_struct_def dec_member_def dec_field_def)

lemma desk_answers: "answers desk [] key n 0 =
    (map (\<lambda>i. (\<lparr>cr_order = zero_order\<lparr>order_id := ''o-1''\<rparr>, cr_replayed = (0 < i)\<rparr>, None)) [0..<n], n)"
  by (induction n) (simp_all add: desk_create)

lemma count_turns: "count_list [0..<n] i = (if i < n then 1 else 0)"
  by (induction n) simp_all


end
