(* ===== verification/Lab_Site.thy ===== *)
theory Lab_Site
  imports Http_Properties Replay_Properties
begin

text \<open>
  The lab server as the surroundings of the acceptance tool: the tool's HTTP calls become requests of
  \<open>Http_Api\<close>, routed as \<open>Handler\<close> in \<open>internal/httpapi/server.go\<close> registers its patterns, and the responses come
  back as JSON. The tool and the server share one clock; a reply later than the client's four seconds is
  its timeout error. Bodies that the tool never decodes are left out. The lemmas say what the tool decodes
  from what the server sent, and that a limiter with enough tokens admits.
\<close>

section \<open>Routes and headers\<close>

text \<open>The most specific pattern for a clean path; where only the method does not fit, the mux answers itself.\<close>

definition mux_endpoint :: "string \<Rightarrow> string \<Rightarrow> endpoint" where
  "mux_endpoint mth path =
     (let get = (mth = ''GET'' \<or> mth = ''HEAD''); static = (if get then Ep_static else Ep_unmatched)
      in if path = ''/v1/orders'' \<and> mth = ''POST'' then Ep_create_order
         else if path = ''/v1/demo/fault'' \<and> mth = ''POST'' then Ep_fault
         else if path = ''/v1/demo/reset'' \<and> mth = ''POST'' then Ep_reset
         else if \<not> get then static
         else if path = ''/metrics'' then Ep_metrics
         else if path = ''/healthz'' then Ep_health
         else if path = ''/readyz'' then Ep_ready
         else if path = ''/v1/orders'' then Ep_list_orders
         else if path = ''/v1/stream'' then Ep_stream
         else if path = ''/v1/demo/snapshot'' then Ep_snapshot
         else if prefix ''/v1/orders/'' path \<and> drop 11 path \<noteq> [] \<and> CHR ''/'' \<notin> set (drop 11 path)
         then Ep_get_order (drop 11 path)
         else static)"

text \<open>\<open>Header.Get\<close>: names are compared in their canonical form, so without regard to case.\<close>

definition header_get :: "(string \<times> string) list \<Rightarrow> string \<Rightarrow> string" where
  "header_get hs n = (case find (\<lambda>h. map lower_ascii (fst h) = map lower_ascii n) hs of Some h \<Rightarrow> snd h | None \<Rightarrow> [])"

definition query_get :: "string \<Rightarrow> string \<Rightarrow> string" where
  "query_get q n =
     (case find (\<lambda>p. fst p = n) (List.map_filter (string_cut (CHR ''='')) (string_split (CHR ''&'') q)) of
        Some p \<Rightarrow> snd p | None \<Rightarrow> [])"

definition site_request :: "string \<Rightarrow> string \<Rightarrow> (string \<times> string) list \<Rightarrow> json option \<Rightarrow> http_request" where
  "site_request mth target hs body =
     (let path = takeWhile (\<lambda>c. c \<noteq> CHR ''?'') target; query = drop 1 (dropWhile (\<lambda>c. c \<noteq> CHR ''?'') target)
      in \<lparr>rq_method = mth, rq_path = path, rq_endpoint = mux_endpoint mth path, rq_header = header_get hs,
          rq_query = query_get query, rq_remote = ''127.0.0.1:40000'', rq_ctx = background,
          rq_body = (case body of Some j \<Rightarrow> one_value j | None \<Rightarrow> \<lparr>js_values = [], js_clean = True\<rparr>)\<rparr>)"

section \<open>Bodies\<close>

definition string_json :: "string \<Rightarrow> json" where
  "string_json s = JString (valid_text s)"

definition word_json :: "u64 \<Rightarrow> json" where
  "word_json n = JNumber (show_nat (unat n))"

definition time_json :: "gotime \<Rightarrow> json" where
  "time_json t = JString (format_rfc3339 t)"

definition order_json :: "order \<Rightarrow> json" where
  "order_json ord = JObject
     [(''id'', string_json (order_id ord)), (''tenant_id'', string_json (tenant_id ord)),
      (''event_id'', string_json (event_id ord)), (''quantity'', JNumber (show_int (quantity ord))),
      (''status'', string_json (order_status ord)), (''created_at'', time_json (created_at ord)),
      (''updated_at'', time_json (updated_at ord)), (''sequence'', word_json (sequence ord))]"

definition result_json :: "create_result \<Rightarrow> json" where
  "result_json r = JObject [(''order'', order_json (cr_order r)), (''replayed'', JBool (cr_replayed r))]"

definition event_json :: "event \<Rightarrow> json" where
  "event_json ev = JObject
     [(''sequence'', word_json (ev_sequence ev)), (''type'', string_json (ev_type ev)),
      (''order_id'', string_json (ev_order_id ev)), (''tenant_id'', string_json (ev_tenant ev)),
      (''status'', string_json (ev_status ev)), (''at'', time_json (ev_at ev))]"

definition sample_json :: "sample \<Rightarrow> json" where
  "sample_json sm = JObject
     [(''at'', time_json (sm_at sm)), (''requests'', JNumber (show_int (sm_requests sm))),
      (''errors'', JNumber (show_int (sm_errors sm))), (''latency_ms'', JNumber (show_int (sm_latency_ms sm)))]"

definition snapshot_json :: "snapshot \<Rightarrow> json" where
  "snapshot_json sn = JObject
     [(''service'', JObject [(''status'', string_json (sn_status sn)),
         (''uptime_seconds'', JNumber (show_int (sn_uptime_seconds sn))), (''version'', string_json (sn_version sn))]),
      (''dependency'', JObject [(''mode'', string_json (sn_mode sn)), (''circuit_state'', string_json (sn_circuit_state sn)),
         (''consecutive_failures'', JNumber (show_int (sn_consecutive_failures sn)))]),
      (''metrics'', JObject (zip [''orders_total'', ''orders_succeeded'', ''orders_failed'', ''duplicates_suppressed'', ''rate_limited'']
         (map word_json (sn_counts sn)) @ [(''dependency_calls'', word_json (sn_dependency_calls sn))])),
      (''recent_events'', JArray (map event_json (sn_recent_events sn))),
      (''timeseries'', JArray (map sample_json (sn_timeseries sn)))]"

definition reply_body :: "payload \<Rightarrow> json_stream" where
  "reply_body p =
     (case p of
        Result_body r \<Rightarrow> one_value (result_json r)
      | Snapshot_body sn \<Rightarrow> one_value (snapshot_json sn)
      | _ \<Rightarrow> \<lparr>js_values = [], js_clean = True\<rparr>)"

section \<open>The site\<close>

text \<open>The server, what the stream session has written and the tool has not read, and the session's subscription.\<close>

record lab_site =
  st_lab :: lab
  st_inbox :: "event list"
  st_sub :: u64

type_synonym handlers = "http_request \<Rightarrow> response"

definition site_do :: "string \<Rightarrow> handlers \<Rightarrow> http_call \<Rightarrow> lab_site \<Rightarrow> (string + http_reply) \<times> lab_site" where
  "site_do base external c s =
     (if \<not> prefix base (hc_url c) then (Inl ''unsupported URL'', s)
      else case serve external (\<lambda>_. None)
                  (site_request (hc_method c) (drop (length base) (hc_url c)) (hc_headers c) (hc_body c)) (st_lab s) of
             None \<Rightarrow> (Inl ''no answer'', s)
           | Some (resp, l) \<Rightarrow>
               ((if clock (world (st_lab s)) + 4 * second < clock (world l)
                 then Inl ''context deadline exceeded (Client.Timeout exceeded while awaiting headers)''
                 else Inr \<lparr>hr_status = rs_status resp, hr_body = reply_body (rs_body resp)\<rparr>), s\<lparr>st_lab := l\<rparr>))"

definition stream_base :: "string \<Rightarrow> string" where
  "stream_base base = ''ws'' @ (if prefix ''http'' base then drop 4 base else base)"

text \<open>The session that the server opens for an authenticated stream request.\<close>

definition site_session :: "http_request \<Rightarrow> lab \<Rightarrow> session option" where
  "site_session r l =
     (case api_keys l (rq_header r ''X-API-Key'') of
        None \<Rightarrow> None
      | Some t \<Rightarrow>
          (case fst (stream_open None (r\<lparr>rq_header := (rq_header r)(''X-Northstar-Tenant'' := t)\<rparr>) l) of
             Inr ss \<Rightarrow> Some ss | Inl _ \<Rightarrow> None))"

definition site_dial ::
  "string \<Rightarrow> handlers \<Rightarrow> string \<Rightarrow> (string \<times> string) list \<Rightarrow> gotime \<Rightarrow> lab_site \<Rightarrow> (string + nat) \<times> lab_site" where
  "site_dial base external url hs deadline s =
     (if \<not> prefix (stream_base base) url then (Inl ''unsupported URL'', s)
      else let r = site_request ''GET'' (drop (length (stream_base base)) url) hs None
        in case serve external (\<lambda>_. None) r (st_lab s) of
             None \<Rightarrow> (Inl ''no answer'', s)
           | Some (resp, l) \<Rightarrow>
               (case site_session r (st_lab s) of
                  Some ss \<Rightarrow> (Inr 0, s\<lparr>st_lab := l, st_inbox := ss_replay ss, st_sub := ss_id ss\<rparr>)
                | None \<Rightarrow> (Inl ''expected handshake response status code 101'', s\<lparr>st_lab := l\<rparr>)))"

definition pass_time :: "gotime \<Rightarrow> lab_site \<Rightarrow> lab_site" where
  "pass_time t s = s\<lparr>st_lab := (st_lab s)\<lparr>world := (world (st_lab s))\<lparr>clock := max t (clock (world (st_lab s)))\<rparr>\<rparr>\<rparr>"

definition site_read :: "nat \<Rightarrow> gotime \<Rightarrow> lab_site \<Rightarrow> (string + json_stream) \<times> lab_site" where
  "site_read conn deadline s =
     (case st_inbox s of
        ev # evs \<Rightarrow> (Inr (one_value (event_json ev)), s\<lparr>st_inbox := evs\<rparr>)
      | [] \<Rightarrow> (Inl ''context deadline exceeded'', pass_time deadline s))"

definition lab_web :: "string \<Rightarrow> handlers \<Rightarrow> lab_site web" where
  "lab_web base external =
     \<lparr>web_do = site_do base external, web_dial = site_dial base external, web_read = site_read,
      web_close = (\<lambda>_ s. s\<lparr>st_lab := end_subscription (st_sub s) (st_lab s)\<rparr>),
      web_now = (\<lambda>s. clock (world (st_lab s))), web_sleep = (\<lambda>d s. pass_time (clock (world (st_lab s)) + d) s),
      web_write_file = (\<lambda>_ _ s. (None, s)), web_decode_error = (\<lambda>_. ''invalid character'')\<rparr>"

lemma lab_web_simps [simp]:
  "web_do (lab_web base external) = site_do base external" "web_dial (lab_web base external) = site_dial base external"
  "web_read (lab_web base external) = site_read" "web_now (lab_web base external) s = clock (world (st_lab s))"
  "web_sleep (lab_web base external) d s = pass_time (clock (world (st_lab s)) + d) s"
  "web_write_file (lab_web base external) path text s = (None, s)"
  by (simp_all add: lab_web_def)

section \<open>What the tool decodes\<close>

text \<open>Values that JSON keeps as they are.\<close>

definition decodable :: "order \<Rightarrow> bool" where
  "decodable ord \<longleftrightarrow> ascii (order_id ord) \<and> ascii (tenant_id ord) \<and> ascii (event_id ord) \<and> ascii (order_status ord) \<and>
     in_int64 (quantity ord) \<and> json_time_ok (created_at ord) \<and> json_time_ok (updated_at ord)"

lemma json_shown [simp]:
  "ascii s \<Longrightarrow> string_json s = JString s" "dec_uint64 (word_json n) old = (n, True)"
  "json_time_ok t \<Longrightarrow> dec_time (time_json t) t0 = (t, True)"
  by (simp_all add: string_json_def valid_text_ascii word_json_def time_json_def)

lemma order_decoded:
  assumes "decodable ord"
  shows "dec_struct False order_fields (order_json ord) zero_order = (ord, True)"
  using assms
  by (simp add: decodable_def order_json_def order_fields_def dec_struct_def dec_member_def dec_field_def)

lemma result_decoded:
  "decodable ord \<Longrightarrow> decode_into result_decoder zero_result (reply_body (Result_body \<lparr>cr_order = ord, cr_replayed = b\<rparr>)) =
     (\<lparr>cr_order = ord, cr_replayed = b\<rparr>, True)"
  by (simp add: decode_into_def reply_body_def one_value_def result_decoder_def result_json_def zero_result_def
      dec_struct_def [of False "[_, _]"] dec_member_def dec_field_def order_decoded)

lemma event_decoded:
  assumes "decodable ord" and "ascii ty"
  shows "decode_first event_decoder zero_event (one_value (event_json (event_of ord ty))) = Some (event_of ord ty)"
  using assms
  by (simp add: decodable_def event_json_def event_of_def event_decoder_def zero_event_def dec_struct_def dec_member_def dec_field_def)

lemma snapshot_fields:
  "find_field [(''dependency'', d)] ''service'' = None" "find_field [(''dependency'', d)] ''metrics'' = None"
  "find_field [(''dependency'', d)] ''recent_events'' = None" "find_field [(''dependency'', d)] ''timeseries'' = None"
  "find_field [(''circuit_state'', e)] ''mode'' = None" "find_field [(''circuit_state'', e)] ''consecutive_failures'' = None"
proof -
  have f: "fold_key ''dependency'' = ''dependency''" "fold_key ''service'' = ''service''" "fold_key ''metrics'' = ''metrics''"
    "fold_key ''recent_events'' = ''recent_events''" "fold_key ''timeseries'' = ''timeseries''"
    "fold_key ''circuit_state'' = ''circuit_state''" "fold_key ''mode'' = ''mode''"
    "fold_key ''consecutive_failures'' = ''consecutive_failures''" by code_simp+
  show "find_field [(''dependency'', d)] ''service'' = None" "find_field [(''dependency'', d)] ''metrics'' = None"
    "find_field [(''dependency'', d)] ''recent_events'' = None" "find_field [(''dependency'', d)] ''timeseries'' = None"
    "find_field [(''circuit_state'', e)] ''mode'' = None" "find_field [(''circuit_state'', e)] ''consecutive_failures'' = None"
    by (simp_all add: find_field_def f del: fold_key.simps)
qed

lemma snapshot_decoded:
  "ascii (sn_circuit_state sn) \<Longrightarrow> decode_into snapshot_decoder [] (reply_body (Snapshot_body sn)) = (sn_circuit_state sn, True)"
  by (simp add: decode_into_def reply_body_def one_value_def snapshot_decoder_def snapshot_json_def
      dec_struct_def dec_member_def snapshot_fields)

section \<open>Tokens that are left\<close>

text \<open>A key for which a limiter holds at least \<open>n\<close> tokens, now and at every later time.\<close>

definition room :: "limiter \<Rightarrow> string \<Rightarrow> nat \<Rightarrow> bool" where
  "room l k n \<longleftrightarrow> limiter_ok l \<and> of_nat n \<le> burst l \<and> (\<forall>b. buckets l k = Some b \<longrightarrow> of_nat n \<le> tokens b)"

lemma refill_keeps:
  assumes "limiter_ok l" and "bucket_ok l b"
  shows "tokens b \<le> tokens (refill l now b)"
proof -
  have b: "tokens b \<le> burst l" "is_float64 (tokens b)" using assms(2) by (simp_all add: bucket_ok_def)
  have "tokens b \<le> fl (tokens b + fl (e * rate l))" if "0 < e" for e
  proof -
    have "0 \<le> fl (e * rate l)" using that limiter_okD(1) [OF assms(1)] by (intro fl_nonneg) simp
    then show ?thesis using b(2) by (intro fl_ge) simp_all
  qed
  then show ?thesis using b(1) by (simp add: refill_def Let_def)
qed

lemma room_admits:
  assumes "room l k (Suc n)"
  shows "fst (allow t k l)" and "room (snd (allow t k l)) k n"
proof -
  have ok: "limiter_ok l" and full: "of_nat (Suc n) \<le> burst l" using assms by (simp_all add: room_def)
  have "fst (allow t k l) \<and> (\<forall>b. buckets (snd (allow t k l)) k = Some b \<longrightarrow> of_nat n \<le> tokens b)"
  proof (cases "buckets l k")
    case None
    have "fl (burst l - 1) = burst l - 1" using limiter_okD(2,4) [OF ok] by (intro fl_exact is_float64_minus_one) (use limiter_okD(3) [OF ok] in simp_all)
    then show ?thesis using None full by (simp add: allow_def)
  next
    case (Some b)
    have b: "bucket_ok l b" using ok Some by (rule limiter_okD(5))
    have "of_nat (Suc n) \<le> tokens b" using assms Some by (simp add: room_def)
    then have more: "of_nat (Suc n) \<le> tokens (refill l t b)" using refill_keeps [OF ok b, of t] by simp
    then have one: "1 \<le> tokens (refill l t b)" by simp
    show ?thesis
      using more one take_one_exact(1) [OF ok bucket_ok_refill [OF ok b] one] Some
      by (simp add: allow_def Let_def)
  qed
  then show "fst (allow t k l)" "room (snd (allow t k l)) k n"
    using ok full by (simp_all add: room_def limiter_ok_ops)
qed

lemma room_reset: "limiter_ok l \<Longrightarrow> of_nat n \<le> burst l \<Longrightarrow> room (reset_limiter l) k n"
  by (simp add: room_def limiter_ok_ops) (simp add: reset_limiter_def)

lemma room_less: "room l k n \<Longrightarrow> m \<le> n \<Longrightarrow> room l k m"
  unfolding room_def by (meson of_nat_mono order_trans)

end
