(* ===== verification/Replay_Lab.thy ===== *)
theory Replay_Lab
  imports Lab_Site
begin

text \<open>
  The lab server keeps everything the acceptance tool expects of it: \<open>replay_site\<close> describes the server
  between two requests of the tool, and every law of \<open>order_site\<close> is proved on the model of the server, from
  the limiters over the registry, the breaker and the dependency to the event log and the JSON of the
  responses. So the tool passes against a fresh server under every schedule of its goroutines.
\<close>

section \<open>What a request leaves alone\<close>

lemma bookkeeping_rands [simp]:
  "rands (record_sample st failed w) = rands w" "rands (order_refused st r w) = rands w"
  "rands (order_placed w) = rands w" "rands (order_replayed w) = rands w"
  by (simp_all add: record_sample_def order_refused_def order_placed_def order_replayed_def Let_def)

lemma reserved_rands: "reserved k w w' \<Longrightarrow> rands w' = rands w"
  by (simp add: reserved_def)

lemma create_frame:
  assumes ok: "service_ok w" and valid: "valid_input t k inp"
    and vac: "slot_view (svc_idempotency (svc w)) (clock w) (t, k) = Vacant"
    and create: "create_order c t k inp w = Some (res, w')"
  shows "rands w' = rands w" "clock w \<le> clock w'"
    "sim_mode (svc_dependency (svc w')) = sim_mode (svc_dependency (svc w))"
    "clock w \<le> now \<Longrightarrow> sc \<noteq> (t, k) \<Longrightarrow>
      slot_view (svc_idempotency (svc w')) now sc = slot_view (svc_idempotency (svc w)) now sc"
proof -
  note R = service_okD [OF ok]
  obtain r1 w1 where pl: "place_order c t inp (counted w) = (r1, w1)" by fastforce
  have p: "rands w1 = rands w \<and> sim_mode (svc_dependency (svc w1)) = sim_mode (svc_dependency (svc w))"
  proof (rule place_order_cases [where c = c and t = t and inp = inp and w = "counted w"])
    fix k e assume "reserved k (counted w) (snd (place_order c t inp (counted w)))"
    from reservedD(11) [OF this] reserved_rands [OF this] show ?thesis using pl by simp
  next
    fix k w2 oid assume r: "reserved k (counted w) w2" and "place_order c t inp (counted w) =
        (Inr (fst (save (clock w2) (fresh_order oid t inp) ''order.confirmed'' (svc_store (svc (counted w))))),
         w2\<lparr>id_pos := Suc (id_pos w2), svc := (svc w2)\<lparr>svc_store :=
           snd (save (clock w2) (fresh_order oid t inp) ''order.confirmed'' (svc_store (svc (counted w))))\<rparr>\<rparr>)"
    then show ?thesis using reservedD(11) [OF r] reserved_rands [OF r] pl by auto
  qed
  have le: "clock w \<le> clock w1" using place_order_frame(2) [OF pl] by simp
  then have pos: "0 \<le> clock w1" using R(5) by simp
  have w': "rands w' = rands w1 \<and> clock w' = clock w1 \<and> svc_dependency (svc w') = svc_dependency (svc w1) \<and>
      svc_idempotency (svc w') = registry_after t k inp w r1 (clock w1)"
    using create create_vacant [OF valid R(1) vac pl] by (cases r1) (auto simp: Let_def)
  then show "rands w' = rands w" "clock w \<le> clock w'"
    "sim_mode (svc_dependency (svc w')) = sim_mode (svc_dependency (svc w))" using p le by simp_all
  show "slot_view (svc_idempotency (svc w')) now sc = slot_view (svc_idempotency (svc w)) now sc"
    if "clock w \<le> now" "sc \<noteq> (t, k)"
    using w' registry_after_other [OF R(1) vac pos that] by simp
qed

lemma refused_slot:
  assumes ok: "service_ok w" and valid: "valid_input t k inp"
    and vac: "slot_view (svc_idempotency (svc w)) (clock w) (t, k) = Vacant"
    and create: "create_order c t k inp w = Some (Inl e, w')"
  shows "slot_view (svc_idempotency (svc w')) now (t, k) = Vacant"
proof -
  note R = service_okD [OF ok]
  obtain r1 w1 where pl: "place_order c t inp (counted w) = (r1, w1)" by fastforce
  have pos: "0 \<le> clock w1" using place_order_frame(2) [OF pl] R(5) by simp
  have "isl r1 \<and> svc_idempotency (svc w') = registry_after t k inp w r1 (clock w1)"
    using create create_vacant [OF valid R(1) vac pl] by (cases r1) (auto simp: Let_def)
  then show ?thesis using registry_after_facts(4) [OF R(1,2) vac pos] by (auto simp: isl_def)
qed

lemma new_id_ascii: "ascii (fst (new_id w))"
proof -
  have "c \<in> set (show_int z) \<Longrightarrow> (of_char c :: nat) < 128" for c z
    using show_int_chars [of c z] by (auto simp: is_digit_def)
  moreover have "c \<in> set (hex_encode bs) \<Longrightarrow> (of_char c :: nat) < 128" for c bs
    using hex_encode_chars [of c bs] by fastforce
  ultimately show ?thesis by (auto simp: new_id_def ascii_def split: option.split)
qed

section \<open>Requests that the server admits\<close>

definition replay_input :: create_order_input where
  "replay_input = \<lparr>in_event_id = ''event-replay-suite'', in_quantity = 2\<rparr>"

definition alpha :: string where
  "alpha = ''tenant-alpha''"

definition admits :: "nat \<Rightarrow> lab \<Rightarrow> bool" where
  "admits n l \<longleftrightarrow> lab_ok l \<and> demo_mode l \<and> api_keys l = server_keys \<and>
     room (key_limiter l) (alpha @ '':tenant-alpha-key'') n \<and> room (tenant_limiter l) alpha n \<and>
     room (ip_limiter l) ''127.0.0.1'' n"

lemma admitsD:
  assumes "admits n l"
  shows "lab_ok l" "demo_mode l" "api_keys l = server_keys" "room (key_limiter l) (alpha @ '':tenant-alpha-key'') n"
    "room (tenant_limiter l) alpha n" "room (ip_limiter l) ''127.0.0.1'' n"
  using assms by (simp_all add: admits_def)

definition create_request :: "string \<Rightarrow> http_request" where
  "create_request key = site_request ''POST'' ''/v1/orders''
     [(''Content-Type'', ''application/json''), (''X-API-Key'', ''tenant-alpha-key''), (''Idempotency-Key'', key)]
     (Some replay_order)"

lemma lower_names:
  "map lower_ascii ''Content-Type'' = ''content-type''" "map lower_ascii ''X-API-Key'' = ''x-api-key''"
  "map lower_ascii ''Idempotency-Key'' = ''idempotency-key''"
  by code_simp+

lemma create_request_fields:
  "rq_endpoint (create_request key) = Ep_create_order" "rq_header (create_request key) ''X-API-Key'' = ''tenant-alpha-key''"
  "rq_header (create_request key) ''Idempotency-Key'' = key" "rq_body (create_request key) = one_value replay_order"
  "rq_ctx (create_request key) = background" "rq_remote (create_request key) = ''127.0.0.1:40000''"
  by (simp_all add: create_request_def site_request_def mux_endpoint_def header_get_def lower_names [simplified] Let_def)

lemma local_ip: "rq_remote r = ''127.0.0.1:40000'' \<Longrightarrow> client_ip r = ''127.0.0.1''"
proof -
  have "split_host ''127.0.0.1:40000'' = Some ''127.0.0.1''" by code_simp
  then show "rq_remote r = ''127.0.0.1:40000'' \<Longrightarrow> client_ip r = ''127.0.0.1''" by (simp add: client_ip_def)
qed

lemma parse_replay:
  assumes "rq_body r = one_value replay_order" and "rq_header r ''Idempotency-Key'' = key" and "plain_key key"
  shows "parse_create r = Inr (replay_input, key)"
proof -
  have "parse_int ''2'' = Some 2" by (simp add: parse_int_def parse_uint_def is_digit_def)
  moreover have "trim_space key = key" using assms(3) trim_space_printing by (simp add: plain_key_def)
  ultimately show ?thesis
    using assms by (simp add: parse_create_def replay_order_def input_decoder_def dec_struct_def dec_member_def dec_field_def
        dec_int_def zero_input_def replay_input_def plain_key_def)
qed

text \<open>A create request of the tool reaches the service and costs one admission.\<close>

lemma serve_create:
  assumes adm: "admits (Suc n) l" and key: "plain_key key"
    and c: "create_order background alpha key replay_input (world l) = Some (res, w')"
  shows "\<exists>l'. serve external accepted (create_request key) l = Some (create_response res, l') \<and> world l' = w' \<and> admits n l'"
proof -
  note A = admitsD [OF adm]
  let ?r = "(create_request key)\<lparr>rq_header := (rq_header (create_request key))(''X-Northstar-Tenant'' := alpha)\<rparr>"
  have r: "tenant_from_context ?r = alpha" "key_scope ?r = alpha @ '':tenant-alpha-key''" "client_ip ?r = ''127.0.0.1''"
    "rq_ctx ?r = background"
    by (simp_all add: key_scope_def tenant_from_context_def create_request_fields local_ip)
  have parse: "parse_create ?r = Inr (replay_input, key)"
    by (rule parse_replay [OF _ _ key]) (simp_all add: create_request_fields)
  have limited: "rate_limit create_order_handler ?r l = create_order_handler ?r (charged ?r l)"
  proof (cases rule: rate_limit_cases [OF A(1), of create_order_handler ?r])
    case 1
    then show ?thesis by simp
  next
    case (2 kl tl il)
    then show ?thesis using room_admits(1) [OF A(4)] room_admits(1) [OF A(5)] room_admits(1) [OF A(6)] r by simp
  qed
  have "dispatch external accepted (create_request key) l = rate_limit create_order_handler ?r l"
    by (simp add: dispatch_def create_request_fields auth_def A(3) server_keys_def alpha_def)
  also have "\<dots> = Some (create_response res, (charged ?r l)\<lparr>world := w'\<rparr>)"
    using c parse r by (simp add: limited create_order_handler_def)
  finally have d: "dispatch external accepted (create_request key) l = Some (create_response res, (charged ?r l)\<lparr>world := w'\<rparr>)" .
  obtain resp l' where s: "serve external accepted (create_request key) l = Some (resp, l')" "lab_ok l'"
    by (rule lab_ok_serve [OF A(1)])
  have l': "resp = create_response res" "world l' = w'" "demo_mode l' = demo_mode l" "api_keys l' = api_keys l"
    "key_limiter l' = snd (allow (clock (world l)) (alpha @ '':tenant-alpha-key'') (key_limiter l))"
    "tenant_limiter l' = snd (allow (clock (world l)) alpha (tenant_limiter l))"
    "ip_limiter l' = snd (allow (clock (world l)) ''127.0.0.1'' (ip_limiter l))"
    using s(1) d r serve_shape [OF d] by (auto simp: charged_def)
  have "admits n l'"
    unfolding admits_def l' using s(2) A(2,3) room_admits(2) [OF A(4)] room_admits(2) [OF A(5)] room_admits(2) [OF A(6)] by simp
  with s(1) l' show ?thesis by blast
qed

text \<open>What the tool makes of the response.\<close>

lemma site_create:
  assumes adm: "admits (Suc n) (st_lab s)" and key: "plain_key key"
    and c: "create_order background alpha key replay_input (world (st_lab s)) = Some (res, w')"
    and soon: "clock w' \<le> clock (world (st_lab s)) + 2 * second"
  shows "\<exists>l'. world l' = w' \<and> admits n l' \<and>
    (\<forall>ord b. res = Inr \<lparr>cr_order = ord, cr_replayed = b\<rparr> \<longrightarrow> decodable ord \<longrightarrow>
       replay_create (lab_web base external) base key s =
         ((\<lparr>cr_order = ord, cr_replayed = b\<rparr>, if b then 200 else 201, None), s\<lparr>st_lab := l'\<rparr>)) \<and>
    (\<forall>e. res = Inl (WrapDependency e) \<longrightarrow>
       (\<exists>e'. replay_create (lab_web base external) base key s = ((zero_result, 503, e'), s\<lparr>st_lab := l'\<rparr>)))"
proof -
  obtain l' where l': "serve external (\<lambda>_. None) (create_request key) (st_lab s) = Some (create_response res, l')"
    "world l' = w'" "admits n l'" using serve_create [OF adm key c] by blast
  have "\<not> clock (world (st_lab s)) + 4 * second < clock w'" using soon by (simp add: go_duration_defs)
  then have "web_do (lab_web base external) \<lparr>hc_method = ''POST'', hc_url = base @ ''/v1/orders'',
      hc_headers = [(''Content-Type'', ''application/json''), (''X-API-Key'', ''tenant-alpha-key''), (''Idempotency-Key'', key)],
      hc_body = Some replay_order\<rparr> s =
    (Inr \<lparr>hr_status = rs_status (create_response res), hr_body = reply_body (rs_body (create_response res))\<rparr>, s\<lparr>st_lab := l'\<rparr>)"
    using l' by (simp add: site_do_def create_request_def [symmetric])
  then have "replay_create (lab_web base external) base key s =
     (case create_response res of resp \<Rightarrow>
        (if 200 \<le> rs_status resp \<and> rs_status resp < 300
         then (case decode_into result_decoder zero_result (reply_body (rs_body resp)) of
                 (v, ok) \<Rightarrow> ((v, rs_status resp, if \<not> ok then Some ''invalid character''
                    else if rs_status resp \<noteq> 200 \<and> rs_status resp \<noteq> 201 then Some (''create order returned HTTP '' @ show_int (rs_status resp))
                    else None), s\<lparr>st_lab := l'\<rparr>))
         else ((zero_result, rs_status resp, Some (''create order returned HTTP '' @ show_int (rs_status resp))), s\<lparr>st_lab := l'\<rparr>)))"
    by (simp add: replay_create_def request_json_def lab_web_def split: prod.split)
  then show ?thesis
    using l'(2,3)
    by (intro exI [of _ l']) (auto simp: create_response_def write_json_def write_error_def result_decoded)
qed

section \<open>The server between two requests of the tool\<close>

fun circuit_seen :: "site_circuit \<Rightarrow> gotime \<Rightarrow> breaker \<Rightarrow> bool" where
  "circuit_seen (Closed_after f) now b \<longleftrightarrow> circuit b = StateClosed \<and> consecutive_failures b = int f \<and> f < 3"
| "circuit_seen Open_now now b \<longleftrightarrow> circuit b = StateOpen \<and> opened_at b = now"
| "circuit_seen Retry_due now b \<longleftrightarrow> circuit b = StateOpen \<and> opened_at b + 4 * second \<le> now"

text \<open>Nothing was evicted, nobody is subscribed, and the sequence numbers are as small as the log is short.\<close>

definition store_seen :: "nat \<Rightarrow> memory \<Rightarrow> bool" where
  "store_seen n m \<longleftrightarrow> subscribers m = [] \<and> evicted_through m = Map.empty \<and> retention m = 500 \<and>
     length (events m) + n \<le> 25 \<and> unat (next_sequence m) + n \<le> 25 \<and> (\<forall>ev \<in> set (events m). ev_sequence ev \<le> next_sequence m)"

definition year_10000 :: gotime where
  "year_10000 = 315537897600 * second"

definition world_seen :: "bool \<Rightarrow> site_circuit \<Rightarrow> nat \<Rightarrow> string set \<Rightarrow> world \<Rightarrow> bool" where
  "world_seen h c n K w \<longleftrightarrow> (\<forall>i. 0 \<le> rands w i \<and> rands w i \<le> 1) \<and> clock w + int n * (2 * second) < year_10000 \<and>
     sim_mode (svc_dependency (svc w)) = (if h then mode_healthy else mode_unavailable) \<and>
     unat (sim_calls (svc_dependency (svc w))) + 3 * n \<le> 75 \<and>
     (\<forall>now k. clock w \<le> now \<longrightarrow> k \<notin> K \<longrightarrow> slot_view (svc_idempotency (svc w)) now (alpha, k) = Vacant) \<and>
     circuit_seen c (clock w) (svc_breaker (svc w)) \<and> store_seen n (svc_store (svc w))"

lemma world_seenD:
  assumes "world_seen h c n K w"
  shows "0 \<le> rands w i \<and> rands w i \<le> 1" "clock w + int n * (2 * second) < year_10000"
    "sim_mode (svc_dependency (svc w)) = (if h then mode_healthy else mode_unavailable)"
    "unat (sim_calls (svc_dependency (svc w))) + 3 * n \<le> 75"
    "clock w \<le> now \<Longrightarrow> k \<notin> K \<Longrightarrow> slot_view (svc_idempotency (svc w)) now (alpha, k) = Vacant"
    "circuit_seen c (clock w) (svc_breaker (svc w))" "store_seen n (svc_store (svc w))"
  using assms by (simp_all add: world_seen_def)

lemma calls_bound: "k \<le> 3 \<Longrightarrow> unat (n + of_nat k) \<le> unat n + 3" for n :: u64
proof -
  assume k: "k \<le> 3"
  have "unat (n + of_nat k) \<le> unat n + unat (of_nat k :: u64)" by (simp add: unat_word_ariths)
  also have "unat (of_nat k :: u64) = k" using k by (simp add: unat_of_nat)
  finally show ?thesis using k by simp
qed

lemma time_left:
  assumes "clock w + int (Suc n) * (2 * second) < year_10000" and "t \<le> clock w + 2 * second"
  shows "t + int n * (2 * second) < year_10000"
  using assms by (simp add: algebra_simps)

lemma time_left_same: "clock w + int (Suc n) * (2 * second) < year_10000 \<Longrightarrow> clock w + int n * (2 * second) < year_10000"
  by (drule time_left [of w n "clock w"]) (simp_all add: second_def)

lemma valid_replay: "plain_key key \<Longrightarrow> valid_input alpha key replay_input"
  by (simp add: valid_input_def plain_key_def alpha_def replay_input_def)

lemma store_saved:
  assumes seen: "store_seen (Suc n) m" and save: "save now (fresh_order oid t inp) ty m = (ord, m')"
  shows "store_seen n m'" "events m' = events m @ [event_of ord ty]" "sequence ord = next_sequence m + 1"
    "next_sequence m' = sequence ord" "next_sequence m < sequence ord" "ord = stamp now (next_sequence m + 1) (fresh_order oid t inp)"
proof -
  note sh = save_shape [OF save]
  have m: "subscribers m = []" "evicted_through m = Map.empty" "retention m = 500" "length (events m) + Suc n \<le> 25"
    "unat (next_sequence m) + Suc n \<le> 25" "\<forall>ev \<in> set (events m). ev_sequence ev \<le> next_sequence m"
    using seen by (simp_all add: store_seen_def)
  have wrap: "next_sequence m \<noteq> - 1" using m(5) by (simp add: u64_not_max_iff)
  have nxt: "unat (next_sequence m + 1) = Suc (unat (next_sequence m))" using wrap by (rule unat_u64_Suc)
  show ord: "ord = stamp now (next_sequence m + 1) (fresh_order oid t inp)" and sq: "sequence ord = next_sequence m + 1"
    using sh(1,9) by simp_all
  show ns: "next_sequence m' = sequence ord" using sh(2) sq by simp
  show ev: "events m' = events m @ [event_of ord ty]"
    using save m(3,4) by (auto simp: save_def Let_def split: prod.splits)
  show lt: "next_sequence m < sequence ord" unfolding word_less_nat_alt sq nxt by simp
  have "subscribers m' = []" using sh(6) by (simp add: m(1))
  moreover have "evicted_through m' = Map.empty" using save m(2,3,4) by (auto simp: save_def Let_def split: prod.splits)
  moreover have "\<forall>ev \<in> set (events m'). ev_sequence ev \<le> next_sequence m'"
    using m(6) lt by (auto simp: ev ns event_of_def)
  ultimately show "store_seen n m'"
    using m(4,5) nxt sh(3) by (simp add: store_seen_def m(3) ev ns sq)
qed

lemma placed_world:
  assumes ok: "service_ok w" and seen: "world_seen True c (Suc n) K w" and c: "c \<noteq> Open_now" and key: "key \<notin> K" "plain_key key"
  obtains ord w' p where "create_order background alpha key replay_input w = Some (Inr \<lparr>cr_order = ord, cr_replayed = False\<rparr>, w')"
    "clock w' \<le> clock w + 2 * second" "world_seen True (Closed_after 0) n (insert key K) w'"
    "slot_view (svc_idempotency (svc w')) (clock w') (alpha, key) = Done p (request_fingerprint replay_input) ord"
    "decodable ord" "tenant_id ord = alpha" "sequence ord = next_sequence (svc_store (svc w'))"
    "next_sequence (svc_store (svc w)) < sequence ord"
    "events (svc_store (svc w')) = events (svc_store (svc w)) @ [event_of ord ''order.confirmed'']"
proof -
  note S = world_seenD [OF seen]
  note valid = valid_replay [OF key(2)]
  have vac: "slot_view (svc_idempotency (svc w)) (clock w) (alpha, key) = Vacant" using S(5) key(1) by simp
  have due: "circuit (svc_breaker (svc w)) \<noteq> StateOpen \<or> opened_at (svc_breaker (svc w)) + 4 * second \<le> clock w"
    using S(6) c by (cases c) simp_all
  have "sim_mode (svc_dependency (svc w)) \<in> {mode_healthy, mode_flaky}" using S(3) by simp
  moreover have "unat (sim_calls (svc_dependency (svc w))) + 3 < 2 ^ 64" using S(4) by simp
  moreover have "done_at background = None" by (simp add: background_def)
  ultimately obtain ord w' where w': "create_order background alpha key replay_input w = Some (Inr \<lparr>cr_order = ord, cr_replayed = False\<rparr>, w')"
    "event_id ord = in_event_id replay_input" "quantity ord = in_quantity replay_input" "order_status ord = order_confirmed"
    "tenant_id ord = alpha" "circuit (svc_breaker (svc w')) = StateClosed" "consecutive_failures (svc_breaker (svc w')) = 0"
    using create_succeeds [OF ok valid _ vac due] by blast
  note F = create_frame [OF ok valid vac w'(1)]
  obtain k v where k: "k \<le> 3" "sim_calls (svc_dependency (svc w')) = sim_calls (svc_dependency (svc w)) + of_nat k"
    and saved: "save (clock w') (fresh_order (fst (new_id v)) alpha replay_input) ''order.confirmed'' (svc_store (svc w)) =
      (ord, svc_store (svc w'))"
    using reserve_before_store [OF ok w'(1)] by (auto simp: order_stored_def)
  note M = store_saved [OF S(7) saved]
  have time: "clock w' \<le> clock w + 2 * second" using app_latency [OF ok S(1) w'(1)] by (simp add: go_duration_defs)
  have calls: "unat (sim_calls (svc_dependency (svc w'))) \<le> unat (sim_calls (svc_dependency (svc w))) + 3"
    unfolding k(2) using k(1) by (rule calls_bound)
  obtain p where p: "slot_view (svc_idempotency (svc w')) (clock w') (alpha, key) = Done p (request_fingerprint replay_input) ord"
    using fresh_success_slot(2) [OF ok w'(1), of "clock w'"] by (auto simp: go_duration_defs)
  have dates: "json_time_ok (clock w')"
    using service_okD(5) [OF ok] F(2) time S(2) by (simp add: json_time_ok_def year_10000_def go_duration_defs)
  have dec: "decodable ord"
    using dates new_id_ascii [of v] w'(2-5) service_okD(5) [OF ok]
    by (simp add: decodable_def M(6) stamp_def fresh_order_def zero_order_def time_is_zero_def alpha_def replay_input_def
        order_confirmed_def in_int64_def int64_min_def int64_max_def ascii_def)
  have "world_seen True (Closed_after 0) n (insert key K) w'"
    using S(1,3,4,5) F M(1) time_left [OF S(2) time] calls w'(6,7) by (simp add: world_seen_def)
  from that [OF w'(1) time this p dec w'(5) M(4) [symmetric] M(5) M(2)] show thesis .
qed

lemma repeated_world:
  assumes ok: "service_ok w" and seen: "world_seen h c (Suc n) K w" and key: "plain_key key"
    and kept: "slot_view (svc_idempotency (svc w)) (clock w) (alpha, key) = Done p (request_fingerprint replay_input) ord"
  obtains w' where "create_order background alpha key replay_input w = Some (Inr \<lparr>cr_order = ord, cr_replayed = True\<rparr>, w')"
    "clock w' = clock w" "world_seen h c n K w'"
    "slot_view (svc_idempotency (svc w')) (clock w') (alpha, key) = Done p (request_fingerprint replay_input) ord"
proof -
  note R = service_okD [OF ok] and S = world_seenD [OF seen]
  obtain w' where w': "create_order background alpha key replay_input w = Some (Inr \<lparr>cr_order = ord, cr_replayed = True\<rparr>, w')"
    "clock w' = clock w" "svc_dependency (svc w') = svc_dependency (svc w)" "svc_breaker (svc w') = svc_breaker (svc w)"
    "svc_store (svc w') = svc_store (svc w)" "rands w' = rands w"
    "svc_idempotency (svc w') = snd (do_enter (clock w) (alpha, key) (request_fingerprint replay_input) (svc_idempotency (svc w)))"
    using create_cached [OF valid_replay [OF key] R(1) kept, of background] by (simp add: Let_def)
  have view: "slot_view (svc_idempotency (svc w')) now sc = slot_view (svc_idempotency (svc w)) now sc" if "clock w \<le> now" for now sc
    using that kept by (simp add: w'(7) enter_view [OF R(1)] enter_decision [OF R(1)])
  have "store_seen n (svc_store (svc w))" using S(7) by (simp add: store_seen_def)
  then have "world_seen h c n K w'"
    using S time_left_same [OF S(2)] by (simp add: world_seen_def w'(2-6) view)
  then show thesis using that w'(1,2) view [of "clock w"] kept by simp
qed

lemma failed_world:
  assumes ok: "service_ok w" and seen: "world_seen False (Closed_after f) (Suc n) K w" and key: "key \<notin> K" "plain_key key"
  obtains e w' where "create_order background alpha key replay_input w = Some (Inl (WrapDependency e), w')"
    "clock w' \<le> clock w + 2 * second" "world_seen False (if f < 2 then Closed_after (Suc f) else Open_now) n K w'"
proof -
  note S = world_seenD [OF seen]
  note valid = valid_replay [OF key(2)]
  have vac: "slot_view (svc_idempotency (svc w)) (clock w) (alpha, key) = Vacant" using S(5) key(1) by simp
  have closed: "circuit (svc_breaker (svc w)) = StateClosed" "consecutive_failures (svc_breaker (svc w)) = int f" "f < 3"
    using S(6) by simp_all
  have bad: "sim_mode (svc_dependency (svc w)) \<in> {mode_slow, mode_unavailable}" using S(3) by simp
  obtain res w' where w': "create_order background alpha key replay_input w = Some (res, w')"
    by (rule service_ok_create [OF ok], rule that)
  note F = create_frame [OF ok valid vac w'] and X = failing_request [OF ok valid vac bad closed(1) w']
  obtain e where e: "res = Inl (WrapDependency e)" using X(1) by blast
  obtain k where k: "k \<le> 3" "sim_calls (svc_dependency (svc w')) = sim_calls (svc_dependency (svc w)) + of_nat k"
    using reserve_before_store [OF ok w'] by blast
  have calls: "unat (sim_calls (svc_dependency (svc w'))) \<le> unat (sim_calls (svc_dependency (svc w))) + 3"
    unfolding k(2) using k(1) by (rule calls_bound)
  have time: "clock w' \<le> clock w + 2 * second" using app_latency [OF ok S(1) w'] by (simp add: go_duration_defs)
  have slots: "slot_view (svc_idempotency (svc w')) now (alpha, k) = Vacant" if "clock w' \<le> now" "k \<notin> K" for now k
    using X(5) F(4) [of now "(alpha, k)"] S(5) [of now k] that F(2) by (cases "k = key") simp_all
  have "circuit_seen (if f < 2 then Closed_after (Suc f) else Open_now) (clock w') (svc_breaker (svc w'))"
    using X(6) closed by (auto split: if_splits)
  moreover have "store_seen n (svc_store (svc w'))" using S(7) by (simp add: store_seen_def X(3))
  ultimately have "world_seen False (if f < 2 then Closed_after (Suc f) else Open_now) n K w'"
    using S(1,3,4) F(1,3) time_left [OF S(2) time] calls slots by (simp add: world_seen_def)
  with w' e time show thesis by (intro that) simp_all
qed

lemma refused_world:
  assumes ok: "service_ok w" and seen: "world_seen h Open_now (Suc n) K w" and key: "key \<notin> K" "plain_key key"
  obtains e w' where "create_order background alpha key replay_input w = Some (Inl (WrapDependency e), w')"
    "clock w' = clock w" "world_seen h Open_now n K w'"
proof -
  note S = world_seenD [OF seen]
  note valid = valid_replay [OF key(2)]
  have vac: "slot_view (svc_idempotency (svc w)) (clock w) (alpha, key) = Vacant" using S(5) key(1) by simp
  have opn: "circuit (svc_breaker (svc w)) = StateOpen" "clock w < opened_at (svc_breaker (svc w)) + 4 * second"
    using S(6) second_pos by simp_all
  obtain w' where w': "create_order background alpha key replay_input w = Some (Inl (WrapDependency ErrCircuitOpen), w')"
    "svc_dependency (svc w') = svc_dependency (svc w)" "svc_store (svc w') = svc_store (svc w)" "clock w' = clock w"
    "svc_breaker (svc w') = svc_breaker (svc w)"
    by (rule create_open_circuit [OF ok valid vac opn, of background], rule that)
  note F = create_frame [OF ok valid vac w'(1)]
  have "slot_view (svc_idempotency (svc w')) now (alpha, k) = Vacant" if "clock w \<le> now" "k \<notin> K" for now k
  proof (cases "k = key")
    case True
    then show ?thesis using refused_slot [OF ok valid vac w'(1)] by simp
  next
    case False
    then show ?thesis using F(4) [of now "(alpha, k)"] S(5) that by simp
  qed
  moreover have "store_seen n (svc_store (svc w))" using S(7) by (simp add: store_seen_def)
  ultimately have "world_seen h Open_now n K w'"
    using S F(1) w' time_left_same [OF S(2)] by (simp add: world_seen_def)
  with w' show thesis by (intro that) simp_all
qed

end
