(* ===== verification/Replay_Passes.thy ===== *)
theory Replay_Passes
  imports Replay_Lab
begin

text \<open>
  The acceptance tool against the lab server: what the server is between two requests of the tool, that it
  keeps every law of \<open>order_site\<close>, and so that the tool passes on a fresh server.
\<close>

section \<open>What no request changes\<close>

text \<open>The configuration of the server, and the randomness of its retries.\<close>

definition configured :: "lab \<Rightarrow> bool" where
  "configured l \<longleftrightarrow> demo_mode l \<and> api_keys l = server_keys \<and> 25 \<le> burst (key_limiter l) \<and> 25 \<le> burst (tenant_limiter l) \<and>
     25 \<le> burst (ip_limiter l) \<and> (\<forall>i. 0 \<le> rands (world l) i \<and> rands (world l) i \<le> 1) \<and> retention (svc_store (svc (world l))) = 500"

lemma configured_world:
  "configured l \<Longrightarrow> rands w = rands (world l) \<Longrightarrow> retention (svc_store (svc w)) = retention (svc_store (svc (world l))) \<Longrightarrow>
    configured (l\<lparr>world := w\<rparr>)"
  by (simp add: configured_def)

lemma place_order_standing:
  "rands (snd (place_order c t inp w)) = rands w \<and>
   retention (svc_store (svc (snd (place_order c t inp w)))) = retention (svc_store (svc w))"
proof (rule place_order_cases [where c = c and t = t and inp = inp and w = w])
  fix k e assume "reserved k w (snd (place_order c t inp w))"
  from reservedD [OF this] reserved_rands [OF this] show ?thesis by simp
next
  fix k w2 oid assume r: "reserved k w w2" and p: "place_order c t inp w =
      (Inr (fst (save (clock w2) (fresh_order oid t inp) ''order.confirmed'' (svc_store (svc w)))),
       w2\<lparr>id_pos := Suc (id_pos w2), svc := (svc w2)\<lparr>svc_store :=
         snd (save (clock w2) (fresh_order oid t inp) ''order.confirmed'' (svc_store (svc w)))\<rparr>\<rparr>)"
  obtain ord m where "save (clock w2) (fresh_order oid t inp) ''order.confirmed'' (svc_store (svc w)) = (ord, m)" by fastforce
  with save_shape(3) [OF this] reserved_rands [OF r] p show ?thesis by simp
qed

lemma create_standing:
  assumes ok: "service_ok w" and create: "create_order c t k inp w = Some (res, w')"
  shows "rands w' = rands w" "retention (svc_store (svc w')) = retention (svc_store (svc w))"
proof -
  note R = service_okD [OF ok]
  have "rands w' = rands w \<and> retention (svc_store (svc w')) = retention (svc_store (svc w))"
  proof (cases "valid_input t k inp")
    case False
    with create create_invalid [OF False, of c w] show ?thesis by auto
  next
    case True
    show ?thesis
    proof (rule settled_cases [OF R(2), of "clock w" "(t, k)"])
      assume vac: "slot_view (svc_idempotency (svc w)) (clock w) (t, k) = Vacant"
      obtain r1 w1 where pl: "place_order c t inp (counted w) = (r1, w1)" by fastforce
      show ?thesis
        using create create_vacant [OF True R(1) vac pl] place_order_standing [of c t inp "counted w"] pl
        by (cases r1) (auto simp: Let_def)
    next
      fix p f v assume "slot_view (svc_idempotency (svc w)) (clock w) (t, k) = Done p f v"
      then show ?thesis using create create_cached [OF True R(1), of p f v c] by (auto simp: Let_def split: if_splits)
    qed
  qed
  then show "rands w' = rands w" "retention (svc_store (svc w')) = retention (svc_store (svc w))" by simp_all
qed

lemma operation_standing:
  assumes "app_step x w = Some w'" and "service_ok w"
  shows "rands w' = rands w" "retention (svc_store (svc w')) = retention (svc_store (svc w))"
  using assms create_standing [OF assms(2)]
  by (cases x; auto simp: set_fault_mode_def mark_rate_limited_def ready_def take_snapshot_def service_circuit_shape
      sync_circuit_metric_state_def reset_service_def sync_circuit_metric_def reset_memory_def Let_def split: prod.splits)+

lemma configured_op:
  assumes "configured l" and "lab_ok l" and "app_step x (world l) = Some w"
  shows "configured (l\<lparr>world := w\<rparr>)"
  using operation_standing [OF assms(3) lab_okD(1) [OF assms(2)]] by (intro configured_world [OF assms(1)])

lemma configured_create:
  assumes "configured l" and "service_ok (world l)" and "create_order_handler r l = Some (resp, l')"
  shows "configured l'"
  using assms(1,3) create_standing [OF assms(2)]
  by (auto simp: create_order_handler_def split: sum.splits option.splits intro!: configured_world [of l])

lemma configured_limited:
  assumes "configured l" and "lab_ok l" and "rate_limit create_order_handler r l = Some (resp, l')"
  shows "configured l'"
proof (cases rule: rate_limit_cases [OF assms(2), of create_order_handler r])
  case 1
  have "configured (charged r l)" using assms(1) by (simp add: configured_def charged_def)
  then show ?thesis using configured_create [of "charged r l" r resp l'] lab_okD(1) [OF assms(2)] assms(3) 1(1) by simp
next
  case (2 kl tl il)
  then show ?thesis using assms(1,3) by (auto simp: configured_def)
qed

lemma configured_dispatch:
  assumes conf: "configured l" and ok: "lab_ok l" and d: "dispatch external accepted r l = Some (resp, l')"
  shows "configured l'"
proof -
  have conf_op: "configured (l\<lparr>world := w\<rparr>)" if "app_step x (world l) = Some w" for x w
    using configured_op [OF conf ok that] .
  have view: "configured l2" if "configured l1" "dependency_view l1 = (dep, l2)" for l1 l2 dep
    using that by (auto simp: dependency_view_def take_snapshot_def service_circuit_shape sync_circuit_metric_state_def Let_def
        configured_def)
  have set: "configured (l\<lparr>world := w\<rparr>)" if "set_fault_mode m (world l) = (e, w)" for m e w
    using conf_op [of "Set_fault m" w] that by simp
  have fault: "configured l'" if "set_fault_handler r l = Some (resp, l')"
    using that conf by (auto simp: set_fault_handler_def split: option.splits prod.splits if_splits intro: view set)
  have readiness: "configured l'" if "ready_handler r l = Some (resp, l')"
    using that conf_op [of Read_ready] by (auto simp: ready_handler_def split: prod.splits intro: view)
  have snapshot: "configured l'" if "snapshot_handler r l = Some (resp, l')"
    using that conf_op [of Read_snapshot] by (auto simp: snapshot_handler_def split: prod.splits)
  have reset: "configured l'" if "reset_handler r l = Some (resp, l')"
    using that conf_op [of Reset_all] by (auto simp: reset_handler_def configured_def reset_limiter_def)
  have stream: "configured l'" if "stream_handler a r' l = Some (resp, l')" for a r'
    using that conf
    by (auto simp: stream_handler_def stream_open_def service_subscribe_since_def subscribe_since_def end_subscription_def
        cancel_def configured_def Let_def split: prod.splits if_splits option.splits)
  show ?thesis
    using d conf configured_limited [OF conf ok]
    by (auto simp: dispatch_def auth_def demo_def health_def list_orders_handler_def get_order_handler_def
        dest: fault readiness snapshot reset stream split: endpoint.splits option.splits if_splits)
qed

lemma configured_serve:
  assumes "configured l" and "lab_ok l" and "serve external accepted r l = Some (resp, l')"
  shows "configured l'"
proof -
  obtain l1 h d where "dispatch external accepted r l = Some (resp, l1)" "l' = l1\<lparr>http_requests := h, request_durations := d\<rparr>"
  proof (cases "dispatch external accepted r l")
    case None
    then show thesis using assms(3) by (simp add: serve_def observe_def)
  next
    case (Some a)
    obtain resp1 l1 where a: "dispatch external accepted r l = Some (resp1, l1)" using Some by (cases a) simp
    from serve_shape [OF a] show thesis using that assms(3) a by auto
  qed
  with configured_dispatch [OF assms(1,2)] show ?thesis by (simp add: configured_def)
qed

lemma configured_run:
  "configured l \<Longrightarrow> lab_ok l \<Longrightarrow> api_run external accepted rs l = Some (resps, l') \<Longrightarrow> configured l'"
proof (induction rs arbitrary: l resps)
  case Nil
  then show ?case by simp
next
  case (Cons x rs)
  obtain pause r where x: "x = (pause, r)" by (cases x)
  let ?l = "l\<lparr>world := (world l)\<lparr>clock := clock (world l) + int pause\<rparr>\<rparr>"
  have ok: "lab_ok ?l" by (rule lab_ok_op(1) [OF Cons.prems(2), of "Pass pause"]) simp_all
  have conf: "configured ?l" by (rule configured_op [OF Cons.prems(1,2), of "Pass pause"]) simp
  obtain resp l1 where s: "serve external accepted r ?l = Some (resp, l1)" "lab_ok l1" by (rule lab_ok_serve [OF ok])
  obtain resps' where "api_run external accepted rs l1 = Some (resps', l')" using Cons.prems(3) s(1) by (auto simp: x)
  then show ?case using Cons.IH [OF configured_serve [OF conf ok s(1)] s(2)] by blast
qed

lemma configured_new:
  assumes "svc w = new_service (new_memory 500) d (clock w)" and "equal_fold (env ''DEMO_MODE'') ''true''"
    and "\<forall>i. 0 \<le> rands w i \<and> rands w i \<le> 1"
  shows "configured (new_server env w)"
  using assms
  by (simp add: configured_def new_server_def server_limiter_def new_token_bucket_limiter_def new_service_def new_memory_def)

section \<open>The server as a site\<close>

definition replay_site :: "bool \<Rightarrow> site_circuit \<Rightarrow> nat \<Rightarrow> string set \<Rightarrow> lab_site \<Rightarrow> bool" where
  "replay_site h c n K s \<longleftrightarrow> admits n (st_lab s) \<and> world_seen h c n K (world (st_lab s))"

definition kept_order :: "string \<Rightarrow> order \<Rightarrow> lab_site \<Rightarrow> bool" where
  "kept_order key ord s \<longleftrightarrow> decodable ord \<and>
     (\<exists>p. slot_view (svc_idempotency (svc (world (st_lab s)))) (clock (world (st_lab s))) (alpha, key) =
        Done p (request_fingerprint replay_input) ord)"

definition log_after :: "order \<Rightarrow> order list \<Rightarrow> lab_site \<Rightarrow> bool" where
  "log_after o' os s \<longleftrightarrow> (\<forall>ord \<in> set os. decodable ord) \<and> sequence o' \<le> next_sequence (svc_store (svc (world (st_lab s)))) \<and>
     filter (\<lambda>ev. ev_tenant ev = alpha \<and> sequence o' < ev_sequence ev) (events (svc_store (svc (world (st_lab s))))) =
       map (\<lambda>ord. event_of ord ''order.confirmed'') os"

definition site_up :: "lab_site \<Rightarrow> bool" where
  "site_up s \<longleftrightarrow> lab_ok (st_lab s) \<and> configured (st_lab s) \<and> clock (world (st_lab s)) + 50 * second < year_10000"

lemma replay_siteD:
  assumes "replay_site h c n K s"
  shows "admits n (st_lab s)" "world_seen h c n K (world (st_lab s))" "service_ok (world (st_lab s))"
  using assms by (simp_all add: replay_site_def admits_def lab_ok_def)

lemma second_times: "4200 * millisecond \<le> 6 * second" "4 * second \<le> 4200 * millisecond" "0 \<le> 4200 * millisecond"
  by (simp_all add: go_duration_defs)

section \<open>Requests for orders\<close>

lemma site_placed:
  assumes site: "replay_site True c n K s" and n: "0 < n" and c: "c \<noteq> Open_now" and key: "key \<notin> K" "plain_key key"
  shows "\<exists>ord s'. replay_create (lab_web base external) base key s = ((\<lparr>cr_order = ord, cr_replayed = False\<rparr>, 201, None), s') \<and>
    replay_site True (Closed_after 0) (n - 1) (insert key K) s' \<and> kept_order key ord s' \<and> log_after ord [] s' \<and>
    (\<forall>o' os. log_after o' os s \<longrightarrow> log_after o' (os @ [ord]) s')"
proof -
  obtain m where m: "n = Suc m" using n by (cases n) simp_all
  note S = replay_siteD [OF site [unfolded m]]
  obtain ord w' p where w': "create_order background alpha key replay_input (world (st_lab s)) =
      Some (Inr \<lparr>cr_order = ord, cr_replayed = False\<rparr>, w')"
    and time: "clock w' \<le> clock (world (st_lab s)) + 2 * second"
    and W: "world_seen True (Closed_after 0) m (insert key K) w'"
      "slot_view (svc_idempotency (svc w')) (clock w') (alpha, key) = Done p (request_fingerprint replay_input) ord"
      "decodable ord" "tenant_id ord = alpha" "sequence ord = next_sequence (svc_store (svc w'))"
      "next_sequence (svc_store (svc (world (st_lab s)))) < sequence ord"
      "events (svc_store (svc w')) = events (svc_store (svc (world (st_lab s)))) @ [event_of ord ''order.confirmed'']"
    by (rule placed_world [OF S(3,2) c key])
  obtain l' where l': "world l' = w'" "admits m l'"
    "replay_create (lab_web base external) base key s = ((\<lparr>cr_order = ord, cr_replayed = False\<rparr>, 201, None), s\<lparr>st_lab := l'\<rparr>)"
    using site_create [OF S(1) key(2) w' time, of base external] W(3) by auto
  have seqs: "\<forall>ev \<in> set (events (svc_store (svc w'))). ev_sequence ev \<le> sequence ord"
    using world_seenD(7) [OF W(1)] W(5) by (simp add: store_seen_def)
  have "log_after ord [] (s\<lparr>st_lab := l'\<rparr>)"
    using seqs by (auto simp: log_after_def l'(1) W(5) filter_empty_conv)
  moreover have "log_after o' (os @ [ord]) (s\<lparr>st_lab := l'\<rparr>)" if "log_after o' os s" for o' os
    using that W(3-6) by (auto simp: log_after_def l'(1) W(7) event_of_def)
  moreover have "kept_order key ord (s\<lparr>st_lab := l'\<rparr>)" using W(2,3) by (auto simp: kept_order_def l'(1))
  moreover have "replay_site True (Closed_after 0) (n - 1) (insert key K) (s\<lparr>st_lab := l'\<rparr>)"
    using l'(2) W(1) by (simp add: replay_site_def l'(1) m)
  ultimately show ?thesis using l'(3) by blast
qed

lemma site_repeated:
  assumes site: "replay_site True c n K s" and n: "0 < n" and kept: "kept_order key ord s" and key: "plain_key key"
  shows "\<exists>s'. replay_create (lab_web base external) base key s = ((\<lparr>cr_order = ord, cr_replayed = True\<rparr>, 200, None), s') \<and>
    replay_site True c (n - 1) K s' \<and> kept_order key ord s'"
proof -
  obtain m where m: "n = Suc m" using n by (cases n) simp_all
  note S = replay_siteD [OF site [unfolded m]]
  obtain p where p: "decodable ord" "slot_view (svc_idempotency (svc (world (st_lab s)))) (clock (world (st_lab s))) (alpha, key) =
      Done p (request_fingerprint replay_input) ord" using kept by (auto simp: kept_order_def)
  obtain w' where w': "create_order background alpha key replay_input (world (st_lab s)) =
      Some (Inr \<lparr>cr_order = ord, cr_replayed = True\<rparr>, w')" and time: "clock w' = clock (world (st_lab s))"
    and W: "world_seen True c m K w'"
      "slot_view (svc_idempotency (svc w')) (clock w') (alpha, key) = Done p (request_fingerprint replay_input) ord"
    by (rule repeated_world [OF S(3,2) key p(2)])
  have soon: "clock w' \<le> clock (world (st_lab s)) + 2 * second" using time by (simp add: go_duration_defs)
  obtain l' where l': "world l' = w'" "admits m l'"
    "replay_create (lab_web base external) base key s = ((\<lparr>cr_order = ord, cr_replayed = True\<rparr>, 200, None), s\<lparr>st_lab := l'\<rparr>)"
    using site_create [OF S(1) key w' soon, of base external] p(1) by auto
  have "replay_site True c (n - 1) K (s\<lparr>st_lab := l'\<rparr>)" "kept_order key ord (s\<lparr>st_lab := l'\<rparr>)"
    using l'(1,2) W p(1) by (auto simp: replay_site_def kept_order_def m)
  with l'(3) show ?thesis by blast
qed

lemma site_unavailable:
  assumes site: "replay_site h c (Suc m) K s" and key: "plain_key key"
    and w': "create_order background alpha key replay_input (world (st_lab s)) = Some (Inl (WrapDependency e), w')"
    and time: "clock w' \<le> clock (world (st_lab s)) + 2 * second" and seen: "world_seen h c' m K w'"
  shows "\<exists>r e' s'. replay_create (lab_web base external) base key s = ((r, 503, e'), s') \<and> replay_site h c' m K s'"
proof -
  obtain l' e' where "world l' = w'" "admits m l'"
    "replay_create (lab_web base external) base key s = ((zero_result, 503, e'), s\<lparr>st_lab := l'\<rparr>)"
    using site_create [OF replay_siteD(1) [OF site] key w' time, of base external] by auto
  with seen show ?thesis by (auto simp: replay_site_def)
qed

lemma site_failed:
  assumes site: "replay_site False (Closed_after f) n K s" and n: "0 < n" and key: "key \<notin> K" "plain_key key"
  shows "\<exists>r e s'. replay_create (lab_web base external) base key s = ((r, 503, e), s') \<and>
    replay_site False (if f < 2 then Closed_after (Suc f) else Open_now) (n - 1) K s'"
proof -
  obtain m where m: "n = Suc m" using n by (cases n) simp_all
  note S = replay_siteD [OF site [unfolded m]]
  show ?thesis
    by (rule failed_world [OF S(3,2) key], unfold m diff_Suc_1) (rule site_unavailable [OF site [unfolded m] key(2)])
qed

lemma site_refused:
  assumes site: "replay_site h Open_now n K s" and n: "0 < n" and key: "key \<notin> K" "plain_key key"
  shows "\<exists>r e s'. replay_create (lab_web base external) base key s = ((r, 503, e), s') \<and> replay_site h Open_now (n - 1) K s'"
proof -
  obtain m where m: "n = Suc m" using n by (cases n) simp_all
  note S = replay_siteD [OF site [unfolded m]]
  obtain e w' where w': "create_order background alpha key replay_input (world (st_lab s)) = Some (Inl (WrapDependency e), w')"
    "clock w' = clock (world (st_lab s))" "world_seen h Open_now m K w'"
    by (rule refused_world [OF S(3,2) key])
  have "clock w' \<le> clock (world (st_lab s)) + 2 * second" using w'(2) by (simp add: go_duration_defs)
  from site_unavailable [OF site [unfolded m] key(2) w'(1) this w'(3)] show ?thesis by (simp add: m)
qed

section \<open>Requests to the demo\<close>

lemma site_answer:
  assumes "dispatch external (\<lambda>_. None) (site_request mth path hs body) (st_lab s) = Some (resp, l)"
    and "clock (world l) = clock (world (st_lab s))"
  shows "\<exists>h d. site_do base external \<lparr>hc_method = mth, hc_url = base @ path, hc_headers = hs, hc_body = body\<rparr> s =
    (Inr \<lparr>hr_status = rs_status resp, hr_body = reply_body (rs_body resp)\<rparr>, s\<lparr>st_lab := l\<lparr>http_requests := h, request_durations := d\<rparr>\<rparr>)"
proof -
  have "\<not> clock (world (st_lab s)) + 4 * second < clock (world l)" using assms(2) by (simp add: go_duration_defs)
  moreover obtain h d where "serve external (\<lambda>_. None) (site_request mth path hs body) (st_lab s) =
      Some (resp, l\<lparr>http_requests := h, request_durations := d\<rparr>)" using serve_shape [OF assms(1)] by blast
  ultimately show ?thesis by (intro exI [of _ h] exI [of _ d]) (simp add: site_do_def)
qed

lemma metrics_apart [simp]:
  "admits n (l\<lparr>http_requests := h, request_durations := d\<rparr>) \<longleftrightarrow> admits n l"
  by (simp add: admits_def lab_ok_def)

lemma site_parts [simp]:
  "rq_endpoint (site_request mth path hs body) = mux_endpoint mth (takeWhile (\<lambda>c. c \<noteq> CHR ''?'') path)"
  "rq_body (site_request mth path hs (Some j)) = one_value j"
  by (simp_all add: site_request_def Let_def)

lemma site_endpoints [simp]:
  "mux_endpoint ''POST'' ''/v1/demo/reset'' = Ep_reset" "mux_endpoint ''POST'' ''/v1/demo/fault'' = Ep_fault"
  "mux_endpoint ''GET'' ''/v1/demo/snapshot'' = Ep_snapshot" "mux_endpoint ''GET'' ''/v1/stream'' = Ep_stream"
  by (simp_all add: mux_endpoint_def)

lemma room_limiters: "25 \<le> burst l \<Longrightarrow> limiter_ok l \<Longrightarrow> room (reset_limiter l) k 25"
  by (rule room_reset) simp_all

lemma reset_seen:
  assumes "\<forall>i. 0 \<le> rands w i \<and> rands w i \<le> 1" and "clock w + 50 * second < year_10000" and "retention (svc_store (svc w)) = 500"
  shows "world_seen True (Closed_after 0) 25 {} (reset_service w)"
proof -
  have r: "rands (reset_service w) = rands w" "svc_dependency (svc (reset_service w)) = reset_simulator (svc_dependency (svc w))"
    by (simp_all add: reset_service_def sync_circuit_metric_def service_circuit_shape sync_circuit_metric_state_def)
  show ?thesis
    using assms
    by (simp add: world_seen_def r reset_shape reset_simulator_def slot_view_def service_registry_ok(3) breaker_state_def
        advance_state_def reset_breaker_def store_seen_def reset_memory_def)
qed

lemma site_reset:
  assumes "site_up s"
  shows "\<exists>s'. post_json (lab_web base external) base ''/v1/demo/reset'' None None () s = ((None, ()), s') \<and>
    replay_site True (Closed_after 0) 25 {} s'"
proof -
  note up = assms [unfolded site_up_def configured_def]
  note L = lab_okD [OF conjunct1 [OF up]]
  let ?r = "site_request ''POST'' ''/v1/demo/reset'' [(''Content-Type'', ''application/json'')] None"
  let ?l = "(st_lab s)\<lparr>world := reset_service (world (st_lab s)), tenant_limiter := reset_limiter (tenant_limiter (st_lab s)),
     key_limiter := reset_limiter (key_limiter (st_lab s)), ip_limiter := reset_limiter (ip_limiter (st_lab s))\<rparr>"
  have d: "dispatch external (\<lambda>_. None) ?r (st_lab s) = Some (write_json 200 (Status_body ''reset''), ?l)"
    using up by (simp add: dispatch_def demo_def reset_handler_def)
  obtain resp l' where "dispatch external (\<lambda>_. None) ?r (st_lab s) = Some (resp, l')" "lab_ok l'"
    by (rule lab_ok_dispatch [OF conjunct1 [OF up]])
  then have ok: "lab_ok ?l" using d by simp
  have "clock (world ?l) = clock (world (st_lab s))" by (simp add: reset_shape)
  from site_answer [OF d this, of base] obtain h e where
    "site_do base external \<lparr>hc_method = ''POST'', hc_url = base @ ''/v1/demo/reset'', hc_headers = [(''Content-Type'', ''application/json'')],
       hc_body = None\<rparr> s = (Inr \<lparr>hr_status = 200, hr_body = reply_body (Status_body ''reset'')\<rparr>,
       s\<lparr>st_lab := ?l\<lparr>http_requests := h, request_durations := e\<rparr>\<rparr>)"
    by (auto simp: write_json_def)
  then have "post_json (lab_web base external) base ''/v1/demo/reset'' None None () s =
      ((None, ()), s\<lparr>st_lab := ?l\<lparr>http_requests := h, request_durations := e\<rparr>\<rparr>)"
    by (simp add: post_json_def checked_json_def request_json_def)
  moreover have "admits 25 ?l" using ok up L by (simp add: admits_def room_limiters)
  moreover have "world_seen True (Closed_after 0) 25 {} (reset_service (world (st_lab s)))" using up by (intro reset_seen) simp_all
  ultimately show ?thesis by (auto simp: replay_site_def)
qed

text \<open>Reading the circuit changes nothing while its timeout has not passed.\<close>

lemma circuit_read:
  assumes "service_ok w" and "circuit_seen c (clock w) (svc_breaker (svc w))" and "c \<noteq> Retry_due"
  shows "advance_state (clock w) (svc_breaker (svc w)) = svc_breaker (svc w)"
  using service_okD(4) [OF assms(1)] assms(2,3) by (cases c) (simp_all add: advance_state_def breaker_configured_def second_def)

lemma snapshot_taken:
  assumes "service_ok w" and "circuit_seen c (clock w) (svc_breaker (svc w))" and "c \<noteq> Retry_due"
  shows "sn_circuit_state (fst (take_snapshot w)) = circuit_state_string (circuit (svc_breaker (svc w)))"
    and "world_seen h c n K w \<Longrightarrow> world_seen h c n K (snd (take_snapshot w))"
    and "clock (snd (take_snapshot w)) = clock w"
  using circuit_read [OF assms]
  by (simp_all add: take_snapshot_def service_circuit_shape sync_circuit_metric_state_def breaker_state_def Let_def world_seen_def)

lemma admits_world: "admits n l \<Longrightarrow> lab_ok (l\<lparr>world := w\<rparr>) \<Longrightarrow> admits n (l\<lparr>world := w\<rparr>)"
  by (simp add: admits_def)

lemma mode_set:
  assumes "world_seen h c n K w"
  shows "\<exists>w'. set_fault_mode (if g then ''healthy'' else ''unavailable'') w = (None, w') \<and> world_seen g c n K w' \<and>
    clock w' = clock w \<and> svc_breaker (svc w') = svc_breaker (svc w)"
  using assms by (cases g) (simp_all add: set_fault_mode_def set_mode_def mode_defs world_seen_def)

lemma site_mode:
  assumes site: "replay_site h c n K s" and c: "c \<noteq> Retry_due"
  shows "\<exists>s'. switch_mode (lab_web base external) base (if g then ''healthy'' else ''unavailable'') s = (None, s') \<and>
    replay_site g c n K s'"
proof -
  note S = replay_siteD [OF site]
  let ?mode = "if g then ''healthy'' else ''unavailable''"
  let ?r = "site_request ''POST'' ''/v1/demo/fault'' [(''Content-Type'', ''application/json'')] (Some (JObject [(''mode'', JString ?mode)]))"
  obtain w' where w': "set_fault_mode ?mode (world (st_lab s)) = (None, w')" "world_seen g c n K w'"
    "clock w' = clock (world (st_lab s))" "svc_breaker (svc w') = svc_breaker (svc (world (st_lab s)))"
    using mode_set [OF S(2), of g] by blast
  have ok: "lab_ok ((st_lab s)\<lparr>world := w'\<rparr>)" using lab_ok_fault [OF admitsD(1) [OF S(1)] w'(1)] .
  have ok': "service_ok w'" using lab_okD(1) [OF ok] by simp
  note T = snapshot_taken(2,3) [OF ok' world_seenD(6) [OF w'(2)] c]
  let ?l = "(st_lab s)\<lparr>world := snd (take_snapshot w')\<rparr>"
  obtain dep where view: "dependency_view ((st_lab s)\<lparr>world := w'\<rparr>) = (dep, ?l)"
    by (cases "take_snapshot w'") (auto simp: dependency_view_def)
  have body: "decode_first mode_decoder [] (rq_body ?r) = Some ?mode" "at_end (rq_body ?r)"
    by (simp_all add: mode_decoder_def dec_struct_def dec_member_def)
  have d: "dispatch external (\<lambda>_. None) ?r (st_lab s) = Some (write_json 200 (Dependency_body dep), ?l)"
    using admitsD(2) [OF S(1)] body w'(1) view
    by (simp add: dispatch_def demo_def set_fault_handler_def del: site_parts(2))
  have "clock (world ?l) = clock (world (st_lab s))" using T(2) w'(3) by simp
  from site_answer [OF d this, of base] obtain e1 e2 where
    "site_do base external \<lparr>hc_method = ''POST'', hc_url = base @ ''/v1/demo/fault'', hc_headers = [(''Content-Type'', ''application/json'')],
       hc_body = Some (JObject [(''mode'', JString ?mode)])\<rparr> s = (Inr \<lparr>hr_status = 200, hr_body = reply_body (Dependency_body dep)\<rparr>,
       s\<lparr>st_lab := ?l\<lparr>http_requests := e1, request_durations := e2\<rparr>\<rparr>)"
    by (auto simp: write_json_def)
  then have "switch_mode (lab_web base external) base ?mode s =
      (None, s\<lparr>st_lab := ?l\<lparr>http_requests := e1, request_durations := e2\<rparr>\<rparr>)"
    by (simp add: switch_mode_def post_json_def checked_json_def request_json_def)
  moreover have "admits n ?l"
    using lab_ok_view [OF ok view] by (intro admits_world [OF S(1)])
  moreover have "world_seen g c n K (snd (take_snapshot w'))" using T(1) w'(2) .
  ultimately show ?thesis by (auto simp: replay_site_def)
qed

lemma site_seen:
  assumes site: "replay_site h Open_now n K s"
  shows "\<exists>s'. get_json (lab_web base external) base ''/v1/demo/snapshot'' (Some snapshot_decoder) [] s = ((None, ''open''), s') \<and>
    replay_site h Open_now n K s'"
proof -
  note S = replay_siteD [OF site]
  note T = snapshot_taken [OF S(3) world_seenD(6) [OF S(2)]]
  let ?r = "site_request ''GET'' ''/v1/demo/snapshot'' [(''Content-Type'', ''application/json'')] None"
  obtain sn w' where snap: "take_snapshot (world (st_lab s)) = (sn, w')" by fastforce
  let ?l = "(st_lab s)\<lparr>world := w'\<rparr>"
  have opn: "sn_circuit_state sn = ''open''" using T(1) world_seenD(6) [OF S(2)] snap by simp
  have d: "dispatch external (\<lambda>_. None) ?r (st_lab s) = Some (write_json 200 (Snapshot_body sn), ?l)"
    using admitsD(2) [OF S(1)] snap by (simp add: dispatch_def demo_def snapshot_handler_def)
  have "clock (world ?l) = clock (world (st_lab s))" using T(3) snap by simp
  from site_answer [OF d this, of base] obtain e1 e2 where
    "site_do base external \<lparr>hc_method = ''GET'', hc_url = base @ ''/v1/demo/snapshot'', hc_headers = [(''Content-Type'', ''application/json'')],
       hc_body = None\<rparr> s = (Inr \<lparr>hr_status = 200, hr_body = reply_body (Snapshot_body sn)\<rparr>,
       s\<lparr>st_lab := ?l\<lparr>http_requests := e1, request_durations := e2\<rparr>\<rparr>)"
    by (auto simp: write_json_def)
  moreover have "decode_into snapshot_decoder [] (reply_body (Snapshot_body sn)) = (''open'', True)"
    using snapshot_decoded [of sn] by (simp add: opn ascii_def)
  ultimately have "get_json (lab_web base external) base ''/v1/demo/snapshot'' (Some snapshot_decoder) [] s =
      ((None, ''open''), s\<lparr>st_lab := ?l\<lparr>http_requests := e1, request_durations := e2\<rparr>\<rparr>)"
    by (simp add: get_json_def checked_json_def request_json_def)
  moreover have "admits n ?l"
    using lab_ok_op(1) [OF admitsD(1) [OF S(1)], of Read_snapshot w'] snap by (intro admits_world [OF S(1)]) simp_all
  moreover have "world_seen h Open_now n K w'" using T(2) S(2) snap by simp
  ultimately show ?thesis by (auto simp: replay_site_def)
qed

section \<open>Sleeping\<close>

lemma site_slept:
  assumes site: "replay_site h Open_now n K s" and n: "3 \<le> n"
  shows "replay_site h Retry_due (n - 3) K (web_sleep (lab_web base external) (4200 * millisecond) s)"
proof -
  note S = replay_siteD [OF site] and W = world_seenD [OF replay_siteD(2) [OF site]]
  define w where "w = world (st_lab s)"
  let ?w = "w\<lparr>clock := clock w + 4200 * millisecond\<rparr>"
  have shape: "web_sleep (lab_web base external) (4200 * millisecond) s = s\<lparr>st_lab := (st_lab s)\<lparr>world := ?w\<rparr>\<rparr>"
    using second_times by (simp add: pass_time_def w_def max_def)
  obtain m where m: "n = m + 3" using n le_Suc_ex by (metis add.commute)
  have "lab_ok ((st_lab s)\<lparr>world := ?w\<rparr>)"
    using lab_ok_op(1) [OF admitsD(1) [OF S(1)], of "Pass (nat (4200 * millisecond))" ?w] second_times by (simp add: w_def)
  then have "admits m ((st_lab s)\<lparr>world := ?w\<rparr>)"
    using S(1) unfolding admits_def m by (auto intro: room_less)
  moreover have "world_seen h Retry_due m K ?w"
  proof -
    have "clock w + 4200 * millisecond + int m * (2 * second) < year_10000"
      using W(2) by (simp add: m w_def go_duration_defs algebra_simps)
    moreover have "circuit_seen Retry_due (clock w + 4200 * millisecond) (svc_breaker (svc w))"
      using W(6) second_times by (simp add: w_def)
    moreover have "store_seen m (svc_store (svc w))" using W(7) by (simp add: store_seen_def m w_def)
    moreover have "unat (sim_calls (svc_dependency (svc w))) + 3 * m \<le> 75" using W(4) by (simp add: m w_def)
    moreover have "slot_view (svc_idempotency (svc w)) now (alpha, k) = Vacant"
      if "clock w + 4200 * millisecond \<le> now" "k \<notin> K" for now k
      using W(5) [of now k] that second_times by (simp add: w_def)
    ultimately show ?thesis using W(1,3) by (simp add: world_seen_def w_def)
  qed
  ultimately show ?thesis unfolding shape replay_site_def m by simp
qed

section \<open>Missed events\<close>

lemma stream_request:
  assumes "r = site_request ''GET'' (''/v1/stream?since='' @ show_nat n) [(''X-API-Key'', ''tenant-alpha-key'')] None"
  shows "rq_endpoint r = Ep_stream" "rq_query r ''since'' = show_nat n" "rq_header r ''X-API-Key'' = ''tenant-alpha-key''"
proof -
  have plain: "CHR ''&'' \<notin> set (show_nat n)" "CHR ''='' \<notin> set (show_nat n)"
    using show_nat_digits [of "CHR ''&''" n] show_nat_digits [of "CHR ''=''" n] by (auto simp: is_digit_def)
  then have "string_split (CHR ''&'') (''since='' @ show_nat n) = [''since='' @ show_nat n]"
    by (intro string_split_plain) simp
  moreover have "string_cut (CHR ''='') (''since'' @ CHR ''='' # show_nat n) = Some (''since'', show_nat n)"
    by (rule string_cut_append) simp
  ultimately show "rq_query r ''since'' = show_nat n"
    by (simp add: assms site_request_def Let_def query_get_def map_filter_simps)
  show "rq_endpoint r = Ep_stream" "rq_header r ''X-API-Key'' = ''tenant-alpha-key''"
    by (simp_all add: assms site_request_def Let_def mux_endpoint_def header_get_def)
qed

lemma stream_replays:
  assumes "tenant_from_context r = t" and "(of_nat (fst (parse_uint (rq_query r ''since''))) :: u64) = n"
    and "evicted_at (svc_store (svc (world l))) t = 0"
  shows "\<exists>ses l'. stream_open None r l = (Inr ses, l') \<and>
    ss_replay ses = filter (\<lambda>ev. ev_tenant ev = t \<and> n < ev_sequence ev) (events (svc_store (svc (world l))))"
  using assms
  by (cases "chan_make 128 (channels_of (svc_store (svc (world l))))")
    (auto simp: stream_open_def service_subscribe_since_def subscribe_since_def Let_def)

lemma site_missed:
  assumes site: "replay_site h c n K s" and log: "log_after o' (ord # os) s"
  shows "\<exists>conn s1 ev s2. web_dial (lab_web base external) (stream_url base (sequence o')) [(''X-API-Key'', ''tenant-alpha-key'')]
      deadline s = (Inr conn, s1) \<and> read_event (lab_web base external) conn deadline s1 = (Inr ev, s2) \<and>
    ev_sequence ev = sequence ord \<and> ev_order_id ev = order_id ord"
proof -
  note S = replay_siteD [OF site]
  let ?r = "site_request ''GET'' (''/v1/stream?since='' @ show_nat (unat (sequence o'))) [(''X-API-Key'', ''tenant-alpha-key'')] None"
  let ?rt = "?r\<lparr>rq_header := (rq_header ?r)(''X-Northstar-Tenant'' := alpha)\<rparr>"
  note r = stream_request [OF refl]
  have since: "of_nat (fst (parse_uint (rq_query ?rt ''since''))) = sequence o'"
  proof -
    have "unat (sequence o') < 2 ^ 64" using unsigned_less [of "sequence o'"] by simp
    from parse_uint_show [OF this] show ?thesis using r(2) by simp
  qed
  have t: "tenant_from_context ?rt = alpha" by (simp add: tenant_from_context_def)
  have fresh: "evicted_at (svc_store (svc (world (st_lab s)))) alpha = 0"
    using world_seenD(7) [OF S(2)] by (simp add: store_seen_def evicted_at_def)
  obtain ses l where ses: "stream_open None ?rt (st_lab s) = (Inr ses, l)"
    "ss_replay ses = map (\<lambda>ord. event_of ord ''order.confirmed'') (ord # os)"
    using stream_replays [OF t since fresh] log by (auto simp: log_after_def)
  have key: "api_keys (st_lab s) (rq_header ?r ''X-API-Key'') = Some alpha"
    using admitsD(3) [OF S(1)] r(3) by (simp add: server_keys_def alpha_def)
  have "\<exists>resp l'. serve external (\<lambda>_. None) ?r (st_lab s) = Some (resp, l')"
    by (rule lab_ok_serve [OF admitsD(1) [OF S(1)]]) blast
  then obtain resp l' where serve: "serve external (\<lambda>_. None) ?r (st_lab s) = Some (resp, l')" by blast
  have "site_session ?r (st_lab s) = Some ses" using key ses(1) by (simp add: site_session_def)
  then have dial: "web_dial (lab_web base external) (stream_url base (sequence o')) [(''X-API-Key'', ''tenant-alpha-key'')] deadline s =
      (Inr 0, s\<lparr>st_lab := l', st_inbox := ss_replay ses, st_sub := ss_id ses\<rparr>)"
    using serve by (simp add: site_dial_def stream_base_def stream_url_def Let_def)
  have "decodable ord" using log by (simp add: log_after_def)
  then have "decode_first event_decoder zero_event (one_value (event_json (event_of ord ''order.confirmed''))) =
      Some (event_of ord ''order.confirmed'')"
    by (rule event_decoded) (simp add: ascii_def)
  then have "fst (read_event (lab_web base external) 0 deadline
      (s\<lparr>st_lab := l', st_inbox := ss_replay ses, st_sub := ss_id ses\<rparr>)) = Inr (event_of ord ''order.confirmed'')"
    by (simp add: read_event_def site_read_def ses(2))
  with dial show ?thesis by (metis event_of_def event.select_convs(1,3) prod.collapse)
qed

lemma site_dated:
  assumes "replay_site h c n K s"
  shows "json_time_ok (web_now (lab_web base external) s)"
  using world_seenD(2) [OF replay_siteD(2) [OF assms]] service_okD(5) [OF replay_siteD(3) [OF assms]]
  by (simp add: json_time_ok_def year_10000_def go_duration_defs)

section \<open>The tool passes\<close>

interpretation lab: order_site "lab_web base external" base site_up replay_site kept_order log_after for base external
  by unfold_locales
    (fact site_reset site_mode site_placed site_repeated site_failed site_refused site_seen site_slept site_missed site_dated)+

text \<open>
  C1. The acceptance tool passes on this server. Take a new lab server in demo mode that has since
  answered any requests whatever, with any pauses. When the tool is then run against it, with a
  schedule that lets all its goroutines finish, it ends with exit code 0 and reports that twelve
  concurrent duplicates gave one order and eleven replays, that the outage gave 503 four times and an
  open circuit and the recovery 201, and that the event after the disconnect was the one expected.
\<close>

theorem replay_passes_on_lab:
  assumes "svc w = new_service (new_memory 500) d (clock w)" and "0 \<le> clock w" and "equal_fold (env ''DEMO_MODE'') ''true''"
    and "\<forall>i. 0 \<le> rands w i \<and> rands w i \<le> 1" and "api_run external accepted rs (new_server env w) = Some (resps, l)"
    and "clock (world l) + 50 * second < year_10000" and "\<forall>i < request_count. 3 \<le> count_list sched i"
  shows "\<exists>oc s' r since expected oid.
    replay_main sched (lab_web (trim_right_slashes url) external) url output \<lparr>st_lab = l, st_inbox = [], st_sub = 0\<rparr> = Some (oc, s') \<and>
    oc_ending oc = Exit 0 \<and> oc_report oc = Some r \<and> rp_target r = trim_right_slashes url \<and> rp_passed r \<and>
    map sr_evidence (rp_scenarios r) =
      [Some (Idempotency_evidence 12 1 11), Some (Recovery_evidence ''open'' [503, 503, 503, 503] 201),
       Some (Websocket_evidence since expected oid expected)]"
proof -
  have ok: "lab_ok (new_server env w)" using assms(1,2) by (rule lab_ok_new)
  moreover have "lab_ok l" using lab_ok_run [OF ok, of external accepted rs] assms(5) by auto
  ultimately have "site_up \<lparr>st_lab = l, st_inbox = [], st_sub = 0\<rparr>"
    using configured_run [OF _ ok assms(5)] configured_new [of w d env] assms(1,3,4,6) by (simp add: site_up_def)
  then show ?thesis by (intro lab.tool_passes [OF _ refl assms(7)]) simp_all
qed

text \<open>A new server that has refused a stolen key, and goroutines that take turns.\<close>

theorem replay_passes_on_lab_witness:
  "\<exists>l oc s' r. api_run (\<lambda>_. rejection) (\<lambda>_. None) [(5, sample_request ''stolen'')] (new_server (\<lambda>_. ''true'') (sample_world mode_slow)) =
       Some ([write_error 401 ''unauthorized'' (Text ''a valid X-API-Key is required'')], l) \<and>
     replay_main ([0..<12] @ [0..<12] @ [0..<12]) (lab_web ''http://localhost:8080'' (\<lambda>_. rejection)) ''http://localhost:8080/'' []
       \<lparr>st_lab = l, st_inbox = [], st_sub = 0\<rparr> = Some (oc, s') \<and> oc_ending oc = Exit 0 \<and> oc_report oc = Some r \<and> rp_passed r"
proof -
  let ?w = "sample_world mode_slow"
  obtain l where run: "api_run (\<lambda>_. rejection) (\<lambda>_. None) [(5, sample_request ''stolen'')] (new_server (\<lambda>_. ''true'') ?w) =
      Some ([write_error 401 ''unauthorized'' (Text ''a valid X-API-Key is required'')], l)" and t: "clock (world l) = 1005"
    by (simp add: serve_def observe_def still_open_def write_error_def write_json_def
        dispatch_def auth_def sample_request_def new_server_def server_keys_def Let_def
        sample_world_facts(2))
  have url: "trim_right_slashes ''http://localhost:8080/'' = ''http://localhost:8080''"
    by (simp add: trim_right_slashes_def)
  have sched: "\<forall>i < request_count. 3 \<le> count_list ([0..<12] @ [0..<12] @ [0..<12]) i"
    by (simp add: request_count_def count_turns)
  have "equal_fold ''true'' ''true''" "\<forall>i. 0 \<le> rands ?w i \<and> rands ?w i \<le> 1" "0 \<le> clock ?w" "clock (world l) + 50 * second < year_10000"
    using t by (simp_all add: equal_fold_def sample_simps year_10000_def second_def)
  from replay_passes_on_lab [OF sample_world_facts(9) this(3) this(1,2) run this(4) sched,
      of "''http://localhost:8080/''" "[]"] run
  show ?thesis unfolding url by blast
qed

end
