(* ===== verification/Spec2Isabelle.thy ===== *)
theory Spec2Isabelle
  imports Integrations Order_Arrives Replay_Passes
begin

text \<open>
  A verification development for the Northstar API Reliability Lab. The repository holds two Go
  servers and their tools. The lab server (\<open>internal/reliability\<close>, \<open>store\<close>, \<open>upstream\<close>, \<open>app\<close>,
  \<open>httpapi\<close>) keeps everything in memory and demonstrates rate limiting, circuit breaking, bounded
  retries, idempotency and gap-free event streams against a simulated dependency. The product
  (\<open>internal/product\<close>) accepts orders over HTTP or as signed Stripe and Shopify webhooks, stores them in
  Postgres, coordinates repeated requests over Redis and delivers signed outbound webhooks with
  leases, retries and dead letters. \<open>cmd/webhook-sink\<close> receives those webhooks in the demo.

  \<^bold>\<open>Shared ground.\<close> \<open>Lab_Prelude\<close>: Go's time, 64-bit integers, errors, association lists. \<open>Float64\<close>: binary64
  rounding, for the limiter's tokens, the retry jitter and \<open>time.ParseDuration\<close>. \<open>Go_Context\<close>: contexts as the
  moment and reason of their end, timers, \<open>select\<close>. \<open>Go_Strings\<close>: decimal printing and parsing, the \<open>strings\<close>
  functions in use, \<open>net.SplitHostPort\<close>. \<open>Go_Json\<close>: the decoding rules of \<open>encoding/json\<close> for the structs of
  the handlers, and the printing of strings. \<open>Go_Time\<close>: RFC 3339 and its parser, calendar included.

  \<^bold>\<open>The lab server.\<close>
  \<^item> \<open>Limiter\<close> (\<open>reliability/limiter.go\<close>): token buckets with the code's binary64 arithmetic. No key is
    admitted more than its quota; \<open>admission\<close> is the contract of one layer, interpreted on the limiter.
  \<^item> \<open>Breaker\<close> (\<open>reliability/breaker.go\<close>): the two critical sections, a step relation that interleaves
    any number of requests, and \<open>Execute\<close> for one of them. At most one probe of the present half-open period
    runs; one of an earlier period survives only a reset. A probe that never reports back blocks the breaker
    until a reset, whatever the other requests report.
  \<^item> \<open>Retry\<close> (\<open>reliability/retry.go\<close>): policy, validation, doubling, jitter, the attempt loop over
    any environment; equal to a declarative reference on scripts of outcomes.
  \<^item> \<open>Idempotency\<close> (\<open>reliability/idempotency.go\<close>): entries as objects in an explicit store, since leaders,
    waiters and the purge share them. One run per key at a time, waiters get the result of the run
    they joined, successes stay until they expire; \<open>once_registry\<close> is the contract.
  \<^item> \<open>Event_Store\<close> (\<open>domain/order.go\<close>, \<open>store/memory.go\<close>): orders, the bounded log, subscriber channels.
    A ghost history shows what a subscriber has to receive: streams have no gap after the oldest event
    retained at their opening (a cursor 0 is never flagged as expired, so it starts there), a cut-off subscriber
    sees its channel closed, and no operation panics on a closed channel.
  \<^item> \<open>Upstream\<close> (\<open>upstream/simulator.go\<close>): the fault modes of the simulated dependency.
  \<^item> \<open>App_Service\<close>, \<open>App_Properties\<close> (\<open>app/service.go\<close>): \<open>CreateOrder\<close> composed of all of these on one
    world with clock, random source and select choices, and what the composition guarantees.
  \<^item> \<open>Http_Api\<close>, \<open>Http_Properties\<close> (\<open>httpapi/server.go\<close>): middleware, handlers and the WebSocket
    session on that service; tenants are isolated, admission is all or nothing over three layers,
    each status means what it says, and the stream of a session has no gap.
  \<^item> \<open>Telemetry\<close> (\<open>telemetry/metrics.go\<close>, \<open>product/metrics.go\<close>): the registered collectors; the series of the lab
    server count exactly what has been served, a stream when its handler returns, in traffic where any number of
    streams stay open; route, outcome, result and mode labels are from fixed sets, the method is the client's.

  \<^bold>\<open>The product.\<close>
  \<^item> \<open>Product_Model\<close> (\<open>product/model.go\<close>), \<open>Signatures\<close> (\<open>product/signatures.go\<close>), \<open>Integrations\<close>
    (\<open>product/integrations.go\<close>): data, HMAC signatures with hexadecimal and base64 coding, both parsers.
  \<^item> \<open>Repository\<close>, \<open>Repository_Properties\<close> (\<open>product/postgres.go\<close> with the schema of \<open>migrations\<close>): tables as
    lists of rows, each SQL statement a function on them. A call may fail, lose its answer or be
    preceded by any steps of other clients (\<open>p_faults\<close>, \<open>p_others\<close> of the world); the theorems hold for every
    such environment that keeps \<open>db_rely\<close>. \<open>call_relation\<close> and \<open>table_relation\<close> carry a relation kept by every
    statement to every operation.
  \<^item> \<open>Contracts\<close> (\<open>product/contracts.go\<close>): the interfaces \<open>order_repository\<close> and
    \<open>idempotency_coordinator\<close> as locales; the coordinated creation is proved correct once inside them.
  \<^item> \<open>Coordinator\<close>, \<open>Coordinator_Properties\<close> (\<open>product/coordinator.go\<close>): Redis with expiry times, the
    lock, the cached result and the polling loop; the interpretations of both contracts.
  \<^item> \<open>Product_Service\<close> (\<open>product/service.go\<close>): its answers come from the rows of the database also when
    Redis fails.
  \<^item> \<open>Webhook_Worker\<close>, \<open>Webhook_Properties\<close> (\<open>product/webhook.go\<close>): claiming, sending, settling; the
    goroutines of a batch under an explicit schedule; the state machine of a delivery.
  \<^item> \<open>Product_Server\<close>, \<open>Product_Server_Properties\<close> (\<open>product/server.go\<close>) and \<open>Product_Config\<close>
    (\<open>product/config.go\<close>): authentication, handlers, settings.
  \<^item> \<open>Webhook_Sink\<close> (\<open>cmd/webhook-sink/main.go\<close>): the receiver with its atomic failure counter.
  \<^item> \<open>Webhook_Demo\<close>: worker and receiver composed, step by step. Every webhook arrives exactly once although
    the receiver refuses the first requests; the invariant says between two steps that each failure was a planned one.
    Rounds take and wait as long as they like; the deadline is a minute and two rounds for each refusal, as the backoff
    of a delivery is at most a minute.

  \<^bold>\<open>The processes.\<close> \<open>Entry_Points\<close> (\<open>cmd/server/main.go\<close>, \<open>cmd/product-server/main.go\<close>): from the environment to the
  running parts, and how a process ends. What the product's \<open>main\<close> wires together fits together; the
  server of the lab is the one that its theorems start from. \<open>Order_Arrives\<close>: what a creation leaves in the outbox,
  followed through coordination, transaction and both loops, and the theorem that an order answered with 201
  reaches the receiver as exactly one webhook.

  \<^bold>\<open>The replay tool\<close> (\<open>cmd/replay/main.go\<close>), which tests a running lab server.
  \<^item> \<open>Replay\<close>: the three scenarios, the report and the exit code, over a \<open>web\<close> of operations for everything
    outside the tool; the goroutines of the first scenario follow a schedule.
  \<^item> \<open>Replay_Properties\<close>: the verdict does not depend on the schedule. \<open>order_site\<close> states what the tool
    expects of a server, law by law; the tool passes against every server that keeps the laws.
  \<^item> \<open>Lab_Site\<close>: the lab server as such a web, with routing, headers, JSON bodies and the stream.
  \<^item> \<open>Replay_Lab\<close>, \<open>Replay_Passes\<close>: the laws hold of the model of the server, through limiters,
    registry, breaker, dependency, store and JSON. So the tool passes on it, whatever it did before:
    the theorem that ties both programs together.

  \<^bold>\<open>Conventions.\<close> A record field is a field of the Go struct under its name (suffixed where it would
  clash); a mutex section is one operation; where goroutines meet, an inductive step relation or a
  schedule given as input interleaves the sections. Errors are values of a sum type, panics are
  values or flags. Maps of the code whose iteration order does not matter are association
  lists with distinct keys. \<open>go test\<close> files are not modelled.

  \<^bold>\<open>Bounds and fuel.\<close> Recursion is structural but for the loops of the environment: \<open>coordination_loop\<close> has
  fuel, one unit per polling round, and \<open>coordinator_returns\<close> shows that as many units as polling
  intervals fit before the deadline are enough; the product's servers inherit that fuel. \<open>run_tasks\<close>,
  \<open>run_sink\<close> and \<open>stream_session\<close> consume a finite schedule or input; \<open>batch_settles_all\<close> shows what fair
  schedules achieve, and a schedule of the replay tool is fair when every goroutine has its three steps.
  \<open>worker_run\<close> and \<open>demo_run\<close> are endless loops, modelled by their rounds with the time waited after each:
  \<open>webhooks_reach_sink\<close> and \<open>order_arrives\<close> say what holds after any number of them, and what once the clock has passed
  \<open>delivery_deadline\<close>; their witnesses run 800 rounds of the shipped 250 milliseconds. \<open>retry_loop\<close> counts down the attempts of the policy.

  \<^bold>\<open>Parameters.\<close> Code outside \<open>src\<close> is an argument: SHA-256, HMAC-SHA256, the JSON scanner from bytes to
  values, \<open>url.ParseRequestURI\<close>, random bytes, the HTTP client together with the receivers, the failures
  and other clients of Postgres and Redis. Hypotheses about them are named where a theorem needs
  them, for instance that a reader inverts a printer or that two requests do not collide under the digest.

  \<^bold>\<open>Not modelled.\<close> Listeners, signals and the draining of connections at shutdown (the entry points take what they
  report as input), the Prometheus client behind the counters, \<open>reliability/clock.go\<close> (an
  interface over \<open>time.Now\<close>, which is an input here), logging.
\<close>

end
